(* ===== verification/Kanagawa_Prelude.thy ===== *)
theory Kanagawa_Prelude
  imports Main "HOL-Library.Word" "HOL-Library.Monad_Syntax"
begin

text \<open>
  Shared vocabulary of the development: the exception discipline of the compiler
  (\<^verbatim>\<open>KanagawaAssert\<close>, \<^verbatim>\<open>RuntimeErrorWithTrace\<close>) as the \<open>option\<close> monad, the loops of the
  C++ sources as folds over index ranges, \<^verbatim>\<open>std::map\<close> as an association list sorted by key,
  and the checked container helpers of \<^verbatim>\<open>compiler/cpp/pch.h\<close>.
\<close>

unbundle bit_operations_syntax

named_theorems kng_bits \<open>bits of words and numbers that loops assemble\<close>
named_theorems kng_map \<open>lookups in the sorted association lists that model std::map\<close>

subsection \<open>Exceptions\<close>

text \<open>
  \<open>None\<close> is "the C++ function throws". \<open>assert_that\<close> is the compiler's \<^verbatim>\<open>assert\<close>, which
  \<^verbatim>\<open>ship_assert.h\<close> turns into a throwing call in every build.
\<close>

definition assert_that :: "bool \<Rightarrow> unit option" where
  "assert_that b = (if b then Some () else None)"

lemma assert_that_True [simp]: "assert_that True = Some ()"
  by (simp add: assert_that_def)

lemma assert_that_False [simp]: "assert_that False = None"
  by (simp add: assert_that_def)

lemma assert_that_eq [simp]: "assert_that b = Some u \<longleftrightarrow> b" "assert_that b = None \<longleftrightarrow> \<not> b"
  by (simp_all add: assert_that_def)

lemma bind_assert_eq_Some [simp]:
  "(assert_that b \<bind> f) = Some y \<longleftrightarrow> b \<and> f () = Some y"
  by (cases b) simp_all

lemma bind_assert_if: "(assert_that b \<bind> f) = (if b then f () else None)"
  by (cases b) simp_all

text \<open>A loop whose body may throw.\<close>

fun fold_opt :: "('a \<Rightarrow> 's \<Rightarrow> 's option) \<Rightarrow> 'a list \<Rightarrow> 's \<Rightarrow> 's option" where
  "fold_opt f [] s = Some s"
| "fold_opt f (x # xs) s = (f x s \<bind> fold_opt f xs)"

lemma fold_opt_append [simp]:
  "fold_opt f (xs @ ys) s = (fold_opt f xs s \<bind> fold_opt f ys)"
  by (induction xs arbitrary: s) (auto split: bind_split)

text \<open>The rule for such loops: an invariant kept by every iteration that does not throw.\<close>

lemma fold_opt_invariant:
  assumes "fold_opt f xs s = Some t" and "I s"
    and "\<And>x s s'. x \<in> set xs \<Longrightarrow> I s \<Longrightarrow> f x s = Some s' \<Longrightarrow> I s'"
  shows "I t"
  using assms
proof (induction xs arbitrary: s)
  case (Cons x xs)
  from Cons.prems(1) obtain s' where step: "f x s = Some s'" and rest: "fold_opt f xs s' = Some t"
    by (auto split: bind_splits)
  from step Cons.prems(2,3) have "I s'" by auto
  with rest show ?case
    using Cons.IH Cons.prems(3) by auto
qed simp

text \<open>Total correctness of such loops.\<close>

lemma fold_opt_total:
  assumes "I s" "\<And>x s. x \<in> set xs \<Longrightarrow> I s \<Longrightarrow> \<exists>s'. f x s = Some s' \<and> I s'"
  shows "\<exists>t. fold_opt f xs s = Some t \<and> I t"
  using assms
proof (induction xs arbitrary: s)
  case (Cons x xs)
  from Cons.prems(2)[of x s] Cons.prems(1) obtain s' where "f x s = Some s'" "I s'" by auto
  with Cons.IH[of s'] Cons.prems(2) show ?case by auto
qed simp

text \<open>A loop that writes each element to a place of its own.\<close>

lemma fold_opt_place:
  assumes "\<And>x l. x \<in> set xs \<Longrightarrow> length l = N \<Longrightarrow> g x l = Some (l[ix x := f x])"
    and "\<forall>x \<in> set xs. ix x < N" "distinct (map ix xs)" "length l = N"
  shows "\<exists>ss. fold_opt g xs l = Some ss \<and> length ss = N \<and> (\<forall>x \<in> set xs. ss ! ix x = f x) \<and>
    (\<forall>i < N. i \<notin> ix ` set xs \<longrightarrow> ss ! i = l ! i)"
  using assms
proof (induction xs arbitrary: l)
  case (Cons x xs)
  have "\<exists>ss. fold_opt g xs (l[ix x := f x]) = Some ss \<and> length ss = N \<and>
      (\<forall>x \<in> set xs. ss ! ix x = f x) \<and>
      (\<forall>i < N. i \<notin> ix ` set xs \<longrightarrow> ss ! i = (l[ix x := f x]) ! i)"
    using Cons.prems by (intro Cons.IH) auto
  then show ?case
    using Cons.prems by (auto simp: nth_list_update)
qed simp

fun map_opt :: "('a \<Rightarrow> 'b option) \<Rightarrow> 'a list \<Rightarrow> 'b list option" where
  "map_opt f [] = Some []"
| "map_opt f (x # xs) = do { y \<leftarrow> f x; ys \<leftarrow> map_opt f xs; Some (y # ys) }"

lemma map_opt_length: "map_opt f xs = Some ys \<Longrightarrow> length ys = length xs"
  by (induction xs arbitrary: ys) (auto split: bind_splits)

lemma map_opt_nth:
  "map_opt f xs = Some ys \<Longrightarrow> i < length xs \<Longrightarrow> f (xs ! i) = Some (ys ! i)"
  by (induction xs arbitrary: ys i) (auto split: bind_splits simp: nth_Cons split: nat.splits)

lemma map_opt_total:
  "(\<And>x. x \<in> set xs \<Longrightarrow> f x = Some (g x)) \<Longrightarrow> map_opt f xs = Some (map g xs)"
  by (induction xs) auto

lemma map_opt_exists:
  assumes "\<And>x. x \<in> set xs \<Longrightarrow> \<exists>y. f x = Some y \<and> P x y"
  shows "\<exists>ys. map_opt f xs = Some ys \<and> list_all2 P xs ys"
  using assms
proof (induction xs)
  case (Cons x xs)
  from Cons.prems[of x] Cons.IH Cons.prems show ?case by fastforce
qed simp

subsection \<open>Updates of one element\<close>

lemma length_filter_update:
  assumes "i < length xs"
  shows "length (filter P (xs[i := w])) + of_bool (P (xs ! i)) = length (filter P xs) + of_bool (P w)"
  using assms
proof (induction xs arbitrary: i)
  case (Cons x xs)
  then show ?case by (cases i) auto
qed simp

lemma sum_list_map_update:
  fixes f :: "'a \<Rightarrow> nat"
  assumes "i < length xs"
  shows "sum_list (map f (xs[i := w])) + f (xs ! i) = sum_list (map f xs) + f w"
  using assms
proof (induction xs arbitrary: i)
  case (Cons x xs)
  then show ?case by (cases i) fastforce+
qed simp

subsection \<open>Numbers assembled bit by bit\<close>

text \<open>
  The idiom \<^verbatim>\<open>for (i = 0; i < n; i++) acc |= (bit(i) << i);\<close> on a word, a size or a
  multi-precision integer.
\<close>

definition or_bits :: "nat \<Rightarrow> (nat \<Rightarrow> bool) \<Rightarrow> 'a::semiring_bit_operations" where
  "or_bits n f = fold (\<lambda>i acc. acc OR push_bit i (of_bool (f i))) [0..<n] 0"

lemma bit_or_bits_gen:
  "bit (or_bits n f :: 'a::semiring_bit_operations) i \<longleftrightarrow>
     possible_bit TYPE('a) i \<and> i < n \<and> f i"
proof (induction n)
  case 0
  then show ?case by (simp add: or_bits_def)
next
  case (Suc n)
  have "or_bits (Suc n) f = (or_bits n f :: 'a) OR push_bit n (of_bool (f n))"
    by (simp add: or_bits_def)
  with Suc show ?case
    by (auto simp: bit_or_iff bit_push_bit_iff less_Suc_eq bit_1_iff dest: bit_imp_possible_bit)
qed

lemma bit_or_bits_nat [kng_bits, simp]: "bit (or_bits n f :: nat) i \<longleftrightarrow> i < n \<and> f i"
  by (simp add: bit_or_bits_gen)

lemma bit_or_bits_int [kng_bits, simp]: "bit (or_bits n f :: int) i \<longleftrightarrow> i < n \<and> f i"
  by (simp add: bit_or_bits_gen)

lemma bit_or_bits_word [kng_bits, simp]:
  "bit (or_bits n f :: 'a::len word) i \<longleftrightarrow> i < LENGTH('a) \<and> i < n \<and> f i"
  by (auto simp: bit_or_bits_gen)

lemma or_bits_less [simp]: "(or_bits n f :: nat) < 2 ^ n"
proof -
  have "take_bit n (or_bits n f) = (or_bits n f :: nat)"
    by (rule bit_eqI) (simp add: bit_take_bit_iff)
  then show ?thesis
    by (metis take_bit_nat_less_exp)
qed

lemma or_bits_nonneg [simp]: "0 \<le> (or_bits n f :: int)"
proof -
  have "take_bit n (or_bits n f) = (or_bits n f :: int)"
    by (rule bit_eqI) (simp add: bit_take_bit_iff)
  moreover have "0 \<le> take_bit n (or_bits n f :: int)" by simp
  ultimately show ?thesis by (simp only:)
qed

lemma or_bits_cong:
  assumes "n = m" and "\<And>i. i < m \<Longrightarrow> f i = g i"
  shows "(or_bits n f :: 'a::semiring_bit_operations) = or_bits m g"
  using assms by (auto intro!: bit_eqI simp: bit_or_bits_gen)

lemma or_bits_bit_nat: "(or_bits n (bit (r::nat)) :: nat) = take_bit n r"
  by (rule bit_eqI) (simp add: bit_take_bit_iff)

text \<open>A number below \<open>2^n\<close> is what its own bits assemble.\<close>

lemma or_bits_bit_less: "r < 2 ^ n \<Longrightarrow> (or_bits n (bit (r::nat)) :: nat) = r"
  by (simp add: or_bits_bit_nat take_bit_nat_eq_self)

lemma nat_bit_eq_less:
  fixes a b :: nat
  assumes "a < 2 ^ n" "b < 2 ^ n" and "\<And>i. i < n \<Longrightarrow> bit a i = bit b i"
  shows "a = b"
proof -
  have "take_bit n a = take_bit n b"
    using assms(3) by (auto intro!: bit_eqI simp: bit_take_bit_iff)
  then show ?thesis
    using assms(1,2) by (simp add: take_bit_nat_eq_self)
qed

lemma bit_nat_less_exp:
  fixes r :: nat
  assumes "r < 2 ^ n" "bit r i"
  shows "i < n"
proof (rule ccontr)
  assume "\<not> i < n"
  then have "\<not> bit (take_bit n r) i"
    by (simp add: bit_take_bit_iff)
  with assms show False by (simp add: take_bit_nat_eq_self)
qed

text \<open>The C++ test \<^verbatim>\<open>(x >> i) & 1\<close>.\<close>

definition bit_at :: "'a::semiring_bit_operations \<Rightarrow> nat \<Rightarrow> bool" where
  "bit_at x i \<longleftrightarrow> drop_bit i x AND 1 = 1"

lemma bit_at_bit [simp]: "bit_at (x :: 'a::semiring_bit_operations) i = bit x i"
  unfolding bit_at_def by (simp add: and_one_eq bit_iff_odd_drop_bit odd_iff_mod_2_eq_one)

subsection \<open>std::map as a sorted association list\<close>

type_synonym ('k, 'v) smap = "('k \<times> 'v) list"

fun map_insert :: "'k::linorder \<Rightarrow> 'v \<Rightarrow> ('k, 'v) smap \<Rightarrow> ('k, 'v) smap" where
  "map_insert k v [] = [(k, v)]"
| "map_insert k v ((k', v') # m) =
     (if k < k' then (k, v) # (k', v') # m
      else if k = k' then (k, v) # m
      else (k', v') # map_insert k v m)"

definition smap_ok :: "('k::linorder, 'v) smap \<Rightarrow> bool" where
  "smap_ok m \<longleftrightarrow> sorted_wrt (<) (map fst m)"

lemma map_of_map_insert [simp, kng_map]:
  "map_of (map_insert k v m) = (map_of m)(k \<mapsto> v)"
  by (induction k v m rule: map_insert.induct) auto

lemma fst_set_map_insert [simp]:
  "fst ` set (map_insert k v m) = insert k (fst ` set m)"
  by (induction k v m rule: map_insert.induct) auto

lemma smap_ok_Nil [simp]: "smap_ok []"
  by (simp add: smap_ok_def)

lemma smap_ok_map_insert [simp]: "smap_ok m \<Longrightarrow> smap_ok (map_insert k v m)"
proof (induction k v m rule: map_insert.induct)
  case (2 k v k' v' m)
  then show ?case
    by (auto simp: smap_ok_def)
qed (simp add: smap_ok_def)

lemma smap_ok_distinct: "smap_ok m \<Longrightarrow> distinct (map fst m)"
  unfolding smap_ok_def using strict_sorted_iff by blast

lemma map_insert_last: "\<forall>k' \<in> fst ` set m. k' < k \<Longrightarrow> map_insert k v m = m @ [(k, v)]"
  by (induction k v m rule: map_insert.induct) auto

lemma length_map_insert_new:
  "k \<notin> fst ` set m \<Longrightarrow> length (map_insert k v m) = Suc (length m)"
  by (induction k v m rule: map_insert.induct) auto

subsection \<open>The container helpers of pch.h\<close>

definition SafeLookup :: "('k, 'v) smap \<Rightarrow> 'k \<Rightarrow> 'v option" where
  "SafeLookup m k = map_of m k"

definition LookupWithDefault :: "('k, 'v) smap \<Rightarrow> 'k \<Rightarrow> 'v \<Rightarrow> 'v" where
  "LookupWithDefault m k d = (case map_of m k of None \<Rightarrow> d | Some v \<Rightarrow> v)"

definition SafeInsert :: "('k::linorder, 'v) smap \<Rightarrow> 'k \<Rightarrow> 'v \<Rightarrow> ('k, 'v) smap option" where
  "SafeInsert m k v = (case map_of m k of None \<Rightarrow> Some (map_insert k v m) | Some _ \<Rightarrow> None)"

definition SafeInsertSet :: "'a set \<Rightarrow> 'a \<Rightarrow> 'a set option" where
  "SafeInsertSet s x = (if x \<in> s then None else Some (insert x s))"

definition SafeInsertIdempotent ::
  "('k::linorder, 'v) smap \<Rightarrow> 'k \<Rightarrow> 'v \<Rightarrow> ('k, 'v) smap option" where
  "SafeInsertIdempotent m k v =
     (case map_of m k of
        None \<Rightarrow> Some (map_insert k v m)
      | Some previousValue \<Rightarrow> if previousValue \<noteq> v then None else Some m)"

definition VectorEraseByIndex :: "'a list \<Rightarrow> nat \<Rightarrow> 'a list option" where
  "VectorEraseByIndex vec index =
     (if index < length vec then Some (take index vec @ drop (Suc index) vec) else None)"

text \<open>\<^verbatim>\<open>mapIn[key]\<close> default-constructs a missing value, here given as \<open>d\<close>.\<close>

definition InsertAndCheckForChange ::
  "'v \<Rightarrow> ('k::linorder, 'v) smap \<Rightarrow> 'k \<Rightarrow> 'v \<Rightarrow> ('k, 'v) smap \<times> bool" where
  "InsertAndCheckForChange d m k v =
     (let previous = LookupWithDefault m k d
      in if previous \<noteq> v then (map_insert k v m, True)
         else (map_insert k previous m, False))"

definition Intersection :: "'a set \<Rightarrow> 'a set \<Rightarrow> 'a set" where
  "Intersection lhs rhs = {val \<in> lhs. val \<in> rhs}"

definition Union_into :: "'a set \<Rightarrow> 'a set \<Rightarrow> 'a set" where
  "Union_into result src = result \<union> src"

definition SetToIndexedMap :: "'a::linorder list \<Rightarrow> ('a, nat) smap" where
  "SetToIndexedMap s = fst (fold (\<lambda>value (result, i). (map_insert value i result, Suc i)) s ([], 0))"

lemma SafeInsert_Some:
  "SafeInsert m k v = Some m' \<longleftrightarrow> map_of m k = None \<and> m' = map_insert k v m"
  by (auto simp: SafeInsert_def split: option.splits)

lemma SafeInsertIdempotent_Some:
  "SafeInsertIdempotent m k v = Some m' \<longleftrightarrow>
     (map_of m k = None \<and> m' = map_insert k v m) \<or> (map_of m k = Some v \<and> m' = m)"
  by (auto simp: SafeInsertIdempotent_def split: option.splits)

lemma map_of_InsertAndCheckForChange:
  "map_of (fst (InsertAndCheckForChange d m k v)) = (map_of m)(k \<mapsto> v)"
  by (auto simp: InsertAndCheckForChange_def Let_def LookupWithDefault_def split: option.splits)

lemma InsertAndCheckForChange_changed:
  "snd (InsertAndCheckForChange d m k v) \<longleftrightarrow> LookupWithDefault m k d \<noteq> v"
  by (simp add: InsertAndCheckForChange_def Let_def)

lemma Intersection_eq [simp]: "Intersection a b = a \<inter> b"
  by (auto simp: Intersection_def)

lemma Union_into_eq [simp]: "Union_into a b = a \<union> b"
  by (simp add: Union_into_def)

end
