(* ===== verification/Literals.thy ===== *)
theory Literals
  imports Kanagawa_Prelude "HOL-Library.Signed_Division"
begin

text \<open>
  Compile-time arithmetic on literals: \<^verbatim>\<open>struct Literal\<close> and \<^verbatim>\<open>mp_int\<close> helpers of
  \<^verbatim>\<open>pch.h\<close> and \<^verbatim>\<open>ir.h\<close>/\<^verbatim>\<open>ir.cpp\<close>, and \<^verbatim>\<open>Widen\<close>, \<^verbatim>\<open>Truncate\<close>, \<^verbatim>\<open>Resize\<close>,
  \<^verbatim>\<open>AbsLiteral\<close>, \<^verbatim>\<open>ImplementUnaryOp\<close> and \<^verbatim>\<open>ImplementBinaryOp\<close> of \<^verbatim>\<open>parse_tree.cpp\<close>.
  The arbitrary-precision \<^verbatim>\<open>mp_int\<close> is \<open>int\<close>, whose bitwise operations are those of an
  infinite two's complement number, as Boost's are for the masks the code uses; \<^verbatim>\<open>size_t\<close>
  is \<open>nat\<close>, with the wrap-around at \<open>2^64\<close> written out where a sum can reach it.

  \<^verbatim>\<open>bit_test\<close> and \<^verbatim>\<open>bit_set\<close> assert that a bit index fits 32 bits. The definitions take the
  predicate these two assert: \<open>mp_index\<close> in the compiler, \<open>any_index\<close> for the value of an
  operation in hardware, which has no such limit.
\<close>

subsection \<open>Numbers\<close>

definition size_t_max :: nat where
  "size_t_max = 2 ^ 64 - 1"

text \<open>The arguments are values of unsigned literals, so never negative.\<close>

definition MpToSizeT :: "int \<Rightarrow> nat option" where
  "MpToSizeT input = (if input > int size_t_max then None else Some (nat input))"

text \<open>\<open>msb\<close> is Boost's index of the most significant set bit; it throws on numbers \<open>\<le> 0\<close>.\<close>

fun msb_nat :: "nat \<Rightarrow> nat" where
  "msb_nat n = (if n \<le> 1 then 0 else Suc (msb_nat (n div 2)))"

declare msb_nat.simps [simp del]

definition msb :: "int \<Rightarrow> nat option" where
  "msb input = (if input \<le> 0 then None else Some (msb_nat (nat input)))"

definition GetMpWidth :: "int \<Rightarrow> nat option" where
  "GetMpWidth input = (if input = 0 then Some 1 else do { m \<leftarrow> msb input; Some (m + 1) })"

definition MpSlice :: "int \<Rightarrow> nat \<Rightarrow> nat \<Rightarrow> int" where
  "MpSlice t offset width = (let mask = push_bit width 1 - 1 in drop_bit offset t AND mask)"

definition IsPow2 :: "int \<Rightarrow> bool" where
  "IsPow2 input \<longleftrightarrow> input > 0 \<and> input AND (input - 1) = 0"

definition Log2RoundUp :: "int \<Rightarrow> nat option" where
  "Log2RoundUp input = do {
     highestBitIndex \<leftarrow> msb input;
     Some (if IsPow2 input then highestBitIndex else highestBitIndex + 1) }"

definition RoundUpToPow2 :: "int \<Rightarrow> int option" where
  "RoundUpToPow2 input = do { k \<leftarrow> Log2RoundUp input; Some (set_bit k 0) }"

definition Log2 :: "int \<Rightarrow> nat option" where
  "Log2 input = do { _ \<leftarrow> assert_that (IsPow2 input); msb input }"

subsection \<open>Literals and their conversions\<close>

record Literal =
  l_value :: int
  l_width :: nat

definition mp_index :: "nat \<Rightarrow> bool" where
  "mp_index bitIndex \<longleftrightarrow> int bitIndex \<le> 2 ^ 32 - 1"

definition any_index :: "nat \<Rightarrow> bool" where
  [simp]: "any_index bitIndex \<longleftrightarrow> True"

definition bit_test :: "(nat \<Rightarrow> bool) \<Rightarrow> int \<Rightarrow> nat \<Rightarrow> bool option" where
  "bit_test index_ok input bitIndex = do { _ \<leftarrow> assert_that (index_ok bitIndex); Some (bit input bitIndex) }"

definition bit_set :: "(nat \<Rightarrow> bool) \<Rightarrow> int \<Rightarrow> nat \<Rightarrow> int option" where
  "bit_set index_ok val bitIndex = do { _ \<leftarrow> assert_that (index_ok bitIndex); Some (set_bit bitIndex val) }"

definition Widen :: "(nat \<Rightarrow> bool) \<Rightarrow> Literal \<Rightarrow> bool \<Rightarrow> nat \<Rightarrow> int option" where
  "Widen index_ok srcIn signExtend dstWidth = do {
     _ \<leftarrow> assert_that (l_width srcIn > 0);
     negative \<leftarrow> (if signExtend then bit_test index_ok (l_value srcIn) (l_width srcIn - 1) else Some False);
     if negative then fold_opt (\<lambda>i result. bit_set index_ok result i) [l_width srcIn..<dstWidth] (l_value srcIn)
     else Some (l_value srcIn) }"

definition Truncate :: "int \<Rightarrow> nat \<Rightarrow> int" where
  "Truncate src numBits = (let mask = push_bit numBits 1 - 1 in src AND mask)"

definition Resize :: "(nat \<Rightarrow> bool) \<Rightarrow> Literal \<Rightarrow> bool \<Rightarrow> nat \<Rightarrow> int option" where
  "Resize index_ok srcIn signExtend dstWidth = do {
     w \<leftarrow> Widen index_ok srcIn signExtend dstWidth;
     Some (Truncate w dstWidth) }"

datatype ParseTreeUnaryOpType = Invert | Negate | LogicalInvert

datatype ParseTreeBinaryOpType =
    Add | Sub | Mul | LutMul | Div | Mod
  | And | LogicalAnd | Or | LogicalOr | Xor | LogicalXor
  | Shl | Shr | EQ | NE | GT | GE | LT | LE

definition ImplementUnaryOp ::
  "(nat \<Rightarrow> bool) \<Rightarrow> Literal \<Rightarrow> bool \<Rightarrow> ParseTreeUnaryOpType \<Rightarrow> nat \<Rightarrow> int option" where
  "ImplementUnaryOp index_ok srcIn signExtendSrc type dstWidth =
     (let intermediateWidth = max (l_width srcIn) dstWidth + 1
      in do {
        src \<leftarrow> Widen index_ok srcIn signExtendSrc intermediateWidth;
        flipped \<leftarrow> fold_opt (\<lambda>i result. do {
            b \<leftarrow> bit_test index_ok src i;
            if \<not> b then bit_set index_ok result i else Some result }) [0..<intermediateWidth] 0;
        let result = (case type of
            Invert \<Rightarrow> flipped
          | LogicalInvert \<Rightarrow> flipped
          | Negate \<Rightarrow> flipped + 1);
        Some (Truncate result dstWidth) })"

definition AbsLiteral :: "(nat \<Rightarrow> bool) \<Rightarrow> Literal \<Rightarrow> int option" where
  "AbsLiteral index_ok src = do {
     negative \<leftarrow> bit_test index_ok (l_value src) (l_width src - 1);
     if negative then ImplementUnaryOp index_ok src True Negate (l_width src + 1)
     else Some (l_value src) }"

subsection \<open>ImplementBinaryOp\<close>

text \<open>The first \<^verbatim>\<open>switch\<close>: how far the sources are widened. The sum for \<open>Shr\<close> is a
  \<^verbatim>\<open>size_t\<close> and wraps.\<close>

definition RequiredSourceWidth ::
  "Literal \<Rightarrow> Literal \<Rightarrow> nat \<Rightarrow> ParseTreeBinaryOpType \<Rightarrow> nat option" where
  "RequiredSourceWidth src0In src1In dstWidth type =
     (if type = Shr
      then do { s \<leftarrow> MpToSizeT (l_value src1In); Some ((dstWidth + s) mod 2 ^ 64) }
      else if type \<in> {EQ, NE, GT, GE, LT, LE}
      then Some (max (l_width src0In) (l_width src1In))
      else Some dstWidth)"

text \<open>The four ordered comparisons look at the signs before the magnitudes.\<close>

definition CompareSigned ::
  "bool \<Rightarrow> bool \<Rightarrow> bool \<Rightarrow> bool \<Rightarrow> bool \<Rightarrow> int" where
  "CompareSigned src0Positive src1Positive bothPositive src0Above bothNegative =
     (if src0Positive \<and> src1Positive then of_bool bothPositive
      else if src0Positive \<and> \<not> src1Positive then of_bool src0Above
      else if \<not> src0Positive \<and> src1Positive then of_bool (\<not> src0Above)
      else (if bothNegative then 0 else 1))"

text \<open>The second \<^verbatim>\<open>switch\<close>, on the widened sources. Division of \<^verbatim>\<open>mp_int\<close> truncates.\<close>

definition BinaryOpResult ::
  "(nat \<Rightarrow> bool) \<Rightarrow> Literal \<Rightarrow> Literal \<Rightarrow> nat \<Rightarrow> int \<Rightarrow> int \<Rightarrow> bool \<Rightarrow> bool \<Rightarrow> ParseTreeBinaryOpType \<Rightarrow> int option"
where
  "BinaryOpResult index_ok src0In src1In dstWidth src0 src1 src0Positive src1Positive type =
     (case type of
        Add \<Rightarrow> Some (src0 + src1)
      | Mul \<Rightarrow> Some (src0 * src1)
      | LutMul \<Rightarrow> Some (src0 * src1)
      | Div \<Rightarrow> do {
          _ \<leftarrow> assert_that (l_value src1In \<noteq> 0);
          if src0Positive then Some (src0 sdiv src1)
          else do {
            a \<leftarrow> AbsLiteral index_ok src0In;
            ImplementUnaryOp index_ok \<lparr>l_value = a sdiv src1, l_width = l_width src0In + 1\<rparr>
              False Negate dstWidth } }
      | Mod \<Rightarrow> do {
          _ \<leftarrow> assert_that (l_value src1In \<noteq> 0);
          if src0Positive then Some (src0 smod src1)
          else do {
            a \<leftarrow> AbsLiteral index_ok src0In;
            ImplementUnaryOp index_ok \<lparr>l_value = a smod src1, l_width = l_width src1In\<rparr>
              False Negate dstWidth } }
      | Sub \<Rightarrow> Some (src0 - src1)
      | And \<Rightarrow> Some (src0 AND src1)
      | LogicalAnd \<Rightarrow> Some (src0 AND src1)
      | Or \<Rightarrow> Some (src0 OR src1)
      | LogicalOr \<Rightarrow> Some (src0 OR src1)
      | Xor \<Rightarrow> Some (src0 XOR src1)
      | LogicalXor \<Rightarrow> Some (src0 XOR src1)
      | Shl \<Rightarrow> do {
          _ \<leftarrow> assert_that src1Positive;
          s \<leftarrow> MpToSizeT src1;
          Some (push_bit s src0) }
      | Shr \<Rightarrow> do {
          _ \<leftarrow> assert_that src1Positive;
          s \<leftarrow> MpToSizeT src1;
          Some (drop_bit s src0) }
      | EQ \<Rightarrow> Some (of_bool (src0 = src1))
      | NE \<Rightarrow> Some (of_bool (src0 \<noteq> src1))
      | GT \<Rightarrow> Some (CompareSigned src0Positive src1Positive (src0 > src1) True (src0 \<le> src1))
      | GE \<Rightarrow> Some (CompareSigned src0Positive src1Positive (src0 \<ge> src1) True (src0 < src1))
      | LT \<Rightarrow> Some (CompareSigned src0Positive src1Positive (src0 < src1) False (src0 \<ge> src1))
      | LE \<Rightarrow> Some (CompareSigned src0Positive src1Positive (src0 \<le> src1) False (src0 > src1)))"

definition ImplementBinaryOp ::
  "(nat \<Rightarrow> bool) \<Rightarrow> Literal \<Rightarrow> Literal \<Rightarrow> nat \<Rightarrow> bool \<Rightarrow> bool \<Rightarrow> ParseTreeBinaryOpType \<Rightarrow> int option" where
  "ImplementBinaryOp index_ok src0In src1In dstWidth signExtendSource0 signExtendSource1 type = do {
     _ \<leftarrow> assert_that (l_width src0In > 0);
     _ \<leftarrow> assert_that (l_width src1In > 0);
     _ \<leftarrow> assert_that (dstWidth > 0);
     requiredSourceWidth \<leftarrow> RequiredSourceWidth src0In src1In dstWidth type;
     src0 \<leftarrow> Widen index_ok src0In signExtendSource0 requiredSourceWidth;
     src1 \<leftarrow> Widen index_ok src1In signExtendSource1 requiredSourceWidth;
     src0Positive \<leftarrow> (if signExtendSource0
       then map_option Not (bit_test index_ok (l_value src0In) (l_width src0In - 1)) else Some True);
     src1Positive \<leftarrow> (if signExtendSource1
       then map_option Not (bit_test index_ok (l_value src1In) (l_width src1In - 1)) else Some True);
     result \<leftarrow> BinaryOpResult index_ok src0In src1In dstWidth src0 src1 src0Positive src1Positive type;
     Some (Truncate result dstWidth) }"

subsection \<open>What a literal denotes\<close>

definition lit_ok :: "Literal \<Rightarrow> bool" where
  "lit_ok l \<longleftrightarrow> 0 < l_width l \<and> 0 \<le> l_value l \<and> l_value l < 2 ^ l_width l"

definition lit_int :: "bool \<Rightarrow> Literal \<Rightarrow> int" where
  "lit_int signExtend l =
     (if signExtend then signed_take_bit (l_width l - 1) (l_value l) else l_value l)"

text \<open>The integer operation each opcode stands for.\<close>

definition binop_spec :: "ParseTreeBinaryOpType \<Rightarrow> int \<Rightarrow> int \<Rightarrow> int" where
  "binop_spec t a b =
     (case t of
        Add \<Rightarrow> a + b | Sub \<Rightarrow> a - b | Mul \<Rightarrow> a * b | LutMul \<Rightarrow> a * b
      | Div \<Rightarrow> a sdiv b | Mod \<Rightarrow> a smod b
      | And \<Rightarrow> a AND b | LogicalAnd \<Rightarrow> a AND b
      | Or \<Rightarrow> a OR b | LogicalOr \<Rightarrow> a OR b
      | Xor \<Rightarrow> a XOR b | LogicalXor \<Rightarrow> a XOR b
      | Shl \<Rightarrow> push_bit (nat b) a | Shr \<Rightarrow> drop_bit (nat b) a
      | EQ \<Rightarrow> of_bool (a = b) | NE \<Rightarrow> of_bool (a \<noteq> b)
      | GT \<Rightarrow> of_bool (a > b) | GE \<Rightarrow> of_bool (a \<ge> b)
      | LT \<Rightarrow> of_bool (a < b) | LE \<Rightarrow> of_bool (a \<le> b))"

text \<open>Where the code computes it: positive divisors, shift amounts that fit a \<^verbatim>\<open>size_t\<close>,
  and equality tests between operands of the same signedness.\<close>

definition binop_pre :: "ParseTreeBinaryOpType \<Rightarrow> bool \<Rightarrow> bool \<Rightarrow> nat \<Rightarrow> int \<Rightarrow> int \<Rightarrow> bool" where
  "binop_pre t se0 se1 dstWidth a b \<longleftrightarrow>
     (t \<in> {Div, Mod} \<longrightarrow> 0 < b) \<and>
     (t \<in> {Shl, Shr} \<longrightarrow> 0 \<le> b \<and> b \<le> int size_t_max) \<and>
     (t = Shr \<longrightarrow> dstWidth + nat b \<le> size_t_max) \<and>
     (t \<in> {EQ, NE} \<longrightarrow> se0 = se1 \<or> (0 \<le> a \<and> 0 \<le> b))"

subsection \<open>Powers of two\<close>

lemma msb_nat_bounds: "0 < n \<Longrightarrow> 2 ^ msb_nat n \<le> n \<and> n < 2 ^ Suc (msb_nat n)"
proof (induction n rule: msb_nat.induct)
  case (1 n)
  show ?case
  proof (cases "n \<le> 1")
    case True
    with "1.prems" show ?thesis by (simp add: msb_nat.simps[of n])
  next
    case False
    with "1.IH" have "2 ^ msb_nat (n div 2) \<le> n div 2" "n div 2 < 2 ^ Suc (msb_nat (n div 2))"
      by auto
    with False show ?thesis by (auto simp: msb_nat.simps[of n])
  qed
qed

lemma msb_nat_pow2: "msb_nat (2 ^ k) = k"
proof -
  have "(2::nat) ^ msb_nat (2 ^ k) \<le> 2 ^ k" "(2::nat) ^ k < 2 ^ Suc (msb_nat (2 ^ k))"
    using msb_nat_bounds[of "2 ^ k"] by auto
  then show ?thesis by (metis le_antisym less_Suc_eq_le one_less_numeral_iff
      power_increasing_iff power_strict_increasing_iff semiring_norm(76))
qed

text \<open>The width of a number is the one it needs.\<close>

lemma GetMpWidth_bounds:
  assumes "0 \<le> v"
  shows "\<exists>w. GetMpWidth v = Some w \<and> 0 < w \<and> v < 2 ^ w"
proof (cases "v = 0")
  case False
  with assms have "nat v < 2 ^ Suc (msb_nat (nat v))"
    using msb_nat_bounds[of "nat v"] by simp
  then have "v < 2 ^ Suc (msb_nat (nat v))"
    using assms by (simp add: nat_less_iff)
  with False assms show ?thesis
    by (simp add: GetMpWidth_def msb_def)
qed (simp add: GetMpWidth_def)

lemma IsPow2_iff: "IsPow2 x \<longleftrightarrow> (\<exists>k. x = 2 ^ k)"
proof
  assume *: "IsPow2 x"
  define k where "k = msb_nat (nat x)"
  from * have pos: "0 < x" and zero: "x AND (x - 1) = 0"
    by (simp_all add: IsPow2_def)
  have bounds: "2 ^ k \<le> x" "x < 2 ^ Suc k"
    using msb_nat_bounds[of "nat x"] pos unfolding k_def
    by (auto simp: nat_le_iff zless_nat_eq_int_zless le_nat_iff nat_less_iff)
  have top: "bit y k" if "2 ^ k \<le> y" "y < 2 ^ Suc k" for y :: int
  proof -
    have "y div 2 ^ k = 1"
      by (rule int_div_pos_eq[where r = "y - 2 ^ k"]) (use that in auto)
    then show ?thesis by (simp add: bit_iff_odd)
  qed
  have "x = 2 ^ k"
  proof (rule ccontr)
    assume "x \<noteq> 2 ^ k"
    with bounds have "2 ^ k \<le> x - 1" "x - 1 < 2 ^ Suc k" by auto
    then have "bit (x AND (x - 1)) k"
      using top bounds by (simp add: bit_and_iff)
    with zero show False by simp
  qed
  then show "\<exists>k. x = 2 ^ k" ..
next
  assume "\<exists>k. x = 2 ^ k"
  then obtain k where "x = 2 ^ k" ..
  then have "x AND (x - 1) = take_bit k (2 ^ k)"
    by (simp add: take_bit_eq_mask mask_eq_exp_minus_1)
  with \<open>x = 2 ^ k\<close> show "IsPow2 x"
    by (simp add: IsPow2_def)
qed

lemma Log2_pow2 [simp]: "Log2 (2 ^ k) = Some k"
proof -
  have "nat ((2::int) ^ k) = 2 ^ k" by (simp add: nat_power_eq)
  moreover have "IsPow2 (2 ^ k)" using IsPow2_iff by blast
  moreover have "\<not> (2::int) ^ k \<le> 0" by (simp add: not_le)
  ultimately show ?thesis
    unfolding Log2_def msb_def by (simp add: msb_nat_pow2 nat_power_eq)
qed

subsection \<open>Widening and truncation\<close>

lemma Truncate_take_bit [simp]: "Truncate x n = take_bit n x"
  by (simp add: Truncate_def take_bit_eq_mask mask_eq_exp_minus_1)

lemma bit_fold_set_bit: "bit (fold set_bit xs (v::int)) i \<longleftrightarrow> bit v i \<or> i \<in> set xs"
  by (induction xs arbitrary: v) (auto simp: bit_set_bit_iff)

lemma lit_ok_bit_less: "lit_ok l \<Longrightarrow> bit (l_value l) i \<Longrightarrow> i < l_width l"
  unfolding lit_ok_def
  by (metis bit_take_bit_iff take_bit_int_eq_self)

lemma fold_opt_bit_set:
  "fold_opt (\<lambda>i result. bit_set index_ok result i) xs v =
     (if \<forall>i \<in> set xs. index_ok i then Some (fold set_bit xs v) else None)"
  by (induction xs arbitrary: v) (simp_all add: bit_set_def assert_that_def)

lemma fold_opt_flip:
  "fold_opt (\<lambda>i result. do {
       b \<leftarrow> bit_test index_ok s i; if \<not> b then bit_set index_ok result i else Some result }) xs v =
     (if \<forall>i \<in> set xs. index_ok i
      then Some (fold (\<lambda>i result. if \<not> bit s i then set_bit i result else result) xs v) else None)"
  by (induction xs arbitrary: v) (simp_all add: bit_test_def bit_set_def assert_that_def)

lemma Widen_unfold:
  "Widen index_ok l se w =
     (if 0 < l_width l \<and> (se \<longrightarrow> index_ok (l_width l - 1)) \<and>
         (se \<and> bit (l_value l) (l_width l - 1) \<longrightarrow> (\<forall>i \<in> {l_width l..<w}. index_ok i))
      then Some (if se \<and> bit (l_value l) (l_width l - 1)
        then fold set_bit [l_width l..<w] (l_value l) else l_value l)
      else None)"
  by (simp add: Widen_def bit_test_def fold_opt_bit_set assert_that_def)

lemma Widen_eq:
  assumes "lit_ok l"
  shows "Widen any_index l se w = Some (take_bit (max w (l_width l)) (lit_int se l))"
proof -
  from assms obtain n where n: "l_width l = Suc n"
    by (cases "l_width l") (auto simp: lit_ok_def)
  have *: "(if se \<and> bit (l_value l) (l_width l - 1)
            then fold set_bit [l_width l..<w] (l_value l) else l_value l) =
          take_bit (max w (l_width l)) (lit_int se l)"
  proof (rule bit_eqI)
    fix i
    show "bit (if se \<and> bit (l_value l) (l_width l - 1)
            then fold set_bit [l_width l..<w] (l_value l) else l_value l) i =
          bit (take_bit (max w (l_width l)) (lit_int se l)) i"
      using lit_ok_bit_less[OF assms, of i] n
      by (cases i n rule: linorder_cases)
        (auto simp: bit_fold_set_bit bit_take_bit_iff lit_int_def bit_signed_take_bit_iff min_def)
  qed
  show ?thesis
    unfolding Widen_unfold * using assms by (simp add: lit_ok_def)
qed

lemma Resize_eq:
  assumes "lit_ok l"
  shows "Resize any_index l se w = Some (take_bit w (lit_int se l))"
  using assms by (simp add: Resize_def Widen_eq min_def)

lemma lit_int_range:
  assumes "lit_ok l"
  shows "lit_int se l < 2 ^ l_width l" "- (2 ^ (l_width l - 1)) \<le> lit_int se l"
proof -
  from assms obtain n where n: "l_width l = Suc n"
    by (cases "l_width l") (auto simp: lit_ok_def)
  have "signed_take_bit n (l_value l) < 2 ^ n" "- (2 ^ n) \<le> signed_take_bit n (l_value l)"
    by simp_all
  moreover have "(0::int) \<le> 2 ^ n" by simp
  ultimately show "lit_int se l < 2 ^ l_width l" "- (2 ^ (l_width l - 1)) \<le> lit_int se l"
    using assms n by (auto simp: lit_ok_def lit_int_def simp del: signed_take_bit_int_less_exp)
qed

subsection \<open>Unary operations\<close>

lemma flip_loop:
  "fold (\<lambda>i result. if \<not> bit (s::int) i then set_bit i result else result) [0..<n] (0::int) =
     take_bit n (NOT s)"
proof (rule bit_eqI)
  fix j
  have "bit (fold (\<lambda>i result. if \<not> bit s i then set_bit i result else result) xs v) j \<longleftrightarrow>
        bit v j \<or> (j \<in> set xs \<and> \<not> bit s j)" for xs and v :: int
    by (induction xs arbitrary: v) (auto simp: bit_set_bit_iff)
  from this[of "[0..<n]" 0]
  show "bit (fold (\<lambda>i result. if \<not> bit s i then set_bit i result else result) [0..<n] (0::int)) j =
        bit (take_bit n (NOT s)) j"
    by (simp add: bit_take_bit_iff bit_not_iff)
qed

lemma take_bit_take_bit_le:
  "n \<le> m \<Longrightarrow> take_bit n (take_bit m (a::int)) = take_bit n a"
  by (simp add: min_def)

lemma take_bit_plus_cong:
  fixes a b c d :: int
  assumes "take_bit n a = take_bit n c" "take_bit n b = take_bit n d"
  shows "take_bit n (a + b) = take_bit n (c + d)"
  using assms by (metis take_bit_add)

lemma take_bit_mult_cong:
  fixes a b c d :: int
  assumes "take_bit n a = take_bit n c" "take_bit n b = take_bit n d"
  shows "take_bit n (a * b) = take_bit n (c * d)"
  using assms by (metis take_bit_mult)

lemma take_bit_diff_cong:
  fixes a b c d :: int
  assumes "take_bit n a = take_bit n c" "take_bit n b = take_bit n d"
  shows "take_bit n (a - b) = take_bit n (c - d)"
  using assms by (metis take_bit_diff)

lemma take_bit_not_cong:
  "take_bit n a = take_bit n c \<Longrightarrow> take_bit n (NOT (a::int)) = take_bit n (NOT c)"
  by (metis take_bit_not_take_bit)

lemma ImplementUnaryOp_eq:
  assumes "lit_ok l"
  shows "ImplementUnaryOp any_index l se t w =
           Some (take_bit w (case t of Negate \<Rightarrow> - lit_int se l | _ \<Rightarrow> NOT (lit_int se l)))"
proof -
  define W where "W = max (l_width l) w + 1"
  define s where "s = take_bit W (lit_int se l)"
  have w: "w \<le> W" and W: "max W (l_width l) = W" by (simp_all add: W_def)
  have widen: "Widen any_index l se W = Some s"
    by (simp add: Widen_eq[OF assms] s_def W)
  have s: "take_bit w s = take_bit w (lit_int se l)"
    using w by (simp add: s_def take_bit_take_bit_le)
  have inv: "take_bit w (take_bit W (NOT s)) = take_bit w (NOT (lit_int se l))"
    using w take_bit_not_cong[OF s] by (simp add: take_bit_take_bit_le)
  have neg: "take_bit w (take_bit W (NOT s) + 1) = take_bit w (- lit_int se l)"
    using take_bit_plus_cong[OF inv refl, of 1] by (simp add: minus_eq_not_plus_1)
  show ?thesis
    unfolding ImplementUnaryOp_def Let_def W_def[symmetric]
    by (cases t) (simp_all add: widen fold_opt_flip flip_loop inv neg del: take_bit_take_bit)
qed

lemma AbsLiteral_eq:
  assumes "lit_ok l"
  shows "AbsLiteral any_index l = Some \<bar>lit_int True l\<bar>"
proof -
  from assms obtain n where n: "l_width l = Suc n"
    by (cases "l_width l") (auto simp: lit_ok_def)
  show ?thesis
  proof (cases "bit (l_value l) n")
    case True
    then have neg: "lit_int True l < 0"
      by (simp add: lit_int_def n)
    have "- lit_int True l \<le> 2 ^ n"
      using lit_int_range(2)[OF assms, of True] n by simp
    also have "(2::int) ^ n < 2 ^ Suc (Suc n)" by simp
    finally have "- lit_int True l < 2 ^ Suc (Suc n)" .
    with neg have "take_bit (Suc (Suc n)) (- lit_int True l) = - lit_int True l"
      by (simp add: take_bit_int_eq_self)
    with True neg n show ?thesis
      by (simp add: AbsLiteral_def bit_test_def ImplementUnaryOp_eq[OF assms])
  next
    case False
    have "take_bit (Suc n) (l_value l) = l_value l"
      using assms by (simp add: lit_ok_def n take_bit_int_eq_self)
    with False have "signed_take_bit n (l_value l) = l_value l"
      by (metis signed_take_bit_eq_take_bit_minus mult_zero_right diff_zero of_bool_eq(1))
    with False assms n show ?thesis
      by (simp add: AbsLiteral_def bit_test_def lit_int_def lit_ok_def)
  qed
qed

subsection \<open>Binary operations\<close>

lemma lit_int_False [simp]: "lit_int False l = l_value l"
  by (simp add: lit_int_def)

lemma lit_int_nonneg_iff:
  assumes "lit_ok l"
  shows "0 \<le> lit_int se l \<longleftrightarrow> (if se then \<not> bit (l_value l) (l_width l - 1) else True)"
  using assms by (auto simp: lit_int_def lit_ok_def)

lemma take_bit_lit_nonneg:
  assumes "lit_ok l" "0 \<le> lit_int se l" "l_width l \<le> n"
  shows "take_bit n (lit_int se l) = lit_int se l"
proof -
  have "lit_int se l < 2 ^ l_width l" using lit_int_range(1)[OF assms(1)] .
  also have "\<dots> \<le> 2 ^ n" using assms(3) by simp
  finally show ?thesis using assms(2) by (simp add: take_bit_int_eq_self)
qed

lemma lit_int_nonneg_value:
  assumes "lit_ok l" "0 \<le> lit_int se l"
  shows "lit_int se l = l_value l"
proof -
  have "take_bit (l_width l) (lit_int se l) = l_value l"
    using Widen_eq[OF assms(1), of se 0] assms(1)
    by (auto simp: Widen_unfold lit_ok_def split: if_splits)
  with take_bit_lit_nonneg[OF assms order.refl] show ?thesis by simp
qed

lemma take_bit_lit_neg:
  assumes "lit_ok l" "lit_int se l < 0" "l_width l \<le> n"
  shows "take_bit n (lit_int se l) = lit_int se l + 2 ^ n"
proof -
  from assms(1) have pos: "0 < l_width l" by (simp add: lit_ok_def)
  have "(2::int) ^ (l_width l - 1) \<le> 2 ^ n" using assms(3) by simp
  with lit_int_range(2)[OF assms(1), of se] have "0 \<le> lit_int se l + 2 ^ n" by linarith
  moreover have "lit_int se l + 2 ^ n < 2 ^ n" using assms(2) by simp
  ultimately have "take_bit n (lit_int se l + 2 ^ n) = lit_int se l + 2 ^ n"
    by (simp add: take_bit_int_eq_self)
  then show ?thesis by (simp add: take_bit_eq_mod)
qed

lemma size_t_max_wrap: "n \<le> size_t_max \<Longrightarrow> n mod 2 ^ 64 = n"
  by (simp add: size_t_max_def)

lemma ImplementBinaryOp_unfold:
  assumes "lit_ok a" "lit_ok b" "0 < w"
  shows "ImplementBinaryOp any_index a b w se0 se1 t = do {
     W \<leftarrow> RequiredSourceWidth a b w t;
     r \<leftarrow> BinaryOpResult any_index a b w (take_bit (max W (l_width a)) (lit_int se0 a))
            (take_bit (max W (l_width b)) (lit_int se1 b))
            (0 \<le> lit_int se0 a) (0 \<le> lit_int se1 b) t;
     Some (take_bit w r) }"
  using assms
  by (cases se0; cases se1; simp add: ImplementBinaryOp_def Widen_eq bit_test_def lit_int_nonneg_iff Let_def lit_ok_def)

lemma ImplementBinaryOp_arith:
  assumes "lit_ok a" "lit_ok b" "0 < w"
    and "t \<in> {Add, Sub, Mul, LutMul, And, LogicalAnd, Or, LogicalOr, Xor, LogicalXor}"
  shows "ImplementBinaryOp any_index a b w se0 se1 t =
           Some (take_bit w (binop_spec t (lit_int se0 a) (lit_int se1 b)))"
proof -
  let ?A = "take_bit (max w (l_width a)) (lit_int se0 a)"
  let ?B = "take_bit (max w (l_width b)) (lit_int se1 b)"
  have A: "take_bit w ?A = take_bit w (lit_int se0 a)"
    and B: "take_bit w ?B = take_bit w (lit_int se1 b)"
    by (simp_all add: min_def)
  have and_cong: "take_bit w (?A AND ?B) = take_bit w (lit_int se0 a AND lit_int se1 b)"
    and or_cong: "take_bit w (?A OR ?B) = take_bit w (lit_int se0 a OR lit_int se1 b)"
    and xor_cong: "take_bit w (?A XOR ?B) = take_bit w (lit_int se0 a XOR lit_int se1 b)"
    by (simp_all only: take_bit_and take_bit_or take_bit_xor A B)
  have W: "RequiredSourceWidth a b w t = Some w"
    using assms(4) by (auto simp: RequiredSourceWidth_def)
  have "BinaryOpResult any_index a b w ?A ?B p q t = Some (binop_spec t ?A ?B)" for p q
    using assms(4) by (auto simp: BinaryOpResult_def binop_spec_def)
  moreover have "take_bit w (binop_spec t ?A ?B) =
      take_bit w (binop_spec t (lit_int se0 a) (lit_int se1 b))"
    using assms(4)
    by (elim insertE emptyE)
      (simp_all only: binop_spec_def ParseTreeBinaryOpType.case take_bit_plus_cong[OF A B]
        take_bit_diff_cong[OF A B] take_bit_mult_cong[OF A B] and_cong or_cong xor_cong)
  ultimately show ?thesis
    by (simp add: ImplementBinaryOp_unfold[OF assms(1-3)] W)
qed

lemma ImplementBinaryOp_shift:
  assumes "lit_ok a" "lit_ok b" "0 < w" and "t \<in> {Shl, Shr}"
    and "binop_pre t se0 se1 w (lit_int se0 a) (lit_int se1 b)"
  shows "ImplementBinaryOp any_index a b w se0 se1 t =
           Some (take_bit w (binop_spec t (lit_int se0 a) (lit_int se1 b)))"
proof -
  define A where "A = lit_int se0 a"
  define B where "B = lit_int se1 b"
  have pos: "0 \<le> B" and max: "B \<le> int size_t_max"
    using assms(4,5) by (auto simp: binop_pre_def B_def)
  have val: "l_value b = B"
    using lit_int_nonneg_value[OF assms(2)] pos by (simp add: B_def)
  have B: "take_bit (max n (l_width b)) B = B" for n
    using take_bit_lit_nonneg[OF assms(2) pos[unfolded B_def], of "max n (l_width b)"]
    by (simp add: B_def)
  have size: "MpToSizeT B = Some (nat B)"
    using max by (simp add: MpToSizeT_def)
  consider "t = Shl" | "t = Shr" "w + nat B \<le> size_t_max"
    using assms(4,5) by (auto simp: binop_pre_def B_def)
  then show ?thesis
  proof cases
    case 1
    have "take_bit w (push_bit (nat B) (take_bit (max w (l_width a)) A)) =
        take_bit w (push_bit (nat B) A)"
      by (rule bit_eqI) (auto simp: bit_take_bit_iff bit_push_bit_iff)
    with 1 pos show ?thesis
      by (simp add: ImplementBinaryOp_unfold[OF assms(1-3)] RequiredSourceWidth_def
          BinaryOpResult_def binop_spec_def size B flip: A_def B_def)
  next
    case 2
    have "take_bit w (drop_bit (nat B) (take_bit (max (w + nat B) (l_width a)) A)) =
        take_bit w (drop_bit (nat B) A)"
      by (rule bit_eqI) (auto simp: bit_take_bit_iff bit_drop_bit_eq)
    with 2 pos size_t_max_wrap[OF 2(2)] show ?thesis
      by (simp add: ImplementBinaryOp_unfold[OF assms(1-3)] RequiredSourceWidth_def
          BinaryOpResult_def binop_spec_def val size B flip: A_def B_def)
  qed
qed

text \<open>Widened to a common width, two negative numbers compare like their bit patterns.\<close>

lemma ImplementBinaryOp_order:
  assumes "lit_ok a" "lit_ok b" "0 < w" and "t \<in> {GT, GE, LT, LE}"
  shows "ImplementBinaryOp any_index a b w se0 se1 t =
           Some (binop_spec t (lit_int se0 a) (lit_int se1 b))"
proof -
  define A where "A = lit_int se0 a"
  define B where "B = lit_int se1 b"
  define W where "W = max (l_width a) (l_width b)"
  have W: "RequiredSourceWidth a b w t = Some W" "max W (l_width a) = W" "max W (l_width b) = W"
    using assms(4) by (auto simp: RequiredSourceWidth_def W_def)
  have A: "take_bit W A = (if 0 \<le> A then A else A + 2 ^ W)"
    using take_bit_lit_nonneg[OF assms(1), of se0 W] take_bit_lit_neg[OF assms(1), of se0 W]
    by (auto simp: A_def W_def)
  have B: "take_bit W B = (if 0 \<le> B then B else B + 2 ^ W)"
    using take_bit_lit_nonneg[OF assms(2), of se1 W] take_bit_lit_neg[OF assms(2), of se1 W]
    by (auto simp: B_def W_def)
  have bool: "take_bit w (of_bool x) = (of_bool x :: int)" for x
    using assms(3) by (cases x) simp_all
  have "BinaryOpResult any_index a b w (take_bit W A) (take_bit W B) (0 \<le> A) (0 \<le> B) t =
      Some (binop_spec t A B)"
    using assms(4) by (auto simp: BinaryOpResult_def CompareSigned_def binop_spec_def A B)
  moreover have "take_bit w (binop_spec t A B) = binop_spec t A B"
    using assms(3,4) by (auto simp: binop_spec_def bool)
  ultimately show ?thesis
    by (simp add: ImplementBinaryOp_unfold[OF assms(1-3)] W flip: A_def B_def)
qed

text \<open>The two equality tests compare the bit patterns at the wider of the two widths.\<close>

lemma ImplementBinaryOp_EQ_patterns:
  assumes "lit_ok a" "lit_ok b" "0 < w" and "t \<in> {EQ, NE}"
  defines "W \<equiv> max (l_width a) (l_width b)"
  shows "ImplementBinaryOp any_index a b w se0 se1 t =
           Some (of_bool ((t = EQ) =
             (take_bit W (lit_int se0 a) = take_bit W (lit_int se1 b))))"
proof -
  have W: "RequiredSourceWidth a b w t = Some W" "max W (l_width a) = W" "max W (l_width b) = W"
    using assms(4) by (auto simp: RequiredSourceWidth_def W_def)
  have bool: "take_bit w (of_bool x) = (of_bool x :: int)" for x
    using assms(3) by (cases x) simp_all
  show ?thesis
    using assms(3,4)
    by (auto simp: ImplementBinaryOp_unfold[OF assms(1-3)] W BinaryOpResult_def bool)
qed

lemma take_bit_lit_inj:
  assumes "lit_ok a" "lit_ok b" "l_width a \<le> W" "l_width b \<le> W"
    and "se0 = se1 \<or> 0 \<le> lit_int se0 a \<and> 0 \<le> lit_int se1 b"
    and "take_bit W (lit_int se0 a) = take_bit W (lit_int se1 b)"
  shows "lit_int se0 a = lit_int se1 b"
proof -
  have neg_ge: "2 ^ (W - 1) \<le> take_bit W (lit_int True l)"
    if "lit_ok l" "l_width l \<le> W" "lit_int True l < 0" for l
  proof -
    have "(2::int) ^ (l_width l - 1) \<le> 2 ^ (W - 1)" using that by simp
    moreover have "(2::int) ^ W = 2 ^ (W - 1) + 2 ^ (W - 1)"
      using that by (cases W) (auto simp: lit_ok_def)
    ultimately show ?thesis
      using take_bit_lit_neg[OF that(1,3,2)] lit_int_range(2)[OF that(1), of True] by linarith
  qed
  have pos_less: "take_bit W (lit_int True l) < 2 ^ (W - 1)"
    if "lit_ok l" "l_width l \<le> W" "\<not> lit_int True l < 0" for l
  proof -
    have "lit_int True l < 2 ^ (l_width l - 1)"
      by (simp add: lit_int_def)
    also have "(2::int) ^ (l_width l - 1) \<le> 2 ^ (W - 1)" using that by simp
    finally show ?thesis
      using take_bit_lit_nonneg[OF that(1) _ that(2), of True] that(3) by simp
  qed
  consider "0 \<le> lit_int se0 a" "0 \<le> lit_int se1 b" | "se0" "se1"
    using assms(1,2,5) by (cases se0; cases se1) (auto simp: lit_ok_def)
  then show ?thesis
  proof cases
    case 1
    with assms show ?thesis by (simp add: take_bit_lit_nonneg)
  next
    case 2
    then show ?thesis
      using assms(1-4,6) neg_ge[of a] neg_ge[of b] pos_less[of a] pos_less[of b]
      by (cases "lit_int True a < 0"; cases "lit_int True b < 0")
        (auto simp: take_bit_lit_nonneg take_bit_lit_neg)
  qed
qed

lemma ImplementBinaryOp_equality:
  assumes "lit_ok a" "lit_ok b" "0 < w" and "t \<in> {EQ, NE}"
    and "binop_pre t se0 se1 w (lit_int se0 a) (lit_int se1 b)"
  shows "ImplementBinaryOp any_index a b w se0 se1 t =
           Some (binop_spec t (lit_int se0 a) (lit_int se1 b))"
proof -
  have "se0 = se1 \<or> 0 \<le> lit_int se0 a \<and> 0 \<le> lit_int se1 b"
    using assms(4,5) by (auto simp: binop_pre_def)
  then have "take_bit W (lit_int se0 a) = take_bit W (lit_int se1 b) \<longleftrightarrow>
      lit_int se0 a = lit_int se1 b" if "l_width a \<le> W" "l_width b \<le> W" for W
    using take_bit_lit_inj[OF assms(1,2) that] by metis
  then show ?thesis
    using assms(4) by (auto simp: ImplementBinaryOp_EQ_patterns[OF assms(1-4)] binop_spec_def)
qed

lemma lit_ok_quotient:
  assumes "lit_ok l" "0 < d"
  shows "lit_ok \<lparr>l_value = \<bar>lit_int se l\<bar> div d, l_width = l_width l + 1\<rparr>"
proof -
  have "\<bar>lit_int se l\<bar> div d \<le> \<bar>lit_int se l\<bar>"
    using assms(2) zdiv_mono2[of "\<bar>lit_int se l\<bar>" 1 d] by simp
  also have "\<dots> < 2 ^ (l_width l + 1)"
  proof -
    have "(2::int) ^ (l_width l - 1) < 2 ^ (l_width l + 1)" "(2::int) ^ l_width l < 2 ^ (l_width l + 1)"
      by (rule power_strict_increasing; simp)+
    then show ?thesis
      using lit_int_range[OF assms(1), of se] by (simp only: abs_if split: if_split) linarith
  qed
  finally show ?thesis
    using assms by (simp add: lit_ok_def pos_imp_zdiv_nonneg_iff)
qed

lemma ImplementBinaryOp_division:
  assumes "lit_ok a" "lit_ok b" "0 < w" and "t \<in> {Div, Mod}" and "0 < lit_int se1 b"
  shows "ImplementBinaryOp any_index a b w se0 se1 t =
           Some (take_bit w (binop_spec t (lit_int se0 a) (lit_int se1 b)))"
proof -
  define A where "A = lit_int se0 a"
  define B where "B = lit_int se1 b"
  have W: "RequiredSourceWidth a b w t = Some w"
    using assms(4) by (auto simp: RequiredSourceWidth_def)
  have pos: "0 < B" using assms(5) by (simp add: B_def)
  have B: "take_bit (max w (l_width b)) B = B" "l_value b = B"
    using take_bit_lit_nonneg[OF assms(2), of se1 "max w (l_width b)"]
      lit_int_nonneg_value[OF assms(2), of se1] assms(5) by (simp_all add: B_def)
  have "B < 2 ^ l_width b" using lit_int_range(1)[OF assms(2)] by (simp add: B_def)
  show ?thesis
  proof (cases "0 \<le> A")
    case True
    have A: "take_bit (max w (l_width a)) A = A"
      using take_bit_lit_nonneg[OF assms(1), of se0 "max w (l_width a)"] True by (simp add: A_def)
    have "BinaryOpResult any_index a b w A B True True t = Some (binop_spec t A B)"
      using assms(4) pos by (auto simp: BinaryOpResult_def binop_spec_def B(2))
    with True pos show ?thesis
      by (simp add: ImplementBinaryOp_unfold[OF assms(1-3)] W A B flip: A_def B_def)
  next
    case False
    then have se0: "se0" using assms(1) by (cases se0) (auto simp: A_def lit_ok_def)
    have abs: "AbsLiteral any_index a = Some (- A)"
      using AbsLiteral_eq[OF assms(1)] False se0 by (simp add: A_def)
    have q: "lit_ok \<lparr>l_value = (- A) div B, l_width = l_width a + 1\<rparr>"
      using lit_ok_quotient[OF assms(1) pos, of se0] False by (simp add: A_def)
    have "(- A) mod B < B" "0 \<le> (- A) mod B" using pos by simp_all
    with \<open>B < 2 ^ l_width b\<close> assms(2) have r: "lit_ok \<lparr>l_value = (- A) mod B, l_width = l_width b\<rparr>"
      by (simp add: lit_ok_def)
    have "A sdiv B = - ((- A) div B)" "A smod B = - ((- A) mod B)"
      using False pos
      by (simp_all add: signed_divide_int_def signed_modulo_int_def minus_mult_div_eq_mod[symmetric]
          algebra_simps)
    moreover have "(- A) sdiv B = (- A) div B" "(- A) smod B = (- A) mod B"
      using False pos
      by (simp_all add: signed_divide_int_def signed_modulo_int_def minus_mult_div_eq_mod[symmetric])
    moreover have "ImplementUnaryOp any_index \<lparr>l_value = (- A) div B, l_width = Suc (l_width a)\<rparr> False Negate w =
        Some (take_bit w (- ((- A) div B)))"
      "ImplementUnaryOp any_index \<lparr>l_value = (- A) mod B, l_width = l_width b\<rparr> False Negate w =
        Some (take_bit w (- ((- A) mod B)))"
      using ImplementUnaryOp_eq[OF q, of False Negate w] ImplementUnaryOp_eq[OF r, of False Negate w]
      by simp_all
    ultimately have "BinaryOpResult any_index a b w x B False True t = Some (take_bit w (binop_spec t A B))"
      for x
      using assms(4) pos
      by (elim insertE emptyE) (simp_all only: BinaryOpResult_def binop_spec_def abs B(2)
          ParseTreeBinaryOpType.case if_False assert_that_True
          less_imp_neq[symmetric] not_False_eq_True simp_thms Option.bind.simps Suc_eq_plus1[symmetric])
    with False pos show ?thesis
      by (simp add: ImplementBinaryOp_unfold[OF assms(1-3)] W B flip: A_def B_def)
  qed
qed

lemma ImplementBinaryOp_spec:
  assumes "lit_ok a" and "lit_ok b" and "0 < w"
    and "binop_pre t se0 se1 w (lit_int se0 a) (lit_int se1 b)"
  shows "ImplementBinaryOp any_index a b w se0 se1 t =
           Some (take_bit w (binop_spec t (lit_int se0 a) (lit_int se1 b)))"
proof -
  have bool: "take_bit w (of_bool x) = (of_bool x :: int)" for x
    using assms(3) by (cases x) simp_all
  consider "t \<in> {Add, Sub, Mul, LutMul, And, LogicalAnd, Or, LogicalOr, Xor, LogicalXor}"
    | "t \<in> {Shl, Shr}" | "t \<in> {GT, GE, LT, LE}" | "t \<in> {EQ, NE}" | "t \<in> {Div, Mod}"
    by (cases t) simp_all
  then show ?thesis
  proof cases
    case 1
    then show ?thesis by (rule ImplementBinaryOp_arith[OF assms(1-3)])
  next
    case 2
    then show ?thesis by (rule ImplementBinaryOp_shift[OF assms(1-3) _ assms(4)])
  next
    case 3
    then have "take_bit w (binop_spec t (lit_int se0 a) (lit_int se1 b)) =
        binop_spec t (lit_int se0 a) (lit_int se1 b)"
      using assms(3) by (auto simp: binop_spec_def bool)
    with ImplementBinaryOp_order[OF assms(1-3) 3] show ?thesis by simp
  next
    case 4
    then have "take_bit w (binop_spec t (lit_int se0 a) (lit_int se1 b)) =
        binop_spec t (lit_int se0 a) (lit_int se1 b)"
      using assms(3) by (auto simp: binop_spec_def bool)
    with ImplementBinaryOp_equality[OF assms(1-3) 4 assms(4)] show ?thesis by simp
  next
    case 5
    with assms(4) have "0 < lit_int se1 b" by (auto simp: binop_pre_def)
    with 5 show ?thesis by (rule ImplementBinaryOp_division[OF assms(1-3)])
  qed
qed

subsection \<open>The bit indices of the compiler\<close>

definition mp_bits :: nat where
  "mp_bits = 2 ^ 32"

lemma mp_index_iff: "mp_index i \<longleftrightarrow> i < mp_bits"
  by (auto simp: mp_index_def mp_bits_def)

lemma Widen_mp:
  assumes "lit_ok l"
  shows "Widen mp_index l se w =
    (if (se \<longrightarrow> l_width l \<le> mp_bits) \<and> (lit_int se l < 0 \<longrightarrow> w \<le> mp_bits) then Widen any_index l se w else None)"
proof -
  have neg: "lit_int True l < 0 \<longleftrightarrow> bit (l_value l) (l_width l - Suc 0)"
    using lit_int_nonneg_iff[OF assms, of True] by (auto simp: not_le[symmetric])
  have first: "mp_index (l_width l - Suc 0) \<longleftrightarrow> l_width l \<le> mp_bits"
    using assms by (auto simp: mp_index_iff lit_ok_def)
  have loop: "(\<forall>i \<in> {l_width l..<w}. mp_index i) \<longleftrightarrow> w \<le> mp_bits" if "l_width l \<le> mp_bits"
  proof
    assume all: "\<forall>i \<in> {l_width l..<w}. mp_index i"
    show "w \<le> mp_bits"
    proof (cases "l_width l < w")
      case True
      then have "mp_index (w - 1)" using all by auto
      then show ?thesis using True by (simp add: mp_index_iff)
    qed (use that in simp)
  qed (auto simp: mp_index_iff)
  show ?thesis
    using assms loop
    by (cases "l_width l \<le> mp_bits"; cases se; cases "bit (l_value l) (l_width l - Suc 0)")
      (simp_all add: Widen_unfold neg first lit_ok_def)
qed

lemma ImplementUnaryOp_mp:
  assumes "0 < l_width l"
  shows "ImplementUnaryOp mp_index l se t w =
    (if max (l_width l) w < mp_bits then ImplementUnaryOp any_index l se t w else None)"
proof -
  let ?W = "max (l_width l) w + 1"
  have loop: "(\<forall>i \<in> set [0..<?W]. mp_index i) \<longleftrightarrow> max (l_width l) w < mp_bits"
    by (auto simp: mp_index_iff max_def)
  have widen: "Widen mp_index l se ?W = Widen any_index l se ?W" if "max (l_width l) w < mp_bits"
    using that by (auto simp: Widen_unfold mp_index_iff)
  show ?thesis
  proof (cases "max (l_width l) w < mp_bits")
    case True
    then show ?thesis
      unfolding ImplementUnaryOp_def Let_def fold_opt_flip widen[OF True] if_P[OF loop[THEN iffD2, OF True]] by simp
  next
    case False
    then have "\<not> (\<forall>i \<in> set [0..<?W]. mp_index i)" using loop by blast
    then show ?thesis using False
      by (cases "Widen mp_index l se ?W") (simp_all only: ImplementUnaryOp_def Let_def fold_opt_flip if_False Option.bind.simps)
  qed
qed

lemma AbsLiteral_mp:
  assumes "lit_ok l" "lit_int True l < 0"
  shows "AbsLiteral mp_index l = (if l_width l + 1 < mp_bits then AbsLiteral any_index l else None)"
proof -
  have neg: "bit (l_value l) (l_width l - 1)"
    using lit_int_nonneg_iff[OF assms(1), of True] assms(2) by (simp add: not_le[symmetric])
  have "0 < l_width l" using assms(1) by (simp add: lit_ok_def)
  then show ?thesis
    using neg by (auto simp: AbsLiteral_def bit_test_def ImplementUnaryOp_mp mp_index_iff assert_that_def)
qed

text \<open>The indices that an evaluation uses: the sign bits, the bits a negative operand is widened
  to, and those of the two negations of a division with a negative dividend.\<close>

definition bit_indices_ok ::
  "ParseTreeBinaryOpType \<Rightarrow> bool \<Rightarrow> bool \<Rightarrow> nat \<Rightarrow> Literal \<Rightarrow> Literal \<Rightarrow> bool" where
  "bit_indices_ok t se0 se1 w a b \<longleftrightarrow>
     (se0 \<longrightarrow> l_width a \<le> mp_bits) \<and> (se1 \<longrightarrow> l_width b \<le> mp_bits) \<and>
     (lit_int se0 a < 0 \<or> lit_int se1 b < 0 \<longrightarrow>
        (case RequiredSourceWidth a b w t of None \<Rightarrow> True | Some W \<Rightarrow> W \<le> mp_bits)) \<and>
     (t \<in> {Div, Mod} \<and> lit_int se0 a < 0 \<longrightarrow>
        l_width a + 1 < mp_bits \<and> max (if t = Div then l_width a + 1 else l_width b) w < mp_bits)"

lemma BinaryOpResult_mp:
  assumes "lit_ok a" "lit_ok b" "t \<in> {Div, Mod} \<Longrightarrow> \<not> p \<Longrightarrow> lit_int True a < 0"
  shows "BinaryOpResult mp_index a b w x y p q t =
    (if t \<in> {Div, Mod} \<and> \<not> p \<longrightarrow>
        l_width a + 1 < mp_bits \<and> max (if t = Div then l_width a + 1 else l_width b) w < mp_bits
     then BinaryOpResult any_index a b w x y p q t else None)"
proof (cases "t \<in> {Div, Mod} \<and> \<not> p")
  case True
  have "0 < l_width b" using assms(2) by (simp add: lit_ok_def)
  with True assms(3) show ?thesis
    by (auto simp: BinaryOpResult_def AbsLiteral_mp[OF assms(1)] AbsLiteral_eq[OF assms(1)] ImplementUnaryOp_mp assert_that_def)
next
  case False
  then show ?thesis by (cases t) (auto simp: BinaryOpResult_def)
qed

lemma ImplementBinaryOp_mp:
  assumes "lit_ok a" "lit_ok b" "0 < w"
  shows "ImplementBinaryOp mp_index a b w se0 se1 t =
    (if bit_indices_ok t se0 se1 w a b then ImplementBinaryOp any_index a b w se0 se1 t else None)"
proof (cases "RequiredSourceWidth a b w t")
  case None
  then show ?thesis by (simp add: ImplementBinaryOp_def assert_that_def)
next
  case (Some W)
  have pos: "0 < l_width a" "0 < l_width b" using assms(1,2) by (simp_all add: lit_ok_def)
  have sign: "(if se then map_option Not (bit_test mp_index (l_value l) (l_width l - 1)) else Some True) =
      (if se \<longrightarrow> l_width l \<le> mp_bits then Some (0 \<le> lit_int se l) else None)"
    "(if se then map_option Not (bit_test any_index (l_value l) (l_width l - 1)) else Some True) = Some (0 \<le> lit_int se l)"
    if "lit_ok l" for se l
    using that lit_int_nonneg_iff[OF that, of se]
    by (auto simp: bit_test_def mp_index_iff assert_that_def lit_ok_def)
  have neg: "lit_int True a < 0" if "\<not> 0 \<le> lit_int se0 a"
    using that assms(1) by (cases se0) (simp_all add: lit_ok_def)
  have res: "BinaryOpResult mp_index a b w x y (0 \<le> lit_int se0 a) q t =
      (if t \<in> {Div, Mod} \<and> lit_int se0 a < 0 \<longrightarrow>
          l_width a + 1 < mp_bits \<and> max (if t = Div then l_width a + 1 else l_width b) w < mp_bits
       then BinaryOpResult any_index a b w x y (0 \<le> lit_int se0 a) q t else None)" for x y q
    using BinaryOpResult_mp[OF assms(1,2), of t "0 \<le> lit_int se0 a" w x y q] neg by (simp add: not_le)
  let ?div = "t \<in> {Div, Mod} \<and> lit_int se0 a < 0 \<longrightarrow>
          l_width a + 1 < mp_bits \<and> max (if t = Div then l_width a + 1 else l_width b) w < mp_bits"
  have ok: "bit_indices_ok t se0 se1 w a b \<longleftrightarrow> (se0 \<longrightarrow> l_width a \<le> mp_bits) \<and> (se1 \<longrightarrow> l_width b \<le> mp_bits) \<and>
      (lit_int se0 a < 0 \<longrightarrow> W \<le> mp_bits) \<and> (lit_int se1 b < 0 \<longrightarrow> W \<le> mp_bits) \<and> ?div"
    by (auto simp: bit_indices_ok_def Some)
  define D A1 A2 B1 B2 where "D \<longleftrightarrow> ?div" and "A1 \<longleftrightarrow> (se0 \<longrightarrow> l_width a \<le> mp_bits)" and "A2 \<longleftrightarrow> (lit_int se0 a < 0 \<longrightarrow> W \<le> mp_bits)"
    and "B1 \<longleftrightarrow> (se1 \<longrightarrow> l_width b \<le> mp_bits)" and "B2 \<longleftrightarrow> (lit_int se1 b < 0 \<longrightarrow> W \<le> mp_bits)"
  note defs = D_def A1_def A2_def B1_def B2_def
  note wa = Widen_mp[OF assms(1), of se0 W, folded defs] and wb = Widen_mp[OF assms(2), of se1 W, folded defs]
  note sa = sign[OF assms(1), of se0, folded defs] and sb = sign[OF assms(2), of se1, folded defs]
  show ?thesis
    unfolding ok defs[symmetric]
    by (cases D; cases A1; cases A2; cases B1; cases B2)
      (simp_all only: ImplementBinaryOp_def Some pos assms(3) sa sb res[folded defs] wa wb
        Widen_eq[OF assms(1)] Widen_eq[OF assms(2)] assert_that_True Option.bind.simps if_True if_False simp_thms)
qed

text \<open>What stays within the limit.\<close>

lemma ImplementBinaryOp_any:
  assumes "ImplementBinaryOp mp_index a b w se0 se1 t = Some v" "lit_ok a" "lit_ok b"
  shows "ImplementBinaryOp any_index a b w se0 se1 t = Some v"
proof -
  have "0 < w" using assms(1) by (auto simp: ImplementBinaryOp_def split: bind_splits)
  then show ?thesis using assms by (simp add: ImplementBinaryOp_mp split: if_splits)
qed

lemma ImplementUnaryOp_any:
  assumes "ImplementUnaryOp mp_index l se t w = Some v" "lit_ok l"
  shows "ImplementUnaryOp any_index l se t w = Some v"
  using assms by (simp add: ImplementUnaryOp_mp lit_ok_def split: if_splits)

lemma Resize_any:
  assumes "Resize mp_index l se w = Some v" "lit_ok l"
  shows "Resize any_index l se w = Some v"
  using assms by (simp add: Resize_def Widen_mp split: if_splits)

text \<open>Without the limit an evaluation fails only on a zero divisor or a bad shift amount.\<close>

lemma ImplementBinaryOp_any_defined:
  assumes "lit_ok a" "lit_ok b" "0 < w"
  shows "ImplementBinaryOp any_index a b w se0 se1 t \<noteq> None \<longleftrightarrow>
    (t \<in> {Div, Mod} \<longrightarrow> l_value b \<noteq> 0) \<and>
    (t \<in> {Shl, Shr} \<longrightarrow> 0 \<le> lit_int se1 b \<and> lit_int se1 b \<le> int size_t_max)"
proof -
  have widen: "Widen any_index l False v = Some (l_value l)" if "0 < l_width l" for l v
    using that by (simp add: Widen_def)
  have unary [simp]: "\<exists>v. ImplementUnaryOp any_index l False u w = Some v" if "0 < l_width l" for l u
    using that by (simp add: ImplementUnaryOp_def Let_def widen fold_opt_flip)
  have pos: "0 < l_width b" using assms(2) by (simp add: lit_ok_def)
  have same: "take_bit (max W (l_width b)) (lit_int se1 b) = l_value b" if "0 \<le> lit_int se1 b" for W
    using take_bit_lit_nonneg[OF assms(2) that, of "max W (l_width b)"] lit_int_nonneg_value[OF assms(2) that] by simp
  consider "t \<in> {Div, Mod}" | "t = Shl" | "t = Shr" | "t \<notin> {Div, Mod, Shl, Shr}" by blast
  then show ?thesis
  proof cases
    case 1
    then show ?thesis
      using pos
      by (auto simp: ImplementBinaryOp_unfold[OF assms] RequiredSourceWidth_def BinaryOpResult_def AbsLiteral_eq[OF assms(1)]
          assert_that_def bind_eq_Some_conv)
  next
    case 2
    then show ?thesis
      using lit_int_nonneg_value[OF assms(2), of se1]
      by (auto simp: ImplementBinaryOp_unfold[OF assms] RequiredSourceWidth_def BinaryOpResult_def assert_that_def same MpToSizeT_def)
  next
    case 3
    then show ?thesis
      using lit_int_nonneg_value[OF assms(2), of se1]
      by (auto simp: ImplementBinaryOp_unfold[OF assms] RequiredSourceWidth_def BinaryOpResult_def assert_that_def same MpToSizeT_def)
  next
    case 4
    then show ?thesis
      by (cases t) (auto simp: ImplementBinaryOp_unfold[OF assms] RequiredSourceWidth_def BinaryOpResult_def)
  qed
qed

declare any_index_def [simp del]

subsection \<open>Properties\<close>

text \<open>C1. Compile-time evaluation of a binary operator is integer arithmetic on the numbers the
  two literals denote (sign extended where the operation says so), reduced modulo \<open>2^w\<close>: for
  every operator, with positive divisors, shift amounts that fit a \<^verbatim>\<open>size_t\<close>, equality
  tests between operands of the same signedness, and as long as no index of a bit that is tested or
  set exceeds 32 bits, which \<^verbatim>\<open>bit_test\<close> and \<^verbatim>\<open>bit_set\<close> assert.\<close>

theorem ImplementBinaryOp_correct:
  assumes "lit_ok a" and "lit_ok b" and "0 < w"
    and "binop_pre t se0 se1 w (lit_int se0 a) (lit_int se1 b)" and "bit_indices_ok t se0 se1 w a b"
  shows "ImplementBinaryOp mp_index a b w se0 se1 t =
           Some (take_bit w (binop_spec t (lit_int se0 a) (lit_int se1 b)))"
  using ImplementBinaryOp_spec[OF assms(1-4)] assms(5) by (simp add: ImplementBinaryOp_mp[OF assms(1-3)])

theorem ImplementBinaryOp_correct_witness:
  "ImplementBinaryOp mp_index \<lparr>l_value = 249, l_width = 8\<rparr> \<lparr>l_value = 2, l_width = 3\<rparr> 8 True False Div =
     Some (take_bit 8 (-3))"
  using ImplementBinaryOp_correct[of "\<lparr>l_value = 249, l_width = 8\<rparr>" "\<lparr>l_value = 2, l_width = 3\<rparr>" 8
      Div True False]
  by (simp add: lit_ok_def binop_pre_def lit_int_def binop_spec_def signed_take_bit_eq_take_bit_minus
      signed_divide_int_def bit_indices_ok_def RequiredSourceWidth_def mp_bits_def)

text \<open>C2. Which evaluations fail. Compile-time evaluation of a binary operator on well-formed
  literals gives no value exactly when the divisor is zero, a shift amount is negative or exceeds a
  \<^verbatim>\<open>size_t\<close>, or the index of a bit exceeds 32 bits: that of a sign bit, of a bit a negative operand
  is widened to (up to the destination width plus the shift amount for a right shift), or of a bit
  of the negations in the division of a negative number.\<close>

theorem ImplementBinaryOp_fails:
  assumes "lit_ok a" and "lit_ok b" and "0 < w"
  shows "ImplementBinaryOp mp_index a b w se0 se1 t = None \<longleftrightarrow>
    t \<in> {Div, Mod} \<and> l_value b = 0 \<or>
    t \<in> {Shl, Shr} \<and> (lit_int se1 b < 0 \<or> lit_int se1 b > int size_t_max) \<or>
    \<not> bit_indices_ok t se0 se1 w a b"
  using ImplementBinaryOp_any_defined[OF assms, of se0 se1 t] ImplementBinaryOp_mp[OF assms, of se0 se1 t]
  by (simp only: not_le[symmetric] split: if_split) blast

text \<open>A negative byte shifted right by \<open>2^32\<close>: its widening asserts.\<close>

theorem ImplementBinaryOp_fails_witness:
  "ImplementBinaryOp mp_index \<lparr>l_value = 128, l_width = 8\<rparr> \<lparr>l_value = 2 ^ 32, l_width = 33\<rparr> 8 True False Shr = None \<and>
   ImplementBinaryOp mp_index \<lparr>l_value = 128, l_width = 8\<rparr> \<lparr>l_value = 2 ^ 32, l_width = 33\<rparr> 8 False False Shr \<noteq> None"
proof -
  have ok: "lit_ok \<lparr>l_value = 128, l_width = 8\<rparr>" "lit_ok \<lparr>l_value = 2 ^ 32, l_width = 33\<rparr>" "(0::nat) < 8"
    by (simp_all add: lit_ok_def)
  show ?thesis
    unfolding ImplementBinaryOp_fails[OF ok]
    by (simp add: bit_indices_ok_def RequiredSourceWidth_def mp_bits_def MpToSizeT_def size_t_max_def lit_int_def
        signed_take_bit_eq_take_bit_minus)
qed

text \<open>C3. Equality of an unsigned and a signed operand is decided on the bit patterns at the wider of
  the two widths \<open>W\<close>. The answer is wrong exactly when the signed one is negative and the unsigned
  one is larger by \<open>2^W\<close>; the ordered comparison of the same operands is right, so the two
  contradict each other. The unsigned 15 and the signed -1 of four bits are such a pair: they are
  evaluated as equal, and the first as greater.\<close>

theorem ImplementBinaryOp_EQ_mixed_sign:
  assumes "lit_ok a" and "lit_ok b" and "0 < w" and "l_width a \<le> mp_bits" and "l_width b \<le> mp_bits"
  shows "(ImplementBinaryOp mp_index a b w False True EQ = Some (of_bool (l_value a = lit_int True b)) \<longleftrightarrow>
      \<not> (lit_int True b < 0 \<and> l_value a = lit_int True b + 2 ^ max (l_width a) (l_width b))) \<and>
    ImplementBinaryOp mp_index a b w False True EQ \<in> {Some 0, Some 1} \<and>
    ImplementBinaryOp mp_index a b w False True GT = Some (of_bool (l_value a > lit_int True b))"
proof -
  let ?W = "max (l_width a) (l_width b)" and ?B = "lit_int True b"
  have ok: "bit_indices_ok EQ False True w a b" "bit_indices_ok GT False True w a b"
    using assms(4,5) by (simp_all add: bit_indices_ok_def RequiredSourceWidth_def)
  have a: "0 \<le> l_value a" "take_bit ?W (l_value a) = l_value a"
    using assms(1) take_bit_lit_nonneg[OF assms(1), of False ?W] by (simp_all add: lit_ok_def)
  have b: "take_bit ?W ?B = (if ?B < 0 then ?B + 2 ^ ?W else ?B)"
    using take_bit_lit_neg[OF assms(2), of True ?W] take_bit_lit_nonneg[OF assms(2), of True ?W] by simp
  have eq: "ImplementBinaryOp mp_index a b w False True EQ = Some (of_bool (l_value a = take_bit ?W ?B))"
    using ImplementBinaryOp_EQ_patterns[OF assms(1-3), of EQ False True] a(2)
    by (simp add: ImplementBinaryOp_mp[OF assms(1-3)] ok)
  have "ImplementBinaryOp mp_index a b w False True GT = Some (of_bool (l_value a > ?B))"
    using ImplementBinaryOp_order[OF assms(1-3), of GT False True]
    by (simp add: ImplementBinaryOp_mp[OF assms(1-3)] ok binop_spec_def)
  moreover have "(of_bool (l_value a = take_bit ?W ?B) :: int) = of_bool (l_value a = ?B) \<longleftrightarrow>
      \<not> (?B < 0 \<and> l_value a = ?B + 2 ^ ?W)"
    unfolding b using a(1) by auto
  ultimately show ?thesis unfolding eq by auto
qed

theorem ImplementBinaryOp_EQ_mixed_sign_witness:
  "lit_int True \<lparr>l_value = 15, l_width = 4\<rparr> = -1 \<and>
   ImplementBinaryOp mp_index \<lparr>l_value = 15, l_width = 4\<rparr> \<lparr>l_value = 15, l_width = 4\<rparr> 1 False True EQ = Some 1 \<and>
   ImplementBinaryOp mp_index \<lparr>l_value = 15, l_width = 4\<rparr> \<lparr>l_value = 15, l_width = 4\<rparr> 1 False True GT = Some 1"
proof -
  let ?l = "\<lparr>l_value = 15, l_width = 4\<rparr>"
  have "lit_ok ?l" by (simp add: lit_ok_def)
  moreover have "lit_int True ?l = -1" by (simp add: lit_int_def signed_take_bit_eq_take_bit_minus)
  ultimately show ?thesis
    using ImplementBinaryOp_EQ_mixed_sign[of ?l ?l 1] by (simp add: mp_bits_def) blast
qed

end
