(* ===== verification/Kanagawa_IR.thy ===== *)
theory Kanagawa_IR
  imports Literals
begin

text \<open>
  The operations of the intermediate representation (\<^verbatim>\<open>ir.h\<close>, \<^verbatim>\<open>ir.cpp\<close>) and what one
  operation computes. The opcode and the \<^verbatim>\<open>union\<close> of flags form one datatype: the payload is
  the member of the union the opcode selects, for the opcodes whose payload the modelled passes
  read. A \<^verbatim>\<open>LutEntry\<close> keeps its two fixed arrays and their count as the list of the
  \<^verbatim>\<open>_numSources\<close> valid (operand, bit) pairs; slots beyond the count are never read. Lookup
  tables are 64-bit words. A \<^verbatim>\<open>Lut\<close> is owned by one operation (the pointer to its entries is
  not shared).
\<close>

subsection \<open>Registers and operands\<close>

datatype RegisterType =
  RT_Global | RT_Local | RT_Pipeline | RT_Fifo | RT_Wire | RT_Memory | RT_GlobalView | RT_BitBucket

record RegisterDescription =
  rd_type :: RegisterType
  rd_width :: nat

type_synonym RegisterTable = "RegisterDescription list"

definition IsLocalRegisterType :: "RegisterType \<Rightarrow> bool" where
  "IsLocalRegisterType t \<longleftrightarrow> t \<in> {RT_Local, RT_Pipeline, RT_Wire}"

record FifoSubset =
  fs_registerIndex :: nat
  fs_offset :: nat
  fs_width :: nat

datatype SourceOperand =
    SrcLiteral Literal
  | SrcRegister nat
  | SrcFifo FifoSubset
  | SrcStringLiteral string

datatype DestinationOperand =
    DstRegister nat
  | DstFifo FifoSubset

definition GetAccessedRegister :: "SourceOperand \<Rightarrow> nat option" where
  "GetAccessedRegister s = (case s of SrcRegister r \<Rightarrow> Some r | _ \<Rightarrow> None)"

definition IsRegisterOperand :: "SourceOperand \<Rightarrow> bool" where
  "IsRegisterOperand s \<longleftrightarrow> (case s of SrcRegister _ \<Rightarrow> True | _ \<Rightarrow> False)"

definition IsLiteralOperand :: "SourceOperand \<Rightarrow> bool" where
  "IsLiteralOperand s \<longleftrightarrow> (case s of SrcLiteral _ \<Rightarrow> True | _ \<Rightarrow> False)"

text \<open>\<^verbatim>\<open>SourceOperand(const mp_int&)\<close> and \<^verbatim>\<open>SourceOperand(size_t, width = 64)\<close>.\<close>

definition SourceOperand_mp :: "int \<Rightarrow> SourceOperand option" where
  "SourceOperand_mp val = do { w \<leftarrow> GetMpWidth val; Some (SrcLiteral \<lparr>l_value = val, l_width = w\<rparr>) }"

definition SourceOperand_size :: "nat \<Rightarrow> SourceOperand" where
  "SourceOperand_size val = SrcLiteral \<lparr>l_value = int val, l_width = 64\<rparr>"

definition reg_width :: "RegisterTable \<Rightarrow> nat \<Rightarrow> nat" where
  "reg_width rt r = (if r < length rt then rd_width (rt ! r) else 0)"

fun SourceOperand_Width :: "RegisterTable \<Rightarrow> SourceOperand \<Rightarrow> nat" where
  "SourceOperand_Width rt (SrcLiteral l) = l_width l"
| "SourceOperand_Width rt (SrcRegister r) = reg_width rt r"
| "SourceOperand_Width rt (SrcFifo f) = fs_width f"
| "SourceOperand_Width rt (SrcStringLiteral _) = 0"

fun DestinationOperand_Width :: "RegisterTable \<Rightarrow> DestinationOperand \<Rightarrow> nat" where
  "DestinationOperand_Width rt (DstRegister r) = reg_width rt r"
| "DestinationOperand_Width rt (DstFifo f) = fs_width f"

subsection \<open>Lookup tables\<close>

definition c_maxLutSources :: nat where
  "c_maxLutSources = 6"

record LutEntry =
  le_sources :: "(nat \<times> nat) list"
  le_table :: "64 word"

abbreviation le_numSources :: "LutEntry \<Rightarrow> nat" where
  "le_numSources e \<equiv> length (le_sources e)"

definition IsConstantZero :: "LutEntry \<Rightarrow> bool" where
  "IsConstantZero e \<longleftrightarrow> le_table e = 0"

definition IsConstantOne :: "LutEntry \<Rightarrow> bool" where
  "IsConstantOne e \<longleftrightarrow>
     (le_numSources e = 0 \<and> le_table e = 1) \<or> (le_numSources e = 1 \<and> le_table e = 3)"

definition IsInvert :: "LutEntry \<Rightarrow> bool" where
  "IsInvert e \<longleftrightarrow> le_numSources e = 1 \<and> le_table e = 1"

definition IsPassthrough :: "LutEntry \<Rightarrow> bool" where
  "IsPassthrough e \<longleftrightarrow> le_numSources e = 1 \<and> le_table e = 2"

definition TableSize :: "LutEntry \<Rightarrow> nat option" where
  "TableSize e = do {
     _ \<leftarrow> assert_that (le_numSources e \<le> c_maxLutSources);
     Some (2 ^ le_numSources e) }"

definition TableMask :: "LutEntry \<Rightarrow> 64 word option" where
  "TableMask e = do {
     tableSize \<leftarrow> TableSize e;
     Some (if tableSize = 64 then - 1 else push_bit tableSize 1 - 1) }"

definition GetTableEntry :: "LutEntry \<Rightarrow> nat \<Rightarrow> bool option" where
  "GetTableEntry e rowIndex = do {
     tableSize \<leftarrow> TableSize e;
     _ \<leftarrow> assert_that (rowIndex < tableSize);
     Some (bit_at (le_table e) rowIndex) }"

text \<open>The row that the values of the source operands select.\<close>

definition tableRowIndex :: "(nat \<Rightarrow> int) \<Rightarrow> LutEntry \<Rightarrow> nat" where
  "tableRowIndex evalSrcOperand le =
     or_bits (le_numSources le)
       (\<lambda>i. bit (evalSrcOperand (fst (le_sources le ! i))) (snd (le_sources le ! i)))"

definition Lut_Evaluate :: "LutEntry list \<Rightarrow> (nat \<Rightarrow> int) \<Rightarrow> int option" where
  "Lut_Evaluate lutEntries evalSrcOperand =
     fold_opt (\<lambda>dstIndex result. do {
        let le = lutEntries ! dstIndex;
        b \<leftarrow> GetTableEntry le (tableRowIndex evalSrcOperand le);
        Some (if b then set_bit dstIndex result else result) })
       [0..<length lutEntries] 0"

subsection \<open>Operations\<close>

record GatherEntry =
  ge_sourceOffset :: nat
  ge_destOffset :: nat
  ge_numBits :: nat

datatype Opcode =
    Mov | MovCrossFunction | Clear
  | UnaryOp ParseTreeUnaryOpType
  | BinaryOp ParseTreeBinaryOpType
  | BeginAtomic | EndAtomic | Assert | Enqueue | Select | WriteGlobal | Print
  | Gather "GatherEntry list"
  | StoreMemory | LoadMemory | BypassMemory | AcquireSemaphore | ReleaseSemaphore
  | CallAtomic | AtomicReturn | FanOut | Stage | StartCondition | CycleCounter
  | MovLatencyPlaceholder | LineNumber
  | Lut "LutEntry list"
  | InlineExternalModule | ReadSelectedFifo | ExternalPlaceholder | DebugView
  | EnqueueRegisters | DequeueRegisters | PushPredicate | PopPredicate | StallCheck
  | LocationRecord | ConditionalIgnore | FormatString | FormatEnum | ReferenceString
  | AssertStringEqual | StringCount | NoOp

type_synonym FileAndLineNumber = "nat \<times> nat"

record Operation =
  op_opcode :: Opcode
  op_signExtendSourceMask :: "64 word"
  op_locations :: "FileAndLineNumber set"
  op_src :: "SourceOperand list"
  op_dst :: "DestinationOperand list"

definition ShouldSignExtend :: "Operation \<Rightarrow> nat \<Rightarrow> bool" where
  "ShouldSignExtend op srcOperand \<longleftrightarrow>
     op_signExtendSourceMask op AND push_bit srcOperand 1 \<noteq> 0"

definition PushOperand :: "Operation \<Rightarrow> SourceOperand \<Rightarrow> bool \<Rightarrow> Operation" where
  "PushOperand op srcOp signExtend =
     op\<lparr>op_src := op_src op @ [srcOp],
        op_signExtendSourceMask :=
          (if signExtend
           then op_signExtendSourceMask op OR push_bit (length (op_src op)) 1
           else op_signExtendSourceMask op)\<rparr>"

text \<open>\<^verbatim>\<open>Operation op = {}\<close> with an opcode, locations and one destination.\<close>

definition new_operation ::
  "Opcode \<Rightarrow> FileAndLineNumber set \<Rightarrow> DestinationOperand list \<Rightarrow> Operation" where
  "new_operation opcode locations dst =
     \<lparr>op_opcode = opcode, op_signExtendSourceMask = 0, op_locations = locations,
      op_src = [], op_dst = dst\<rparr>"

text \<open>The column \<^verbatim>\<open>_lowerToLut\<close> of \<^verbatim>\<open>g_opcodeTable\<close>.\<close>

definition CanOpcodeBeLoweredToLut :: "Opcode \<Rightarrow> bool" where
  "CanOpcodeBeLoweredToLut opcode \<longleftrightarrow>
     (case opcode of
        Mov \<Rightarrow> True | Clear \<Rightarrow> True | UnaryOp _ \<Rightarrow> True | BinaryOp _ \<Rightarrow> True
      | Select \<Rightarrow> True | Gather _ \<Rightarrow> True | Lut _ \<Rightarrow> True
      | _ \<Rightarrow> False)"

subsection \<open>What an operation computes\<close>

text \<open>
  The value an operation writes, given the values of the registers. \<open>operand_literal\<close> reads a
  source operand as a literal. The cases of \<open>eval_operation\<close> are the compile-time evaluation in
  \<^verbatim>\<open>ConstantPropagation\<close> (\<^verbatim>\<open>optimize.cpp\<close>), \<^verbatim>\<open>Lut::Evaluate\<close> for lookup tables and the
  multiplexer of \<^verbatim>\<open>ConvertOpToCirct\<close> (\<^verbatim>\<open>circt_util.cpp\<close>) for \<open>Select\<close>, whose index is
  resized to the logarithm of the number of choices.
\<close>

definition operand_literal ::
  "RegisterTable \<Rightarrow> (nat \<Rightarrow> int) \<Rightarrow> SourceOperand \<Rightarrow> Literal option" where
  "operand_literal rt env s =
     (case s of
        SrcLiteral l \<Rightarrow> Some l
      | SrcRegister r \<Rightarrow> Some \<lparr>l_value = env r, l_width = reg_width rt r\<rparr>
      | _ \<Rightarrow> None)"

definition operand_value :: "(nat \<Rightarrow> int) \<Rightarrow> SourceOperand \<Rightarrow> int" where
  "operand_value env s =
     (case s of SrcLiteral l \<Rightarrow> l_value l | SrcRegister r \<Rightarrow> env r | _ \<Rightarrow> 0)"

definition eval_gather :: "GatherEntry list \<Rightarrow> Literal list \<Rightarrow> int" where
  "eval_gather entries lits =
     fold (\<lambda>(e, l) combined.
         combined OR push_bit (ge_destOffset e)
           (Truncate (drop_bit (ge_sourceOffset e) (l_value l)) (ge_numBits e)))
       (zip entries lits) 0"

definition eval_select :: "(nat \<Rightarrow> bool) \<Rightarrow> Operation \<Rightarrow> nat \<Rightarrow> Literal list \<Rightarrow> int option" where
  "eval_select index_ok op dstWidth lits = do {
     _ \<leftarrow> assert_that (lits \<noteq> []);
     let numChoices = length lits - 1;
     selectIndexWidth \<leftarrow> Log2 (int numChoices);
     selectIndex \<leftarrow> Resize index_ok (lits ! 0) (ShouldSignExtend op 0) selectIndexWidth;
     Resize index_ok (lits ! (nat selectIndex + 1)) (ShouldSignExtend op (nat selectIndex + 1)) dstWidth }"

text \<open>The predicate is that of the bit indices: \<open>any_index\<close> for the value in hardware, \<open>mp_index\<close> for
  the value the compiler can compute.\<close>

definition eval_operation_in :: "(nat \<Rightarrow> bool) \<Rightarrow> RegisterTable \<Rightarrow> (nat \<Rightarrow> int) \<Rightarrow> Operation \<Rightarrow> int option" where
  "eval_operation_in index_ok rt env op = do {
     _ \<leftarrow> assert_that (length (op_dst op) = 1);
     let dstWidth = DestinationOperand_Width rt (op_dst op ! 0);
     lits \<leftarrow> map_opt (operand_literal rt env) (op_src op);
     (case op_opcode op of
        Mov \<Rightarrow> do {
          _ \<leftarrow> assert_that (length lits = 1);
          Resize index_ok (lits ! 0) (ShouldSignExtend op 0) dstWidth }
      | Clear \<Rightarrow> do {
          _ \<leftarrow> assert_that (length lits = 0);
          Some 0 }
      | UnaryOp t \<Rightarrow> do {
          _ \<leftarrow> assert_that (length lits = 1);
          ImplementUnaryOp index_ok (lits ! 0) (ShouldSignExtend op 0) t dstWidth }
      | BinaryOp t \<Rightarrow> do {
          _ \<leftarrow> assert_that (length lits = 2);
          ImplementBinaryOp index_ok (lits ! 0) (lits ! 1) dstWidth
            (ShouldSignExtend op 0) (ShouldSignExtend op 1) t }
      | Gather entries \<Rightarrow> do {
          _ \<leftarrow> assert_that (length entries = length lits);
          Some (Truncate (eval_gather entries lits) dstWidth) }
      | Select \<Rightarrow> eval_select index_ok op dstWidth lits
      | Lut entries \<Rightarrow> do {
          v \<leftarrow> Lut_Evaluate entries (\<lambda>i. operand_value env (op_src op ! i));
          Some (Truncate v dstWidth) }
      | _ \<Rightarrow> None) }"

abbreviation eval_operation :: "RegisterTable \<Rightarrow> (nat \<Rightarrow> int) \<Rightarrow> Operation \<Rightarrow> int option" where
  "eval_operation \<equiv> eval_operation_in any_index"

subsection \<open>Well-formed register values and entries\<close>

text \<open>Every register has a positive width and holds a number that fits it.\<close>

definition env_ok :: "RegisterTable \<Rightarrow> (nat \<Rightarrow> int) \<Rightarrow> bool" where
  "env_ok rt env \<longleftrightarrow>
     (\<forall>r < length rt. 0 < rd_width (rt ! r) \<and> 0 \<le> env r \<and> env r < 2 ^ rd_width (rt ! r))"

fun operand_ok :: "RegisterTable \<Rightarrow> SourceOperand \<Rightarrow> bool" where
  "operand_ok rt (SrcLiteral l) = lit_ok l"
| "operand_ok rt (SrcRegister r) = (r < length rt)"
| "operand_ok rt (SrcFifo _) = False"
| "operand_ok rt (SrcStringLiteral _) = False"

text \<open>A table entry with at most six columns whose unused table bits are zero, referring to
  \<open>n\<close> source operands.\<close>

definition entry_ok :: "nat \<Rightarrow> LutEntry \<Rightarrow> bool" where
  "entry_ok n e \<longleftrightarrow>
     le_numSources e \<le> c_maxLutSources \<and>
     (\<forall>(i, b) \<in> set (le_sources e). i < n) \<and>
     take_bit (2 ^ le_numSources e) (le_table e) = le_table e"

definition lut_ok :: "nat \<Rightarrow> LutEntry list \<Rightarrow> bool" where
  "lut_ok n es \<longleftrightarrow> (\<forall>e \<in> set es. entry_ok n e)"

definition entry_value :: "(nat \<Rightarrow> int) \<Rightarrow> LutEntry \<Rightarrow> bool" where
  "entry_value ev e \<longleftrightarrow> bit (le_table e) (tableRowIndex ev e)"

lemma ShouldSignExtend_bit: "i < 64 \<Longrightarrow> ShouldSignExtend op i \<longleftrightarrow> bit (op_signExtendSourceMask op) i"
proof -
  assume "i < 64"
  have "op_signExtendSourceMask op AND push_bit i 1 =
      push_bit i (of_bool (bit (op_signExtendSourceMask op) i))"
    by (rule bit_eqI) (auto simp: bit_and_iff bit_push_bit_iff bit_1_iff bit_exp_iff)
  with \<open>i < 64\<close> show ?thesis
    by (auto simp: ShouldSignExtend_def push_bit_eq_0_iff)
qed

lemma ShouldSignExtend_mask0 [simp]: "op_signExtendSourceMask op = 0 \<Longrightarrow> \<not> ShouldSignExtend op i"
  by (simp add: ShouldSignExtend_def)

lemma bit_tableRowIndex [kng_bits, simp]:
  "bit (tableRowIndex ev e) i \<longleftrightarrow>
     i < le_numSources e \<and> bit (ev (fst (le_sources e ! i))) (snd (le_sources e ! i))"
  by (simp add: tableRowIndex_def)

lemma tableRowIndex_less [simp]: "tableRowIndex ev e < 2 ^ le_numSources e"
  by (simp add: tableRowIndex_def)

lemma pow_sources_le: "le_numSources e \<le> c_maxLutSources \<Longrightarrow> (2::nat) ^ le_numSources e \<le> 64"
  using power_increasing[of "le_numSources e" 6 "2::nat"] by (simp add: c_maxLutSources_def)

lemma GetTableEntry_row:
  assumes "le_numSources e \<le> c_maxLutSources"
  shows "GetTableEntry e (tableRowIndex ev e) = Some (entry_value ev e)"
  using assms by (simp add: GetTableEntry_def TableSize_def entry_value_def)

text \<open>With at most six columns per entry, evaluation of a lookup table never throws and
  produces one bit per entry.\<close>

lemma Lut_Evaluate_eq:
  assumes "\<And>e. e \<in> set es \<Longrightarrow> le_numSources e \<le> c_maxLutSources"
  shows "Lut_Evaluate es ev = Some (or_bits (length es) (\<lambda>d. entry_value ev (es ! d)))"
proof -
  have "fold_opt (\<lambda>d r. do {
          let le = es ! d;
          b \<leftarrow> GetTableEntry le (tableRowIndex ev le);
          Some (if b then set_bit d r else r) }) [0..<n] (0::int) =
        Some (or_bits n (\<lambda>d. entry_value ev (es ! d)))" if "n \<le> length es" for n
    using that
  proof (induction n)
    case 0
    then show ?case by (simp add: or_bits_def)
  next
    case (Suc n)
    have "GetTableEntry (es ! n) (tableRowIndex ev (es ! n)) = Some (entry_value ev (es ! n))"
      using Suc.prems assms by (intro GetTableEntry_row) simp
    moreover have "or_bits (Suc n) (\<lambda>d. entry_value ev (es ! d)) =
        (if entry_value ev (es ! n) then set_bit n (or_bits n (\<lambda>d. entry_value ev (es ! d)))
         else or_bits n (\<lambda>d. entry_value ev (es ! d)) :: int)"
      by (rule bit_eqI) (auto simp: bit_set_bit_iff less_Suc_eq)
    ultimately show ?case
      using Suc by simp
  qed
  from this[of "length es"] show ?thesis
    by (simp add: Lut_Evaluate_def)
qed

lemma lut_ok_sources: "lut_ok n es \<Longrightarrow> e \<in> set es \<Longrightarrow> le_numSources e \<le> c_maxLutSources"
  by (simp add: lut_ok_def entry_ok_def)

lemma operand_literal_total:
  "operand_ok rt s \<Longrightarrow> \<exists>l. operand_literal rt env s = Some l"
  by (cases s) (auto simp: operand_literal_def)

lemma operand_literal_ok:
  assumes "operand_ok rt s" "env_ok rt env" "operand_literal rt env s = Some l"
  shows "lit_ok l" "l_width l = SourceOperand_Width rt s" "l_value l = operand_value env s"
  using assms
  by (cases s; auto simp: operand_literal_def env_ok_def lit_ok_def reg_width_def operand_value_def)+

end
