(* ===== verification/Lower_Lut.thy ===== *)
theory Lower_Lut
  imports Kanagawa_IR
begin

text \<open>
  Conversion of operations to lookup tables: the first half of \<^verbatim>\<open>optimize_lut.cpp\<close>
  (\<^verbatim>\<open>GetLiteralBit\<close> to \<^verbatim>\<open>LowerToLut\<close>). Each converter builds one \<^verbatim>\<open>LutEntry\<close> per bit of the
  destination. The theorems show that the table computes what the operation computed, for every
  value of the registers.
\<close>

subsection \<open>Bits of source operands\<close>

definition GetLiteralBit :: "Operation \<Rightarrow> nat \<Rightarrow> nat \<Rightarrow> bool option" where
  "GetLiteralBit op operandIndex bitIndex =
     (case op_src op ! operandIndex of
        SrcLiteral lit \<Rightarrow> do {
          _ \<leftarrow> assert_that (l_width lit > 0);
          Some (if bitIndex < l_width lit then bit (l_value lit) bitIndex
                else if ShouldSignExtend op operandIndex then bit (l_value lit) (l_width lit - 1)
                else False) }
      | _ \<Rightarrow> None)"

text \<open>\<^verbatim>\<open>LutSourceDesc\<close>: the flag \<^verbatim>\<open>_isLiteral\<close> selects which of the two other fields counts.\<close>

datatype LutSourceDesc = LiteralBit bool | SourceBit nat

definition DescribeOperand ::
  "RegisterTable \<Rightarrow> Operation \<Rightarrow> nat \<Rightarrow> nat \<Rightarrow> LutSourceDesc option" where
  "DescribeOperand rt op srcIdx srcOperandIndex =
     (let srcOperand = op_src op ! srcOperandIndex
      in if IsLiteralOperand srcOperand
         then do { v \<leftarrow> GetLiteralBit op srcOperandIndex srcIdx; Some (LiteralBit v) }
         else do {
           let srcWidth = SourceOperand_Width rt srcOperand;
           _ \<leftarrow> assert_that (srcWidth > 0);
           Some (if srcIdx < srcWidth then SourceBit srcIdx
                 else if ShouldSignExtend op srcOperandIndex then SourceBit (srcWidth - 1)
                 else LiteralBit False) })"

definition GetSourceOperandDescriptions ::
  "RegisterTable \<Rightarrow> Operation \<Rightarrow> nat \<Rightarrow> LutSourceDesc list option" where
  "GetSourceOperandDescriptions rt op srcIdx =
     map_opt (DescribeOperand rt op srcIdx) [0..<length (op_src op)]"

subsection \<open>Pointwise operators\<close>

text \<open>The columns of the new table: one per operand that is not a literal.\<close>

fun collect_sources :: "nat \<Rightarrow> LutSourceDesc list \<Rightarrow> (nat \<times> nat) list" where
  "collect_sources i [] = []"
| "collect_sources i (LiteralBit v # ds) = collect_sources (Suc i) ds"
| "collect_sources i (SourceBit b # ds) = (i, b) # collect_sources (Suc i) ds"

text \<open>The loop that maps a row of the new table to a row of the operator's table: \<open>i\<close> is the
  operand, \<open>n\<close> the number of columns consumed so far.\<close>

fun input_index :: "nat \<Rightarrow> LutSourceDesc list \<Rightarrow> nat \<Rightarrow> nat \<Rightarrow> nat \<Rightarrow> nat" where
  "input_index row [] i n acc = acc"
| "input_index row (LiteralBit v # ds) i n acc =
     input_index row ds (Suc i) n (acc OR push_bit i (of_bool v))"
| "input_index row (SourceBit b # ds) i n acc =
     input_index row ds (Suc i) (Suc n) (acc OR push_bit i (of_bool (bit_at row n)))"

definition PointwiseEntry :: "64 word \<Rightarrow> LutSourceDesc list \<Rightarrow> LutEntry option" where
  "PointwiseEntry inputTable sourceDescs = do {
     let sources = collect_sources 0 sourceDescs;
     _ \<leftarrow> assert_that (length sources \<le> c_maxLutSources);
     Some \<lparr>le_sources = sources,
           le_table = or_bits (2 ^ length sources)
             (\<lambda>outputTableIndex. bit_at inputTable (input_index outputTableIndex sourceDescs 0 0 0))\<rparr> }"

definition ConvertPointwiseOpToLut ::
  "RegisterTable \<Rightarrow> Operation \<Rightarrow> 64 word \<Rightarrow> Operation option" where
  "ConvertPointwiseOpToLut rt op inputTable = do {
     _ \<leftarrow> assert_that (length (op_dst op) = 1);
     let dstWidth = DestinationOperand_Width rt (op_dst op ! 0);
     _ \<leftarrow> assert_that (length (op_src op) \<le> c_maxLutSources);
     lut \<leftarrow> map_opt (\<lambda>dstIdx. do {
         sourceDescs \<leftarrow> GetSourceOperandDescriptions rt op dstIdx;
         PointwiseEntry inputTable sourceDescs }) [0..<dstWidth];
     Some (op\<lparr>op_opcode := Lut lut, op_signExtendSourceMask := 0\<rparr>) }"

subsection \<open>Shifts by a constant\<close>

text \<open>Which source bit reaches destination bit \<open>dstIdx\<close>; \<open>None\<close> for a constant zero.\<close>

definition ShiftSource :: "ParseTreeBinaryOpType \<Rightarrow> bool \<Rightarrow> nat \<Rightarrow> nat \<Rightarrow> nat \<Rightarrow> nat option" where
  "ShiftSource type lhsSigned srcWidth shiftAmount dstIdx =
     (if type = Shl then
        (if dstIdx < shiftAmount then None
         else if dstIdx \<ge> srcWidth + shiftAmount then
           (if lhsSigned then Some (srcWidth - 1) else None)
         else Some (dstIdx - shiftAmount))
      else if srcWidth \<ge> shiftAmount then
        (let srcWidthMinusShift = srcWidth - shiftAmount
         in if lhsSigned
            then Some (if dstIdx \<ge> srcWidthMinusShift then srcWidth - 1 else dstIdx + shiftAmount)
            else if dstIdx \<ge> srcWidthMinusShift then None
            else Some (dstIdx + shiftAmount))
      else (if lhsSigned then Some (srcWidth - 1) else None))"

definition ShiftEntry :: "nat \<Rightarrow> nat option \<Rightarrow> LutEntry option" where
  "ShiftEntry srcWidth srcBit =
     (case srcBit of
        None \<Rightarrow> Some \<lparr>le_sources = [], le_table = 0\<rparr>
      | Some b \<Rightarrow> do {
          _ \<leftarrow> assert_that (b < srcWidth);
          Some \<lparr>le_sources = [(0, b)], le_table = 2\<rparr> })"

definition ConvertShiftOpToLut ::
  "RegisterTable \<Rightarrow> Operation \<Rightarrow> ParseTreeBinaryOpType \<Rightarrow> Operation option" where
  "ConvertShiftOpToLut rt op type = do {
     _ \<leftarrow> assert_that (length (op_src op) = 2);
     _ \<leftarrow> assert_that (length (op_dst op) = 1);
     let lhsSigned = ShouldSignExtend op 0;
     _ \<leftarrow> assert_that (\<not> ShouldSignExtend op 1);
     (case op_src op ! 1 of
        SrcLiteral shift \<Rightarrow>
          if IsLiteralOperand (op_src op ! 0) then Some op
          else do {
            shiftAmount \<leftarrow> MpToSizeT (l_value shift);
            _ \<leftarrow> assert_that (type = Shl \<or> type = Shr);
            let srcWidth = SourceOperand_Width rt (op_src op ! 0);
            let dstWidth = DestinationOperand_Width rt (op_dst op ! 0);
            lut \<leftarrow> map_opt (\<lambda>dstIdx.
                ShiftEntry srcWidth (ShiftSource type lhsSigned srcWidth shiftAmount dstIdx))
              [0..<dstWidth];
            Some (op\<lparr>op_opcode := Lut lut, op_signExtendSourceMask := 0\<rparr>) }
      | _ \<Rightarrow> Some op) }"

subsection \<open>Operators with few input bits\<close>

text \<open>The operand values that a row of the new table stands for.\<close>

definition RowOperand :: "RegisterTable \<Rightarrow> SourceOperand \<Rightarrow> nat \<Rightarrow> nat \<Rightarrow> Literal \<times> nat" where
  "RowOperand rt srcOp row outputTableOffset =
     (case srcOp of
        SrcLiteral l \<Rightarrow> (l, outputTableOffset)
      | _ \<Rightarrow>
        (let srcWidth = SourceOperand_Width rt srcOp; mask = 2 ^ srcWidth - 1
         in (\<lparr>l_value = int (drop_bit outputTableOffset row AND mask), l_width = srcWidth\<rparr>,
             outputTableOffset + srcWidth)))"

definition BinaryRow ::
  "RegisterTable \<Rightarrow> Operation \<Rightarrow> ParseTreeBinaryOpType \<Rightarrow> nat \<Rightarrow> nat \<Rightarrow> nat \<Rightarrow> int option" where
  "BinaryRow rt op type dstWidth inputBitCount row = do {
     let (srcVal0, offset0) = RowOperand rt (op_src op ! 0) row 0;
     let (srcVal1, offset1) = RowOperand rt (op_src op ! 1) row offset0;
     _ \<leftarrow> assert_that (offset1 = inputBitCount);
     ImplementBinaryOp mp_index srcVal0 srcVal1 dstWidth (ShouldSignExtend op 0) (ShouldSignExtend op 1) type }"

definition register_bits :: "RegisterTable \<Rightarrow> Operation \<Rightarrow> nat \<Rightarrow> (nat \<times> nat) list" where
  "register_bits rt op srcOpIdx =
     (if IsRegisterOperand (op_src op ! srcOpIdx)
      then map (Pair srcOpIdx) [0..<SourceOperand_Width rt (op_src op ! srcOpIdx)]
      else [])"

definition ConvertBinaryOpToLut ::
  "RegisterTable \<Rightarrow> Operation \<Rightarrow> ParseTreeBinaryOpType \<Rightarrow> Operation option" where
  "ConvertBinaryOpToLut rt op type = do {
     _ \<leftarrow> assert_that (length (op_src op) = 2);
     _ \<leftarrow> assert_that (length (op_dst op) = 1);
     let inputBitCount = sum_list (map (SourceOperand_Width rt) (filter IsRegisterOperand (op_src op)));
     let dstWidth = DestinationOperand_Width rt (op_dst op ! 0);
     if inputBitCount \<le> c_maxLutSources then do {
       resultTable \<leftarrow> map_opt (BinaryRow rt op type dstWidth inputBitCount) [0..<2 ^ inputBitCount];
       let sources = register_bits rt op 0 @ register_bits rt op 1;
       _ \<leftarrow> assert_that (length sources = inputBitCount);
       let lut = map (\<lambda>dstIdx.
           \<lparr>le_sources = sources,
            le_table = or_bits (2 ^ inputBitCount) (\<lambda>row. bit (resultTable ! row) dstIdx)\<rparr>)
         [0..<dstWidth];
       Some (op\<lparr>op_opcode := Lut lut, op_signExtendSourceMask := 0\<rparr>) }
     else Some op }"

subsection \<open>Select\<close>

definition SelectEntry :: "nat \<Rightarrow> LutSourceDesc list \<Rightarrow> LutEntry" where
  "SelectEntry numIndexBits choiceDescs =
     (let sources = map (Pair 0) [0..<numIndexBits] @ collect_sources 1 choiceDescs
      in \<lparr>le_sources = sources,
          le_table = or_bits (2 ^ length sources) (\<lambda>outputValue.
            (let index = outputValue AND (2 ^ numIndexBits - 1);
                 choiceBits = input_index outputValue choiceDescs 0 numIndexBits 0
             in bit_at choiceBits index))\<rparr>)"

text \<open>One destination bit; the loop gives up (\<open>None\<close> in the accumulator) at the first entry
  with too many columns.\<close>

definition SelectStep ::
  "RegisterTable \<Rightarrow> Operation \<Rightarrow> nat \<Rightarrow> nat \<Rightarrow> LutEntry list option \<Rightarrow> LutEntry list option option" where
  "SelectStep rt op numIndexBits dstIdx acc =
     (case acc of
        None \<Rightarrow> Some None
      | Some lut \<Rightarrow> do {
          sourceDescs \<leftarrow> GetSourceOperandDescriptions rt op dstIdx;
          let entry = SelectEntry numIndexBits (tl sourceDescs);
          Some (if le_numSources entry > c_maxLutSources then None else Some (lut @ [entry])) })"

definition ConvertSelectOpToLut :: "RegisterTable \<Rightarrow> Operation \<Rightarrow> Operation option" where
  "ConvertSelectOpToLut rt op = do {
     _ \<leftarrow> assert_that (length (op_dst op) = 1);
     _ \<leftarrow> assert_that (op_src op \<noteq> []);
     if IsRegisterOperand (op_src op ! 0) then do {
       let numChoices = length (op_src op) - 1;
       _ \<leftarrow> assert_that (IsPow2 (int numChoices));
       numIndexBits \<leftarrow> Log2 (int numChoices);
       _ \<leftarrow> assert_that (SourceOperand_Width rt (op_src op ! 0) \<ge> numIndexBits);
       let dstWidth = DestinationOperand_Width rt (op_dst op ! 0);
       result \<leftarrow> fold_opt (SelectStep rt op numIndexBits) [0..<dstWidth] (Some []);
       (case result of
          None \<Rightarrow> Some op
        | Some lut \<Rightarrow> Some (op\<lparr>op_opcode := Lut lut, op_signExtendSourceMask := 0\<rparr>)) }
     else Some op }"

subsection \<open>Gather\<close>

definition GatherBit ::
  "Operation \<Rightarrow> nat \<Rightarrow> GatherEntry \<Rightarrow> nat \<Rightarrow> LutEntry list \<Rightarrow> LutEntry list option" where
  "GatherBit op i gatherEntry j lut = do {
     let srcBit = ge_sourceOffset gatherEntry + j;
     let dstBit = ge_destOffset gatherEntry + j;
     _ \<leftarrow> assert_that (dstBit < length lut);
     entry \<leftarrow> (if IsLiteralOperand (op_src op ! i)
               then do { v \<leftarrow> GetLiteralBit op i srcBit;
                         Some \<lparr>le_sources = [], le_table = of_bool v\<rparr> }
               else Some \<lparr>le_sources = [(i, srcBit)], le_table = 2\<rparr>);
     Some (lut[dstBit := entry]) }"

definition ConvertGatherOpToLut ::
  "RegisterTable \<Rightarrow> Operation \<Rightarrow> GatherEntry list \<Rightarrow> Operation option" where
  "ConvertGatherOpToLut rt op gatherEntries = do {
     _ \<leftarrow> assert_that (length (op_dst op) = 1);
     _ \<leftarrow> assert_that (length gatherEntries = length (op_src op));
     let dstWidth = DestinationOperand_Width rt (op_dst op ! 0);
     lut \<leftarrow> fold_opt (\<lambda>i lut.
         fold_opt (GatherBit op i (gatherEntries ! i)) [0..<ge_numBits (gatherEntries ! i)] lut)
       [0..<length (op_src op)] (replicate dstWidth \<lparr>le_sources = [], le_table = 0\<rparr>);
     Some (op\<lparr>op_opcode := Lut lut, op_signExtendSourceMask := 0\<rparr>) }"

subsection \<open>LowerToLut\<close>

definition IsLut :: "Operation \<Rightarrow> bool" where
  "IsLut op \<longleftrightarrow> (case op_opcode op of Lut _ \<Rightarrow> True | _ \<Rightarrow> False)"

definition LowerBinaryOp ::
  "RegisterTable \<Rightarrow> Operation \<Rightarrow> ParseTreeBinaryOpType \<Rightarrow> Operation option" where
  "LowerBinaryOp rt op type = do {
     _ \<leftarrow> assert_that (length (op_src op) = 2);
     _ \<leftarrow> assert_that (length (op_dst op) = 1);
     op' \<leftarrow> (if type = And then ConvertPointwiseOpToLut rt op 8
            else if type = Or then ConvertPointwiseOpToLut rt op 14
            else if type = Xor then ConvertPointwiseOpToLut rt op 6
            else if type = Shl \<or> type = Shr then ConvertShiftOpToLut rt op type
            else Some op);
     if IsLut op' then Some op' else ConvertBinaryOpToLut rt op' type }"

text \<open>The two behaviours of the source (shared or copied entries) coincide in this model. The
  result pairs the operation left behind with the returned flag.\<close>

definition LowerToLut :: "RegisterTable \<Rightarrow> Operation \<Rightarrow> (Operation \<times> bool) option" where
  "LowerToLut rt op = do {
     _ \<leftarrow> assert_that (CanOpcodeBeLoweredToLut (op_opcode op));
     op' \<leftarrow> (case op_opcode op of
         Mov \<Rightarrow> do {
           _ \<leftarrow> assert_that (length (op_src op) = 1);
           _ \<leftarrow> assert_that (length (op_dst op) = 1);
           ConvertPointwiseOpToLut rt op 2 }
       | Clear \<Rightarrow> do {
           _ \<leftarrow> assert_that (length (op_src op) = 0);
           _ \<leftarrow> assert_that (length (op_dst op) = 1);
           ConvertPointwiseOpToLut rt op 0 }
       | UnaryOp t \<Rightarrow> do {
           _ \<leftarrow> assert_that (length (op_src op) = 1);
           _ \<leftarrow> assert_that (length (op_dst op) = 1);
           _ \<leftarrow> assert_that (t = Invert);
           ConvertPointwiseOpToLut rt op 1 }
       | BinaryOp t \<Rightarrow> LowerBinaryOp rt op t
       | Select \<Rightarrow> ConvertSelectOpToLut rt op
       | Gather entries \<Rightarrow> ConvertGatherOpToLut rt op entries
       | Lut _ \<Rightarrow> Some op
       | _ \<Rightarrow> None);
     let op'' = (if IsLut op' then op'\<lparr>op_signExtendSourceMask := 0\<rparr> else op');
     Some (op'', IsLut op'') }"

subsection \<open>The bit a description stands for\<close>

definition desc_value :: "(nat \<Rightarrow> int) \<Rightarrow> nat \<Rightarrow> LutSourceDesc \<Rightarrow> bool" where
  "desc_value ev i d = (case d of LiteralBit v \<Rightarrow> v | SourceBit b \<Rightarrow> bit (ev i) b)"

abbreviation src_values :: "(nat \<Rightarrow> int) \<Rightarrow> Operation \<Rightarrow> nat \<Rightarrow> int" where
  "src_values env op \<equiv> (\<lambda>i. operand_value env (op_src op ! i))"

text \<open>The number operand \<open>i\<close> denotes, sign extended where the operation says so.\<close>

definition src_int :: "RegisterTable \<Rightarrow> (nat \<Rightarrow> int) \<Rightarrow> Operation \<Rightarrow> nat \<Rightarrow> int" where
  "src_int rt env op i =
     lit_int (ShouldSignExtend op i)
       \<lparr>l_value = operand_value env (op_src op ! i), l_width = SourceOperand_Width rt (op_src op ! i)\<rparr>"

definition srcs_ok :: "RegisterTable \<Rightarrow> Operation \<Rightarrow> bool" where
  "srcs_ok rt op \<longleftrightarrow> (\<forall>s \<in> set (op_src op). operand_ok rt s)"

lemma bit_lit_int:
  assumes "lit_ok l"
  shows "bit (lit_int se l) d \<longleftrightarrow>
     (if d < l_width l then bit (l_value l) d else se \<and> bit (l_value l) (l_width l - 1))"
proof -
  from assms obtain n where n: "l_width l = Suc n"
    by (cases "l_width l") (auto simp: lit_ok_def)
  show ?thesis
    using lit_ok_bit_less[OF assms, of d] n
    by (cases d n rule: linorder_cases)
      (auto simp: lit_int_def bit_signed_take_bit_iff min_def)
qed

text \<open>A well-formed operand reads as a well-formed literal.\<close>

lemma operand_literal_eq:
  assumes "operand_ok rt s"
  shows "operand_literal rt env s =
     Some \<lparr>l_value = operand_value env s, l_width = SourceOperand_Width rt s\<rparr>"
  using assms by (cases s) (auto simp: operand_literal_def operand_value_def)

lemma operand_lit_ok:
  assumes "operand_ok rt s" "env_ok rt env"
  shows "lit_ok \<lparr>l_value = operand_value env s, l_width = SourceOperand_Width rt s\<rparr>"
  using operand_literal_ok(1)[OF assms operand_literal_eq[OF assms(1)]] .

lemma srcs_ok_nth: "srcs_ok rt op \<Longrightarrow> i < length (op_src op) \<Longrightarrow> operand_ok rt (op_src op ! i)"
  by (simp add: srcs_ok_def)

lemma map_opt_literals:
  assumes "srcs_ok rt op"
  shows "map_opt (operand_literal rt env) (op_src op) =
     Some (map (\<lambda>s. \<lparr>l_value = operand_value env s, l_width = SourceOperand_Width rt s\<rparr>) (op_src op))"
  using assms by (intro map_opt_total) (simp add: srcs_ok_def operand_literal_eq)

lemma bit_src_int:
  assumes "srcs_ok rt op" "env_ok rt env" "i < length (op_src op)"
  shows "bit (src_int rt env op i) d \<longleftrightarrow>
     (if d < SourceOperand_Width rt (op_src op ! i) then bit (operand_value env (op_src op ! i)) d
      else ShouldSignExtend op i \<and>
        bit (operand_value env (op_src op ! i)) (SourceOperand_Width rt (op_src op ! i) - 1))"
  unfolding src_int_def
  using bit_lit_int[OF operand_lit_ok[OF srcs_ok_nth[OF assms(1,3)] assms(2)]] by simp

lemma DescribeOperand_value:
  assumes "srcs_ok rt op" "env_ok rt env" "i < length (op_src op)"
    and "DescribeOperand rt op d i = Some ds"
  shows "desc_value (src_values env op) i ds \<longleftrightarrow> bit (src_int rt env op i) d"
  using assms(4) bit_src_int[OF assms(1-3), of d] srcs_ok_nth[OF assms(1,3)]
  by (cases "op_src op ! i")
    (auto simp: DescribeOperand_def IsLiteralOperand_def GetLiteralBit_def desc_value_def
      operand_value_def Let_def split: if_splits)

lemma DescribeOperand_total:
  assumes "srcs_ok rt op" "env_ok rt env" "i < length (op_src op)"
  shows "\<exists>ds. DescribeOperand rt op d i = Some ds"
  using srcs_ok_nth[OF assms(1,3)] assms(2)
  by (cases "op_src op ! i")
    (auto simp: DescribeOperand_def IsLiteralOperand_def GetLiteralBit_def lit_ok_def env_ok_def
      reg_width_def Let_def bind_assert_if)

lemma descriptions_value:
  assumes "srcs_ok rt op" "env_ok rt env" "GetSourceOperandDescriptions rt op d = Some ds"
  shows "length ds = length (op_src op)"
    and "i < length (op_src op) \<Longrightarrow>
      desc_value (src_values env op) i (ds ! i) \<longleftrightarrow> bit (src_int rt env op i) d"
proof -
  from assms(3) have ds: "map_opt (DescribeOperand rt op d) [0..<length (op_src op)] = Some ds"
    by (simp add: GetSourceOperandDescriptions_def)
  from map_opt_length[OF ds] show "length ds = length (op_src op)" by simp
  assume "i < length (op_src op)"
  with map_opt_nth[OF ds, of i] show
    "desc_value (src_values env op) i (ds ! i) \<longleftrightarrow> bit (src_int rt env op i) d"
    using DescribeOperand_value[OF assms(1,2)] by simp
qed

lemma descriptions_total:
  assumes "srcs_ok rt op" "env_ok rt env"
  shows "\<exists>ds. GetSourceOperandDescriptions rt op d = Some ds"
proof -
  have "DescribeOperand rt op d i = Some (the (DescribeOperand rt op d i))"
    if "i \<in> set [0..<length (op_src op)]" for i
    using DescribeOperand_total[OF assms, of i d] that by auto
  then show ?thesis
    unfolding GetSourceOperandDescriptions_def
    using map_opt_total[of "[0..<length (op_src op)]" "DescribeOperand rt op d"
        "\<lambda>i. the (DescribeOperand rt op d i)"] by blast
qed

subsection \<open>Rows of the assembled tables\<close>

definition is_source :: "LutSourceDesc \<Rightarrow> bool" where
  "is_source d \<longleftrightarrow> (case d of SourceBit _ \<Rightarrow> True | LiteralBit _ \<Rightarrow> False)"

lemma is_source_simps [simp]: "is_source (SourceBit b)" "\<not> is_source (LiteralBit v)"
  by (simp_all add: is_source_def)

lemma length_collect_sources: "length (collect_sources i ds) = length (filter is_source ds)"
  by (induction i ds rule: collect_sources.induct) simp_all

lemma collect_sources_range:
  "(j, b) \<in> set (collect_sources i ds) \<Longrightarrow> i \<le> j \<and> j < i + length ds"
  by (induction i ds rule: collect_sources.induct) auto

text \<open>The column of operand \<open>k\<close> is the number of non-literal operands before it.\<close>

lemma collect_sources_nth:
  "k < length ds \<Longrightarrow> ds ! k = SourceBit b \<Longrightarrow>
     length (filter is_source (take k ds)) < length (collect_sources i ds) \<and>
     collect_sources i ds ! length (filter is_source (take k ds)) = (i + k, b)"
proof (induction i ds arbitrary: k rule: collect_sources.induct)
  case (2 i v ds)
  then show ?case by (cases k) auto
next
  case (3 i b' ds)
  then show ?case by (cases k) auto
qed auto

lemma bit_input_index:
  "bit (input_index row ds i n acc) j \<longleftrightarrow>
     bit acc j \<or> (i \<le> j \<and> j < i + length ds \<and>
       (case ds ! (j - i) of
          LiteralBit v \<Rightarrow> v
        | SourceBit b \<Rightarrow> bit row (n + length (filter is_source (take (j - i) ds)))))"
proof (induction row ds i n acc rule: input_index.induct)
  case (2 row v ds i n acc)
  then show ?case
    by (cases j i rule: linorder_cases)
      (auto simp: bit_or_iff bit_push_bit_iff bit_of_bool_iff nth_Cons' take_Cons'
        split: LutSourceDesc.splits)
next
  case (3 row b ds i n acc)
  then show ?case
    by (cases j i rule: linorder_cases)
      (auto simp: bit_or_iff bit_push_bit_iff bit_of_bool_iff nth_Cons' take_Cons'
        split: LutSourceDesc.splits)
qed auto

text \<open>Reading the operands' bits back from a row whose columns hold them.\<close>

lemma input_index_row:
  assumes "\<And>k. k < length (collect_sources i ds) \<Longrightarrow>
      bit row (n + k) = bit (ev (fst (collect_sources i ds ! k))) (snd (collect_sources i ds ! k))"
  shows "input_index row ds 0 n 0 = or_bits (length ds) (\<lambda>j. desc_value ev (i + j) (ds ! j))"
proof (rule bit_eqI)
  fix j
  show "bit (input_index row ds 0 n 0) j =
      bit (or_bits (length ds) (\<lambda>j. desc_value ev (i + j) (ds ! j)) :: nat) j"
  proof (cases "j < length ds")
    case True
    then show ?thesis
      using collect_sources_nth[of j ds _ i] assms
      by (auto simp: bit_input_index desc_value_def split: LutSourceDesc.splits)
  qed (simp add: bit_input_index)
qed

lemma pointwise_entry_value:
  assumes "PointwiseEntry t ds = Some e"
  shows "entry_value ev e = bit t (or_bits (length ds) (\<lambda>j. desc_value ev j (ds ! j)))"
    and "le_numSources e \<le> c_maxLutSources"
proof -
  from assms have e: "le_sources e = collect_sources 0 ds"
      "le_table e = or_bits (2 ^ le_numSources e) (\<lambda>r. bit t (input_index r ds 0 0 0))"
    and le: "le_numSources e \<le> c_maxLutSources"
    by (auto simp: PointwiseEntry_def Let_def)
  have "input_index (tableRowIndex ev e) ds 0 0 0 =
      or_bits (length ds) (\<lambda>j. desc_value ev (0 + j) (ds ! j))"
    by (rule input_index_row) (simp add: e(1))
  moreover have "tableRowIndex ev e < 64"
    using tableRowIndex_less[of ev e] pow_sources_le[OF le] by linarith
  ultimately show "entry_value ev e = bit t (or_bits (length ds) (\<lambda>j. desc_value ev j (ds ! j)))"
    by (simp add: entry_value_def e(2))
  show "le_numSources e \<le> c_maxLutSources" by (rule le)
qed

text \<open>An operation that became a lookup table evaluates to the number its entries spell.\<close>

lemma eval_lut_op:
  assumes "srcs_ok rt op" "length (op_dst op) = 1"
    and "length es = DestinationOperand_Width rt (op_dst op ! 0)"
    and "\<And>e. e \<in> set es \<Longrightarrow> le_numSources e \<le> c_maxLutSources"
    and "\<And>d. d < length es \<Longrightarrow> entry_value (src_values env op) (es ! d) = bit V d"
  shows "eval_operation rt env (op\<lparr>op_opcode := Lut es, op_signExtendSourceMask := 0\<rparr>) =
    Some (take_bit (length es) V)"
proof -
  have "take_bit (length es) (or_bits (length es) (\<lambda>d. entry_value (src_values env op) (es ! d))) =
      take_bit (length es) (V :: int)"
    by (rule bit_eqI) (auto simp: bit_take_bit_iff assms(5))
  then show ?thesis
    using assms(2,3) map_opt_literals[OF assms(1), of env] Lut_Evaluate_eq[OF assms(4)]
    by (simp add: eval_operation_in_def)
qed

text \<open>A pointwise conversion computes, in every destination bit, the table at the operands' bits.\<close>

lemma ConvertPointwiseOpToLut_eval:
  assumes "srcs_ok rt op" "env_ok rt env" "ConvertPointwiseOpToLut rt op t = Some op'"
    and "\<And>d. bit V d = bit t (or_bits (length (op_src op)) (\<lambda>i. bit (src_int rt env op i) d))"
  shows "eval_operation rt env op' =
    Some (take_bit (DestinationOperand_Width rt (op_dst op ! 0)) V)"
proof -
  let ?w = "DestinationOperand_Width rt (op_dst op ! 0)"
  from assms(3) obtain es where es: "map_opt (\<lambda>d. do {
         sourceDescs \<leftarrow> GetSourceOperandDescriptions rt op d;
         PointwiseEntry t sourceDescs }) [0..<?w] = Some es"
    and op': "op' = op\<lparr>op_opcode := Lut es, op_signExtendSourceMask := 0\<rparr>"
    and dst: "length (op_dst op) = 1"
    by (auto simp: ConvertPointwiseOpToLut_def Let_def split: bind_splits)
  from map_opt_length[OF es] have len: "length es = ?w" by simp
  have ent: "entry_value (src_values env op) (es ! d) = bit V d \<and>
      le_numSources (es ! d) \<le> c_maxLutSources" if "d < ?w" for d
  proof -
    from map_opt_nth[OF es, of d] that obtain ds where
      ds: "GetSourceOperandDescriptions rt op d = Some ds" "PointwiseEntry t ds = Some (es ! d)"
      by (auto split: bind_splits)
    note desc = descriptions_value[OF assms(1,2) ds(1)]
    have "(or_bits (length ds) (\<lambda>j. desc_value (src_values env op) j (ds ! j)) :: nat) =
        or_bits (length (op_src op)) (\<lambda>i. bit (src_int rt env op i) d)"
      by (rule or_bits_cong) (simp_all add: desc)
    then show ?thesis
      using pointwise_entry_value(1)[OF ds(2), of "src_values env op"] pointwise_entry_value(2)[OF ds(2)]
      by (simp add: assms(4))
  qed
  have "eval_operation rt env (op\<lparr>op_opcode := Lut es, op_signExtendSourceMask := 0\<rparr>) =
      Some (take_bit (length es) V)"
    using ent by (intro eval_lut_op[OF assms(1) dst len]) (auto simp: in_set_conv_nth len)
  then show ?thesis
    by (simp add: op' len)
qed

lemma ConvertPointwiseOpToLut_total:
  assumes "srcs_ok rt op" "env_ok rt env" "length (op_dst op) = 1"
    and "length (op_src op) \<le> c_maxLutSources"
  shows "\<exists>es. ConvertPointwiseOpToLut rt op t =
    Some (op\<lparr>op_opcode := Lut es, op_signExtendSourceMask := 0\<rparr>)"
proof -
  let ?f = "\<lambda>d. do { sourceDescs \<leftarrow> GetSourceOperandDescriptions rt op d; PointwiseEntry t sourceDescs }"
  have "?f d = Some (the (?f d))" for d
  proof -
    obtain ds where ds: "GetSourceOperandDescriptions rt op d = Some ds"
      using descriptions_total[OF assms(1,2)] by blast
    then have "length (collect_sources 0 ds) \<le> length (op_src op)"
      using descriptions_value(1)[OF assms(1,2) ds] length_filter_le[of is_source ds]
      by (simp add: length_collect_sources)
    with ds assms(4) show ?thesis
      by (simp add: PointwiseEntry_def Let_def)
  qed
  then have "map_opt ?f [0..<DestinationOperand_Width rt (op_dst op ! 0)] =
      Some (map (\<lambda>d. the (?f d)) [0..<DestinationOperand_Width rt (op_dst op ! 0)])"
    by (rule map_opt_total)
  then show ?thesis
    using assms(3,4) by (simp add: ConvertPointwiseOpToLut_def Let_def) blast
qed

subsection \<open>The converters compute what the operation computes\<close>

lemma or_bits_1: "(or_bits (Suc 0) f :: nat) = of_bool (f 0)"
  by (simp add: or_bits_def)

lemma or_bits_2: "(or_bits 2 f :: nat) = of_bool (f 0) + 2 * of_bool (f 1)"
  by (cases "f 0"; cases "f 1"; simp add: or_bits_def upt_rec)

lemma bit_pointwise_tables:
  "bit (2 :: 64 word) (of_bool a) = a" "bit (1 :: 64 word) (of_bool a) = (\<not> a)"
  "bit (8 :: 64 word) (of_bool a + 2 * of_bool b) = (a \<and> b)"
  "bit (14 :: 64 word) (of_bool a + 2 * of_bool b) = (a \<or> b)"
  "bit (6 :: 64 word) (of_bool a + 2 * of_bool b) = (a \<noteq> b)"
  by (cases a; cases b; simp add: bit_numeral_rec)+

text \<open>What evaluation of the original operation comes to, over the operands' numbers.\<close>

lemma eval_Mov:
  assumes "srcs_ok rt op" "env_ok rt env" "op_opcode op = Mov" "length (op_src op) = 1"
    and "length (op_dst op) = 1"
  shows "eval_operation rt env op =
    Some (take_bit (DestinationOperand_Width rt (op_dst op ! 0)) (src_int rt env op 0))"
  using assms map_opt_literals[OF assms(1), of env]
    Resize_eq[OF operand_lit_ok[OF srcs_ok_nth[OF assms(1), of 0] assms(2)]]
  by (simp add: eval_operation_in_def src_int_def)

lemma eval_Invert:
  assumes "srcs_ok rt op" "env_ok rt env" "op_opcode op = UnaryOp Invert" "length (op_src op) = 1"
    and "length (op_dst op) = 1"
  shows "eval_operation rt env op =
    Some (take_bit (DestinationOperand_Width rt (op_dst op ! 0)) (NOT (src_int rt env op 0)))"
  using assms map_opt_literals[OF assms(1), of env]
    ImplementUnaryOp_eq[OF operand_lit_ok[OF srcs_ok_nth[OF assms(1), of 0] assms(2)]]
  by (simp add: eval_operation_in_def src_int_def)

abbreviation src_lit :: "RegisterTable \<Rightarrow> (nat \<Rightarrow> int) \<Rightarrow> Operation \<Rightarrow> nat \<Rightarrow> Literal" where
  "src_lit rt env op i \<equiv>
     \<lparr>l_value = operand_value env (op_src op ! i), l_width = SourceOperand_Width rt (op_src op ! i)\<rparr>"

lemma eval_BinaryOp:
  assumes "srcs_ok rt op" "op_opcode op = BinaryOp t" "length (op_src op) = 2" "length (op_dst op) = 1"
  shows "eval_operation rt env op =
    ImplementBinaryOp any_index (src_lit rt env op 0) (src_lit rt env op 1)
      (DestinationOperand_Width rt (op_dst op ! 0)) (ShouldSignExtend op 0) (ShouldSignExtend op 1) t"
  using assms map_opt_literals[OF assms(1), of env] by (simp add: eval_operation_in_def)

lemma src_lit_ok:
  "srcs_ok rt op \<Longrightarrow> env_ok rt env \<Longrightarrow> i < length (op_src op) \<Longrightarrow> lit_ok (src_lit rt env op i)"
  by (rule operand_lit_ok[OF srcs_ok_nth])

lemma eval_bitwise:
  assumes "srcs_ok rt op" "env_ok rt env" "op_opcode op = BinaryOp t" "length (op_src op) = 2"
    and "length (op_dst op) = 1" "0 < DestinationOperand_Width rt (op_dst op ! 0)"
    and "t \<in> {And, Or, Xor}"
  shows "eval_operation rt env op =
    Some (take_bit (DestinationOperand_Width rt (op_dst op ! 0))
      (binop_spec t (src_int rt env op 0) (src_int rt env op 1)))"
proof -
  have "lit_ok (src_lit rt env op 0)" "lit_ok (src_lit rt env op 1)"
    using assms(4) by (auto intro!: src_lit_ok[OF assms(1,2)])
  from ImplementBinaryOp_arith[OF this assms(6), of t] assms(7) show ?thesis
    by (auto simp: eval_BinaryOp[OF assms(1,3-5)] src_int_def)
qed

lemma lower_bitwise:
  assumes "srcs_ok rt op" "env_ok rt env" "op_opcode op = BinaryOp t" "length (op_src op) = 2"
    and "length (op_dst op) = 1" "0 < DestinationOperand_Width rt (op_dst op ! 0)"
    and "(t, tbl) \<in> {(And, 8), (Or, 14), (Xor, 6)}"
    and "ConvertPointwiseOpToLut rt op tbl = Some op'"
  shows "eval_operation rt env op' = eval_operation rt env op"
proof -
  have "bit (binop_spec t (src_int rt env op 0) (src_int rt env op 1)) d =
      bit tbl (or_bits (length (op_src op)) (\<lambda>i. bit (src_int rt env op i) d))" for d
    using assms(4,7)
    by (auto simp: or_bits_2 bit_pointwise_tables binop_spec_def bit_and_iff bit_or_iff bit_xor_iff)
  from ConvertPointwiseOpToLut_eval[OF assms(1,2,8) this] show ?thesis
    using eval_bitwise[OF assms(1-6)] assms(7) by auto
qed

subsection \<open>Shifts\<close>

lemma ShiftEntry_value:
  assumes "ShiftEntry W sb = Some e"
  shows "le_numSources e \<le> c_maxLutSources"
    and "entry_value ev e = (case sb of None \<Rightarrow> False | Some b \<Rightarrow> bit (ev 0) b)"
proof -
  show "le_numSources e \<le> c_maxLutSources"
    using assms by (auto simp: ShiftEntry_def c_maxLutSources_def split: option.splits)
  have "tableRowIndex ev \<lparr>le_sources = [(0, b)], le_table = 2\<rparr> = of_bool (bit (ev 0) b)" for b
    by (simp add: tableRowIndex_def or_bits_1)
  then show "entry_value ev e = (case sb of None \<Rightarrow> False | Some b \<Rightarrow> bit (ev 0) b)"
    using assms bit_pointwise_tables(1)
    by (auto simp: ShiftEntry_def entry_value_def split: option.splits)
qed

lemma ShiftSource_value:
  assumes "t \<in> {Shl, Shr}" "0 < W"
    and "\<And>d. bit A d = (if d < W then bit v d else se \<and> bit v (W - 1))"
  shows "(case ShiftSource t se W s d of None \<Rightarrow> False | Some b \<Rightarrow> bit v b) =
    bit (binop_spec t A (int s)) d"
proof -
  consider "t = Shl" | "t = Shr" using assms(1) by blast
  then show ?thesis
  proof cases
    case 1
    have "(case ShiftSource Shl se W s d of None \<Rightarrow> False | Some b \<Rightarrow> bit v b) =
        (s \<le> d \<and> (if d - s < W then bit v (d - s) else se \<and> bit v (W - 1)))"
      using assms(2) by (auto simp: ShiftSource_def)
    with 1 show ?thesis by (simp add: binop_spec_def bit_push_bit_iff assms(3))
  next
    case 2
    have "(case ShiftSource Shr se W s d of None \<Rightarrow> False | Some b \<Rightarrow> bit v b) =
        (if s + d < W then bit v (s + d) else se \<and> bit v (W - 1))"
      by (auto simp: ShiftSource_def Let_def add.commute)
    with 2 show ?thesis by (simp add: binop_spec_def bit_drop_bit_eq assms(3))
  qed
qed

lemma ConvertShiftOpToLut_eval:
  assumes "srcs_ok rt op" "env_ok rt env" "op_opcode op = BinaryOp t" "t \<in> {Shl, Shr}"
    and "0 < DestinationOperand_Width rt (op_dst op ! 0)"
    and "t = Shr \<longrightarrow> int (DestinationOperand_Width rt (op_dst op ! 0)) + src_int rt env op 1 \<le> int size_t_max"
    and "ConvertShiftOpToLut rt op t = Some op'"
  shows "eval_operation rt env op' = eval_operation rt env op"
proof (cases "op' = op")
  case False
  let ?w = "DestinationOperand_Width rt (op_dst op ! 0)"
  let ?W = "SourceOperand_Width rt (op_src op ! 0)"
  from assms(7) False obtain l s es where
    len: "length (op_src op) = 2" "length (op_dst op) = 1" and ns: "\<not> ShouldSignExtend op 1"
    and l: "op_src op ! 1 = SrcLiteral l" and s: "MpToSizeT (l_value l) = Some s"
    and es: "map_opt (\<lambda>d. ShiftEntry ?W (ShiftSource t (ShouldSignExtend op 0) ?W s d)) [0..<?w] = Some es"
    and op': "op' = op\<lparr>op_opcode := Lut es, op_signExtendSourceMask := 0\<rparr>"
    by (auto simp: ConvertShiftOpToLut_def Let_def split: SourceOperand.splits bind_splits if_splits)
  have lits: "lit_ok (src_lit rt env op 0)" "lit_ok (src_lit rt env op 1)"
    using len by (auto intro!: src_lit_ok[OF assms(1,2)])
  have shift: "src_int rt env op 1 = int s" "s \<le> size_t_max"
    using s l ns lits(2) by (auto simp: src_int_def operand_value_def MpToSizeT_def lit_ok_def split: if_splits)
  have pre: "binop_pre t (ShouldSignExtend op 0) (ShouldSignExtend op 1) ?w
      (src_int rt env op 0) (src_int rt env op 1)"
    using assms(4,6) shift by (auto simp: binop_pre_def)
  have orig: "eval_operation rt env op =
      Some (take_bit ?w (binop_spec t (src_int rt env op 0) (int s)))"
    using ImplementBinaryOp_shift[OF lits assms(5,4) pre[unfolded src_int_def]] shift(1)
    by (simp add: eval_BinaryOp[OF assms(1,3) len] src_int_def)
  from map_opt_length[OF es] have lenes: "length es = ?w" by simp
  have ent: "entry_value (src_values env op) (es ! d) =
      bit (binop_spec t (src_int rt env op 0) (int s)) d \<and> le_numSources (es ! d) \<le> c_maxLutSources"
    if "d < ?w" for d
  proof -
    from map_opt_nth[OF es, of d] that have
      e: "ShiftEntry ?W (ShiftSource t (ShouldSignExtend op 0) ?W s d) = Some (es ! d)" by simp
    have "0 < ?W" using lits(1) by (simp add: lit_ok_def)
    have "bit (src_int rt env op 0) d = (if d < ?W then bit (src_values env op 0) d
        else ShouldSignExtend op 0 \<and> bit (src_values env op 0) (?W - 1))" for d
      using len by (intro bit_src_int[OF assms(1,2)]) simp
    from ShiftSource_value[OF assms(4) \<open>0 < ?W\<close> this, of s d]
    show ?thesis
      using ShiftEntry_value(2)[OF e, of "src_values env op"] ShiftEntry_value(1)[OF e] by simp
  qed
  have "eval_operation rt env (op\<lparr>op_opcode := Lut es, op_signExtendSourceMask := 0\<rparr>) =
      Some (take_bit (length es) (binop_spec t (src_int rt env op 0) (int s)))"
    using ent by (intro eval_lut_op[OF assms(1) len(2) lenes]) (auto simp: in_set_conv_nth lenes)
  then show ?thesis
    by (simp add: op' lenes orig)
qed simp

subsection \<open>Operators with few input bits\<close>

lemma length_register_bits:
  "length (register_bits rt op i) =
     (if IsRegisterOperand (op_src op ! i) then SourceOperand_Width rt (op_src op ! i) else 0)"
  by (simp add: register_bits_def)

lemma and_mask_nat:
  "(r :: nat) AND (2 ^ n - 1) = take_bit n r" "(r :: nat) AND (2 ^ n - Suc 0) = take_bit n r"
  by (simp_all add: take_bit_eq_mask mask_eq_exp_minus_1)

text \<open>The row that the operands select gives the operands back.\<close>

lemma RowOperand_row:
  assumes "operand_ok rt (op_src op ! i)" "env_ok rt env"
    and "\<And>k. k < length (register_bits rt op i) \<Longrightarrow>
      bit row (n + k) = bit (operand_value env (op_src op ! i)) k"
  shows "RowOperand rt (op_src op ! i) row n =
    (src_lit rt env op i, n + length (register_bits rt op i))"
proof (cases "op_src op ! i")
  case (SrcRegister r)
  from assms(1,2) have r: "0 \<le> env r" "env r < 2 ^ reg_width rt r"
    by (auto simp: SrcRegister env_ok_def reg_width_def)
  have *: "take_bit (reg_width rt r) (drop_bit n row) = nat (env r)"
  proof -
    have "take_bit (reg_width rt r) (drop_bit n row) = take_bit (reg_width rt r) (nat (env r))"
      using assms(3) r(1)
      by (auto intro!: bit_eqI simp: bit_take_bit_iff bit_drop_bit_eq length_register_bits
          SrcRegister IsRegisterOperand_def operand_value_def bit_nat_iff)
    also have "\<dots> = nat (env r)"
      using r by (intro take_bit_nat_eq_self) (simp add: nat_less_iff)
    finally show ?thesis .
  qed
  show ?thesis
    unfolding RowOperand_def Let_def and_mask_nat
    by (simp add: SrcRegister length_register_bits IsRegisterOperand_def operand_value_def * r)
qed (use assms(1) in \<open>auto simp: RowOperand_def length_register_bits IsRegisterOperand_def operand_value_def\<close>)

lemma BinaryRow_eval:
  assumes "srcs_ok rt op" "env_ok rt env" "length (op_src op) = 2"
    and "le_sources e = register_bits rt op 0 @ register_bits rt op 1"
  shows "BinaryRow rt op t w (le_numSources e) (tableRowIndex (src_values env op) e) =
    ImplementBinaryOp mp_index (src_lit rt env op 0) (src_lit rt env op 1) w
      (ShouldSignExtend op 0) (ShouldSignExtend op 1) t"
proof -
  let ?r = "tableRowIndex (src_values env op) e"
  have ok: "operand_ok rt (op_src op ! 0)" "operand_ok rt (op_src op ! 1)"
    using assms(3) by (auto intro!: srcs_ok_nth[OF assms(1)])
  have "RowOperand rt (op_src op ! 0) ?r 0 = (src_lit rt env op 0, 0 + length (register_bits rt op 0))"
    by (rule RowOperand_row[OF ok(1) assms(2)])
      (auto simp: assms(4) nth_append register_bits_def split: if_splits)
  moreover have "RowOperand rt (op_src op ! 1) ?r (length (register_bits rt op 0)) =
      (src_lit rt env op 1, length (register_bits rt op 0) + length (register_bits rt op 1))"
    by (rule RowOperand_row[OF ok(2) assms(2)])
      (auto simp: assms(4) nth_append register_bits_def split: if_splits)
  ultimately show ?thesis
    by (simp add: BinaryRow_def assms(4))
qed

lemma ImplementBinaryOp_trunc:
  assumes "ImplementBinaryOp index_ok a b w se0 se1 t = Some r"
  shows "take_bit w r = r"
proof -
  from assms obtain x where "r = take_bit w x"
    by (auto simp: ImplementBinaryOp_def Let_def split: bind_splits)
  then show ?thesis by simp
qed

lemma ConvertBinaryOpToLut_eval:
  assumes "srcs_ok rt op" "env_ok rt env" "op_opcode op = BinaryOp t"
    and "ConvertBinaryOpToLut rt op t = Some op'"
  shows "eval_operation rt env op' = eval_operation rt env op"
proof (cases "op' = op")
  case False
  let ?w = "DestinationOperand_Width rt (op_dst op ! 0)"
  define src where "src = register_bits rt op 0 @ register_bits rt op 1"
  define n where "n = length src"
  from assms(4) False obtain tbl where len: "length (op_src op) = 2" "length (op_dst op) = 1"
    and small: "n \<le> c_maxLutSources"
    and tbl: "map_opt (BinaryRow rt op t ?w n) [0..<2 ^ n] = Some tbl"
    and op': "op' = op\<lparr>op_opcode := Lut (map (\<lambda>d. \<lparr>le_sources = src,
        le_table = or_bits (2 ^ n) (\<lambda>row. bit (tbl ! row) d)\<rparr>) [0..<?w]),
        op_signExtendSourceMask := 0\<rparr>"
    by (auto simp: ConvertBinaryOpToLut_def Let_def n_def src_def split: bind_splits if_splits)
  define es where "es = map (\<lambda>d. \<lparr>le_sources = src,
        le_table = or_bits (2 ^ n) (\<lambda>row. bit (tbl ! row) d)\<rparr> :: LutEntry) [0..<?w]"
  define row where "row = tableRowIndex (src_values env op) \<lparr>le_sources = src, le_table = 0\<rparr>"
  have row: "tableRowIndex (src_values env op) \<lparr>le_sources = src, le_table = x\<rparr> = row" for x
    by (simp add: row_def tableRowIndex_def)
  have "row < 2 ^ n"
    using tableRowIndex_less[of "src_values env op" "\<lparr>le_sources = src, le_table = 0\<rparr>"]
    by (simp add: row_def n_def)
  moreover have "(2::nat) ^ n \<le> 64"
    using pow_sources_le[of "\<lparr>le_sources = src, le_table = 0\<rparr>"] small by (simp add: n_def)
  ultimately have row64: "row < 64" and rown: "row < 2 ^ n" by simp_all
  from map_opt_nth[OF tbl, of row] rown have rowval: "BinaryRow rt op t ?w n row = Some (tbl ! row)"
    by simp
  then have "ImplementBinaryOp mp_index (src_lit rt env op 0) (src_lit rt env op 1) ?w
      (ShouldSignExtend op 0) (ShouldSignExtend op 1) t = Some (tbl ! row)"
    using BinaryRow_eval[OF assms(1,2) len(1), of "\<lparr>le_sources = src, le_table = 0\<rparr>" t ?w]
    by (simp add: n_def row_def src_def)
  from ImplementBinaryOp_any[OF this] src_lit_ok[OF assms(1,2)] len(1)
  have orig: "eval_operation rt env op = Some (tbl ! row)"
    by (simp add: eval_BinaryOp[OF assms(1,3) len])
  then have trunc: "take_bit ?w (tbl ! row) = tbl ! row"
    by (simp add: eval_BinaryOp[OF assms(1,3) len] ImplementBinaryOp_trunc)
  have "eval_operation rt env (op\<lparr>op_opcode := Lut es, op_signExtendSourceMask := 0\<rparr>) =
      Some (take_bit (length es) (tbl ! row))"
    using small by (intro eval_lut_op[OF assms(1) len(2)])
      (auto simp: es_def entry_value_def row row64 rown simp flip: n_def)
  then show ?thesis
    using op' by (simp add: es_def orig trunc)
qed simp

subsection \<open>Select\<close>

lemma SelectEntry_value:
  assumes "le_numSources (SelectEntry n ds) \<le> c_maxLutSources" and "length ds = 2 ^ n"
  shows "entry_value ev (SelectEntry n ds) =
    desc_value ev (Suc (nat (take_bit n (ev 0)))) (ds ! nat (take_bit n (ev 0)))"
proof -
  define src where "src = map (Pair 0) [0..<n] @ collect_sources 1 ds"
  define row where "row = tableRowIndex ev (SelectEntry n ds)"
  define idx where "idx = nat (take_bit n (ev 0))"
  have src: "le_sources (SelectEntry n ds) = src"
    by (simp add: SelectEntry_def src_def Let_def)
  have "row < 2 ^ length src" and "(2::nat) ^ length src \<le> 64"
    using tableRowIndex_less[of ev "SelectEntry n ds"] pow_sources_le[OF assms(1)]
    by (simp_all add: row_def src)
  then have val: "entry_value ev (SelectEntry n ds) =
      bit (input_index row ds 0 n 0) (take_bit n row)"
    unfolding entry_value_def row_def[symmetric]
    by (simp add: SelectEntry_def src_def Let_def and_mask_nat)
  have rowbit: "bit row k = (k < length src \<and> bit (ev (fst (src ! k))) (snd (src ! k)))" for k
    by (simp add: row_def src)
  have "take_bit n row = idx"
    by (rule bit_eqI)
      (auto simp: idx_def bit_take_bit_iff bit_nat_iff rowbit src_def nth_append)
  moreover have "idx < 2 ^ n"
    by (simp add: idx_def nat_less_iff)
  moreover have "input_index row ds 0 n 0 = or_bits (length ds) (\<lambda>j. desc_value ev (1 + j) (ds ! j))"
    by (rule input_index_row) (simp add: rowbit src_def nth_append)
  ultimately show ?thesis
    using assms(2) by (simp add: val flip: idx_def)
qed

lemma SelectStep_fold:
  assumes "fold_opt (SelectStep rt op n) [0..<w] (Some []) = Some (Some es)"
  shows "length es = w \<and> (\<forall>d < w. \<exists>ds. GetSourceOperandDescriptions rt op d = Some ds \<and>
    es ! d = SelectEntry n (tl ds) \<and> le_numSources (es ! d) \<le> c_maxLutSources)"
  using assms
proof (induction w arbitrary: es)
  case (Suc w)
  from Suc.prems obtain acc where acc: "fold_opt (SelectStep rt op n) [0..<w] (Some []) = Some acc"
    "SelectStep rt op n w acc = Some (Some es)"
    by (auto split: bind_splits)
  then obtain es' ds where es': "fold_opt (SelectStep rt op n) [0..<w] (Some []) = Some (Some es')"
    and ds: "GetSourceOperandDescriptions rt op w = Some ds" "es = es' @ [SelectEntry n (tl ds)]"
      "le_numSources (SelectEntry n (tl ds)) \<le> c_maxLutSources"
    by (cases acc) (auto simp: SelectStep_def Let_def split: bind_splits if_splits)
  from Suc.IH[OF es'] ds show ?case
    by (auto simp: less_Suc_eq nth_append)
qed simp

lemma eval_Select:
  assumes "srcs_ok rt op" "env_ok rt env" "op_opcode op = Select" "length (op_dst op) = 1"
    and "length (op_src op) = Suc (2 ^ n)"
  shows "eval_operation rt env op =
    Some (take_bit (DestinationOperand_Width rt (op_dst op ! 0))
      (src_int rt env op (Suc (nat (take_bit n (src_int rt env op 0))))))"
proof -
  let ?i = "nat (take_bit n (src_int rt env op 0))"
  have i: "Suc ?i < length (op_src op)"
    by (simp add: assms(5) nat_less_iff)
  have "Log2 (int (length (op_src op) - 1)) = Some n"
    using Log2_pow2[of n] by (simp add: assms(5))
  then show ?thesis
    using assms(3,4) i map_opt_literals[OF assms(1), of env]
      Resize_eq[OF src_lit_ok[OF assms(1,2), of 0]] Resize_eq[OF src_lit_ok[OF assms(1,2) i]]
    by (auto simp: eval_operation_in_def eval_select_def src_int_def bind_assert_if Let_def nth_Cons')
qed

lemma ConvertSelectOpToLut_eval:
  assumes "srcs_ok rt op" "env_ok rt env" "op_opcode op = Select"
    and "ConvertSelectOpToLut rt op = Some op'"
  shows "eval_operation rt env op' = eval_operation rt env op"
proof (cases "op' = op")
  case False
  let ?w = "DestinationOperand_Width rt (op_dst op ! 0)"
  from assms(4) False obtain n es where dst: "length (op_dst op) = 1" and "op_src op \<noteq> []"
    and "IsPow2 (int (length (op_src op) - 1))" "Log2 (int (length (op_src op) - 1)) = Some n"
    and n: "n \<le> SourceOperand_Width rt (op_src op ! 0)"
    and es: "fold_opt (SelectStep rt op n) [0..<?w] (Some []) = Some (Some es)"
    and op': "op' = op\<lparr>op_opcode := Lut es, op_signExtendSourceMask := 0\<rparr>"
    by (auto simp: ConvertSelectOpToLut_def Let_def split: bind_splits option.splits if_splits)
  then obtain k where "int (length (op_src op) - 1) = 2 ^ k" "k = n"
    by (metis IsPow2_iff Log2_pow2 option.inject)
  then have len: "length (op_src op) = Suc (2 ^ n)"
    using \<open>op_src op \<noteq> []\<close> by (cases "op_src op") (auto simp flip: of_nat_eq_iff)
  define idx where "idx = nat (take_bit n (src_int rt env op 0))"
  have idx: "idx < 2 ^ n" by (simp add: idx_def nat_less_iff)
  have idx': "nat (take_bit n (src_values env op 0)) = idx"
    unfolding idx_def using n len
    by (auto intro!: bit_eqI simp: bit_nat_iff bit_take_bit_iff bit_src_int[OF assms(1,2)])
  note orig = eval_Select[OF assms(1-3) dst len, folded idx_def]
  have ent: "entry_value (src_values env op) (es ! d) = bit (src_int rt env op (Suc idx)) d \<and>
      le_numSources (es ! d) \<le> c_maxLutSources" if "d < ?w" for d
  proof -
    from SelectStep_fold[OF es] that obtain ds where ds: "GetSourceOperandDescriptions rt op d = Some ds"
      "es ! d = SelectEntry n (tl ds)" "le_numSources (es ! d) \<le> c_maxLutSources" by blast
    note desc = descriptions_value[OF assms(1,2) ds(1)]
    have "length (tl ds) = 2 ^ n" "tl ds ! idx = ds ! Suc idx"
      using desc(1) len idx by (auto simp: nth_tl)
    then show ?thesis
      using SelectEntry_value[of n "tl ds" "src_values env op"] ds(2,3) idx' idx desc(2)[of "Suc idx"] len
      by simp
  qed
  have "eval_operation rt env (op\<lparr>op_opcode := Lut es, op_signExtendSourceMask := 0\<rparr>) =
      Some (take_bit (length es) (src_int rt env op (Suc idx)))"
    using ent SelectStep_fold[OF es]
    by (intro eval_lut_op[OF assms(1) dst]) (auto simp: in_set_conv_nth)
  then show ?thesis
    using SelectStep_fold[OF es] by (simp add: op' orig)
qed simp

subsection \<open>Gather\<close>

definition gather_bit :: "(nat \<Rightarrow> int) \<Rightarrow> GatherEntry list \<Rightarrow> nat \<Rightarrow> nat \<Rightarrow> bool" where
  "gather_bit ev ges i d \<longleftrightarrow>
     ge_destOffset (ges ! i) \<le> d \<and> d < ge_destOffset (ges ! i) + ge_numBits (ges ! i) \<and>
     bit (ev i) (ge_sourceOffset (ges ! i) + (d - ge_destOffset (ges ! i)))"

text \<open>Gather entries write disjoint parts of the destination and literals are not sign extended.\<close>

definition gather_ok :: "Operation \<Rightarrow> GatherEntry list \<Rightarrow> bool" where
  "gather_ok op ges \<longleftrightarrow>
     (\<forall>i < length (op_src op). \<not> ShouldSignExtend op i) \<and>
     (\<forall>i < length ges. \<forall>j < i.
        ge_destOffset (ges ! i) + ge_numBits (ges ! i) \<le> ge_destOffset (ges ! j) \<or>
        ge_destOffset (ges ! j) + ge_numBits (ges ! j) \<le> ge_destOffset (ges ! i))"

lemma GatherBit_value:
  assumes "srcs_ok rt op" "env_ok rt env" "i < length (op_src op)" "\<not> ShouldSignExtend op i"
    and "GatherBit op i ge j lut = Some lut'"
  shows "\<exists>e. lut' = lut[ge_destOffset ge + j := e] \<and> ge_destOffset ge + j < length lut \<and>
    le_numSources e \<le> c_maxLutSources \<and>
    entry_value (src_values env op) e = bit (src_values env op i) (ge_sourceOffset ge + j)"
proof -
  note ok = srcs_ok_nth[OF assms(1,3)]
  have lit: "lit_ok l \<Longrightarrow> \<not> b < l_width l \<Longrightarrow> \<not> bit (l_value l) b" for l b
    using lit_ok_bit_less by blast
  have tab: "entry_value ev \<lparr>le_sources = [(i, b)], le_table = 2\<rparr> = bit (ev i) b" for ev b
    using bit_pointwise_tables(1) by (simp add: entry_value_def tableRowIndex_def or_bits_1)
  have con: "entry_value ev \<lparr>le_sources = [], le_table = of_bool v\<rparr> = v" for ev v
    by (simp add: entry_value_def tableRowIndex_def or_bits_def)
  show ?thesis
  proof (cases "op_src op ! i")
    case (SrcLiteral l)
    let ?v = "bit (l_value l) (ge_sourceOffset ge + j)"
    have "GetLiteralBit op i (ge_sourceOffset ge + j) = Some ?v"
      using ok lit[of l] assms(4) by (simp add: SrcLiteral GetLiteralBit_def lit_ok_def)
    with assms(5) SrcLiteral have
      "lut' = lut[ge_destOffset ge + j := \<lparr>le_sources = [], le_table = of_bool ?v\<rparr>]"
      "ge_destOffset ge + j < length lut"
      by (auto simp: GatherBit_def Let_def IsLiteralOperand_def)
    with SrcLiteral con[of "src_values env op" ?v] show ?thesis
      by (intro exI[of _ "\<lparr>le_sources = [], le_table = of_bool ?v\<rparr>"])
        (simp add: operand_value_def)
  next
    case (SrcRegister r)
    with assms(5) have "lut' = lut[ge_destOffset ge + j :=
        \<lparr>le_sources = [(i, ge_sourceOffset ge + j)], le_table = 2\<rparr>]"
      "ge_destOffset ge + j < length lut"
      by (auto simp: GatherBit_def Let_def IsLiteralOperand_def)
    with tab show ?thesis
      by (intro exI[of _ "\<lparr>le_sources = [(i, ge_sourceOffset ge + j)], le_table = 2\<rparr>"])
        (simp add: c_maxLutSources_def)
  qed (use ok in simp_all)
qed

text \<open>The loop over the bits of one entry, and the loop over the entries.\<close>

lemma GatherBit_loop:
  assumes "srcs_ok rt op" "env_ok rt env" "i < length (op_src op)" "\<not> ShouldSignExtend op i"
    and "fold_opt (GatherBit op i ge) [0..<n] lut = Some lut'"
    and "\<forall>e \<in> set lut. le_numSources e \<le> c_maxLutSources"
  shows "length lut' = length lut \<and> (\<forall>e \<in> set lut'. le_numSources e \<le> c_maxLutSources) \<and>
    (n > 0 \<longrightarrow> ge_destOffset ge + n \<le> length lut) \<and>
    (\<forall>d < length lut. entry_value (src_values env op) (lut' ! d) =
      (if ge_destOffset ge \<le> d \<and> d < ge_destOffset ge + n
       then bit (src_values env op i) (ge_sourceOffset ge + (d - ge_destOffset ge))
       else entry_value (src_values env op) (lut ! d)))"
  using assms(5)
proof (induction n arbitrary: lut')
  case 0
  with assms(6) show ?case by auto
next
  case (Suc n)
  from Suc.prems obtain l1 where l1: "fold_opt (GatherBit op i ge) [0..<n] lut = Some l1"
    and "GatherBit op i ge n l1 = Some lut'"
    by (auto split: bind_splits)
  with GatherBit_value[OF assms(1-4)] obtain e where
    e: "lut' = l1[ge_destOffset ge + n := e]" "ge_destOffset ge + n < length l1"
      "le_numSources e \<le> c_maxLutSources"
      "entry_value (src_values env op) e = bit (src_values env op i) (ge_sourceOffset ge + n)"
    by blast
  from Suc.IH[OF l1] e show ?case
    by (auto simp: nth_list_update dest: subsetD[OF set_update_subset_insert])
qed

lemma Gather_loop:
  assumes "srcs_ok rt op" "env_ok rt env" "length ges = length (op_src op)" "gather_ok op ges"
    and "k \<le> length (op_src op)"
    and "fold_opt (\<lambda>i lut. fold_opt (GatherBit op i (ges ! i)) [0..<ge_numBits (ges ! i)] lut)
      [0..<k] (replicate w \<lparr>le_sources = [], le_table = 0\<rparr>) = Some lut"
  shows "length lut = w \<and> (\<forall>e \<in> set lut. le_numSources e \<le> c_maxLutSources) \<and>
    (\<forall>d < w. entry_value (src_values env op) (lut ! d) =
      (\<exists>i < k. gather_bit (src_values env op) ges i d))"
  using assms(5,6)
proof (induction k arbitrary: lut)
  case 0
  then show ?case
    by (auto simp: entry_value_def c_maxLutSources_def)
next
  case (Suc k)
  from Suc.prems obtain l1 where l1: "fold_opt (\<lambda>i lut. fold_opt (GatherBit op i (ges ! i))
        [0..<ge_numBits (ges ! i)] lut) [0..<k] (replicate w \<lparr>le_sources = [], le_table = 0\<rparr>) = Some l1"
    and l2: "fold_opt (GatherBit op k (ges ! k)) [0..<ge_numBits (ges ! k)] l1 = Some lut"
    by (auto split: bind_splits)
  have k: "k < length (op_src op)" "\<not> ShouldSignExtend op k" and disj: "\<And>j. j < k \<Longrightarrow>
      ge_destOffset (ges ! k) + ge_numBits (ges ! k) \<le> ge_destOffset (ges ! j) \<or>
      ge_destOffset (ges ! j) + ge_numBits (ges ! j) \<le> ge_destOffset (ges ! k)"
    using Suc.prems(1) assms(3,4) by (auto simp: gather_ok_def)
  note IH = Suc.IH[OF _ l1]
  with k have "\<forall>e \<in> set l1. le_numSources e \<le> c_maxLutSources" by simp
  note loop = GatherBit_loop[OF assms(1,2) k l2 this]
  have "entry_value (src_values env op) (lut ! d) =
      (\<exists>i < Suc k. gather_bit (src_values env op) ges i d)" if "d < w" for d
  proof (cases "ge_destOffset (ges ! k) \<le> d \<and> d < ge_destOffset (ges ! k) + ge_numBits (ges ! k)")
    case True
    then have "\<not> gather_bit (src_values env op) ges i d" if "i < k" for i
      using disj[OF that] by (auto simp: gather_bit_def)
    with True loop IH k \<open>d < w\<close> show ?thesis
      by (auto simp: gather_bit_def less_Suc_eq)
  next
    case False
    with loop IH k \<open>d < w\<close> show ?thesis
      by (auto simp: gather_bit_def less_Suc_eq)
  qed
  with loop IH k show ?case by simp
qed

lemma bit_eval_gather:
  assumes "length ges = length lits"
  shows "bit (eval_gather ges lits) d =
    (\<exists>i < length ges. gather_bit (\<lambda>i. l_value (lits ! i)) ges i d)"
proof -
  have "bit (fold (\<lambda>(e, l) combined. combined OR push_bit (ge_destOffset e)
          (take_bit (ge_numBits e) (drop_bit (ge_sourceOffset e) (l_value l)))) xs acc) d =
      (bit acc d \<or> (\<exists>(e, l) \<in> set xs. ge_destOffset e \<le> d \<and> d < ge_destOffset e + ge_numBits e \<and>
        bit (l_value l) (ge_sourceOffset e + (d - ge_destOffset e))))" for xs :: "(GatherEntry \<times> Literal) list" and acc
    by (induction xs arbitrary: acc)
      (auto simp: bit_or_iff bit_push_bit_iff bit_take_bit_iff bit_drop_bit_eq)
  then show ?thesis
    using assms by (auto simp: eval_gather_def gather_bit_def set_zip simp del: Nat.add_diff_assoc)
qed

lemma ConvertGatherOpToLut_eval:
  assumes "srcs_ok rt op" "env_ok rt env" "op_opcode op = Gather ges" "gather_ok op ges"
    and "ConvertGatherOpToLut rt op ges = Some op'"
  shows "eval_operation rt env op' = eval_operation rt env op"
proof -
  let ?w = "DestinationOperand_Width rt (op_dst op ! 0)"
  let ?lits = "map (\<lambda>s. \<lparr>l_value = operand_value env s, l_width = SourceOperand_Width rt s\<rparr>) (op_src op)"
  from assms(5) obtain es where dst: "length (op_dst op) = 1" and len: "length ges = length (op_src op)"
    and es: "fold_opt (\<lambda>i lut. fold_opt (GatherBit op i (ges ! i)) [0..<ge_numBits (ges ! i)] lut)
      [0..<length (op_src op)] (replicate ?w \<lparr>le_sources = [], le_table = 0\<rparr>) = Some es"
    and op': "op' = op\<lparr>op_opcode := Lut es, op_signExtendSourceMask := 0\<rparr>"
    by (auto simp: ConvertGatherOpToLut_def Let_def split: bind_splits)
  note loop = Gather_loop[OF assms(1,2) len assms(4) order_refl es]
  have "gather_bit (\<lambda>i. l_value (?lits ! i)) ges i d = gather_bit (src_values env op) ges i d"
    if "i < length (op_src op)" for i d
    using that by (simp add: gather_bit_def)
  then have "entry_value (src_values env op) (es ! d) = bit (eval_gather ges ?lits) d" if "d < ?w" for d
    using loop that len by (auto simp: bit_eval_gather)
  then have "eval_operation rt env (op\<lparr>op_opcode := Lut es, op_signExtendSourceMask := 0\<rparr>) =
      Some (take_bit (length es) (eval_gather ges ?lits))"
    using loop by (intro eval_lut_op[OF assms(1) dst]) auto
  moreover have "eval_operation rt env op = Some (take_bit ?w (eval_gather ges ?lits))"
    using assms(3) dst len map_opt_literals[OF assms(1), of env] by (simp add: eval_operation_in_def)
  ultimately show ?thesis
    using loop by (simp add: op')
qed

subsection \<open>LowerToLut\<close>

text \<open>The input the compiler hands over: well-formed operands, a destination of positive width,
  gathers that write disjoint ranges, and right shifts whose amount plus width fits a
  \<^verbatim>\<open>size_t\<close>.\<close>

definition lowerable :: "RegisterTable \<Rightarrow> (nat \<Rightarrow> int) \<Rightarrow> Operation \<Rightarrow> bool" where
  "lowerable rt env op \<longleftrightarrow>
     srcs_ok rt op \<and> env_ok rt env \<and> 0 < DestinationOperand_Width rt (op_dst op ! 0) \<and>
     (case op_opcode op of
        Gather ges \<Rightarrow> gather_ok op ges
      | BinaryOp Shr \<Rightarrow>
          int (DestinationOperand_Width rt (op_dst op ! 0)) + src_int rt env op 1 \<le> int size_t_max
      | _ \<Rightarrow> True)"

lemma IsLut_iff: "IsLut op \<longleftrightarrow> (\<exists>es. op_opcode op = Lut es)"
  by (simp add: IsLut_def split: Opcode.splits)

lemma eval_mask_irrelevant:
  assumes "IsLut op"
  shows "eval_operation rt env (op\<lparr>op_signExtendSourceMask := 0\<rparr>) = eval_operation rt env op"
  using assms by (auto simp: IsLut_iff eval_operation_in_def)

lemma LowerBinaryOp_eval:
  assumes "lowerable rt env op" "op_opcode op = BinaryOp t" "LowerBinaryOp rt op t = Some op'"
  shows "eval_operation rt env op' = eval_operation rt env op"
proof -
  from assms(1) have ok: "srcs_ok rt op" "env_ok rt env"
    and w: "0 < DestinationOperand_Width rt (op_dst op ! 0)"
    by (simp_all add: lowerable_def)
  from assms(3) obtain op1 where len: "length (op_src op) = 2" "length (op_dst op) = 1"
    and op1: "(if t = And then ConvertPointwiseOpToLut rt op 8
            else if t = Or then ConvertPointwiseOpToLut rt op 14
            else if t = Xor then ConvertPointwiseOpToLut rt op 6
            else if t = Shl \<or> t = Shr then ConvertShiftOpToLut rt op t
            else Some op) = Some op1"
    and op': "(if IsLut op1 then Some op1 else ConvertBinaryOpToLut rt op1 t) = Some op'"
    unfolding LowerBinaryOp_def by (auto split: bind_splits)
  consider tbl where "(t, tbl) \<in> {(And, 8), (Or, 14), (Xor, 6)}" "ConvertPointwiseOpToLut rt op tbl = Some op1"
    | "t \<in> {Shl, Shr}" "ConvertShiftOpToLut rt op t = Some op1" | "op1 = op"
    using op1 by (auto split: if_splits)
  then have e1: "eval_operation rt env op1 = eval_operation rt env op"
  proof cases
    case 1
    then show ?thesis by (rule lower_bitwise[OF ok assms(2) len w])
  next
    case 2
    then show ?thesis
      using assms(1,2) by (intro ConvertShiftOpToLut_eval[OF ok assms(2) 2(1) w _ 2(2)])
        (auto simp: lowerable_def)
  qed simp
  have "IsLut op1 \<or> op1 = op"
    using op1
    by (auto simp: ConvertPointwiseOpToLut_def ConvertShiftOpToLut_def IsLut_iff Let_def
        split: if_splits bind_splits SourceOperand.splits)
  then show ?thesis
    using op' e1 ConvertBinaryOpToLut_eval[OF ok assms(2)] by (auto split: if_splits)
qed

lemma LowerToLut_eval_gen:
  assumes "lowerable rt env op" "LowerToLut rt op = Some (op', ok)"
  shows "eval_operation rt env op' = eval_operation rt env op"
proof -
  from assms(1) have wf: "srcs_ok rt op" "env_ok rt env"
    by (simp_all add: lowerable_def)
  have pw: "eval_operation rt env op1 = eval_operation rt env op"
    if "ConvertPointwiseOpToLut rt op tbl = Some op1" "length (op_src op) = n" "length (op_dst op) = 1"
      "(op_opcode op, tbl, n) \<in> {(Mov, 2, 1), (Clear, 0, 0), (UnaryOp Invert, 1, 1)}" for op1 tbl n
  proof -
    note pre = that
    consider "op_opcode op = Mov" "tbl = 2" "n = 1" | "op_opcode op = Clear" "tbl = 0" "n = 0"
      | "op_opcode op = UnaryOp Invert" "tbl = 1" "n = 1"
      using pre(4) by auto
    then show ?thesis
    proof cases
      case 1
      then show ?thesis
        using ConvertPointwiseOpToLut_eval[OF wf pre(1), of "src_int rt env op 0"] pre(2,3)
        by (simp add: eval_Mov[OF wf] or_bits_1 bit_pointwise_tables)
    next
      case 2
      then show ?thesis
        using ConvertPointwiseOpToLut_eval[OF wf pre(1), of 0] pre(2,3)
        by (simp add: eval_operation_in_def)
    next
      case 3
      then show ?thesis
        using ConvertPointwiseOpToLut_eval[OF wf pre(1), of "NOT (src_int rt env op 0)"] pre(2,3)
        by (simp add: eval_Invert[OF wf] or_bits_1 bit_pointwise_tables bit_not_iff)
    qed
  qed
  from assms(2) obtain op1 where op': "op' = (if IsLut op1 then op1\<lparr>op_signExtendSourceMask := 0\<rparr> else op1)"
    and "case op_opcode op of
         Mov \<Rightarrow> length (op_src op) = 1 \<and> length (op_dst op) = 1 \<and> ConvertPointwiseOpToLut rt op 2 = Some op1
       | Clear \<Rightarrow> length (op_src op) = 0 \<and> length (op_dst op) = 1 \<and> ConvertPointwiseOpToLut rt op 0 = Some op1
       | UnaryOp t \<Rightarrow> length (op_src op) = 1 \<and> length (op_dst op) = 1 \<and> t = Invert \<and>
           ConvertPointwiseOpToLut rt op 1 = Some op1
       | BinaryOp t \<Rightarrow> LowerBinaryOp rt op t = Some op1
       | Select \<Rightarrow> ConvertSelectOpToLut rt op = Some op1
       | Gather entries \<Rightarrow> ConvertGatherOpToLut rt op entries = Some op1
       | Lut _ \<Rightarrow> op1 = op
       | _ \<Rightarrow> False"
    by (auto simp: LowerToLut_def Let_def split: bind_splits Opcode.splits)
  then have "eval_operation rt env op1 = eval_operation rt env op"
    using pw[of 2] pw[of 0] pw[of 1] LowerBinaryOp_eval[OF assms(1)] ConvertSelectOpToLut_eval[OF wf]
      ConvertGatherOpToLut_eval[OF wf] assms(1)
    by (auto simp: lowerable_def split: Opcode.splits)
  then show ?thesis
    by (simp add: op' eval_mask_irrelevant)
qed

text \<open>C4: whatever opcode it is given, \<^verbatim>\<open>LowerToLut\<close> leaves an operation that computes the same
  value on every state of the registers.\<close>

theorem LowerToLut_preserves_value:
  assumes "lowerable rt env op" and "LowerToLut rt op = Some (op', lowered)"
  shows "eval_operation rt env op' = eval_operation rt env op"
  using assms by (rule LowerToLut_eval_gen)

definition demo_rt :: RegisterTable where
  "demo_rt = [\<lparr>rd_type = RT_Local, rd_width = 2\<rparr>, \<lparr>rd_type = RT_Local, rd_width = 2\<rparr>,
              \<lparr>rd_type = RT_Local, rd_width = 3\<rparr>]"

definition demo_add :: Operation where
  "demo_add = \<lparr>op_opcode = BinaryOp Add, op_signExtendSourceMask = 1, op_locations = {},
     op_src = [SrcRegister 0, SrcRegister 1], op_dst = [DstRegister 2]\<rparr>"

lemma demo_add_lowers: "LowerToLut demo_rt demo_add \<noteq> None"
  by code_simp

theorem LowerToLut_preserves_value_witness:
  "eval_operation demo_rt (\<lambda>r. [3, 1, 0] ! r) (fst (the (LowerToLut demo_rt demo_add))) = Some 0"
proof -
  have "lowerable demo_rt (\<lambda>r. [3, 1, 0] ! r) demo_add"
    by (simp add: lowerable_def demo_rt_def demo_add_def srcs_ok_def env_ok_def reg_width_def
        All_less_Suc numeral_2_eq_2 numeral_3_eq_3)
  moreover have "eval_operation demo_rt (\<lambda>r. [3, 1, 0] ! r) demo_add = Some 0" 
    by code_simp
  moreover obtain op' b where "LowerToLut demo_rt demo_add = Some (op', b)"
    by (cases "LowerToLut demo_rt demo_add") (use demo_add_lowers in auto)
  ultimately show ?thesis
    using LowerToLut_preserves_value[of demo_rt "\<lambda>r. [3, 1, 0] ! r" demo_add op' b] by simp
qed

text \<open>C5: moves, clears, inversions and the three bitwise operators always become lookup tables:
  the conversion neither throws nor gives up.\<close>

theorem LowerToLut_pointwise_succeeds:
  assumes "lowerable rt env op" "length (op_dst op) = 1"
    and "(op_opcode op, length (op_src op)) \<in>
      {(Mov, 1), (Clear, 0), (UnaryOp Invert, 1), (BinaryOp And, 2), (BinaryOp Or, 2), (BinaryOp Xor, 2)}"
  shows "\<exists>es. LowerToLut rt op =
    Some (op\<lparr>op_opcode := Lut es, op_signExtendSourceMask := 0\<rparr>, True)"
proof -
  from assms(1) have wf: "srcs_ok rt op" "env_ok rt env"
    by (simp_all add: lowerable_def)
  have "length (op_src op) \<le> c_maxLutSources"
    using assms(3) by (auto simp: c_maxLutSources_def)
  note pw = ConvertPointwiseOpToLut_total[OF wf assms(2) this]
  obtain e0 e1 e2 e6 e8 e14 where
    "ConvertPointwiseOpToLut rt op 0 = Some (op\<lparr>op_opcode := Lut e0, op_signExtendSourceMask := 0\<rparr>)"
    "ConvertPointwiseOpToLut rt op 1 = Some (op\<lparr>op_opcode := Lut e1, op_signExtendSourceMask := 0\<rparr>)"
    "ConvertPointwiseOpToLut rt op 2 = Some (op\<lparr>op_opcode := Lut e2, op_signExtendSourceMask := 0\<rparr>)"
    "ConvertPointwiseOpToLut rt op 6 = Some (op\<lparr>op_opcode := Lut e6, op_signExtendSourceMask := 0\<rparr>)"
    "ConvertPointwiseOpToLut rt op 8 = Some (op\<lparr>op_opcode := Lut e8, op_signExtendSourceMask := 0\<rparr>)"
    "ConvertPointwiseOpToLut rt op 14 = Some (op\<lparr>op_opcode := Lut e14, op_signExtendSourceMask := 0\<rparr>)"
    using pw[of 0] pw[of 1] pw[of 2] pw[of 6] pw[of 8] pw[of 14] by blast
  with assms(2,3) show ?thesis
    by (elim insertE emptyE)
      (auto simp: LowerToLut_def LowerBinaryOp_def CanOpcodeBeLoweredToLut_def IsLut_def)
qed

definition demo_xor :: Operation where
  "demo_xor = \<lparr>op_opcode = BinaryOp Xor, op_signExtendSourceMask = 2, op_locations = {},
     op_src = [SrcRegister 0, SrcRegister 1], op_dst = [DstRegister 2]\<rparr>"

theorem LowerToLut_pointwise_succeeds_witness:
  "\<exists>es. LowerToLut demo_rt demo_xor =
    Some (demo_xor\<lparr>op_opcode := Lut es, op_signExtendSourceMask := 0\<rparr>, True)"
proof (rule LowerToLut_pointwise_succeeds[where env = "\<lambda>r. 0"])
  show "lowerable demo_rt (\<lambda>r. 0) demo_xor"
    by (simp add: lowerable_def demo_rt_def demo_xor_def srcs_ok_def env_ok_def reg_width_def
        All_less_Suc numeral_2_eq_2 numeral_3_eq_3)
qed (simp_all add: demo_xor_def)

end
