(* ===== verification/Lut_Fixup.thy ===== *)
theory Lut_Fixup
  imports Lower_Lut "HOL-Library.Product_Lexorder"
begin

text \<open>
  Clean-up of lookup tables (\<^verbatim>\<open>optimize_lut.cpp\<close>, \<^verbatim>\<open>OptimizeLutOpt\<close> and \<^verbatim>\<open>DetectConstantLut\<close> to
  \<^verbatim>\<open>FixupLutOps\<close>): removal of known, unused and repeated columns and of unused and repeated
  source operands, run to convergence. A pass returns the operation it leaves and whether it
  changed anything. The locale \<open>lut_pass\<close> is the contract the six passes share (same value, fewer
  columns or operands when something changed); the loop's theorems rest on it.
\<close>

subsection \<open>Columns with known values\<close>

text \<open>\<^verbatim>\<open>SetConstantLutSources\<close>. \<open>literalValueTable\<close> maps a column to its known value.\<close>

definition OriginalRow :: "nat list \<Rightarrow> nat list \<Rightarrow> (nat \<Rightarrow> bool option) \<Rightarrow> nat \<Rightarrow> nat" where
  "OriginalRow srcOpTable literalSrcOpTable literalValueTable newTableSlotIndex =
     (let index0 = fold (\<lambda>srcOpInNewLut acc.
            if bit_at newTableSlotIndex srcOpInNewLut
            then acc OR push_bit (srcOpTable ! srcOpInNewLut) 1 else acc)
          [0..<length srcOpTable] 0
      in fold (\<lambda>srcOpInOriginalLut acc.
            if literalValueTable srcOpInOriginalLut = Some True
            then acc OR push_bit srcOpInOriginalLut 1 else acc)
          literalSrcOpTable index0)"

definition SetConstantLutSources ::
  "Operation \<Rightarrow> LutEntry \<Rightarrow> (nat \<Rightarrow> bool option) \<Rightarrow> LutEntry option" where
  "SetConstantLutSources op originalLutEntry literalValueTable = do {
     _ \<leftarrow> assert_that (le_numSources originalLutEntry \<le> c_maxLutSources);
     let columns = [0..<le_numSources originalLutEntry];
     let literalSrcOpTable = filter (\<lambda>i. literalValueTable i \<noteq> None) columns;
     _ \<leftarrow> assert_that (length literalSrcOpTable > 0);
     let srcOpTable = filter (\<lambda>i. literalValueTable i = None) columns;
     _ \<leftarrow> assert_that (list_all (\<lambda>srcOp.
           IsRegisterOperand (op_src op ! fst (le_sources originalLutEntry ! srcOp))) srcOpTable);
     Some \<lparr>le_sources = map (\<lambda>srcOp. le_sources originalLutEntry ! srcOp) srcOpTable,
           le_table = or_bits (2 ^ length srcOpTable) (\<lambda>newTableSlotIndex.
             bit_at (le_table originalLutEntry)
               (OriginalRow srcOpTable literalSrcOpTable literalValueTable newTableSlotIndex))\<rparr> }"

definition LiteralColumn :: "Operation \<Rightarrow> LutEntry \<Rightarrow> nat \<Rightarrow> bool option option" where
  "LiteralColumn op e srcOp =
     (let (srcIndex, whichBit) = le_sources e ! srcOp
      in if IsLiteralOperand (op_src op ! srcIndex)
         then do { literalBit \<leftarrow> GetLiteralBit op srcIndex whichBit; Some (Some literalBit) }
         else Some None)"

definition FixupLutEntry :: "Operation \<Rightarrow> LutEntry \<Rightarrow> (LutEntry \<times> bool) option" where
  "FixupLutEntry op e = do {
     values \<leftarrow> map_opt (LiteralColumn op e) [0..<le_numSources e];
     if list_ex (\<lambda>v. v \<noteq> None) values then do {
       e' \<leftarrow> SetConstantLutSources op e (\<lambda>i. if i < length values then values ! i else None);
       Some (e', True) }
     else Some (e, False) }"

text \<open>Every pass visits the entries of the operation's table in order.\<close>

definition lut_entries :: "Operation \<Rightarrow> LutEntry list option" where
  "lut_entries op = (case op_opcode op of Lut es \<Rightarrow> Some es | _ \<Rightarrow> None)"

definition map_entries ::
  "(LutEntry \<Rightarrow> (LutEntry \<times> bool) option) \<Rightarrow> Operation \<Rightarrow> (Operation \<times> bool) option" where
  "map_entries f op = do {
     es \<leftarrow> lut_entries op;
     rs \<leftarrow> map_opt f es;
     Some (op\<lparr>op_opcode := Lut (map fst rs)\<rparr>, list_ex snd rs) }"

definition FixupLutOp :: "Operation \<Rightarrow> (Operation \<times> bool) option" where
  "FixupLutOp op = map_entries (FixupLutEntry op) op"

subsection \<open>Columns that do not matter\<close>

text \<open>The rows of the old table are scanned in order; the state is the new table and
  \<^verbatim>\<open>numRowsCopied\<close>.\<close>

definition CopyRow ::
  "LutEntry \<Rightarrow> nat \<Rightarrow> bool \<Rightarrow> nat \<Rightarrow> 64 word \<times> nat \<Rightarrow> 64 word \<times> nat" where
  "CopyRow inputLutEntry srcIndex knownValue oldOutputIndex st =
     (case st of (table, numRowsCopied) \<Rightarrow>
        if bit_at oldOutputIndex srcIndex = knownValue
        then (table OR push_bit numRowsCopied (of_bool (bit_at (le_table inputLutEntry) oldOutputIndex)),
              Suc numRowsCopied)
        else st)"

definition RemoveSourceFromLut :: "LutEntry \<Rightarrow> nat \<Rightarrow> bool \<Rightarrow> LutEntry option" where
  "RemoveSourceFromLut inputLutEntry srcIndex knownValue = do {
     _ \<leftarrow> assert_that (srcIndex < le_numSources inputLutEntry);
     let oldTableSize = 2 ^ le_numSources inputLutEntry;
     let (table, numRowsCopied) =
       fold (CopyRow inputLutEntry srcIndex knownValue) [0..<oldTableSize] (0, 0);
     _ \<leftarrow> assert_that (numRowsCopied = oldTableSize div 2);
     Some \<lparr>le_sources = map (\<lambda>oldSrcIndex. le_sources inputLutEntry ! oldSrcIndex)
             (filter (\<lambda>oldSrcIndex. oldSrcIndex \<noteq> srcIndex) [0..<le_numSources inputLutEntry]),
           le_table = table\<rparr> }"

fun RemoveUnusedColumn :: "LutEntry \<Rightarrow> nat list \<Rightarrow> (LutEntry \<times> bool) option" where
  "RemoveUnusedColumn lutEntry [] = Some (lutEntry, False)"
| "RemoveUnusedColumn lutEntry (candidateSrcIndex # candidates) = do {
     table0 \<leftarrow> RemoveSourceFromLut lutEntry candidateSrcIndex False;
     table1 \<leftarrow> RemoveSourceFromLut lutEntry candidateSrcIndex True;
     if le_table table0 = le_table table1 then Some (table0, True)
     else RemoveUnusedColumn lutEntry candidates }"

definition RemoveUnusedLutSourceRegisters :: "Operation \<Rightarrow> (Operation \<times> bool) option" where
  "RemoveUnusedLutSourceRegisters op = do {
     _ \<leftarrow> assert_that (length (op_dst op) = 1);
     map_entries (\<lambda>lutEntry. RemoveUnusedColumn lutEntry [0..<le_numSources lutEntry]) op }"

subsection \<open>Operands that are not referenced\<close>

text \<open>The indices in increasing order, as the iteration over \<^verbatim>\<open>std::set\<close> gives them.\<close>

definition usedSourceIndices :: "LutEntry list \<Rightarrow> nat list" where
  "usedSourceIndices es = sort (remdups (concat (map (\<lambda>e. map fst (le_sources e)) es)))"

definition rename_sources :: "(nat, nat) smap \<Rightarrow> LutEntry \<Rightarrow> LutEntry option" where
  "rename_sources operandMap e = do {
     sources \<leftarrow> map_opt (\<lambda>(srcIndex, b). do {
         i \<leftarrow> SafeLookup operandMap srcIndex; Some (i, b) }) (le_sources e);
     Some (e\<lparr>le_sources := sources\<rparr>) }"

definition RemoveUnusedLutSourceOperands :: "Operation \<Rightarrow> (Operation \<times> bool) option" where
  "RemoveUnusedLutSourceOperands op = do {
     es \<leftarrow> lut_entries op;
     _ \<leftarrow> assert_that (length (op_dst op) = 1);
     let used = usedSourceIndices es;
     _ \<leftarrow> assert_that (length used \<le> length (op_src op));
     if length used < length (op_src op) then do {
       (operandMap, newIndex) \<leftarrow> fold_opt (\<lambda>index (operandMap, newIndex). do {
           m \<leftarrow> SafeInsert operandMap index newIndex; Some (m, Suc newIndex) }) used ([], 0);
       _ \<leftarrow> assert_that (newIndex = length used);
       newSourceOperands \<leftarrow> fold_opt (\<lambda>(old, new) srcs. do {
           _ \<leftarrow> assert_that (old < length (op_src op));
           _ \<leftarrow> assert_that (new < length srcs);
           Some (srcs[new := op_src op ! old]) })
         operandMap (replicate (length operandMap) (SrcStringLiteral ''''));
       es' \<leftarrow> map_opt (rename_sources operandMap) es;
       Some (op\<lparr>op_src := newSourceOperands, op_opcode := Lut es'\<rparr>, True) }
     else Some (op, False) }"

subsection \<open>Operands that read the same register\<close>

record DuplicateState =
  ds_regToOperandIndex :: "(nat, nat) smap"
  ds_operandIndexMap :: "(nat, nat) smap"
  ds_newSrcOperands :: "SourceOperand list"
  ds_duplicateFound :: bool

definition DuplicateStep :: "Operation \<Rightarrow> nat \<Rightarrow> DuplicateState \<Rightarrow> DuplicateState option" where
  "DuplicateStep op i st = do {
     let srcOp = op_src op ! i;
     registerIndex \<leftarrow> GetAccessedRegister srcOp;
     let numUniqueOperands = length (ds_newSrcOperands st);
     (case map_of (ds_regToOperandIndex st) registerIndex of
        None \<Rightarrow> do {
          regs \<leftarrow> SafeInsert (ds_regToOperandIndex st) registerIndex numUniqueOperands;
          ops \<leftarrow> SafeInsert (ds_operandIndexMap st) i numUniqueOperands;
          Some (st\<lparr>ds_regToOperandIndex := regs, ds_operandIndexMap := ops,
                   ds_newSrcOperands := ds_newSrcOperands st @ [srcOp]\<rparr>) }
      | Some previous \<Rightarrow> do {
          ops \<leftarrow> SafeInsert (ds_operandIndexMap st) i previous;
          Some (st\<lparr>ds_operandIndexMap := ops, ds_duplicateFound := True\<rparr>) }) }"

definition RemoveDuplicateLutSourceRegisters :: "Operation \<Rightarrow> (Operation \<times> bool) option" where
  "RemoveDuplicateLutSourceRegisters op = do {
     es \<leftarrow> lut_entries op;
     _ \<leftarrow> assert_that (length (op_dst op) = 1);
     _ \<leftarrow> assert_that (op_signExtendSourceMask op = 0);
     st \<leftarrow> fold_opt (DuplicateStep op) [0..<length (op_src op)]
       \<lparr>ds_regToOperandIndex = [], ds_operandIndexMap = [], ds_newSrcOperands = [],
        ds_duplicateFound = False\<rparr>;
     if ds_duplicateFound st then do {
       es' \<leftarrow> map_opt (rename_sources (ds_operandIndexMap st)) es;
       Some (op\<lparr>op_src := ds_newSrcOperands st, op_opcode := Lut es'\<rparr>, True) }
     else Some (op, False) }"

subsection \<open>Columns that read the same bit\<close>

type_synonym ColumnMap = "(nat \<times> nat, nat list \<times> nat) smap"

text \<open>The old columns of an (operand, bit) pair are a set in the source; they arrive in
  increasing order.\<close>

definition ColumnStep :: "LutEntry \<Rightarrow> nat \<Rightarrow> ColumnMap \<Rightarrow> ColumnMap option" where
  "ColumnStep lutEntry sourceIndex m =
     (let oiab = le_sources lutEntry ! sourceIndex
      in case map_of m oiab of
           None \<Rightarrow> SafeInsert m oiab ([sourceIndex], length m)
         | Some (oldColumns, newColumn) \<Rightarrow> do {
             _ \<leftarrow> assert_that (sourceIndex \<notin> set oldColumns);
             Some (map_insert oiab (oldColumns @ [sourceIndex], newColumn) m) })"

definition originalTableIndex :: "ColumnMap \<Rightarrow> nat \<Rightarrow> nat" where
  "originalTableIndex m newTableRow =
     fold (\<lambda>(oiab, oldColumns, newColumn) acc.
         if bit_at newTableRow newColumn
         then fold (\<lambda>c acc. acc OR push_bit c 1) oldColumns acc else acc) m 0"

definition DeduplicateEntry :: "LutEntry \<Rightarrow> (LutEntry \<times> bool) option" where
  "DeduplicateEntry lutEntry = do {
     m \<leftarrow> fold_opt (ColumnStep lutEntry) [0..<le_numSources lutEntry] [];
     _ \<leftarrow> assert_that (length m \<le> le_numSources lutEntry);
     if length m < le_numSources lutEntry then do {
       _ \<leftarrow> assert_that (length m \<le> c_maxLutSources);
       rows \<leftarrow> map_opt (\<lambda>newTableRow. GetTableEntry lutEntry (originalTableIndex m newTableRow))
         [0..<2 ^ length m];
       sources \<leftarrow> fold_opt (\<lambda>(oiab, oldColumns, newColumn) sources. do {
           _ \<leftarrow> assert_that (newColumn < length m);
           Some (sources[newColumn := oiab]) }) m (replicate (length m) (0, 0));
       Some (\<lparr>le_sources = sources,
              le_table = or_bits (2 ^ length m) (\<lambda>newTableRow. rows ! newTableRow)\<rparr>, True) }
     else Some (lutEntry, False) }"

definition RemoveDuplicateLutColumns :: "Operation \<Rightarrow> (Operation \<times> bool) option" where
  "RemoveDuplicateLutColumns op = do {
     _ \<leftarrow> assert_that (length (op_dst op) = 1);
     map_entries DeduplicateEntry op }"

subsection \<open>Tables without columns\<close>

definition DetectConstantLut :: "Operation \<Rightarrow> (Operation \<times> bool) option" where
  "DetectConstantLut op = do {
     es \<leftarrow> lut_entries op;
     _ \<leftarrow> assert_that (length (op_dst op) = 1);
     _ \<leftarrow> assert_that (list_all (\<lambda>e. le_numSources e = 0 \<longrightarrow> le_table e = 0 \<or> le_table e = 1) es);
     let allDestinationBitsKnown = list_all (\<lambda>e. le_numSources e = 0) es;
     let knownValue = or_bits (length es) (\<lambda>dstIndex.
           le_numSources (es ! dstIndex) = 0 \<and> le_table (es ! dstIndex) \<noteq> 0);
     if allDestinationBitsKnown then do {
       s \<leftarrow> SourceOperand_mp knownValue;
       Some ((new_operation Mov (op_locations op) [op_dst op ! 0])\<lparr>op_src := [s]\<rparr>, True) }
     else Some (op, False) }"

subsection \<open>The loop\<close>

definition FixupIteration :: "Operation \<Rightarrow> (Operation \<times> bool) option" where
  "FixupIteration op = do {
     (op, p1) \<leftarrow> FixupLutOp op;
     (op, p2) \<leftarrow> RemoveUnusedLutSourceRegisters op;
     (op, p3) \<leftarrow> RemoveUnusedLutSourceOperands op;
     (op, p4) \<leftarrow> RemoveDuplicateLutSourceRegisters op;
     (op, p5) \<leftarrow> RemoveDuplicateLutColumns op;
     (op, p6) \<leftarrow> DetectConstantLut op;
     Some (op, p1 \<or> p2 \<or> p3 \<or> p4 \<or> p5 \<or> p6) }"

text \<open>What the passes use up: columns and source operands.\<close>

definition lut_size :: "Operation \<Rightarrow> nat" where
  "lut_size op =
     (case op_opcode op of Lut es \<Rightarrow> sum_list (map le_numSources es) | _ \<Rightarrow> 0) + length (op_src op)"

subsection \<open>Rewriting the rows of a table\<close>

lemma bit_fold_or:
  "bit (fold (\<lambda>i acc. if P i then acc OR push_bit (f i) 1 else acc) xs (a :: nat)) c \<longleftrightarrow>
     bit a c \<or> (\<exists>i \<in> set xs. P i \<and> f i = c)"
  by (induction xs arbitrary: a) (auto simp: bit_or_iff bit_push_bit_iff bit_1_iff bit_exp_iff)

lemma take_bit_or_bits [simp]: "take_bit n (or_bits n f :: 64 word) = or_bits n f"
  by (rule bit_eqI) (auto simp: bit_take_bit_iff)

text \<open>A new table whose rows are looked up in the old one: it has the same value where the row
  map takes the selected row to the selected row.\<close>

lemma entry_value_reindex:
  assumes "le_numSources e' \<le> c_maxLutSources"
    and "le_table e' = or_bits (2 ^ le_numSources e') (\<lambda>r. bit (le_table e) (g r))"
    and "g (tableRowIndex ev e') = tableRowIndex ev e"
  shows "entry_value ev e' = entry_value ev e"
proof -
  have "tableRowIndex ev e' < 64"
    using tableRowIndex_less[of ev e'] pow_sources_le[OF assms(1)] by linarith
  then show ?thesis
    using tableRowIndex_less[of ev e'] by (simp add: entry_value_def assms(2,3))
qed

lemma tableRowIndex_eqI:
  assumes "\<And>c. c < le_numSources e \<Longrightarrow>
      bit r c = bit (ev (fst (le_sources e ! c))) (snd (le_sources e ! c))"
    and "\<And>c. bit r c \<Longrightarrow> c < le_numSources e"
  shows "r = tableRowIndex ev e"
  using assms by (intro bit_eqI) auto

subsection \<open>Known columns\<close>

lemma bit_OriginalRow:
  "bit (OriginalRow S Ls lits slot) c \<longleftrightarrow>
     (\<exists>j < length S. S ! j = c \<and> bit slot j) \<or> (c \<in> set Ls \<and> lits c = Some True)"
proof -
  have *: "bit (fold (\<lambda>j acc. if bit slot j then acc OR push_bit (S ! j) 1 else acc) [0..<length S] (0 :: nat)) c
      \<longleftrightarrow> (\<exists>j < length S. S ! j = c \<and> bit slot j)"
    using bit_fold_or[of "bit slot" "(!) S" "[0..<length S]" 0 c] by auto
  show ?thesis
    unfolding OriginalRow_def Let_def bit_at_bit
    using bit_fold_or[of "\<lambda>i. lits i = Some True" "\<lambda>i. i" Ls _ c] * by auto
qed

lemma SetConstantLutSources_value:
  assumes "SetConstantLutSources op e lits = Some e'"
    and "\<And>c v. c < le_numSources e \<Longrightarrow> lits c = Some v \<Longrightarrow>
      v = bit (ev (fst (le_sources e ! c))) (snd (le_sources e ! c))"
  shows "entry_value ev e' = entry_value ev e"
proof -
  let ?n = "le_numSources e"
  define S where "S = filter (\<lambda>i. lits i = None) [0..<?n]"
  define Ls where "Ls = filter (\<lambda>i. lits i \<noteq> None) [0..<?n]"
  from assms(1) have le: "?n \<le> c_maxLutSources"
    and e': "e' = \<lparr>le_sources = map (\<lambda>c. le_sources e ! c) S,
      le_table = or_bits (2 ^ length S) (\<lambda>r. bit (le_table e) (OriginalRow S Ls lits r))\<rparr>"
    by (simp_all add: SetConstantLutSources_def Let_def S_def Ls_def)
  have len: "length S \<le> ?n"
    unfolding S_def using length_filter_le[of "\<lambda>i. lits i = None" "[0..<?n]"] by simp
  have S: "set S = {c. c < ?n \<and> lits c = None}" and Ls: "set Ls = {c. c < ?n \<and> lits c \<noteq> None}"
    by (auto simp: S_def Ls_def)
  have "OriginalRow S Ls lits (tableRowIndex ev e') = tableRowIndex ev e"
  proof (rule tableRowIndex_eqI)
    fix c assume c: "c < ?n"
    show "bit (OriginalRow S Ls lits (tableRowIndex ev e')) c =
        bit (ev (fst (le_sources e ! c))) (snd (le_sources e ! c))"
    proof (cases "lits c")
      case None
      then have "c \<in> set S" using c S by simp
      then obtain j where "j < length S" "S ! j = c" by (auto simp: in_set_conv_nth)
      moreover have "distinct S" by (simp add: S_def)
      ultimately show ?thesis
        using None by (auto simp: bit_OriginalRow e' nth_eq_iff_index_eq)
    next
      case (Some v)
      with c have "c \<notin> set S" "c \<in> set Ls" by (simp_all add: S Ls)
      then show ?thesis
        using Some assms(2)[OF c Some] by (auto simp: bit_OriginalRow in_set_conv_nth)
    qed
  next
    fix c assume "bit (OriginalRow S Ls lits (tableRowIndex ev e')) c"
    then have "c \<in> set S \<or> c \<in> set Ls"
      by (auto simp: bit_OriginalRow)
    then show "c < ?n" by (auto simp: S Ls)
  qed
  then show ?thesis
    using le len by (intro entry_value_reindex[where g = "OriginalRow S Ls lits"]) (auto simp: e')
qed

lemma SetConstantLutSources_shape:
  assumes "SetConstantLutSources op e lits = Some e'"
  shows "le_numSources e' < le_numSources e" "entry_ok n e \<Longrightarrow> entry_ok n e'"
    and "(i, b) \<in> set (le_sources e') \<Longrightarrow> \<exists>c < le_numSources e. lits c = None \<and> le_sources e ! c = (i, b)"
proof -
  let ?S = "filter (\<lambda>i. lits i = None) [0..<le_numSources e]"
  from assms have src: "le_sources e' = map (\<lambda>c. le_sources e ! c) ?S"
    and tbl: "\<exists>f. le_table e' = or_bits (2 ^ length ?S) f"
    and lits: "filter (\<lambda>i. lits i \<noteq> None) [0..<le_numSources e] \<noteq> []"
    by (auto simp: SetConstantLutSources_def Let_def)
  from lits obtain c where "c \<in> set [0..<le_numSources e]" "lits c \<noteq> None"
    by (auto simp: filter_empty_conv)
  then have "length ?S < length [0..<le_numSources e]"
    by (rule length_filter_less)
  then show less: "le_numSources e' < le_numSources e"
    by (simp add: src)
  show "\<exists>c < le_numSources e. lits c = None \<and> le_sources e ! c = (i, b)" if "(i, b) \<in> set (le_sources e')"
    using that by (auto simp: src)
  have "set (le_sources e') \<subseteq> set (le_sources e)"
    by (auto simp: src)
  with less tbl show "entry_ok n e \<Longrightarrow> entry_ok n e'"
    by (auto simp: entry_ok_def src)
qed

lemma LiteralColumn_eq:
  assumes "LiteralColumn op e c = Some v" "op_signExtendSourceMask op = 0" "srcs_ok rt op"
    and "fst (le_sources e ! c) < length (op_src op)"
  shows "(v = None \<longleftrightarrow> \<not> IsLiteralOperand (op_src op ! fst (le_sources e ! c))) \<and>
    (v \<noteq> None \<longrightarrow> v = Some (bit (src_values env op (fst (le_sources e ! c))) (snd (le_sources e ! c))))"
proof -
  obtain i b where s: "le_sources e ! c = (i, b)" by (cases "le_sources e ! c")
  show ?thesis
  proof (cases "op_src op ! i")
    case (SrcLiteral l)
    then have "lit_ok l" using srcs_ok_nth[OF assms(3), of i] assms(4) s by simp
    then show ?thesis
      using assms(1,2) lit_ok_bit_less[of l b] SrcLiteral s
      by (auto simp: LiteralColumn_def IsLiteralOperand_def GetLiteralBit_def operand_value_def lit_ok_def
          split: if_splits)
  qed (use assms(1) s in \<open>auto simp: LiteralColumn_def IsLiteralOperand_def\<close>)
qed

lemma LiteralColumn_total:
  assumes "op_signExtendSourceMask op = 0" "srcs_ok rt op" "fst (le_sources e ! c) < length (op_src op)"
  shows "\<exists>v. LiteralColumn op e c = Some v"
proof -
  obtain i b where s: "le_sources e ! c = (i, b)" by (cases "le_sources e ! c")
  show ?thesis
    using srcs_ok_nth[OF assms(2), of i] assms(3) s
    by (cases "op_src op ! i")
      (auto simp: LiteralColumn_def IsLiteralOperand_def GetLiteralBit_def lit_ok_def bind_assert_if)
qed


subsection \<open>Removing one column\<close>

text \<open>The row of the old table for row \<open>k\<close> of the new one: bit \<open>i\<close> is inserted.\<close>

definition insert_bit :: "nat \<Rightarrow> bool \<Rightarrow> nat \<Rightarrow> nat" where
  "insert_bit i v k = take_bit i k + of_bool v * 2 ^ i + 2 ^ Suc i * (k div 2 ^ i)"

lemma bit_insert_bit:
  "bit (insert_bit i v k) j = (if j < i then bit k j else if j = i then v else bit k (j - 1))"
proof -
  have "insert_bit i v k = take_bit i k + push_bit i (of_bool v + 2 * (k div 2 ^ i))"
    by (simp add: insert_bit_def push_bit_eq_mult algebra_simps)
  also have "\<dots> = take_bit i k OR push_bit i (of_bool v + 2 * (k div 2 ^ i))"
    by (rule disjunctive_add_eq_or) (auto intro!: bit_eqI simp: bit_and_iff bit_take_bit_iff bit_push_bit_iff)
  finally have "bit (insert_bit i v k) j =
      ((j < i \<and> bit k j) \<or> (i \<le> j \<and> bit (of_bool v + 2 * (k div 2 ^ i)) (j - i)))"
    by (simp add: bit_or_iff bit_take_bit_iff bit_push_bit_iff)
  moreover have "bit (of_bool v + 2 * (k div 2 ^ i)) (j - i) = (if j = i then v else bit k (j - 1))"
    if "i \<le> j"
  proof (cases "j = i")
    case False
    with that obtain d where "j = Suc (i + d)" by (metis add_Suc_right le_neq_implies_less less_imp_Suc_add)
    moreover have "(of_bool v + 2 * (k div 2 ^ i)) div 2 = k div 2 ^ i" by (cases v) auto
    ultimately show ?thesis
      by (simp add: bit_Suc bit_iff_odd div_mult2_eq power_add Suc_diff_le)
  qed (simp add: bit_0)
  ultimately show ?thesis by auto
qed

lemma insert_bit_mono:
  assumes "k < k'"
  shows "insert_bit i v k < insert_bit i v k'"
proof -
  define M :: nat where "M = 2 ^ i"
  have M: "0 < M" by (simp add: M_def)
  have form: "insert_bit i v k = k mod M + of_bool v * M + 2 * M * (k div M)" for k
    by (simp add: insert_bit_def M_def take_bit_eq_mod)
  from assms have "k div M \<le> k' div M" by (simp add: div_le_mono)
  then consider "k div M = k' div M" | "k div M + 1 \<le> k' div M" by linarith
  then show ?thesis
  proof cases
    case 1
    with assms have "k mod M < k' mod M"
      by (metis add_less_cancel_left mult_div_mod_eq)
    with 1 show ?thesis by (simp add: form)
  next
    case 2
    then have "2 * M * (k div M + 1) \<le> 2 * M * (k' div M)"
      by (intro mult_le_mono2)
    moreover have "k mod M < M" using M by simp
    ultimately show ?thesis by (simp add: form algebra_simps)
  qed
qed

lemma rows_with_bit:
  assumes "i < n"
  shows "filter (\<lambda>r. bit r i = v) [0..<2 ^ n] = map (insert_bit i v) [0..<2 ^ (n - 1)]"
proof (rule sorted_distinct_set_unique)
  show "sorted (map (insert_bit i v) [0..<2 ^ (n - 1)])"
    by (auto simp: sorted_iff_nth_mono_less intro!: less_imp_le insert_bit_mono)
  show "distinct (map (insert_bit i v) [0..<2 ^ (n - 1)])"
    by (auto simp: distinct_map inj_on_def) (metis insert_bit_mono linorder_neqE_nat less_irrefl)
  show "set (filter (\<lambda>r. bit r i = v) [0..<2 ^ n]) = set (map (insert_bit i v) [0..<2 ^ (n - 1)])"
  proof (intro equalityI subsetI)
    fix r assume r: "r \<in> set (filter (\<lambda>r. bit r i = v) [0..<2 ^ n])"
    define k where "k = take_bit i r OR push_bit i (drop_bit (Suc i) r)"
    have kb: "bit k j = (if j < i then bit r j else bit r (Suc j))" for j
      by (auto simp: k_def bit_or_iff bit_take_bit_iff bit_push_bit_iff bit_drop_bit_eq)
    have "insert_bit i v k = r"
      using r by (intro bit_eqI) (auto simp: bit_insert_bit kb)
    moreover have "take_bit (n - 1) k = k"
      using r assms bit_nat_less_exp[of r n] by (intro bit_eqI) (fastforce simp: bit_take_bit_iff kb split: if_splits)
    then have "k < 2 ^ (n - 1)"
      by (metis take_bit_nat_less_exp)
    ultimately show "r \<in> set (map (insert_bit i v) [0..<2 ^ (n - 1)])"
      by (auto intro!: image_eqI)
  next
    fix r assume "r \<in> set (map (insert_bit i v) [0..<2 ^ (n - 1)])"
    then obtain k where k: "r = insert_bit i v k" "k < 2 ^ (n - 1)" by auto
    have "take_bit n r = r"
      using bit_nat_less_exp[OF k(2)] assms
      by (intro bit_eqI) (fastforce simp: bit_take_bit_iff k(1) bit_insert_bit split: if_splits)
    then have "r < 2 ^ n"
      by (metis take_bit_nat_less_exp)
    then show "r \<in> set (filter (\<lambda>r. bit r i = v) [0..<2 ^ n])"
      by (simp add: k(1) bit_insert_bit)
  qed
qed (simp_all add: sorted_wrt_filter)

lemma CopyRow_fold:
  "fold (CopyRow e i v) [0..<m] (0, 0) =
     (let rows = filter (\<lambda>r. bit r i = v) [0..<m]
      in (or_bits (length rows) (\<lambda>k. bit (le_table e) (rows ! k)), length rows))"
proof (induction m)
  case 0
  then show ?case by (simp add: or_bits_def)
next
  case (Suc m)
  let ?R = "filter (\<lambda>r. bit r i = v) [0..<m]"
  have "(or_bits (length ?R) (\<lambda>k. bit (le_table e) (?R ! k)) OR
        push_bit (length ?R) (of_bool (bit (le_table e) m)) :: 64 word) =
      or_bits (Suc (length ?R)) (\<lambda>k. bit (le_table e) ((?R @ [m]) ! k))"
    by (rule bit_eqI) (auto simp: bit_or_iff bit_push_bit_iff bit_of_bool_iff nth_append less_Suc_eq)
  then have step: "CopyRow e i v m (let rows = ?R in
        (or_bits (length rows) (\<lambda>k. bit (le_table e) (rows ! k)), length rows)) =
      (let rows = filter (\<lambda>r. bit r i = v) [0..<Suc m] in
        (or_bits (length rows) (\<lambda>k. bit (le_table e) (rows ! k)), length rows))"
    by (simp add: CopyRow_def Let_def)
  have "fold (CopyRow e i v) [0..<Suc m] (0, 0) = CopyRow e i v m (fold (CopyRow e i v) [0..<m] (0, 0))"
    by simp
  then show ?case
    by (simp only: Suc step)
qed

lemma RemoveSourceFromLut_eq:
  assumes "i < le_numSources e"
  shows "RemoveSourceFromLut e i v = Some
    \<lparr>le_sources = map (\<lambda>c. le_sources e ! c) (filter (\<lambda>c. c \<noteq> i) [0..<le_numSources e]),
     le_table = or_bits (2 ^ (le_numSources e - 1)) (\<lambda>k. bit (le_table e) (insert_bit i v k))\<rparr>"
proof -
  have "(or_bits (2 ^ (le_numSources e - 1)) (\<lambda>k. bit (le_table e)
        (map (insert_bit i v) [0..<2 ^ (le_numSources e - 1)] ! k)) :: 64 word) =
      or_bits (2 ^ (le_numSources e - 1)) (\<lambda>k. bit (le_table e) (insert_bit i v k))"
    by (rule or_bits_cong) simp_all
  moreover have "(2::nat) ^ le_numSources e div 2 = 2 ^ (le_numSources e - 1)"
    using assms by (cases "le_numSources e") simp_all
  ultimately show ?thesis
    using assms by (simp add: RemoveSourceFromLut_def CopyRow_fold rows_with_bit Let_def)
qed

lemma filter_ne_upt:
  assumes "i < n"
  shows "filter (\<lambda>c. c \<noteq> i) [0..<n] = map (\<lambda>j. if j < i then j else Suc j) [0..<n - 1]"
proof (rule sorted_distinct_set_unique)
  show "set (filter (\<lambda>c. c \<noteq> i) [0..<n]) = set (map (\<lambda>j. if j < i then j else Suc j) [0..<n - 1])"
  proof (intro equalityI subsetI)
    fix c assume "c \<in> set (filter (\<lambda>c. c \<noteq> i) [0..<n])"
    then show "c \<in> set (map (\<lambda>j. if j < i then j else Suc j) [0..<n - 1])"
      using assms by (intro image_eqI[where x = "if c < i then c else c - 1", THEN set_map[THEN equalityD2, THEN subsetD]])
        auto
  qed (use assms in auto)
  show "sorted (filter (\<lambda>c. c \<noteq> i) [0..<n])"
    by (simp add: sorted_wrt_filter)
qed (auto simp: sorted_iff_nth_mono_less distinct_map inj_on_def)

lemma RemoveSourceFromLut_value:
  assumes "RemoveSourceFromLut e i v = Some e'" "le_numSources e \<le> c_maxLutSources"
    and "v = bit (ev (fst (le_sources e ! i))) (snd (le_sources e ! i))"
  shows "entry_value ev e' = entry_value ev e"
proof -
  from assms(1) have i: "i < le_numSources e"
    by (simp add: RemoveSourceFromLut_def)
  with assms(1) have e': "le_sources e' = map (\<lambda>j. le_sources e ! (if j < i then j else Suc j)) [0..<le_numSources e - 1]"
      "le_table e' = or_bits (2 ^ (le_numSources e - 1)) (\<lambda>k. bit (le_table e) (insert_bit i v k))"
    by (auto simp: RemoveSourceFromLut_eq filter_ne_upt)
  show ?thesis
  proof (rule entry_value_reindex[where g = "insert_bit i v"])
    show "insert_bit i v (tableRowIndex ev e') = tableRowIndex ev e"
      using i assms(3) by (intro tableRowIndex_eqI) (auto simp: bit_insert_bit e' split: if_splits)
  qed (use assms(2) in \<open>simp_all add: e'\<close>)
qed


lemma RemoveSourceFromLut_shape:
  assumes "RemoveSourceFromLut e i v = Some e'"
  shows "Suc (le_numSources e') = le_numSources e" "entry_ok n e \<Longrightarrow> entry_ok n e'"
    and "set (le_sources e') \<subseteq> set (le_sources e)"
proof -
  from assms have i: "i < le_numSources e"
    by (simp add: RemoveSourceFromLut_def)
  with assms have e': "le_sources e' = map (\<lambda>j. le_sources e ! (if j < i then j else Suc j)) [0..<le_numSources e - 1]"
      "le_table e' = or_bits (2 ^ (le_numSources e - 1)) (\<lambda>k. bit (le_table e) (insert_bit i v k))"
    by (auto simp: RemoveSourceFromLut_eq filter_ne_upt)
  show len: "Suc (le_numSources e') = le_numSources e"
    using i by (simp add: e')
  show sub: "set (le_sources e') \<subseteq> set (le_sources e)"
    using i by (auto simp: e')
  have "take_bit (2 ^ le_numSources e') (le_table e') = le_table e'"
    by (simp add: e'(2) flip: len)
  then show "entry_ok n e \<Longrightarrow> entry_ok n e'"
    using len sub by (auto simp: entry_ok_def)
qed

text \<open>When the two tables agree, either is the restriction to the column's actual value.\<close>

lemma RemoveUnusedColumn_spec:
  assumes "RemoveUnusedColumn e cs = Some (e', ch)" "le_numSources e \<le> c_maxLutSources"
  shows "entry_value ev e' = entry_value ev e \<and> (\<not> ch \<longrightarrow> e' = e) \<and>
    (entry_ok n e \<longrightarrow> entry_ok n e') \<and> set (le_sources e') \<subseteq> set (le_sources e)"
  using assms
proof (induction e cs rule: RemoveUnusedColumn.induct)
  case (2 e c cs)
  from "2.prems"(1) obtain t0 t1 where t: "RemoveSourceFromLut e c False = Some t0"
      "RemoveSourceFromLut e c True = Some t1"
    and rest: "if le_table t0 = le_table t1 then (e', ch) = (t0, True)
      else RemoveUnusedColumn e cs = Some (e', ch)"
    by (auto split: bind_splits if_splits)
  show ?case
  proof (cases "le_table t0 = le_table t1")
    case True
    have c: "c < le_numSources e" using t(1) by (simp add: RemoveSourceFromLut_def)
    have "t0 = t1"
      using True t c by (simp add: RemoveSourceFromLut_eq) (metis LutEntry.ext_inject LutEntry.surjective)
    then have "RemoveSourceFromLut e c (bit (ev (fst (le_sources e ! c))) (snd (le_sources e ! c))) = Some t0"
      using t by (cases "bit (ev (fst (le_sources e ! c))) (snd (le_sources e ! c))") simp_all
    from RemoveSourceFromLut_value[OF this "2.prems"(2)] RemoveSourceFromLut_shape[OF t(1)] rest True
    show ?thesis by auto
  next
    case False
    then show ?thesis using 2 t rest by auto
  qed
qed simp

lemma RemoveUnusedColumn_shape:
  assumes "RemoveUnusedColumn e cs = Some (e', ch)"
  shows "if ch then le_numSources e' < le_numSources e else e' = e"
  using assms
proof (induction e cs rule: RemoveUnusedColumn.induct)
  case (2 e c cs)
  then show ?case
    by (auto split: bind_splits if_splits dest!: RemoveSourceFromLut_shape(1))
qed auto

lemma RemoveUnusedColumn_total:
  "\<forall>c \<in> set cs. c < le_numSources e \<Longrightarrow> \<exists>r. RemoveUnusedColumn e cs = Some r"
  by (induction e cs rule: RemoveUnusedColumn.induct) (auto simp: RemoveSourceFromLut_eq)

subsection \<open>Renaming source operands\<close>

lemma rename_sources_spec:
  assumes "rename_sources m e = Some e'"
  shows "le_table e' = le_table e" "le_numSources e' = le_numSources e"
    and "c < le_numSources e \<Longrightarrow> map_of m (fst (le_sources e ! c)) = Some (fst (le_sources e' ! c)) \<and>
      snd (le_sources e' ! c) = snd (le_sources e ! c)"
proof -
  from assms obtain ss where ss: "map_opt (\<lambda>(i, b). SafeLookup m i \<bind> (\<lambda>i. Some (i, b))) (le_sources e) = Some ss"
    and e': "e' = e\<lparr>le_sources := ss\<rparr>"
    by (auto simp: rename_sources_def split: bind_splits)
  show "le_table e' = le_table e" "le_numSources e' = le_numSources e"
    using map_opt_length[OF ss] by (simp_all add: e')
  show "map_of m (fst (le_sources e ! c)) = Some (fst (le_sources e' ! c)) \<and>
      snd (le_sources e' ! c) = snd (le_sources e ! c)" if "c < le_numSources e"
    using map_opt_nth[OF ss that]
    by (cases "le_sources e ! c"; cases "ss ! c") (auto simp: e' SafeLookup_def split: bind_splits)
qed

lemma rename_sources_total:
  assumes "\<forall>(i, b) \<in> set (le_sources e). map_of m i \<noteq> None"
  shows "\<exists>e'. rename_sources m e = Some e'"
proof -
  have "(\<lambda>(i, b). SafeLookup m i \<bind> (\<lambda>i. Some (i, b))) x = Some (the (map_of m (fst x)), snd x)"
    if "x \<in> set (le_sources e)" for x
    using assms that by (cases x) (auto simp: SafeLookup_def)
  then have "map_opt (\<lambda>(i, b). SafeLookup m i \<bind> (\<lambda>i. Some (i, b))) (le_sources e) =
      Some (map (\<lambda>x. (the (map_of m (fst x)), snd x)) (le_sources e))"
    by (rule map_opt_total)
  then show ?thesis
    by (simp add: rename_sources_def)
qed

lemma rename_sources_value:
  assumes "rename_sources m e = Some e'"
    and "\<And>i b j. (i, b) \<in> set (le_sources e) \<Longrightarrow> map_of m i = Some j \<Longrightarrow> ev' j = ev i"
  shows "entry_value ev' e' = entry_value ev e"
proof -
  have "ev' (fst (le_sources e' ! c)) = ev (fst (le_sources e ! c)) \<and>
      snd (le_sources e' ! c) = snd (le_sources e ! c)" if "c < le_numSources e" for c
    using rename_sources_spec(3)[OF assms(1) that] assms(2)[of "fst (le_sources e ! c)" "snd (le_sources e ! c)"] that
    by auto
  then have "tableRowIndex ev' e' = tableRowIndex ev e"
    by (intro bit_eqI) (auto simp: rename_sources_spec(2)[OF assms(1)])
  then show ?thesis
    by (simp add: entry_value_def rename_sources_spec(1)[OF assms(1)])
qed

lemma rename_sources_ok:
  assumes "rename_sources m e = Some e'" "entry_ok n e" "\<And>i j. map_of m i = Some j \<Longrightarrow> j < n'"
  shows "entry_ok n' e'"
proof -
  have "fst s < n'" if s: "s \<in> set (le_sources e')" for s
  proof -
    from s obtain c where "c < le_numSources e'" "le_sources e' ! c = s"
      by (auto simp: in_set_conv_nth)
    then show ?thesis
      using rename_sources_spec[OF assms(1)] assms(3) by (metis fst_conv)
  qed
  then show ?thesis
    using assms(2) rename_sources_spec(1,2)[OF assms(1)] by (auto simp: entry_ok_def)
qed


subsection \<open>Repeated columns\<close>

text \<open>After \<open>s\<close> columns: one entry per (operand, bit) pair seen, with its columns so far and a
  column number of its own in the new table.\<close>

definition columns_inv :: "LutEntry \<Rightarrow> nat \<Rightarrow> ColumnMap \<Rightarrow> bool" where
  "columns_inv e s m \<longleftrightarrow>
     smap_ok m \<and> dom (map_of m) = set (take s (le_sources e)) \<and> length m \<le> s \<and>
     (\<forall>k old new. map_of m k = Some (old, new) \<longrightarrow>
        old = filter (\<lambda>c. le_sources e ! c = k) [0..<s] \<and> new < length m) \<and>
     (\<forall>k k' old old' new. map_of m k = Some (old, new) \<longrightarrow> map_of m k' = Some (old', new) \<longrightarrow> k = k')"

lemma columns_invD:
  assumes "columns_inv e s m" "map_of m k = Some (old, new)"
  shows "old = filter (\<lambda>c. le_sources e ! c = k) [0..<s]" "new < length m"
    and "map_of m k' = Some (old', new) \<Longrightarrow> k = k'"
  using assms unfolding columns_inv_def by blast+

lemma length_map_insert_old: "k \<in> fst ` set m \<Longrightarrow> smap_ok m \<Longrightarrow> length (map_insert k v m) = length m"
  by (induction k v m rule: map_insert.induct) (auto simp: smap_ok_def)

lemma dom_map_of_fst: "dom (map_of m) = fst ` set m"
  by (rule dom_map_of_conv_image_fst)

lemma ColumnStep_inv:
  assumes "columns_inv e s m" "s < le_numSources e"
  shows "\<exists>m'. ColumnStep e s m = Some m' \<and> columns_inv e (Suc s) m'"
proof (cases "map_of m (le_sources e ! s)")
  case None
  let ?k = "le_sources e ! s" and ?m' = "map_insert (le_sources e ! s) ([s], length m) m"
  have new: "?k \<notin> fst ` set m"
    using None by (simp add: map_of_eq_None_iff)
  then have len: "length ?m' = Suc (length m)" by (rule length_map_insert_new)
  have "?k \<notin> dom (map_of m)" using None by auto
  then have "?k \<notin> set (take s (le_sources e))"
    using assms(1) by (simp add: columns_inv_def)
  then have fresh: "\<And>c. c < s \<Longrightarrow> le_sources e ! c \<noteq> ?k"
    using assms(2) by (metis in_set_conv_nth length_take min.absorb4 nth_take)
  then have col: "filter (\<lambda>c. le_sources e ! c = ?k) [0..<s] = []"
    by (auto simp: filter_empty_conv)
  have "map_of m k \<noteq> Some (old, length m)" for k old
    using columns_invD(2)[OF assms(1), of k old "length m"] by auto
  then have "columns_inv e (Suc s) ?m'"
    using assms None len col fresh unfolding columns_inv_def
    by (auto simp: take_Suc_conv_app_nth less_Suc_eq simp del: split_paired_All)
  then show ?thesis
    by (simp add: ColumnStep_def None SafeInsert_def)
next
  case (Some on)
  obtain old new where on: "on = (old, new)" by (cases on)
  let ?k = "le_sources e ! s" and ?m' = "map_insert (le_sources e ! s) (old @ [s], new) m"
  have "?k \<in> fst ` set m"
    using Some by (simp add: map_of_eq_None_iff flip: dom_map_of_fst) auto
  then have len: "length ?m' = length m"
    using assms(1) by (intro length_map_insert_old) (simp_all add: columns_inv_def)
  have old: "old = filter (\<lambda>c. le_sources e ! c = ?k) [0..<s]"
    using columns_invD(1)[OF assms(1)] Some on by simp
  have "columns_inv e (Suc s) ?m'"
    using assms Some on len unfolding columns_inv_def
    by (auto simp: take_Suc_conv_app_nth less_Suc_eq simp del: split_paired_All split: if_splits)
  then show ?thesis
    using Some on old by (simp add: ColumnStep_def Let_def)
qed

lemma ColumnStep_fold:
  assumes "s \<le> le_numSources e"
  shows "\<exists>m. fold_opt (ColumnStep e) [0..<s] [] = Some m \<and> columns_inv e s m"
  using assms
proof (induction s)
  case 0
  then show ?case by (simp add: columns_inv_def)
next
  case (Suc s)
  then obtain m where "fold_opt (ColumnStep e) [0..<s] [] = Some m" "columns_inv e s m" by auto
  with ColumnStep_inv[of e s m] Suc.prems show ?case by auto
qed

lemma bit_originalTableIndex:
  "bit (originalTableIndex m r) c \<longleftrightarrow> (\<exists>(k, old, new) \<in> set m. bit r new \<and> c \<in> set old)"
proof -
  have inner: "bit (fold (\<lambda>c acc. acc OR push_bit c 1) cs (a :: nat)) c \<longleftrightarrow> bit a c \<or> c \<in> set cs" for cs a
    by (induction cs arbitrary: a) (auto simp: bit_or_iff bit_push_bit_iff bit_1_iff bit_exp_iff)
  have "bit (fold (\<lambda>(k, old, new) acc.
         if bit_at r new then fold (\<lambda>c acc. acc OR push_bit c 1) old acc else acc) m (a :: nat)) c \<longleftrightarrow>
      bit a c \<or> (\<exists>(k, old, new) \<in> set m. bit r new \<and> c \<in> set old)" for a
    by (induction m arbitrary: a) (auto simp: inner inner[simplified push_bit_of_1] split: if_splits)
  then show ?thesis by (simp add: originalTableIndex_def)
qed

text \<open>The assignments \<^verbatim>\<open>_sourceIndices[newColumnIndex]\<close> do not disturb one another.\<close>

lemma place_columns:
  assumes "\<forall>(k, old, new) \<in> set m. new < N" "distinct (map (\<lambda>(k, old, new). new) m)" "length l = N"
  shows "\<exists>ss. fold_opt (\<lambda>(k, old, new) l. do { _ \<leftarrow> assert_that (new < N); Some (l[new := k]) }) m l = Some ss \<and>
    length ss = N \<and> (\<forall>(k, old, new) \<in> set m. ss ! new = k) \<and>
    (\<forall>i < N. i \<notin> set (map (\<lambda>(k, old, new). new) m) \<longrightarrow> ss ! i = l ! i)"
  using fold_opt_place[of m N "\<lambda>(k, old, new) l. do { _ \<leftarrow> assert_that (new < N); Some (l[new := k]) }"
      "\<lambda>(k, old, new). new" fst l] assms
  by (fastforce simp: case_prod_beta)

lemma columns_inv_entry:
  assumes "columns_inv e s m" "(k, old, new) \<in> set m"
  shows "map_of m k = Some (old, new)" "new < length m" "old = filter (\<lambda>c. le_sources e ! c = k) [0..<s]"
proof -
  have "distinct (map fst m)" using assms(1) by (simp add: columns_inv_def smap_ok_distinct)
  then show ent: "map_of m k = Some (old, new)" using assms(2) by simp
  show "new < length m" "old = filter (\<lambda>c. le_sources e ! c = k) [0..<s]"
    using columns_invD(2)[OF assms(1) ent] columns_invD(1)[OF assms(1) ent] .
qed

lemma columns_new_distinct:
  assumes "columns_inv e s m"
  shows "distinct (map (\<lambda>(k, old, new). new) m)"
  unfolding distinct_conv_nth
proof (intro allI impI)
  have dist: "distinct (map fst m)" using assms by (simp add: columns_inv_def smap_ok_distinct)
  fix i j assume ij: "i < length (map (\<lambda>(k, old, new). new) m)" "j < length (map (\<lambda>(k, old, new). new) m)" "i \<noteq> j"
  obtain k1 o1 n1 k2 o2 n2 where *: "m ! i = (k1, o1, n1)" "m ! j = (k2, o2, n2)"
    by (metis prod_cases3)
  then have "map_of m k1 = Some (o1, n1)" "map_of m k2 = Some (o2, n2)"
    using ij by (metis columns_inv_entry(1)[OF assms] length_map nth_mem)+
  moreover have "k1 \<noteq> k2"
    using dist ij * by (metis fst_conv length_map nth_eq_iff_index_eq nth_map)
  ultimately have "n1 \<noteq> n2"
    using assms unfolding columns_inv_def by blast
  then show "map (\<lambda>(k, old, new). new) m ! i \<noteq> map (\<lambda>(k, old, new). new) m ! j"
    using ij * by simp
qed

lemma originalTableIndex_less:
  assumes "columns_inv e s m"
  shows "originalTableIndex m r < 2 ^ s"
proof -
  have "take_bit s (originalTableIndex m r) = originalTableIndex m r"
    using columns_inv_entry(3)[OF assms]
    by (intro bit_eqI) (fastforce simp: bit_take_bit_iff bit_originalTableIndex)
  then show ?thesis by (metis take_bit_nat_less_exp)
qed

text \<open>Sources placed at their new columns select the old row again.\<close>

lemma originalTableIndex_row:
  assumes "columns_inv e (le_numSources e) m" "le_numSources e' = length m"
    and "\<And>k old new. (k, old, new) \<in> set m \<Longrightarrow> le_sources e' ! new = k"
  shows "originalTableIndex m (tableRowIndex ev e') = tableRowIndex ev e"
proof (rule tableRowIndex_eqI)
  note ent = columns_inv_entry[OF assms(1)]
  fix c assume c: "c < le_numSources e"
  then have "le_sources e ! c \<in> dom (map_of m)"
    using assms(1) by (simp add: columns_inv_def)
  then obtain old new where k: "map_of m (le_sources e ! c) = Some (old, new)" by auto
  then have mem: "(le_sources e ! c, old, new) \<in> set m" by (rule map_of_SomeD)
  have cols: "c \<in> set old \<longleftrightarrow> le_sources e ! c = k" if "(k, old, new) \<in> set m" for k old new
    using ent(3)[OF that] c by simp
  have "bit (originalTableIndex m (tableRowIndex ev e')) c = bit (tableRowIndex ev e') new"
  proof
    assume "bit (originalTableIndex m (tableRowIndex ev e')) c"
    then obtain k' old' new' where "(k', old', new') \<in> set m" "bit (tableRowIndex ev e') new'" "c \<in> set old'"
      unfolding bit_originalTableIndex by blast
    with cols ent(1) k show "bit (tableRowIndex ev e') new" by (metis option.inject prod.inject)
  next
    assume "bit (tableRowIndex ev e') new"
    with mem cols[OF mem] show "bit (originalTableIndex m (tableRowIndex ev e')) c"
      unfolding bit_originalTableIndex by blast
  qed
  then show "bit (originalTableIndex m (tableRowIndex ev e')) c =
      bit (ev (fst (le_sources e ! c))) (snd (le_sources e ! c))"
    using ent(2)[OF mem] assms(3)[OF mem] by (simp add: assms(2))
qed (use bit_nat_less_exp[OF originalTableIndex_less[OF assms(1)]] in blast)

lemma columns_sources_ok:
  assumes "columns_inv e (le_numSources e) m" "entry_ok n e" "(k, old, new) \<in> set m"
  shows "fst k < n"
proof -
  have "k \<in> dom (map_of m)" using columns_inv_entry(1)[OF assms(1,3)] by auto
  then have "k \<in> set (le_sources e)" using assms(1) by (simp add: columns_inv_def)
  then show ?thesis using assms(2) by (cases k) (auto simp: entry_ok_def)
qed

lemma DeduplicateEntry_spec:
  assumes "le_numSources e \<le> c_maxLutSources"
  shows "\<exists>e' ch. DeduplicateEntry e = Some (e', ch) \<and> entry_value ev e' = entry_value ev e \<and>
    (entry_ok n e \<longrightarrow> entry_ok n e')"
proof -
  obtain m where m: "fold_opt (ColumnStep e) [0..<le_numSources e] [] = Some m"
    and inv: "columns_inv e (le_numSources e) m"
    using ColumnStep_fold[of "le_numSources e" e] by auto
  have len: "length m \<le> le_numSources e" using inv by (simp add: columns_inv_def)
  show ?thesis
  proof (cases "length m < le_numSources e")
    case False
    then show ?thesis
      using m len by (intro exI[of _ e] exI[of _ False]) (simp add: DeduplicateEntry_def)
  next
    case True
    obtain ss where ss: "fold_opt (\<lambda>(k, old, new) l. do {
          _ \<leftarrow> assert_that (new < length m); Some (l[new := k]) }) m (replicate (length m) (0, 0)) = Some ss"
      and lss: "length ss = length m" and nss': "\<forall>(k, old, new) \<in> set m. ss ! new = k"
      and dss: "\<forall>i < length m. i \<notin> set (map (\<lambda>(k, old, new). new) m) \<longrightarrow>
        ss ! i = replicate (length m) (0, 0) ! i"
      using place_columns[OF _ columns_new_distinct[OF inv] length_replicate] columns_inv_entry(2)[OF inv]
      by blast
    have nss: "ss ! new = k" if "(k, old, new) \<in> set m" for k old new
      using nss' that by blast
    define e' where "e' = \<lparr>le_sources = ss, le_table =
      or_bits (2 ^ length m) (\<lambda>r. bit (le_table e) (originalTableIndex m r)) :: 64 word\<rparr>"
    have "map_opt (\<lambda>r. GetTableEntry e (originalTableIndex m r)) [0..<2 ^ length m] =
        Some (map (\<lambda>r. bit (le_table e) (originalTableIndex m r)) [0..<2 ^ length m])"
      using assms originalTableIndex_less[OF inv]
      by (intro map_opt_total) (simp add: GetTableEntry_def TableSize_def)
    moreover have "(or_bits (2 ^ length m) (\<lambda>r. map (\<lambda>r. bit (le_table e) (originalTableIndex m r)) [0..<2 ^ length m] ! r) :: 64 word) =
        or_bits (2 ^ length m) (\<lambda>r. bit (le_table e) (originalTableIndex m r))"
      by (rule or_bits_cong) simp_all
    ultimately have res: "DeduplicateEntry e = Some (e', True)"
      using m ss True assms by (simp add: DeduplicateEntry_def e'_def)
    have "originalTableIndex m (tableRowIndex ev e') = tableRowIndex ev e"
      using nss by (intro originalTableIndex_row[OF inv]) (simp_all add: e'_def lss)
    then have "entry_value ev e' = entry_value ev e"
      using assms len by (intro entry_value_reindex[where g = "originalTableIndex m"]) (simp_all add: e'_def lss)
    moreover have "entry_ok n e'" if ok: "entry_ok n e"
    proof -
      have "0 < n"
        using ok True by (cases "le_sources e") (auto simp: entry_ok_def)
      with columns_sources_ok[OF inv ok] have "fst (ss ! i) < n" if "i < length m" for i
        using dss that nss by (cases "i \<in> set (map (\<lambda>(k, old, new). new) m)") auto
      then have "\<forall>s \<in> set ss. fst s < n" by (metis in_set_conv_nth lss)
      then show ?thesis
        using ok len by (auto simp: entry_ok_def e'_def lss)
    qed
    ultimately show ?thesis
      using res by blast
  qed
qed


lemma DeduplicateEntry_shape:
  assumes "DeduplicateEntry e = Some (e', ch)"
  shows "if ch then le_numSources e' < le_numSources e else e' = e"
proof (cases ch)
  case True
  with assms obtain m :: ColumnMap and ss where "length m < le_numSources e"
    and ss: "fold_opt (\<lambda>(oiab, oldColumns, newColumn) sources. do {
           _ \<leftarrow> assert_that (newColumn < length m);
           Some (sources[newColumn := oiab]) }) m (replicate (length m) (0, 0)) = Some ss"
    and "le_sources e' = ss"
    by (auto simp: DeduplicateEntry_def split: bind_splits if_splits)
  moreover have "length ss = length m"
    by (rule fold_opt_invariant[OF ss, where I = "\<lambda>l. length l = length m"]) auto
  ultimately show ?thesis using True by simp
qed (use assms in \<open>auto simp: DeduplicateEntry_def split: bind_splits if_splits\<close>)

lemma FixupLutEntry_shape:
  assumes "FixupLutEntry op e = Some (e', ch)"
  shows "if ch then le_numSources e' < le_numSources e else e' = e"
  using assms SetConstantLutSources_shape(1)
  by (auto simp: FixupLutEntry_def split: bind_splits if_splits)

subsection \<open>Lookup-table operations\<close>

definition lut_op_ok :: "RegisterTable \<Rightarrow> Operation \<Rightarrow> bool" where
  "lut_op_ok rt op \<longleftrightarrow>
     (case op_opcode op of Lut es \<Rightarrow> lut_ok (length (op_src op)) es | _ \<Rightarrow> False) \<and>
     op_signExtendSourceMask op = 0 \<and> length (op_dst op) = 1 \<and> srcs_ok rt op"

lemma lut_op_okE:
  assumes "lut_op_ok rt op"
  obtains es where "op_opcode op = Lut es" "lut_ok (length (op_src op)) es" "lut_entries op = Some es"
    and "op_signExtendSourceMask op = 0" "length (op_dst op) = 1" "srcs_ok rt op"
  using assms by (auto simp: lut_op_ok_def lut_entries_def split: Opcode.splits)

lemma eval_lut:
  assumes "lut_op_ok rt op" "op_opcode op = Lut es"
  shows "eval_operation rt env op = Some (take_bit (DestinationOperand_Width rt (op_dst op ! 0))
    (or_bits (length es) (\<lambda>d. entry_value (src_values env op) (es ! d))))"
proof -
  have "lut_ok (length (op_src op)) es" "srcs_ok rt op" "length (op_dst op) = 1"
    using assms by (auto simp: lut_op_ok_def)
  then show ?thesis
    using assms(2) map_opt_literals[of rt op env] Lut_Evaluate_eq[OF lut_ok_sources]
    by (simp add: eval_operation_in_def)
qed

lemma eval_lut_cong:
  assumes "lut_op_ok rt op" "lut_op_ok rt op'" "op_opcode op = Lut es" "op_opcode op' = Lut es'"
    and "op_dst op' = op_dst op" "length es' = length es"
    and "\<And>d. d < length es \<Longrightarrow>
      entry_value (src_values env op') (es' ! d) = entry_value (src_values env op) (es ! d)"
  shows "eval_operation rt env op' = eval_operation rt env op"
proof -
  have "(or_bits (length es') (\<lambda>d. entry_value (src_values env op') (es' ! d)) :: int) =
      or_bits (length es) (\<lambda>d. entry_value (src_values env op) (es ! d))"
    using assms(6,7) by (intro or_bits_cong) simp_all
  then show ?thesis
    by (simp add: eval_lut[OF assms(1,3)] eval_lut[OF assms(2,4)] assms(5))
qed

subsection \<open>The contract of a pass\<close>

locale lut_pass =
  fixes pass :: "Operation \<Rightarrow> (Operation \<times> bool) option"
  assumes pass_value: "lut_op_ok rt op \<Longrightarrow> pass op = Some (op', changed) \<Longrightarrow>
      eval_operation rt env op' = eval_operation rt env op"
    and pass_ok: "lut_op_ok rt op \<Longrightarrow> pass op = Some (op', changed) \<Longrightarrow> IsLut op' \<Longrightarrow> lut_op_ok rt op'"
    and pass_lut: "pass op = Some (op', changed) \<Longrightarrow> IsLut op"
    and pass_smaller: "pass op = Some (op', True) \<Longrightarrow> IsLut op' \<Longrightarrow> lut_size op' < lut_size op"
    and pass_same: "pass op = Some (op', False) \<Longrightarrow> op' = op"
begin

lemma pass_size: "pass op = Some (op', changed) \<Longrightarrow> IsLut op' \<Longrightarrow> lut_size op' \<le> lut_size op"
  using pass_smaller pass_same by (cases changed) (auto intro: less_imp_le)

end

text \<open>One pass after another, as the loop body runs them.\<close>

definition seq_pass ::
  "(Operation \<Rightarrow> (Operation \<times> bool) option) \<Rightarrow> (Operation \<Rightarrow> (Operation \<times> bool) option) \<Rightarrow>
   Operation \<Rightarrow> (Operation \<times> bool) option" where
  "seq_pass p q op = do { (op, a) \<leftarrow> p op; (op, b) \<leftarrow> q op; Some (op, a \<or> b) }"

locale lut_pass_pair = P: lut_pass p + Q: lut_pass q
  for p q :: "Operation \<Rightarrow> (Operation \<times> bool) option"
begin

lemma seq_passE:
  assumes "seq_pass p q op = Some (op', changed)"
  obtains op1 a b where "p op = Some (op1, a)" "q op1 = Some (op', b)" "changed = (a \<or> b)" "IsLut op1"
  using assms Q.pass_lut by (fastforce simp: seq_pass_def Option.bind_eq_Some_conv)

end

sublocale lut_pass_pair \<subseteq> both: lut_pass "seq_pass p q"
proof
  fix rt env op op' changed
  assume ok: "lut_op_ok rt op" and sq: "seq_pass p q op = Some (op', changed)"
  obtain op1 a b where s: "p op = Some (op1, a)" "q op1 = Some (op', b)" "IsLut op1"
    using sq by (blast elim: seq_passE)
  then have ok1: "lut_op_ok rt op1" by (auto intro: P.pass_ok[OF ok])
  show "eval_operation rt env op' = eval_operation rt env op"
    using P.pass_value[OF ok s(1)] Q.pass_value[OF ok1 s(2)] by simp
  show "lut_op_ok rt op'" if "IsLut op'"
    using Q.pass_ok[OF ok1 s(2) that] .
next
  fix op op' changed
  assume "seq_pass p q op = Some (op', changed)"
  then show "IsLut op" by (blast elim: seq_passE intro: P.pass_lut)
next
  fix op op'
  assume sq: "seq_pass p q op = Some (op', True)" and lut: "IsLut op'"
  obtain op1 a b where s: "p op = Some (op1, a)" "q op1 = Some (op', b)" "True = (a \<or> b)" "IsLut op1"
    using sq by (blast elim: seq_passE)
  have "lut_size op1 \<le> lut_size op" "lut_size op' \<le> lut_size op1"
    using P.pass_size[OF s(1,4)] Q.pass_size[OF s(2) lut] .
  moreover have "lut_size op1 < lut_size op \<or> lut_size op' < lut_size op1"
    using s lut P.pass_smaller Q.pass_smaller by (cases a; cases b) auto
  ultimately show "lut_size op' < lut_size op" by linarith
next
  fix op op'
  assume sq: "seq_pass p q op = Some (op', False)"
  obtain op1 a b where s: "p op = Some (op1, a)" "q op1 = Some (op', b)" "False = (a \<or> b)"
    using sq by (blast elim: seq_passE)
  then show "op' = op" by (auto dest!: P.pass_same Q.pass_same)
qed

subsection \<open>Passes that treat every entry alone\<close>

lemma map_opt_sizes:
  assumes "map_opt f es = Some rs"
    and "\<And>e e' ch. f e = Some (e', ch) \<Longrightarrow> if ch then le_numSources e' < le_numSources e else e' = e"
  shows "if list_ex snd rs then sum_list (map le_numSources (map fst rs)) < sum_list (map le_numSources es)
    else map fst rs = es"
  using assms(1)
proof (induction es arbitrary: rs)
  case (Cons e es)
  from Cons.prems obtain e' ch rs' where r: "f e = Some (e', ch)" "map_opt f es = Some rs'" "rs = (e', ch) # rs'"
    by (auto split: bind_splits)
  from Cons.IH[OF r(2)] assms(2)[OF r(1)] show ?case
    by (auto simp: r(3) split: if_splits)
qed simp

lemma map_entriesE:
  assumes "map_entries f op = Some (op', ch)"
  obtains es rs where "op_opcode op = Lut es" "map_opt f es = Some rs"
    "op' = op\<lparr>op_opcode := Lut (map fst rs)\<rparr>" "ch = list_ex snd rs"
  using assms by (auto simp: map_entries_def lut_entries_def split: bind_splits Opcode.splits)

lemma map_entries_pass:
  assumes "map_entries f op = Some (op', ch)"
    and "\<And>e e' ch. f e = Some (e', ch) \<Longrightarrow> if ch then le_numSources e' < le_numSources e else e' = e"
  shows "IsLut op" "ch \<Longrightarrow> lut_size op' < lut_size op" "\<not> ch \<Longrightarrow> op' = op"
proof -
  from assms(1) obtain es rs where r: "op_opcode op = Lut es" "map_opt f es = Some rs"
    "op' = op\<lparr>op_opcode := Lut (map fst rs)\<rparr>" "ch = list_ex snd rs"
    by (rule map_entriesE)
  show "IsLut op" using r(1) by (simp add: IsLut_def)
  show "ch \<Longrightarrow> lut_size op' < lut_size op" "\<not> ch \<Longrightarrow> op' = op"
    using map_opt_sizes[OF r(2) assms(2)] r by (auto simp: lut_size_def)
qed

lemma map_entries_value:
  assumes "lut_op_ok rt op" "map_entries f op = Some (op', ch)"
    and "\<And>e e' ch. entry_ok (length (op_src op)) e \<Longrightarrow> f e = Some (e', ch) \<Longrightarrow>
      entry_ok (length (op_src op)) e' \<and>
      entry_value (src_values env op) e' = entry_value (src_values env op) e"
  shows "lut_op_ok rt op'" "eval_operation rt env op' = eval_operation rt env op"
proof -
  from assms(2) obtain es rs where r: "op_opcode op = Lut es" "map_opt f es = Some rs"
    "op' = op\<lparr>op_opcode := Lut (map fst rs)\<rparr>"
    by (rule map_entriesE)
  from assms(1) r(1) have es: "\<And>e. e \<in> set es \<Longrightarrow> entry_ok (length (op_src op)) e"
    by (auto simp: lut_op_ok_def lut_ok_def)
  note len = map_opt_length[OF r(2)]
  have ent: "entry_ok (length (op_src op)) (fst (rs ! d)) \<and>
      entry_value (src_values env op) (fst (rs ! d)) = entry_value (src_values env op) (es ! d)"
    if "d < length es" for d
    using assms(3)[of "es ! d" "fst (rs ! d)" "snd (rs ! d)"] map_opt_nth[OF r(2) that] es that by simp
  have "entry_ok (length (op_src op)) e" if "e \<in> set (map fst rs)" for e
    using that ent len unfolding in_set_conv_nth by auto
  then show ok: "lut_op_ok rt op'"
    using assms(1) r(1,3) by (auto simp: lut_op_ok_def lut_ok_def srcs_ok_def)
  show "eval_operation rt env op' = eval_operation rt env op"
    by (rule eval_lut_cong[OF assms(1) ok r(1), of "map fst rs"]) (use ent len r(3) in auto)
qed


subsection \<open>The six passes meet the contract\<close>

lemma FixupLutEntry_value:
  assumes "op_signExtendSourceMask op = 0" "srcs_ok rt op" "entry_ok (length (op_src op)) e"
    and "FixupLutEntry op e = Some (e', ch)"
  shows "entry_ok (length (op_src op)) e'"
    and "entry_value (src_values env op) e' = entry_value (src_values env op) e"
    and "(i, b) \<in> set (le_sources e') \<Longrightarrow> \<not> IsLiteralOperand (op_src op ! i)"
proof -
  from assms(4) obtain vs where vs: "map_opt (LiteralColumn op e) [0..<le_numSources e] = Some vs"
    and cases: "if list_ex (\<lambda>v. v \<noteq> None) vs
      then SetConstantLutSources op e (\<lambda>i. if i < length vs then vs ! i else None) = Some e' \<and> ch
      else e' = e \<and> \<not> ch"
    unfolding FixupLutEntry_def Option.bind_eq_Some_conv
    by (elim exE conjE) (auto simp: Option.bind_eq_Some_conv split: if_splits)
  have len: "length vs = le_numSources e" using map_opt_length[OF vs] by simp
  have col: "(vs ! c = None \<longleftrightarrow> \<not> IsLiteralOperand (op_src op ! fst (le_sources e ! c))) \<and>
      (vs ! c \<noteq> None \<longrightarrow> vs ! c = Some (bit (src_values env op (fst (le_sources e ! c))) (snd (le_sources e ! c))))"
    if "c < le_numSources e" for c
  proof (rule LiteralColumn_eq[OF _ assms(1,2)])
    show "LiteralColumn op e c = Some (vs ! c)"
      using map_opt_nth[OF vs, of c] that by simp
    show "fst (le_sources e ! c) < length (op_src op)"
      using assms(3) nth_mem[OF that] by (cases "le_sources e ! c") (auto simp: entry_ok_def)
  qed
  consider (const) "SetConstantLutSources op e (\<lambda>i. if i < length vs then vs ! i else None) = Some e'"
    | (same) "e' = e" "\<not> list_ex (\<lambda>v. v \<noteq> None) vs"
    using cases by (auto split: if_splits)
  then have "entry_ok (length (op_src op)) e' \<and>
    entry_value (src_values env op) e' = entry_value (src_values env op) e \<and>
    (\<forall>i b. (i, b) \<in> set (le_sources e') \<longrightarrow> \<not> IsLiteralOperand (op_src op ! i))"
  proof cases
    case const
    have "entry_value (src_values env op) e' = entry_value (src_values env op) e"
      by (rule SetConstantLutSources_value[OF const]) (use col len in force)
    then show ?thesis
      using SetConstantLutSources_shape[OF const] assms(3) col len by fastforce
  next
    case same
    have "\<not> IsLiteralOperand (op_src op ! i)" if "(i, b) \<in> set (le_sources e)" for i b
    proof -
      from that obtain c where "c < le_numSources e" "le_sources e ! c = (i, b)"
        by (auto simp: in_set_conv_nth)
      then show ?thesis
        using col[of c] same(2) len by (auto simp: list_ex_iff)
    qed
    then show ?thesis using same assms(3) by blast
  qed
  then show "entry_ok (length (op_src op)) e'"
    "entry_value (src_values env op) e' = entry_value (src_values env op) e"
    "(i, b) \<in> set (le_sources e') \<Longrightarrow> \<not> IsLiteralOperand (op_src op ! i)" by blast+
qed

lemma lut_pass_entriesI:
  assumes "\<And>op op' ch. pass op = Some (op', ch) \<Longrightarrow> map_entries (f op) op = Some (op', ch)"
    and "\<And>op e e' ch. f op e = Some (e', ch) \<Longrightarrow> if ch then le_numSources e' < le_numSources e else e' = e"
    and "\<And>rt op env e e' ch. lut_op_ok rt op \<Longrightarrow> entry_ok (length (op_src op)) e \<Longrightarrow> f op e = Some (e', ch) \<Longrightarrow>
      entry_ok (length (op_src op)) e' \<and> entry_value (src_values env op) e' = entry_value (src_values env op) e"
  shows "lut_pass pass"
proof
  fix rt env op op' changed
  assume ok: "lut_op_ok rt op" and p: "pass op = Some (op', changed)"
  show "eval_operation rt env op' = eval_operation rt env op" "lut_op_ok rt op'"
    using map_entries_value[OF ok assms(1)[OF p], of env] assms(3)[OF ok] by blast+
next
  fix op op' changed
  assume "pass op = Some (op', changed)"
  from map_entries_pass(1)[OF assms(1)[OF this] assms(2)] show "IsLut op" .
next
  fix op op'
  assume "pass op = Some (op', True)"
  from map_entries_pass(2)[OF assms(1)[OF this] assms(2)] show "lut_size op' < lut_size op" by simp
next
  fix op op'
  assume "pass op = Some (op', False)"
  from map_entries_pass(3)[OF assms(1)[OF this] assms(2)] show "op' = op" by simp
qed

interpretation fixup: lut_pass FixupLutOp
proof (rule lut_pass_entriesI[where f = FixupLutEntry])
  fix rt op env e e' ch
  assume "lut_op_ok rt op" "entry_ok (length (op_src op)) e" "FixupLutEntry op e = Some (e', ch)"
  then show "entry_ok (length (op_src op)) e' \<and>
      entry_value (src_values env op) e' = entry_value (src_values env op) e"
    using FixupLutEntry_value(1,2) by (auto simp: lut_op_ok_def)
qed (auto simp: FixupLutOp_def dest: FixupLutEntry_shape)

interpretation unused_regs: lut_pass RemoveUnusedLutSourceRegisters
proof (rule lut_pass_entriesI[where f = "\<lambda>op e. RemoveUnusedColumn e [0..<le_numSources e]"])
  fix rt env e e' ch and op :: Operation
  assume "entry_ok (length (op_src op)) e" "RemoveUnusedColumn e [0..<le_numSources e] = Some (e', ch)"
  then show "entry_ok (length (op_src op)) e' \<and>
      entry_value (src_values env op) e' = entry_value (src_values env op) e"
    using RemoveUnusedColumn_spec by (auto simp: entry_ok_def)
qed (auto simp: RemoveUnusedLutSourceRegisters_def dest: RemoveUnusedColumn_shape)

interpretation dup_columns: lut_pass RemoveDuplicateLutColumns
proof (rule lut_pass_entriesI[where f = "\<lambda>op. DeduplicateEntry"])
  fix rt env e e' ch and op :: Operation
  assume "entry_ok (length (op_src op)) e" "DeduplicateEntry e = Some (e', ch)"
  then show "entry_ok (length (op_src op)) e' \<and>
      entry_value (src_values env op) e' = entry_value (src_values env op) e"
    using DeduplicateEntry_spec[of e "src_values env op" "length (op_src op)"] by (auto simp: entry_ok_def)
qed (auto simp: RemoveDuplicateLutColumns_def dest: DeduplicateEntry_shape)

text \<open>Since the used indices come in increasing order, the operand map is their enumeration.\<close>

lemma operandMap_zip:
  assumes "sorted_wrt (<) used"
  shows "fold_opt (\<lambda>index (operandMap, newIndex). do {
      m \<leftarrow> SafeInsert operandMap index newIndex; Some (m, Suc newIndex) }) used ([], 0) =
    Some (zip used [0..<length used], length used)"
  using assms
proof (induction used rule: rev_induct)
  case (snoc x xs)
  have lt: "\<forall>k \<in> set xs. k < x" and IH: "sorted_wrt (<) xs"
    using snoc.prems by (simp_all add: sorted_wrt_append)
  have keys: "fst ` set (zip xs [0..<length xs]) = set xs"
    by (metis list.set_map map_fst_zip length_upt minus_nat.diff_0)
  then have "map_of (zip xs [0..<length xs]) x = None"
    using lt by (subst map_of_eq_None_iff) auto
  then have "SafeInsert (zip xs [0..<length xs]) x (length xs) = Some (zip xs [0..<length xs] @ [(x, length xs)])"
    using lt keys by (simp only: SafeInsert_def option.case map_insert_last)
  then show ?case
    using snoc.IH[OF IH] by (simp add: zip_append)
qed simp

lemma usedSourceIndices_props:
  shows "sorted_wrt (<) (usedSourceIndices es)"
    and "set (usedSourceIndices es) = (\<Union>e \<in> set es. fst ` set (le_sources e))"
proof -
  show "sorted_wrt (<) (usedSourceIndices es)"
    by (simp add: usedSourceIndices_def strict_sorted_iff)
  show "set (usedSourceIndices es) = (\<Union>e \<in> set es. fst ` set (le_sources e))"
    by (simp add: usedSourceIndices_def)
qed

lemma map_of_zip_index:
  assumes "map_of (zip xs [0..<length xs]) k = Some j"
  shows "j < length xs \<and> xs ! j = k"
  using map_of_SomeD[OF assms] by (auto simp: in_set_zip)

lemma map_of_zip_dom: "k \<in> set xs \<Longrightarrow> map_of (zip xs [0..<length xs]) k \<noteq> None"
  by (metis map_of_zip_is_None length_upt minus_nat.diff_0)


lemma rename_entries:
  assumes "map_opt (rename_sources m) es = Some es'"
  shows "length es' = length es" "sum_list (map le_numSources es') = sum_list (map le_numSources es)"
    and "d < length es \<Longrightarrow> rename_sources m (es ! d) = Some (es' ! d)"
proof -
  show len: "length es' = length es" using map_opt_length[OF assms] .
  show nth: "d < length es \<Longrightarrow> rename_sources m (es ! d) = Some (es' ! d)" for d
    using map_opt_nth[OF assms] .
  have "map le_numSources es' = map le_numSources es"
    using len by (intro nth_equalityI) (simp_all add: rename_sources_spec(2)[OF nth])
  then show "sum_list (map le_numSources es') = sum_list (map le_numSources es)" by simp
qed

text \<open>Both operand passes end the same way: new operands, renamed columns.\<close>

lemma rename_operands:
  assumes ok: "lut_op_ok rt op" "op_opcode op = Lut es" "map_opt (rename_sources m) es = Some es'"
    and "set srcs \<subseteq> set (op_src op)"
    and map: "\<And>i j. map_of m i = Some j \<Longrightarrow> j < length srcs \<and> srcs ! j = op_src op ! i"
  shows "lut_op_ok rt (op\<lparr>op_src := srcs, op_opcode := Lut es'\<rparr>)"
    and "eval_operation rt env (op\<lparr>op_src := srcs, op_opcode := Lut es'\<rparr>) = eval_operation rt env op"
proof -
  let ?op' = "op\<lparr>op_src := srcs, op_opcode := Lut es'\<rparr>"
  note ren = rename_entries[OF ok(3)]
  from ok(1,2) have es: "\<And>e. e \<in> set es \<Longrightarrow> entry_ok (length (op_src op)) e"
    by (auto simp: lut_op_ok_def lut_ok_def)
  have "entry_ok (length srcs) (es' ! d)" if "d < length es" for d
    using rename_sources_ok[OF ren(3)[OF that] es[OF nth_mem[OF that]]] map by blast
  then have "lut_ok (length srcs) es'"
    by (auto simp: lut_ok_def in_set_conv_nth ren(1))
  then show ok': "lut_op_ok rt ?op'"
    using ok(1) assms(4) by (auto simp: lut_op_ok_def srcs_ok_def)
  show "eval_operation rt env ?op' = eval_operation rt env op"
  proof (rule eval_lut_cong[OF ok(1) ok' ok(2), of es'])
    fix d assume "d < length es"
    then show "entry_value (src_values env ?op') (es' ! d) = entry_value (src_values env op) (es ! d)"
      using map by (intro rename_sources_value[OF ren(3)]) auto
  qed (simp_all add: ren(1))
qed

lemma RemoveUnusedLutSourceOperands_cases:
  assumes "RemoveUnusedLutSourceOperands op = Some (op', ch)"
  obtains (same) "op' = op" "\<not> ch" "IsLut op"
    | (removed) es es' used where "op_opcode op = Lut es" "used = usedSourceIndices es" "ch"
      "map_opt (rename_sources (zip used [0..<length used])) es = Some es'"
      "\<forall>i \<in> set used. i < length (op_src op)" "length used < length (op_src op)"
      "op' = op\<lparr>op_src := map (\<lambda>i. op_src op ! i) used, op_opcode := Lut es'\<rparr>"
proof -
  from assms obtain es where es: "op_opcode op = Lut es"
    by (auto simp: RemoveUnusedLutSourceOperands_def lut_entries_def split: bind_splits Opcode.splits)
  define used where "used = usedSourceIndices es"
  define step where "step = (\<lambda>(old, new) srcs. do {
           _ \<leftarrow> assert_that (old < length (op_src op));
           _ \<leftarrow> assert_that (new < length srcs);
           Some (srcs[new := op_src op ! old]) })"
  show thesis
  proof (cases "length used < length (op_src op)")
    case False
    then show ?thesis
      using assms es same by (auto simp: RemoveUnusedLutSourceOperands_def lut_entries_def used_def IsLut_def)
  next
    case True
    let ?z = "zip used [0..<length used]"
    note z = operandMap_zip[OF usedSourceIndices_props(1)[of es], folded used_def]
    from assms es True obtain srcs es' where
      srcs: "fold_opt step ?z (replicate (length used) (SrcStringLiteral '''')) = Some srcs"
      and es': "map_opt (rename_sources ?z) es = Some es'"
      and r: "ch" "op' = op\<lparr>op_src := srcs, op_opcode := Lut es'\<rparr>"
      unfolding RemoveUnusedLutSourceOperands_def step_def
      by (auto simp: lut_entries_def Let_def z used_def[symmetric] split: bind_splits)
    have bound: "i < length (op_src op)" if iu: "i \<in> set used" for i
    proof (rule ccontr)
      assume "\<not> i < length (op_src op)"
      have "fold_opt step xs s = None" if "(i, j) \<in> set xs" for xs s j
        using that \<open>\<not> i < length (op_src op)\<close>
        by (induction xs arbitrary: s) (auto simp: step_def split: bind_splits)
      moreover obtain j where "j < length used" "used ! j = i"
        using iu by (auto simp: in_set_conv_nth)
      then have "(i, j) \<in> set ?z" by (auto simp: in_set_zip)
      ultimately show False using srcs by (metis option.distinct(1))
    qed
    have "\<exists>ss. fold_opt step ?z (replicate (length used) (SrcStringLiteral '''')) = Some ss \<and>
        length ss = length used \<and> (\<forall>x \<in> set ?z. ss ! snd x = op_src op ! fst x) \<and>
        (\<forall>i < length used. i \<notin> snd ` set ?z \<longrightarrow> ss ! i = replicate (length used) (SrcStringLiteral '''') ! i)"
      by (rule fold_opt_place)
        (use bound in \<open>auto simp: step_def in_set_zip map_snd_zip_take\<close>)
    with srcs have len: "length srcs = length used"
      and place: "\<forall>x \<in> set ?z. srcs ! snd x = op_src op ! fst x" by simp_all
    have "srcs ! i = op_src op ! (used ! i)" if "i < length used" for i
    proof -
      from that have "(used ! i, i) \<in> set ?z" by (auto simp: in_set_zip)
      with place show ?thesis by fastforce
    qed
    with len have "srcs = map (\<lambda>i. op_src op ! i) used"
      by (intro nth_equalityI) simp_all
    then show ?thesis
      using removed[OF es used_def r(1) es'] True r(2) bound by blast
  qed
qed

interpretation unused_ops: lut_pass RemoveUnusedLutSourceOperands
proof
  fix rt env op op' changed
  assume ok: "lut_op_ok rt op" and p: "RemoveUnusedLutSourceOperands op = Some (op', changed)"
  from p have "lut_op_ok rt op' \<and> eval_operation rt env op' = eval_operation rt env op"
  proof (cases rule: RemoveUnusedLutSourceOperands_cases)
    case (removed es es' used)
    have sub: "set (map (\<lambda>i. op_src op ! i) used) \<subseteq> set (op_src op)"
      using removed(5) by auto
    have "j < length (map (\<lambda>i. op_src op ! i) used) \<and> map (\<lambda>i. op_src op ! i) used ! j = op_src op ! i"
      if "map_of (zip used [0..<length used]) i = Some j" for i j
      using map_of_zip_index[OF that] by auto
    with rename_operands[OF ok removed(1,4) sub] show ?thesis
      unfolding removed(7) by blast
  qed (use ok in simp)
  then show "eval_operation rt env op' = eval_operation rt env op" "lut_op_ok rt op'" by simp_all
next
  fix op op' changed
  assume "RemoveUnusedLutSourceOperands op = Some (op', changed)"
  then show "IsLut op" by (cases rule: RemoveUnusedLutSourceOperands_cases) (auto simp: IsLut_def)
next
  fix op op'
  assume "RemoveUnusedLutSourceOperands op = Some (op', True)"
  then show "lut_size op' < lut_size op"
  proof (cases rule: RemoveUnusedLutSourceOperands_cases)
    case (removed es es' used)
    then show ?thesis by (simp add: lut_size_def rename_entries(2)[OF removed(4)])
  qed simp
next
  fix op op'
  assume "RemoveUnusedLutSourceOperands op = Some (op', False)"
  then show "op' = op" by (cases rule: RemoveUnusedLutSourceOperands_cases) auto
qed


text \<open>After \<open>s\<close> operands: every register met has an operand of its own, and every old operand
  is mapped to one that reads the same register.\<close>

definition dup_inv :: "Operation \<Rightarrow> nat \<Rightarrow> DuplicateState \<Rightarrow> bool" where
  "dup_inv op s st \<longleftrightarrow>
     (\<forall>r j. map_of (ds_regToOperandIndex st) r = Some j \<longrightarrow>
        j < length (ds_newSrcOperands st) \<and> ds_newSrcOperands st ! j = SrcRegister r) \<and>
     (\<forall>i j. map_of (ds_operandIndexMap st) i = Some j \<longrightarrow>
        j < length (ds_newSrcOperands st) \<and> ds_newSrcOperands st ! j = op_src op ! i) \<and>
     dom (map_of (ds_operandIndexMap st)) = {..<s} \<and>
     set (ds_newSrcOperands st) \<subseteq> set (op_src op) \<and>
     length (ds_newSrcOperands st) \<le> s \<and> (ds_duplicateFound st \<longrightarrow> length (ds_newSrcOperands st) < s)"

lemma DuplicateStep_inv:
  assumes "dup_inv op s st" "s < length (op_src op)" "DuplicateStep op s st = Some st'"
  shows "dup_inv op (Suc s) st'"
proof -
  from assms(3) obtain r where r: "op_src op ! s = SrcRegister r"
    by (cases "op_src op ! s") (auto simp: DuplicateStep_def GetAccessedRegister_def)
  show ?thesis
  proof (cases "map_of (ds_regToOperandIndex st) r")
    case None
    with assms(3) r have st': "st' = st\<lparr>
        ds_regToOperandIndex := map_insert r (length (ds_newSrcOperands st)) (ds_regToOperandIndex st),
        ds_operandIndexMap := map_insert s (length (ds_newSrcOperands st)) (ds_operandIndexMap st),
        ds_newSrcOperands := ds_newSrcOperands st @ [SrcRegister r]\<rparr>"
      by (auto simp: DuplicateStep_def GetAccessedRegister_def SafeInsert_def Let_def split: bind_splits option.splits)
    have "SrcRegister r \<in> set (op_src op)" using r assms(2) by (metis nth_mem)
    then show ?thesis
      using assms(1) r by (auto simp: dup_inv_def st' nth_append intro: less_SucI)
  next
    case (Some j)
    with assms(3) r have st': "st' = st\<lparr>ds_operandIndexMap := map_insert s j (ds_operandIndexMap st),
        ds_duplicateFound := True\<rparr>"
      by (auto simp: DuplicateStep_def GetAccessedRegister_def SafeInsert_def Let_def split: bind_splits option.splits)
    show ?thesis
      using assms(1) r Some by (auto simp: dup_inv_def st')
  qed
qed

lemma DuplicateStep_fold:
  assumes "fold_opt (DuplicateStep op) [0..<s] \<lparr>ds_regToOperandIndex = [], ds_operandIndexMap = [],
      ds_newSrcOperands = [], ds_duplicateFound = False\<rparr> = Some st" "s \<le> length (op_src op)"
  shows "dup_inv op s st"
  using assms
proof (induction s arbitrary: st)
  case 0
  then show ?case by (auto simp: dup_inv_def)
next
  case (Suc s)
  then show ?case by (auto split: bind_splits intro: DuplicateStep_inv)
qed

lemma RemoveDuplicateLutSourceRegisters_cases:
  assumes "RemoveDuplicateLutSourceRegisters op = Some (op', ch)"
  obtains (same) "op' = op" "\<not> ch" "IsLut op"
    | (removed) es es' st where "op_opcode op = Lut es" "ch" "dup_inv op (length (op_src op)) st"
      "map_opt (rename_sources (ds_operandIndexMap st)) es = Some es'" "ds_duplicateFound st"
      "op' = op\<lparr>op_src := ds_newSrcOperands st, op_opcode := Lut es'\<rparr>"
proof -
  from assms obtain es st where es: "op_opcode op = Lut es"
    and st: "fold_opt (DuplicateStep op) [0..<length (op_src op)] \<lparr>ds_regToOperandIndex = [],
      ds_operandIndexMap = [], ds_newSrcOperands = [], ds_duplicateFound = False\<rparr> = Some st"
    and res: "if ds_duplicateFound st
      then \<exists>es'. map_opt (rename_sources (ds_operandIndexMap st)) es = Some es' \<and> ch \<and>
        op' = op\<lparr>op_src := ds_newSrcOperands st, op_opcode := Lut es'\<rparr>
      else op' = op \<and> \<not> ch"
    unfolding RemoveDuplicateLutSourceRegisters_def lut_entries_def
    by (auto simp: Option.bind_eq_Some_conv split: Opcode.splits if_splits)
  show thesis
  proof (cases "ds_duplicateFound st")
    case True
    then show ?thesis using removed[OF es _ DuplicateStep_fold[OF st]] res by auto
  next
    case False
    then show ?thesis using same res es by (auto simp: IsLut_def)
  qed
qed

interpretation dup_regs: lut_pass RemoveDuplicateLutSourceRegisters
proof
  fix rt env op op' changed
  assume ok: "lut_op_ok rt op" and p: "RemoveDuplicateLutSourceRegisters op = Some (op', changed)"
  from p have "lut_op_ok rt op' \<and> eval_operation rt env op' = eval_operation rt env op"
  proof (cases rule: RemoveDuplicateLutSourceRegisters_cases)
    case (removed es es' st)
    then have "set (ds_newSrcOperands st) \<subseteq> set (op_src op)" by (simp add: dup_inv_def)
    from rename_operands[OF ok removed(1,4) this] removed(3) show ?thesis
      unfolding removed(6) dup_inv_def by blast
  qed (use ok in simp)
  then show "eval_operation rt env op' = eval_operation rt env op" "lut_op_ok rt op'" by simp_all
next
  fix op op' changed
  assume "RemoveDuplicateLutSourceRegisters op = Some (op', changed)"
  then show "IsLut op" by (cases rule: RemoveDuplicateLutSourceRegisters_cases) (auto simp: IsLut_def)
next
  fix op op'
  assume "RemoveDuplicateLutSourceRegisters op = Some (op', True)"
  then show "lut_size op' < lut_size op"
  proof (cases rule: RemoveDuplicateLutSourceRegisters_cases)
    case (removed es es' st)
    then show ?thesis by (simp add: lut_size_def rename_entries(2)[OF removed(4)] dup_inv_def)
  qed simp
next
  fix op op'
  assume "RemoveDuplicateLutSourceRegisters op = Some (op', False)"
  then show "op' = op" by (cases rule: RemoveDuplicateLutSourceRegisters_cases) auto
qed

lemma DetectConstantLut_cases:
  assumes "DetectConstantLut op = Some (op', ch)"
  obtains (same) "op' = op" "\<not> ch" "IsLut op"
    | (const) es w v where "op_opcode op = Lut es" "ch" "\<forall>e \<in> set es. le_numSources e = 0"
      "\<forall>e \<in> set es. le_table e = 0 \<or> le_table e = 1"
      "v = or_bits (length es) (\<lambda>d. le_table (es ! d) \<noteq> 0)" "GetMpWidth v = Some w"
      "op' = (new_operation Mov (op_locations op) [op_dst op ! 0])\<lparr>op_src := [SrcLiteral \<lparr>l_value = v, l_width = w\<rparr>]\<rparr>"
proof -
  from assms obtain es where es: "op_opcode op = Lut es" "IsLut op"
    by (auto simp: DetectConstantLut_def lut_entries_def IsLut_def split: bind_splits Opcode.splits)
  show thesis
  proof (cases "list_all (\<lambda>e. le_numSources e = 0) es")
    case False
    then show ?thesis
      using assms es same by (auto simp: DetectConstantLut_def lut_entries_def Let_def)
  next
    case True
    then have "(or_bits (length es) (\<lambda>d. le_numSources (es ! d) = 0 \<and> le_table (es ! d) \<noteq> 0) :: int) =
        or_bits (length es) (\<lambda>d. le_table (es ! d) \<noteq> 0)"
      by (intro or_bits_cong) (auto simp: list_all_iff)
    with True assms es(1) const show ?thesis
      by (auto simp: DetectConstantLut_def lut_entries_def Let_def SourceOperand_mp_def list_all_iff
          Option.bind_eq_Some_conv)
  qed
qed

interpretation const_lut: lut_pass DetectConstantLut
proof
  fix rt env op op' changed
  assume ok: "lut_op_ok rt op" and p: "DetectConstantLut op = Some (op', changed)"
  from p show "eval_operation rt env op' = eval_operation rt env op"
  proof (cases rule: DetectConstantLut_cases)
    case (const es w v)
    have dst: "length (op_dst op) = 1" using ok by (simp add: lut_op_ok_def)
    have "0 \<le> v" by (simp add: const(5))
    then have "lit_ok \<lparr>l_value = v, l_width = w\<rparr>"
      using GetMpWidth_bounds[of v] const(6) by (simp add: lit_ok_def)
    then have "eval_operation rt env op' = Some (take_bit (DestinationOperand_Width rt (op_dst op ! 0)) v)"
      by (simp add: eval_operation_in_def const(7) new_operation_def operand_literal_def Resize_eq
          ShouldSignExtend_def)
    moreover have "entry_value ev (es ! d) = (le_table (es ! d) \<noteq> 0)" if "d < length es" for ev d
    proof -
      have "le_sources (es ! d) = []" "le_table (es ! d) \<in> {0, 1}"
        using const(3,4) that nth_mem[OF that] by auto
      then show ?thesis by (auto simp: entry_value_def tableRowIndex_def or_bits_def)
    qed
    then have "v = or_bits (length es) (\<lambda>d. entry_value (src_values env op) (es ! d))"
      unfolding const(5) by (intro or_bits_cong) simp_all
    ultimately show ?thesis
      by (simp add: eval_lut[OF ok const(1)])
  qed simp
  assume "IsLut op'"
  with p ok show "lut_op_ok rt op'"
    by (cases rule: DetectConstantLut_cases) (auto simp: IsLut_def new_operation_def)
next
  fix op op' changed
  assume "DetectConstantLut op = Some (op', changed)"
  then show "IsLut op" by (cases rule: DetectConstantLut_cases) (auto simp: IsLut_def)
next
  fix op op'
  assume "DetectConstantLut op = Some (op', True)" "IsLut op'"
  then show "lut_size op' < lut_size op"
    by (cases rule: DetectConstantLut_cases) (auto simp: IsLut_def new_operation_def)
next
  fix op op'
  assume "DetectConstantLut op = Some (op', False)"
  then show "op' = op" by (cases rule: DetectConstantLut_cases) auto
qed


subsection \<open>Convergence\<close>

text \<open>The iteration is the six passes in sequence; each pair meets the contract, so all do.\<close>

lemma FixupIteration_seq:
  "FixupIteration = seq_pass FixupLutOp (seq_pass RemoveUnusedLutSourceRegisters
     (seq_pass RemoveUnusedLutSourceOperands (seq_pass RemoveDuplicateLutSourceRegisters
       (seq_pass RemoveDuplicateLutColumns DetectConstantLut))))"
proof
  fix op
  show "FixupIteration op = seq_pass FixupLutOp (seq_pass RemoveUnusedLutSourceRegisters
     (seq_pass RemoveUnusedLutSourceOperands (seq_pass RemoveDuplicateLutSourceRegisters
       (seq_pass RemoveDuplicateLutColumns DetectConstantLut)))) op"
    unfolding FixupIteration_def seq_pass_def
    by (simp add: case_prod_beta')
qed

interpretation p56: lut_pass_pair RemoveDuplicateLutColumns DetectConstantLut ..

interpretation p46: lut_pass_pair RemoveDuplicateLutSourceRegisters
  "seq_pass RemoveDuplicateLutColumns DetectConstantLut" ..

interpretation p36: lut_pass_pair RemoveUnusedLutSourceOperands
  "seq_pass RemoveDuplicateLutSourceRegisters (seq_pass RemoveDuplicateLutColumns DetectConstantLut)" ..

interpretation p26: lut_pass_pair RemoveUnusedLutSourceRegisters
  "seq_pass RemoveUnusedLutSourceOperands (seq_pass RemoveDuplicateLutSourceRegisters
     (seq_pass RemoveDuplicateLutColumns DetectConstantLut))" ..

interpretation p16: lut_pass_pair FixupLutOp
  "seq_pass RemoveUnusedLutSourceRegisters (seq_pass RemoveUnusedLutSourceOperands
     (seq_pass RemoveDuplicateLutSourceRegisters (seq_pass RemoveDuplicateLutColumns DetectConstantLut)))" ..

interpretation iteration: lut_pass FixupIteration
  unfolding FixupIteration_seq by (rule p16.both.lut_pass_axioms)

text \<open>The \<^verbatim>\<open>do ... while (true)\<close> loop of \<^verbatim>\<open>FixupLutOps\<close> on one operation; the flag is
  \<^verbatim>\<open>didChangeIR\<close>.\<close>

function FixupLutLoop :: "Operation \<Rightarrow> bool \<Rightarrow> (Operation \<times> bool) option" where
  "FixupLutLoop op didChangeIR =
     (case FixupIteration op of
        None \<Rightarrow> None
      | Some (op', makingProgress) \<Rightarrow>
          if \<not> makingProgress \<or> \<not> IsLut op' then Some (op', didChangeIR \<or> makingProgress)
          else FixupLutLoop op' (didChangeIR \<or> makingProgress))"
  by pat_completeness auto

termination
  by (relation "measure (\<lambda>(op, _). lut_size op)") (auto intro: iteration.pass_smaller)

declare FixupLutLoop.simps [simp del]

definition FixupLutOps_op :: "Operation \<Rightarrow> (Operation \<times> bool) option" where
  "FixupLutOps_op op = (if IsLut op then FixupLutLoop op False else Some (op, False))"

definition FixupLutOps_block :: "Operation list \<Rightarrow> (Operation list \<times> bool) option" where
  "FixupLutOps_block ops = do {
     rs \<leftarrow> map_opt FixupLutOps_op ops;
     Some (map fst rs, list_ex snd rs) }"

definition FixupLutOps :: "Operation list list \<Rightarrow> (Operation list list \<times> bool) option" where
  "FixupLutOps blocks = do {
     rs \<leftarrow> map_opt FixupLutOps_block blocks;
     Some (map fst rs, list_ex snd rs) }"

lemma FixupLutLoop_value:
  assumes "lut_op_ok rt op" "FixupLutLoop op c = Some (op', c')"
  shows "eval_operation rt env op' = eval_operation rt env op"
  using assms
proof (induction op c rule: FixupLutLoop.induct)
  case (1 op c)
  obtain op1 m where it: "FixupIteration op = Some (op1, m)"
    and res: "if \<not> m \<or> \<not> IsLut op1 then op' = op1 else FixupLutLoop op1 (c \<or> m) = Some (op', c')"
    using "1.prems"(2) by (subst (asm) FixupLutLoop.simps) (auto split: option.splits if_splits)
  note val = iteration.pass_value[OF "1.prems"(1) it]
  show ?case
  proof (cases "\<not> m \<or> \<not> IsLut op1")
    case True
    with res val show ?thesis by simp
  next
    case False
    with res have "eval_operation rt env op' = eval_operation rt env op1"
      using "1.IH"[OF it refl False] iteration.pass_ok[OF "1.prems"(1) it] by auto
    with val show ?thesis by simp
  qed
qed

text \<open>What the loop leaves: another iteration changes nothing, or the table is gone.\<close>

lemma FixupLutLoop_converged:
  assumes "FixupLutLoop op c = Some (op', c')"
  shows "IsLut op' \<Longrightarrow> FixupIteration op' = Some (op', False)"
  using assms
proof (induction op c rule: FixupLutLoop.induct)
  case (1 op c)
  obtain op1 m where it: "FixupIteration op = Some (op1, m)"
    and res: "if \<not> m \<or> \<not> IsLut op1 then op' = op1 else FixupLutLoop op1 (c \<or> m) = Some (op', c')"
    using "1.prems"(2) by (subst (asm) FixupLutLoop.simps) (auto split: option.splits if_splits)
  show ?case
  proof (cases "\<not> m \<or> \<not> IsLut op1")
    case True
    then show ?thesis using res it "1.prems"(1) iteration.pass_same[of op op1] by (cases m) auto
  next
    case False
    then show ?thesis using "1.IH"[OF it refl False "1.prems"(1)] res by simp
  qed
qed


subsection \<open>The loop does not throw\<close>

definition no_literal_columns :: "Operation \<Rightarrow> bool" where
  "no_literal_columns op \<longleftrightarrow>
     (case op_opcode op of
        Lut es \<Rightarrow> \<forall>e \<in> set es. \<forall>(i, b) \<in> set (le_sources e). \<not> IsLiteralOperand (op_src op ! i)
      | _ \<Rightarrow> True)"

definition no_literals :: "Operation \<Rightarrow> bool" where
  "no_literals op \<longleftrightarrow> (\<forall>s \<in> set (op_src op). \<not> IsLiteralOperand s)"

lemma map_entries_total:
  assumes "op_opcode op = Lut es" "\<And>e. e \<in> set es \<Longrightarrow> \<exists>r. f e = Some r"
  shows "\<exists>r. map_entries f op = Some r"
proof -
  have "map_opt f es = Some (map (\<lambda>e. the (f e)) es)"
    using assms(2) by (intro map_opt_total) fastforce
  then show ?thesis by (simp add: map_entries_def lut_entries_def assms(1))
qed

lemma FixupLutEntry_total:
  assumes "op_signExtendSourceMask op = 0" "srcs_ok rt op" "entry_ok (length (op_src op)) e"
  shows "\<exists>r. FixupLutEntry op e = Some r"
proof -
  have src: "fst (le_sources e ! c) < length (op_src op)" if "c < le_numSources e" for c
    using assms(3) nth_mem[OF that] by (cases "le_sources e ! c") (auto simp: entry_ok_def)
  have "LiteralColumn op e c = Some (the (LiteralColumn op e c))" if "c < le_numSources e" for c
    using LiteralColumn_total[OF assms(1,2) src[OF that]] by force
  then obtain vs where vs: "map_opt (LiteralColumn op e) [0..<le_numSources e] = Some vs"
    using map_opt_total[of "[0..<le_numSources e]" "LiteralColumn op e" "\<lambda>c. the (LiteralColumn op e c)"]
    by fastforce
  have len: "length vs = le_numSources e" using map_opt_length[OF vs] by simp
  have reg: "IsRegisterOperand (op_src op ! fst (le_sources e ! c))" if c: "c < le_numSources e" "vs ! c = None" for c
    using LiteralColumn_eq[OF _ assms(1,2) src[OF c(1)], of "vs ! c"] map_opt_nth[OF vs, of c] c
      srcs_ok_nth[OF assms(2) src[OF c(1)]]
    by (cases "op_src op ! fst (le_sources e ! c)") (auto simp: IsRegisterOperand_def IsLiteralOperand_def)
  have "\<exists>e'. SetConstantLutSources op e (\<lambda>i. if i < length vs then vs ! i else None) = Some e'"
    if "list_ex (\<lambda>v. v \<noteq> None) vs"
  proof -
    from that obtain c where "c < length vs" "vs ! c \<noteq> None"
      by (auto simp: list_ex_iff in_set_conv_nth)
    then have "filter (\<lambda>i. (if i < length vs then vs ! i else None) \<noteq> None) [0..<le_numSources e] \<noteq> []"
      by (auto simp: filter_empty_conv len intro!: bexI[of _ c])
    then show ?thesis
      using assms(3) reg len
      by (auto simp: SetConstantLutSources_def Let_def bind_assert_if list_all_iff entry_ok_def)
  qed
  then obtain e' where "list_ex (\<lambda>v. v \<noteq> None) vs \<longrightarrow>
      SetConstantLutSources op e (\<lambda>i. if i < length vs then vs ! i else None) = Some e'" by blast
  then have "FixupLutEntry op e = Some (if list_ex (\<lambda>v. v \<noteq> None) vs then (e', True) else (e, False))"
    by (simp add: FixupLutEntry_def vs)
  then show ?thesis by blast
qed

lemma FixupLutOp_total:
  assumes "lut_op_ok rt op"
  shows "\<exists>op' c. FixupLutOp op = Some (op', c) \<and> IsLut op' \<and> no_literal_columns op'"
proof -
  from assms obtain es where es: "op_opcode op = Lut es" "lut_ok (length (op_src op)) es"
    and op: "op_signExtendSourceMask op = 0" "srcs_ok rt op"
    by (rule lut_op_okE)
  then obtain op' c where p: "FixupLutOp op = Some (op', c)"
    using map_entries_total[OF es(1), of "FixupLutEntry op"] FixupLutEntry_total[OF op]
    by (auto simp: FixupLutOp_def lut_ok_def)
  then obtain rs where rs: "map_opt (FixupLutEntry op) es = Some rs"
    "op' = op\<lparr>op_opcode := Lut (map fst rs)\<rparr>"
    using es(1) by (auto simp: FixupLutOp_def elim!: map_entriesE)
  have "\<not> IsLiteralOperand (op_src op ! i)" if "e \<in> set (map fst rs)" "(i, b) \<in> set (le_sources e)" for e i b
  proof -
    from that(1) obtain d where d: "d < length es" "e = fst (rs ! d)"
      using map_opt_length[OF rs(1)] by (auto simp: in_set_conv_nth simp del: fst_conv)
    with map_opt_nth[OF rs(1) d(1)] show ?thesis
      using FixupLutEntry_value(3)[OF op, of "es ! d" "fst (rs ! d)" "snd (rs ! d)" i b] es(2) that(2)
      by (simp add: lut_ok_def)
  qed
  with p rs(2) show ?thesis
    by (auto simp: no_literal_columns_def IsLut_def)
qed

lemma RemoveUnusedLutSourceRegisters_total:
  assumes "lut_op_ok rt op" "no_literal_columns op"
  shows "\<exists>op' c. RemoveUnusedLutSourceRegisters op = Some (op', c) \<and> IsLut op' \<and> no_literal_columns op'"
proof -
  from assms(1) obtain es where es: "op_opcode op = Lut es" "lut_ok (length (op_src op)) es"
    and dst: "length (op_dst op) = 1"
    by (rule lut_op_okE)
  let ?f = "\<lambda>e. RemoveUnusedColumn e [0..<le_numSources e]"
  have "\<exists>r. ?f e = Some r" for e by (rule RemoveUnusedColumn_total) simp
  then obtain op' c where p: "map_entries ?f op = Some (op', c)"
    using map_entries_total[OF es(1), of ?f] by auto
  then obtain rs where rs: "map_opt ?f es = Some rs" "op' = op\<lparr>op_opcode := Lut (map fst rs)\<rparr>"
    using es(1) by (auto elim!: map_entriesE)
  have "\<not> IsLiteralOperand (op_src op ! i)" if "e \<in> set (map fst rs)" "(i, b) \<in> set (le_sources e)" for e i b
  proof -
    from that(1) obtain d where d: "d < length es" "e = fst (rs ! d)"
      using map_opt_length[OF rs(1)] by (auto simp: in_set_conv_nth simp del: fst_conv)
    have "set (le_sources e) \<subseteq> set (le_sources (es ! d))"
      using RemoveUnusedColumn_spec[of "es ! d" "[0..<le_numSources (es ! d)]" e "snd (rs ! d)"]
        map_opt_nth[OF rs(1) d(1)] d lut_ok_sources[OF es(2) nth_mem[OF d(1)]] by simp
    then show ?thesis
      using assms(2) es(1) that(2) nth_mem[OF d(1)] by (fastforce simp: no_literal_columns_def)
  qed
  with p rs(2) dst show ?thesis
    by (auto simp: no_literal_columns_def IsLut_def RemoveUnusedLutSourceRegisters_def)
qed


lemma RemoveUnusedLutSourceOperands_total:
  assumes "lut_op_ok rt op" "no_literal_columns op"
  shows "\<exists>op' c. RemoveUnusedLutSourceOperands op = Some (op', c) \<and> IsLut op' \<and> no_literals op'"
proof -
  from assms(1) obtain es where es: "op_opcode op = Lut es" "lut_ok (length (op_src op)) es"
    and dst: "length (op_dst op) = 1"
    by (rule lut_op_okE)
  define used where "used = usedSourceIndices es"
  define z where "z = zip used [0..<length used]"
  have used: "i < length (op_src op) \<and> \<not> IsLiteralOperand (op_src op ! i)" if "i \<in> set used" for i
    using that assms(2) es usedSourceIndices_props(2)[of es]
    by (fastforce simp: used_def no_literal_columns_def lut_ok_def entry_ok_def)
  have dist: "distinct used"
    using usedSourceIndices_props(1)[of es] strict_sorted_iff used_def by blast
  have "length used = card (set used)" using dist by (simp add: distinct_card)
  moreover have sub: "set used \<subseteq> {..<length (op_src op)}" using used by auto
  ultimately have le: "length used \<le> length (op_src op)"
    using card_mono[OF _ sub] by simp
  show ?thesis
  proof (cases "length used < length (op_src op)")
    case True
    have "\<exists>ss. fold_opt (\<lambda>(old, new) srcs. do {
           _ \<leftarrow> assert_that (old < length (op_src op));
           _ \<leftarrow> assert_that (new < length srcs);
           Some (srcs[new := op_src op ! old]) }) z (replicate (length used) (SrcStringLiteral '''')) = Some ss \<and>
        length ss = length used \<and> (\<forall>x \<in> set z. ss ! snd x = op_src op ! fst x) \<and>
        (\<forall>i < length used. i \<notin> snd ` set z \<longrightarrow> ss ! i = replicate (length used) (SrcStringLiteral '''') ! i)"
      by (rule fold_opt_place) (use used in \<open>auto simp: z_def in_set_zip map_snd_zip_take\<close>)
    then obtain ss where ss: "fold_opt (\<lambda>(old, new) srcs. do {
           _ \<leftarrow> assert_that (old < length (op_src op));
           _ \<leftarrow> assert_that (new < length srcs);
           Some (srcs[new := op_src op ! old]) }) z (replicate (length used) (SrcStringLiteral '''')) = Some ss"
      by blast
    have "\<exists>e'. rename_sources z e = Some e'" if "e \<in> set es" for e
    proof (rule rename_sources_total)
      have "map_of z i \<noteq> None" if i: "(i, b) \<in> set (le_sources e)" for i b
      proof -
        have "i \<in> set used"
          using i \<open>e \<in> set es\<close> usedSourceIndices_props(2)[of es] unfolding used_def by force
        then show ?thesis unfolding z_def by (rule map_of_zip_dom)
      qed
      then show "\<forall>(i, b) \<in> set (le_sources e). map_of z i \<noteq> None" by blast
    qed
    then have "map_opt (rename_sources z) es = Some (map (\<lambda>e. the (rename_sources z e)) es)"
      by (intro map_opt_total) fastforce
    then have "\<exists>op'. RemoveUnusedLutSourceOperands op = Some (op', True)"
      using es(1) dst le True ss operandMap_zip[OF usedSourceIndices_props(1)[of es], folded used_def z_def]
      by (simp add: RemoveUnusedLutSourceOperands_def lut_entries_def Let_def used_def[symmetric])
        (simp add: z_def)
    then obtain op' where p: "RemoveUnusedLutSourceOperands op = Some (op', True)" by blast
    then show ?thesis
    proof (cases rule: RemoveUnusedLutSourceOperands_cases)
      case (removed es0 es' used0)
      then have "no_literals op'"
        using used es(1) by (auto simp: no_literals_def used_def)
      then show ?thesis using p removed(7) by (auto simp: IsLut_def)
    qed simp
  next
    case False
    with le have "length used = length (op_src op)" by simp
    then have "set used = {..<length (op_src op)}"
      using dist sub by (metis card_lessThan card_subset_eq distinct_card finite_lessThan)
    then have "no_literals op"
      using used by (auto simp: no_literals_def in_set_conv_nth)
    then show ?thesis
      using es(1) dst False le
      by (auto simp: RemoveUnusedLutSourceOperands_def lut_entries_def Let_def IsLut_def simp flip: used_def)
  qed
qed

lemma DuplicateStep_total:
  assumes "dup_inv op s st" "op_src op ! s = SrcRegister r"
  shows "\<exists>st'. DuplicateStep op s st = Some st'"
proof -
  have "s \<notin> dom (map_of (ds_operandIndexMap st))"
    using assms(1) by (simp add: dup_inv_def)
  then have "map_of (ds_operandIndexMap st) s = None" by (simp add: domIff)
  then show ?thesis
    using assms(2) by (auto simp: DuplicateStep_def GetAccessedRegister_def SafeInsert_def Let_def split: option.splits)
qed

lemma RemoveDuplicateLutSourceRegisters_total:
  assumes "lut_op_ok rt op" "no_literals op"
  shows "\<exists>op' c. RemoveDuplicateLutSourceRegisters op = Some (op', c) \<and> IsLut op'"
proof -
  from assms(1) obtain es where es: "op_opcode op = Lut es" "lut_ok (length (op_src op)) es"
    and op: "op_signExtendSourceMask op = 0" "length (op_dst op) = 1" "srcs_ok rt op"
    by (rule lut_op_okE)
  have reg: "\<exists>r. op_src op ! i = SrcRegister r" if "i < length (op_src op)" for i
    using assms(2) srcs_ok_nth[OF op(3) that] nth_mem[OF that]
    by (cases "op_src op ! i") (auto simp: no_literals_def IsLiteralOperand_def)
  let ?s0 = "\<lparr>ds_regToOperandIndex = [], ds_operandIndexMap = [], ds_newSrcOperands = [], ds_duplicateFound = False\<rparr>"
  have "\<exists>st. fold_opt (DuplicateStep op) [0..<s] ?s0 = Some st" if "s \<le> length (op_src op)" for s
    using that
  proof (induction s)
    case (Suc s)
    then obtain st where st: "fold_opt (DuplicateStep op) [0..<s] ?s0 = Some st" by auto
    obtain r where "op_src op ! s = SrcRegister r" using reg[of s] Suc.prems by auto
    from DuplicateStep_total[OF DuplicateStep_fold[OF st] this] Suc.prems st show ?case by auto
  qed simp
  then obtain st where st: "fold_opt (DuplicateStep op) [0..<length (op_src op)] ?s0 = Some st" by blast
  then have inv: "dup_inv op (length (op_src op)) st" by (rule DuplicateStep_fold) simp
  have "\<exists>e'. rename_sources (ds_operandIndexMap st) e = Some e'" if e: "e \<in> set es" for e
  proof (rule rename_sources_total)
    have "map_of (ds_operandIndexMap st) i \<noteq> None" if "(i, b) \<in> set (le_sources e)" for i b
    proof -
      have "i < length (op_src op)"
        using that e es(2) by (auto simp: lut_ok_def entry_ok_def)
      then have "i \<in> dom (map_of (ds_operandIndexMap st))" using inv by (simp add: dup_inv_def)
      then show ?thesis by auto
    qed
    then show "\<forall>(i, b) \<in> set (le_sources e). map_of (ds_operandIndexMap st) i \<noteq> None" by blast
  qed
  then have "map_opt (rename_sources (ds_operandIndexMap st)) es =
      Some (map (\<lambda>e. the (rename_sources (ds_operandIndexMap st) e)) es)"
    by (intro map_opt_total) fastforce
  then show ?thesis
    using es(1) op st
    by (cases "ds_duplicateFound st";
        simp add: RemoveDuplicateLutSourceRegisters_def lut_entries_def IsLut_def; blast)
qed

lemma RemoveDuplicateLutColumns_total:
  assumes "lut_op_ok rt op"
  shows "\<exists>op' c. RemoveDuplicateLutColumns op = Some (op', c) \<and> IsLut op'"
proof -
  from assms obtain es where es: "op_opcode op = Lut es" "lut_ok (length (op_src op)) es"
    and dst: "length (op_dst op) = 1"
    by (rule lut_op_okE)
  have "\<exists>r. DeduplicateEntry e = Some r" if "e \<in> set es" for e
    using DeduplicateEntry_spec[OF lut_ok_sources[OF es(2) that]] by blast
  then obtain op' c where p: "map_entries DeduplicateEntry op = Some (op', c)"
    using map_entries_total[OF es(1), of DeduplicateEntry] by auto
  moreover from p have "IsLut op'" by (auto simp: IsLut_def elim!: map_entriesE)
  ultimately show ?thesis using dst by (simp add: RemoveDuplicateLutColumns_def)
qed

lemma DetectConstantLut_total:
  assumes "lut_op_ok rt op"
  shows "\<exists>op' c. DetectConstantLut op = Some (op', c)"
proof -
  from assms obtain es where es: "op_opcode op = Lut es" "lut_ok (length (op_src op)) es"
    and dst: "length (op_dst op) = 1"
    by (rule lut_op_okE)
  have "le_table e = 0 \<or> le_table e = 1" if "e \<in> set es" "le_numSources e = 0" for e
  proof -
    have "take_bit (Suc 0) (le_table e) = le_table e"
      using es(2) that by (auto simp: lut_ok_def entry_ok_def)
    then have "le_table e mod 2 = le_table e" by (simp add: take_bit_eq_mod)
    then show ?thesis by (metis mod2_eq_if)
  qed
  then have tab: "list_all (\<lambda>e. le_numSources e = 0 \<longrightarrow> le_table e = 0 \<or> le_table e = 1) es"
    by (auto simp: list_all_iff)
  let ?v = "or_bits (length es) (\<lambda>d. le_numSources (es ! d) = 0 \<and> le_table (es ! d) \<noteq> 0) :: int"
  obtain w where "GetMpWidth ?v = Some w" using GetMpWidth_bounds[OF or_bits_nonneg] by blast
  then show ?thesis
    using es(1) dst tab
    by (cases "list_all (\<lambda>e. le_numSources e = 0) es";
        simp add: DetectConstantLut_def lut_entries_def SourceOperand_mp_def Let_def; blast)
qed

lemma FixupIteration_total:
  assumes "lut_op_ok rt op"
  shows "\<exists>op' c. FixupIteration op = Some (op', c)"
proof -
  obtain op1 c1 where 1: "FixupLutOp op = Some (op1, c1)" "IsLut op1" "no_literal_columns op1"
    using FixupLutOp_total[OF assms] by blast
  note ok1 = fixup.pass_ok[OF assms 1(1,2)]
  obtain op2 c2 where 2: "RemoveUnusedLutSourceRegisters op1 = Some (op2, c2)" "IsLut op2" "no_literal_columns op2"
    using RemoveUnusedLutSourceRegisters_total[OF ok1 1(3)] by blast
  note ok2 = unused_regs.pass_ok[OF ok1 2(1,2)]
  obtain op3 c3 where 3: "RemoveUnusedLutSourceOperands op2 = Some (op3, c3)" "IsLut op3" "no_literals op3"
    using RemoveUnusedLutSourceOperands_total[OF ok2 2(3)] by blast
  note ok3 = unused_ops.pass_ok[OF ok2 3(1,2)]
  obtain op4 c4 where 4: "RemoveDuplicateLutSourceRegisters op3 = Some (op4, c4)" "IsLut op4"
    using RemoveDuplicateLutSourceRegisters_total[OF ok3 3(3)] by blast
  note ok4 = dup_regs.pass_ok[OF ok3 4]
  obtain op5 c5 where 5: "RemoveDuplicateLutColumns op4 = Some (op5, c5)" "IsLut op5"
    using RemoveDuplicateLutColumns_total[OF ok4] by blast
  note ok5 = dup_columns.pass_ok[OF ok4 5]
  obtain op6 c6 where 6: "DetectConstantLut op5 = Some (op6, c6)"
    using DetectConstantLut_total[OF ok5] by blast
  show ?thesis
    using 1 2 3 4 5 6 by (simp add: FixupIteration_def)
qed

lemma FixupLutLoop_total:
  "lut_op_ok rt op \<Longrightarrow> \<exists>r. FixupLutLoop op c = Some r"
proof (induction op c rule: FixupLutLoop.induct)
  case (1 op c)
  obtain op1 m where it: "FixupIteration op = Some (op1, m)"
    using FixupIteration_total[OF "1.prems"] by blast
  show ?case
  proof (cases "\<not> m \<or> \<not> IsLut op1")
    case True
    then show ?thesis by (subst FixupLutLoop.simps) (simp add: it)
  next
    case False
    then have "\<exists>r. FixupLutLoop op1 (c \<or> m) = Some r"
      using "1.IH"[OF it refl False] iteration.pass_ok[OF "1.prems" it] by blast
    with False show ?thesis
      by (subst FixupLutLoop.simps) (simp add: it)
  qed
qed


subsection \<open>Properties\<close>

text \<open>C6: on a well-formed lookup table the clean-up loop ends without an exception, and the
  operation it leaves computes the same value on every state of the registers.\<close>

theorem FixupLutOps_op_correct:
  assumes "lut_op_ok rt op"
  shows "\<exists>op' changed. FixupLutOps_op op = Some (op', changed) \<and>
    (\<forall>env. eval_operation rt env op' = eval_operation rt env op)"
proof -
  from assms have lut: "IsLut op"
    by (auto simp: lut_op_ok_def IsLut_def split: Opcode.splits)
  obtain op' c where "FixupLutLoop op False = Some (op', c)"
    using FixupLutLoop_total[OF assms, of False] by auto
  with lut FixupLutLoop_value[OF assms] show ?thesis
    by (auto simp: FixupLutOps_op_def)
qed

definition demo_lut :: Operation where
  "demo_lut = \<lparr>op_opcode = Lut [\<lparr>le_sources = [(0, 0), (1, 1), (0, 0)], le_table = 0xC8\<rparr>,
       \<lparr>le_sources = [(2, 0)], le_table = 3\<rparr>],
     op_signExtendSourceMask = 0, op_locations = {},
     op_src = [SrcRegister 0, SrcLiteral \<lparr>l_value = 2, l_width = 2\<rparr>, SrcRegister 1],
     op_dst = [DstRegister 2]\<rparr>"

lemma demo_lut_ok: "lut_op_ok demo_rt demo_lut"
  by (simp add: lut_op_ok_def demo_lut_def demo_rt_def lut_ok_def entry_ok_def srcs_ok_def lit_ok_def
      c_maxLutSources_def)

theorem FixupLutOps_op_correct_witness:
  "\<exists>op' changed. FixupLutOps_op demo_lut = Some (op', changed) \<and>
     (\<forall>env. eval_operation demo_rt env op' = eval_operation demo_rt env demo_lut)"
  using FixupLutOps_op_correct[OF demo_lut_ok] .

text \<open>C7: the loop runs to convergence: when the operation it leaves is still a lookup table, one
  more round of the six passes changes nothing.\<close>

theorem FixupLutOps_op_converges:
  assumes "FixupLutOps_op op = Some (op', changed)" and "IsLut op'"
  shows "FixupIteration op' = Some (op', False)"
proof -
  have "IsLut op" using assms by (auto simp: FixupLutOps_op_def split: if_splits)
  with assms FixupLutLoop_converged show ?thesis
    by (simp add: FixupLutOps_op_def)
qed

theorem FixupLutOps_op_converges_witness:
  "FixupIteration (fst (the (FixupLutOps_op demo_lut))) = Some (fst (the (FixupLutOps_op demo_lut)), False)"
proof -
  have lut: "IsLut (fst (the (FixupLutOps_op demo_lut)))"
    by code_simp
  obtain op' c where r: "FixupLutOps_op demo_lut = Some (op', c)"
    using FixupLutLoop_total[OF demo_lut_ok, of False]
    by (auto simp: FixupLutOps_op_def IsLut_def demo_lut_def)
  from FixupLutOps_op_converges[OF r] lut show ?thesis by (simp add: r)
qed

text \<open>C8: a column is removed as unused only when the table has the same value for both of its
  bits, and removing a column at its actual value never changes the entry's value.\<close>

theorem RemoveSourceFromLut_sound:
  assumes "le_numSources e \<le> c_maxLutSources" "i < le_numSources e"
    and "v = bit (ev (fst (le_sources e ! i))) (snd (le_sources e ! i))"
  shows "\<exists>e'. RemoveSourceFromLut e i v = Some e' \<and> entry_value ev e' = entry_value ev e \<and>
    Suc (le_numSources e') = le_numSources e"
proof -
  obtain e' where e': "RemoveSourceFromLut e i v = Some e'"
    using RemoveSourceFromLut_eq[OF assms(2)] by blast
  with RemoveSourceFromLut_value[where ev = ev, OF e' assms(1,3)] RemoveSourceFromLut_shape(1)[OF e'] show ?thesis
    by blast
qed

theorem RemoveSourceFromLut_sound_witness:
  "\<exists>e'. RemoveSourceFromLut \<lparr>le_sources = [(0, 0), (0, 1), (1, 0)], le_table = 0xCA\<rparr> 1 True = Some e' \<and>
     entry_value (\<lambda>i. [2, 1] ! i) e' =
       entry_value (\<lambda>i. [2, 1] ! i) \<lparr>le_sources = [(0, 0), (0, 1), (1, 0)], le_table = 0xCA\<rparr> \<and>
     Suc (le_numSources e') = 3"
  using RemoveSourceFromLut_sound[of "\<lparr>le_sources = [(0, 0), (0, 1), (1, 0)], le_table = 0xCA\<rparr>" 1 True
      "\<lambda>i. [2, 1] ! i"]
  by (simp add: c_maxLutSources_def numeral_3_eq_3 bit_numeral_rec)


subsection \<open>OptimizeLutOpt\<close>

function RemoveUnusedLoop :: "Operation \<Rightarrow> Operation option" where
  "RemoveUnusedLoop op =
     (case RemoveUnusedLutSourceRegisters op of
        None \<Rightarrow> None
      | Some (op', changed) \<Rightarrow> if changed \<and> IsLut op' then RemoveUnusedLoop op' else Some op')"
  by pat_completeness auto

termination
  by (relation "measure lut_size") (auto intro: unused_regs.pass_smaller)

declare RemoveUnusedLoop.simps [simp del]

definition ConstantEntry :: "LutEntry \<Rightarrow> LutEntry option" where
  "ConstantEntry lutEntry =
     (if le_numSources lutEntry > 0 then do {
        let tableSize = 2 ^ le_numSources lutEntry;
        _ \<leftarrow> assert_that (tableSize \<le> 64);
        let mask = (if tableSize = 64 then - 1 else push_bit tableSize 1 - 1);
        let maskedTable = le_table lutEntry AND mask;
        Some (if maskedTable = mask \<or> maskedTable = 0
              then \<lparr>le_sources = [], le_table = (if maskedTable = 0 then 0 else 1)\<rparr>
              else lutEntry) }
      else Some lutEntry)"

definition OptimizeLutOpt :: "Operation \<Rightarrow> Operation option" where
  "OptimizeLutOpt op = do {
     op1 \<leftarrow> RemoveUnusedLoop op;
     es \<leftarrow> lut_entries op1;
     es' \<leftarrow> map_opt ConstantEntry es;
     let needsSrcOp = list_ex (\<lambda>e. le_numSources e \<noteq> 0) es';
     let op2 = op1\<lparr>op_opcode := Lut es'\<rparr>;
     Some (if \<not> needsSrcOp then op2\<lparr>op_src := []\<rparr> else op2) }"

lemma RemoveUnusedLoop_spec:
  "lut_op_ok rt op \<Longrightarrow> \<exists>op'. RemoveUnusedLoop op = Some op' \<and> lut_op_ok rt op' \<and>
     (\<forall>env. eval_operation rt env op' = eval_operation rt env op)"
proof (induction op rule: RemoveUnusedLoop.induct)
  case (1 op)
  then obtain es where es: "op_opcode op = Lut es" and dst: "length (op_dst op) = 1"
    by (blast elim: lut_op_okE)
  let ?f = "\<lambda>e. RemoveUnusedColumn e [0..<le_numSources e]"
  have "\<exists>r. ?f e = Some r" for e by (rule RemoveUnusedColumn_total) simp
  then obtain op' c where p: "map_entries ?f op = Some (op', c)"
    using map_entries_total[OF es, of ?f] by auto
  then have pass: "RemoveUnusedLutSourceRegisters op = Some (op', c)" and lut: "IsLut op'"
    using dst by (auto simp: RemoveUnusedLutSourceRegisters_def IsLut_def elim!: map_entriesE)
  note ok = unused_regs.pass_ok[OF "1.prems" pass lut] and val = unused_regs.pass_value[OF "1.prems" pass]
  show ?case
  proof (cases c)
    case True
    with "1.IH"[OF pass refl _ ok] lut val pass show ?thesis
      by (subst RemoveUnusedLoop.simps) simp
  next
    case False
    with ok val pass show ?thesis by (subst RemoveUnusedLoop.simps) simp
  qed
qed

lemma ConstantEntry_spec:
  assumes "entry_ok n e"
  shows "\<exists>e'. ConstantEntry e = Some e' \<and> entry_value ev e' = entry_value ev e \<and>
    (e' = e \<or> le_sources e' = [] \<and> le_table e' \<in> {0, 1})"
proof (cases "le_numSources e > 0")
  case True
  let ?T = "2 ^ le_numSources e :: nat"
  define tm :: "64 word" where "tm = (if ?T = 64 then - 1 else push_bit ?T 1 - 1)"
  have T: "?T \<le> 64" using pow_sources_le assms by (simp add: entry_ok_def)
  have mask: "bit tm r" if "r < ?T" for r
  proof -
    have "tm = mask ?T"
      by (simp add: tm_def mask_eq_exp_minus_1 flip: mask_full[where 'a = 64])
    then show ?thesis using T that by (simp add: bit_mask_iff)
  qed
  have row: "tableRowIndex ev e < ?T" by simp
  have ce: "ConstantEntry e = Some (if le_table e AND tm = tm \<or> le_table e AND tm = 0
      then \<lparr>le_sources = [], le_table = (if le_table e AND tm = 0 then 0 else 1)\<rparr> else e)"
    using True T by (simp add: ConstantEntry_def tm_def Let_def)
  have const: "entry_value ev \<lparr>le_sources = [], le_table = of_bool b\<rparr> = b" for b
    by (simp add: entry_value_def tableRowIndex_def or_bits_def)
  consider (zero) "le_table e AND tm = 0" | (one) "le_table e AND tm = tm" "le_table e AND tm \<noteq> 0"
    | (other) "le_table e AND tm \<noteq> tm" "le_table e AND tm \<noteq> 0" by blast
  then show ?thesis
  proof cases
    case zero
    then have "\<not> bit (le_table e) (tableRowIndex ev e)"
      using mask[OF row] by (metis bit_and_iff bit_0_eq bot_apply bot_bool_def)
    then show ?thesis using ce zero const[of False] by (simp add: entry_value_def)
  next
    case one
    then have "bit (le_table e) (tableRowIndex ev e)"
      using mask[OF row] by (metis bit_and_iff)
    then show ?thesis using ce one const[of True] by (simp add: entry_value_def)
  next
    case other
    then show ?thesis using ce by simp
  qed
qed (simp add: ConstantEntry_def)

text \<open>C9: \<^verbatim>\<open>OptimizeLutOpt\<close> never throws on a well-formed lookup table and leaves one that
  computes the same value.\<close>

theorem OptimizeLutOpt_correct:
  assumes "lut_op_ok rt op"
  shows "\<exists>op'. OptimizeLutOpt op = Some op' \<and>
    (\<forall>env. eval_operation rt env op' = eval_operation rt env op)"
proof -
  obtain op1 where op1: "RemoveUnusedLoop op = Some op1" "lut_op_ok rt op1"
    "\<And>env. eval_operation rt env op1 = eval_operation rt env op"
    using RemoveUnusedLoop_spec[OF assms] by blast
  from op1(2) obtain es where es: "op_opcode op1 = Lut es" "lut_ok (length (op_src op1)) es" "lut_entries op1 = Some es"
    by (rule lut_op_okE)
  let ?f = "\<lambda>e. the (ConstantEntry e)"
  define srcs where "srcs = (if list_ex (\<lambda>e. le_numSources e \<noteq> 0) (map ?f es) then op_src op1 else [])"
  define op2 where "op2 = op1\<lparr>op_opcode := Lut (map ?f es), op_src := srcs\<rparr>"
  have ce: "ConstantEntry e = Some (?f e) \<and> entry_value ev (?f e) = entry_value ev e \<and>
      (?f e = e \<or> le_sources (?f e) = [] \<and> le_table (?f e) \<in> {0, 1})" if "e \<in> set es" for e ev
    using ConstantEntry_spec[of _ e ev] es(2) that by (force simp: lut_ok_def)
  then have res: "OptimizeLutOpt op = Some op2"
    using map_opt_total[of es ConstantEntry ?f] op1(1) es(3)
    by (simp add: OptimizeLutOpt_def op2_def srcs_def Let_def)
  have ok: "entry_ok (length srcs) (?f e)" if "e \<in> set es" for e
  proof (cases "le_sources (?f e) = []")
    case True
    then show ?thesis
      using ce[OF that, of "\<lambda>_. 0"] es(2) that by (auto simp: entry_ok_def lut_ok_def)
  next
    case False
    then have "?f e = e" "srcs = op_src op1"
      using ce[OF that, of "\<lambda>_. 0"] that by (auto simp: srcs_def list_ex_iff)
    then show ?thesis using es(2) that by (simp add: lut_ok_def)
  qed
  then have ok2: "lut_op_ok rt op2"
    using op1(2) by (auto simp: op2_def lut_op_ok_def lut_ok_def srcs_ok_def srcs_def)
  have "eval_operation rt env op2 = eval_operation rt env op1" for env
  proof (rule eval_lut_cong[OF op1(2) ok2 es(1)])
    fix d assume d: "d < length es"
    have "entry_value (src_values env op2) (?f (es ! d)) = entry_value (src_values env op1) (?f (es ! d))"
    proof (cases "le_sources (?f (es ! d)) = []")
      case False
      then have "srcs = op_src op1" using d by (auto simp: srcs_def list_ex_iff)
      then show ?thesis by (simp add: op2_def)
    qed (simp add: entry_value_def tableRowIndex_def or_bits_def)
    then show "entry_value (src_values env op2) (map ?f es ! d) = entry_value (src_values env op1) (es ! d)"
      using ce[OF nth_mem[OF d], of "src_values env op1"] d by simp
  qed (simp_all add: op2_def)
  with res op1(3) show ?thesis by auto
qed

theorem OptimizeLutOpt_correct_witness:
  "\<exists>op'. OptimizeLutOpt demo_lut = Some op' \<and>
     (\<forall>env. eval_operation demo_rt env op' = eval_operation demo_rt env demo_lut)"
  using OptimizeLutOpt_correct[OF demo_lut_ok] .

end
