(* ===== verification/Compressed_Vector.thy ===== *)
theory Compressed_Vector
  imports Literals
begin

text \<open>
  Parameter vectors of the optimiser (\<^verbatim>\<open>branch_and_bound.h\<close>, \<^verbatim>\<open>branch_and_bound.cpp\<close>):
  \<^verbatim>\<open>CompressedIntegerVector\<close> packs integers of known range into 64-bit words after a code book,
  and \<^verbatim>\<open>IntegerParameterVector\<close> adds a flag per element. The locale \<open>int_store\<close> is what a client
  may assume of such a container (a read returns what was written, writes do not disturb one
  another); the code book shows it for the packed words, and the parameter vectors refine lists of
  optional numbers through it.
\<close>

subsection \<open>Code books\<close>

record CodeBookEntry =
  cbe_wordIndex :: nat
  cbe_shift :: nat
  cbe_mask :: "64 word"
  cbe_upperBound :: nat
  cbe_isConstantZero :: bool

record CodeBook =
  cb_numWords :: nat
  cb_entries :: "CodeBookEntry list"

definition bitsPerWord :: nat where
  "bitsPerWord = 64"

definition CodeBookStep :: "nat \<Rightarrow> CodeBook \<times> nat \<Rightarrow> (CodeBook \<times> nat) option" where
  "CodeBookStep rng st = do {
     let (result, bitsRemaining) = st;
     _ \<leftarrow> assert_that (rng > 0);
     bitCount \<leftarrow> Log2RoundUp (int rng);
     let (result, bitsRemaining) =
       (if bitsRemaining < bitCount
        then (result\<lparr>cb_numWords := cb_numWords result + 1\<rparr>, bitsPerWord)
        else (result, bitsRemaining));
     _ \<leftarrow> assert_that (bitCount = 0 \<or> cb_numWords result > 0);
     let shift = bitsPerWord - bitsRemaining;
     let cbe =
       (if bitCount = 0
        then \<lparr>cbe_wordIndex = 0, cbe_shift = 0, cbe_mask = 0, cbe_upperBound = rng,
              cbe_isConstantZero = True\<rparr>
        else \<lparr>cbe_wordIndex = cb_numWords result - 1, cbe_shift = shift,
              cbe_mask = push_bit shift (push_bit bitCount 1 - 1), cbe_upperBound = rng,
              cbe_isConstantZero = False\<rparr>);
     _ \<leftarrow> assert_that (bitsRemaining \<ge> bitCount);
     Some (result\<lparr>cb_entries := cb_entries result @ [cbe]\<rparr>, bitsRemaining - bitCount) }"

definition CreateCodeBook :: "nat list \<Rightarrow> CodeBook option" where
  "CreateCodeBook ranges = do {
     (result, bitsRemaining) \<leftarrow> fold_opt CodeBookStep ranges (\<lparr>cb_numWords = 0, cb_entries = []\<rparr>, 0);
     Some result }"

subsection \<open>Packed vectors\<close>

text \<open>The pointer to the code book is null in a default-constructed vector.\<close>

record CompressedIntegerVector =
  civ_codeBook :: "CodeBook option"
  civ_words :: "64 word list"

definition empty_CompressedIntegerVector :: CompressedIntegerVector where
  "empty_CompressedIntegerVector = \<lparr>civ_codeBook = None, civ_words = []\<rparr>"

definition new_CompressedIntegerVector :: "CodeBook \<Rightarrow> CompressedIntegerVector" where
  "new_CompressedIntegerVector codeBook =
     \<lparr>civ_codeBook = Some codeBook, civ_words = replicate (cb_numWords codeBook) 0\<rparr>"

definition GetCodeBookEntry :: "CompressedIntegerVector \<Rightarrow> nat \<Rightarrow> CodeBookEntry option" where
  "GetCodeBookEntry v index = do {
     codeBook \<leftarrow> civ_codeBook v;
     _ \<leftarrow> assert_that (index < length (cb_entries codeBook));
     Some (cb_entries codeBook ! index) }"

definition CompressedIntegerVector_Set ::
  "CompressedIntegerVector \<Rightarrow> nat \<Rightarrow> nat \<Rightarrow> CompressedIntegerVector option" where
  "CompressedIntegerVector_Set v index value = do {
     cbe \<leftarrow> GetCodeBookEntry v index;
     _ \<leftarrow> assert_that (value < cbe_upperBound cbe);
     Some (if \<not> cbe_isConstantZero cbe
           then v\<lparr>civ_words := (civ_words v)[cbe_wordIndex cbe :=
             (civ_words v ! cbe_wordIndex cbe AND NOT (cbe_mask cbe)) OR
               push_bit (cbe_shift cbe) (of_nat value)]\<rparr>
           else v) }"

definition CompressedIntegerVector_Get :: "CompressedIntegerVector \<Rightarrow> nat \<Rightarrow> nat option" where
  "CompressedIntegerVector_Get v index = do {
     cbe \<leftarrow> GetCodeBookEntry v index;
     Some (if cbe_isConstantZero cbe then 0
           else unat (drop_bit (cbe_shift cbe) (civ_words v ! cbe_wordIndex cbe AND cbe_mask cbe))) }"

subsection \<open>Vectors with undefined elements\<close>

record IntegerParameterVector =
  ipv_data :: CompressedIntegerVector
  ipv_valid :: "bool list"

definition empty_IntegerParameterVector :: IntegerParameterVector where
  "empty_IntegerParameterVector = \<lparr>ipv_data = empty_CompressedIntegerVector, ipv_valid = []\<rparr>"

definition new_IntegerParameterVector :: "CodeBook \<Rightarrow> IntegerParameterVector" where
  "new_IntegerParameterVector codeBook =
     \<lparr>ipv_data = new_CompressedIntegerVector codeBook,
      ipv_valid = replicate (length (cb_entries codeBook)) False\<rparr>"

definition GetParameter :: "IntegerParameterVector \<Rightarrow> nat \<Rightarrow> nat option" where
  "GetParameter v paramIndex = do {
     _ \<leftarrow> assert_that (paramIndex < length (ipv_valid v));
     _ \<leftarrow> assert_that (ipv_valid v ! paramIndex);
     CompressedIntegerVector_Get (ipv_data v) paramIndex }"

definition IsParameterDefined :: "IntegerParameterVector \<Rightarrow> nat \<Rightarrow> bool option" where
  "IsParameterDefined v paramIndex = do {
     _ \<leftarrow> assert_that (paramIndex < length (ipv_valid v));
     Some (ipv_valid v ! paramIndex) }"

definition GetParameterCount :: "IntegerParameterVector \<Rightarrow> nat" where
  "GetParameterCount v = length (ipv_valid v)"

definition SetParameter ::
  "IntegerParameterVector \<Rightarrow> nat \<Rightarrow> nat \<Rightarrow> IntegerParameterVector option" where
  "SetParameter v paramIndex value = do {
     _ \<leftarrow> assert_that (paramIndex < length (ipv_valid v));
     d \<leftarrow> CompressedIntegerVector_Set (ipv_data v) paramIndex value;
     Some \<lparr>ipv_data = d, ipv_valid = (ipv_valid v)[paramIndex := True]\<rparr> }"

definition AllDefined :: "IntegerParameterVector \<Rightarrow> bool" where
  "AllDefined v = list_all (\<lambda>valid. valid) (ipv_valid v)"

subsection \<open>The contract of an integer container\<close>

locale int_store =
  fixes get :: "'s \<Rightarrow> nat \<Rightarrow> nat option"
    and set_at :: "'s \<Rightarrow> nat \<Rightarrow> nat \<Rightarrow> 's option"
    and bounds :: "'s \<Rightarrow> nat list"
    and ok :: "'s \<Rightarrow> bool"
  assumes get_total: "ok s \<Longrightarrow> i < length (bounds s) \<Longrightarrow> \<exists>v. get s i = Some v"
    and set_total: "ok s \<Longrightarrow> i < length (bounds s) \<Longrightarrow> v < bounds s ! i \<Longrightarrow> \<exists>s'. set_at s i v = Some s'"
    and set_Some: "ok s \<Longrightarrow> set_at s i v = Some s' \<Longrightarrow>
      i < length (bounds s) \<and> v < bounds s ! i \<and> ok s' \<and> bounds s' = bounds s \<and> get s' i = Some v"
    and get_set_other: "ok s \<Longrightarrow> set_at s i v = Some s' \<Longrightarrow> j \<noteq> i \<Longrightarrow> get s' j = get s j"
begin

text \<open>The container's contents, and writes as updates of them.\<close>

definition contents :: "'s \<Rightarrow> nat list" where
  "contents s = map (\<lambda>i. the (get s i)) [0..<length (bounds s)]"

lemma contents_set:
  assumes "ok s" "set_at s i v = Some s'"
  shows "contents s' = (contents s)[i := v]"
proof (rule nth_equalityI)
  fix j assume "j < length (contents s')"
  then show "contents s' ! j = (contents s)[i := v] ! j"
    using set_Some[OF assms] get_set_other[OF assms, of j]
    by (cases "j = i") (simp_all add: contents_def)
qed (use set_Some[OF assms] in \<open>simp add: contents_def\<close>)

end


subsection \<open>The code book assigns disjoint fields\<close>

lemma Log2RoundUp_bits:
  assumes "0 < r"
  shows "\<exists>k. Log2RoundUp (int r) = Some k \<and> r \<le> 2 ^ k \<and> (k = 0 \<longleftrightarrow> r = 1) \<and> (\<forall>m. r \<le> 2 ^ m \<longrightarrow> k \<le> m)"
proof -
  define h where "h = msb_nat r"
  have h: "2 ^ h \<le> r" "r < 2 ^ Suc h"
    using msb_nat_bounds[OF assms] by (simp_all add: h_def)
  have le: "h \<le> m" if "r \<le> 2 ^ m" for m
    using power_le_imp_le_exp[of "2::nat" h m] le_trans[OF h(1) that] by simp
  show ?thesis
  proof (cases "IsPow2 (int r)")
    case True
    then obtain k where "int r = 2 ^ k" using IsPow2_iff by blast
    then have k: "r = 2 ^ k" by (metis of_nat_eq_iff of_nat_numeral of_nat_power)
    then have "h = k" by (simp add: h_def msb_nat_pow2)
    with k True assms show ?thesis
      by (intro exI[of _ k]) (auto simp: Log2RoundUp_def msb_def nat_power_eq msb_nat_pow2 intro: power_le_imp_le_exp)
  next
    case False
    have "r \<noteq> 2 ^ h"
      using False IsPow2_iff[of "int r"] by (metis of_nat_numeral of_nat_power)
    moreover have "Suc h \<le> m" if "r \<le> 2 ^ m" for m
    proof (rule ccontr)
      assume "\<not> Suc h \<le> m"
      with le[OF that] have "m = h" by simp
      with that h(1) \<open>r \<noteq> 2 ^ h\<close> show False by simp
    qed
    moreover have "r \<noteq> 1"
      using False IsPow2_iff[of "int r"] by (metis of_nat_1 power_0)
    ultimately show ?thesis
      using False assms h(2) by (intro exI[of _ "Suc h"]) (simp add: Log2RoundUp_def msb_def h_def less_imp_le)
  qed
qed

definition field_bits :: "CodeBookEntry \<Rightarrow> nat" where
  "field_bits e = the (Log2RoundUp (int (cbe_upperBound e)))"

definition field_ok :: "nat \<Rightarrow> CodeBookEntry \<Rightarrow> bool" where
  "field_ok numWords e \<longleftrightarrow>
     (if cbe_isConstantZero e then cbe_upperBound e = 1
      else cbe_wordIndex e < numWords \<and> cbe_shift e + field_bits e \<le> bitsPerWord \<and>
        cbe_mask e = push_bit (cbe_shift e) (mask (field_bits e)) \<and>
        cbe_upperBound e \<le> 2 ^ field_bits e)"

definition disjoint_fields :: "CodeBookEntry \<Rightarrow> CodeBookEntry \<Rightarrow> bool" where
  "disjoint_fields e e' \<longleftrightarrow>
     cbe_isConstantZero e \<or> cbe_isConstantZero e' \<or> cbe_wordIndex e \<noteq> cbe_wordIndex e' \<or>
     cbe_shift e + field_bits e \<le> cbe_shift e' \<or> cbe_shift e' + field_bits e' \<le> cbe_shift e"

definition book_ok :: "nat list \<Rightarrow> CodeBook \<Rightarrow> bool" where
  "book_ok ranges cb \<longleftrightarrow>
     map cbe_upperBound (cb_entries cb) = ranges \<and>
     (\<forall>e \<in> set (cb_entries cb). field_ok (cb_numWords cb) e) \<and>
     sorted_wrt disjoint_fields (cb_entries cb)"

text \<open>While the book is built, the last word has \<open>rem\<close> free bits, at its top.\<close>

definition book_inv :: "nat list \<Rightarrow> CodeBook \<times> nat \<Rightarrow> bool" where
  "book_inv ranges st \<longleftrightarrow>
     (case st of (cb, rem) \<Rightarrow> book_ok ranges cb \<and> rem \<le> bitsPerWord \<and> (cb_numWords cb = 0 \<longrightarrow> rem = 0) \<and>
       (\<forall>e \<in> set (cb_entries cb). \<not> cbe_isConstantZero e \<and> cbe_wordIndex e = cb_numWords cb - 1 \<longrightarrow>
          cbe_shift e + field_bits e + rem \<le> bitsPerWord))"

lemma field_ok_mono: "field_ok n e \<Longrightarrow> n \<le> m \<Longrightarrow> field_ok m e"
  by (auto simp: field_ok_def split: if_splits)

lemma CodeBookStep_inv:
  assumes "book_inv ranges (cb, rem)" "0 < r" "r \<le> 2 ^ 63"
  shows "\<exists>st'. CodeBookStep r (cb, rem) = Some st' \<and> book_inv (ranges @ [r]) st'"
proof -
  obtain k where k: "Log2RoundUp (int r) = Some k" "r \<le> 2 ^ k" "k = 0 \<longleftrightarrow> r = 1" "k \<le> 63"
    using Log2RoundUp_bits[OF assms(2)] assms(3) by blast
  define fresh where "fresh = (rem < k)"
  define cb1 where "cb1 = (if fresh then cb\<lparr>cb_numWords := cb_numWords cb + 1\<rparr> else cb)"
  define rem1 where "rem1 = (if fresh then bitsPerWord else rem)"
  define e where "e = (if k = 0
        then \<lparr>cbe_wordIndex = 0, cbe_shift = 0, cbe_mask = 0, cbe_upperBound = r, cbe_isConstantZero = True\<rparr>
        else \<lparr>cbe_wordIndex = cb_numWords cb1 - 1, cbe_shift = bitsPerWord - rem1,
              cbe_mask = push_bit (bitsPerWord - rem1) (push_bit k 1 - 1), cbe_upperBound = r,
              cbe_isConstantZero = False\<rparr>)"
  have inv: "book_ok ranges cb" "rem \<le> bitsPerWord" "cb_numWords cb = 0 \<Longrightarrow> rem = 0"
    "\<And>e. e \<in> set (cb_entries cb) \<Longrightarrow> \<not> cbe_isConstantZero e \<Longrightarrow> cbe_wordIndex e = cb_numWords cb - 1 \<Longrightarrow>
      cbe_shift e + field_bits e + rem \<le> bitsPerWord"
    using assms(1) by (auto simp: book_inv_def)
  have rem1: "k \<le> rem1" "rem1 \<le> bitsPerWord" and words: "k = 0 \<or> 0 < cb_numWords cb1"
    using inv(2,3) k(4) by (auto simp: rem1_def cb1_def fresh_def bitsPerWord_def)
  have bits: "field_bits e = k" by (simp add: field_bits_def e_def k(1))
  have step: "CodeBookStep r (cb, rem) = Some (cb1\<lparr>cb_entries := cb_entries cb1 @ [e]\<rparr>, rem1 - k)"
    using assms(2) rem1(1) words
    by (cases "rem < k") (simp_all add: CodeBookStep_def k(1) cb1_def rem1_def e_def Let_def fresh_def)
  have eok: "field_ok (cb_numWords cb1) e"
    using k rem1 words bits
    by (auto simp: field_ok_def e_def mask_eq_exp_minus_1)
  have disj: "disjoint_fields e' e" if "e' \<in> set (cb_entries cb)" for e'
  proof (cases "cbe_isConstantZero e' \<or> k = 0 \<or> cbe_wordIndex e' \<noteq> cb_numWords cb1 - 1")
    case True
    then show ?thesis by (auto simp: disjoint_fields_def e_def)
  next
    case False
    moreover have "\<not> fresh"
      using inv(1) that False by (auto simp: book_ok_def field_ok_def cb1_def)
    ultimately have "cbe_shift e' + field_bits e' \<le> bitsPerWord - rem1"
      using inv(4)[OF that] by (simp add: cb1_def rem1_def)
    then show ?thesis using False by (simp add: disjoint_fields_def e_def)
  qed
  have top: "cbe_shift e' + field_bits e' + (rem1 - k) \<le> bitsPerWord"
    if "e' \<in> set (cb_entries cb1 @ [e])" "\<not> cbe_isConstantZero e'" "cbe_wordIndex e' = cb_numWords cb1 - 1" for e'
  proof (cases "e' = e")
    case True
    then show ?thesis using that(2) rem1 bits by (auto simp: e_def split: if_splits)
  next
    case False
    with that have e': "e' \<in> set (cb_entries cb)" by (auto simp: cb1_def split: if_splits)
    then have "\<not> fresh"
      using inv(1) that(2,3) by (auto simp: book_ok_def field_ok_def cb1_def)
    then show ?thesis using inv(4)[OF e' that(2)] that(3) by (simp add: cb1_def rem1_def)
  qed
  have "book_inv (ranges @ [r]) (cb1\<lparr>cb_entries := cb_entries cb1 @ [e]\<rparr>, rem1 - k)"
  proof -
    have "cb_entries cb1 = cb_entries cb" "cb_numWords cb \<le> cb_numWords cb1"
      by (simp_all add: cb1_def)
    moreover have "cbe_upperBound e = r" by (simp add: e_def)
    moreover have "rem1 - k = 0" if "cb_numWords cb1 = 0"
      using that inv(3) by (auto simp: cb1_def rem1_def split: if_splits)
    ultimately show ?thesis
      using inv(1) eok disj top rem1 field_ok_mono
      by (auto simp: book_inv_def book_ok_def sorted_wrt_append)
  qed
  with step show ?thesis by blast
qed

lemma CreateCodeBook_ok:
  assumes "\<forall>r \<in> set ranges. 0 < r \<and> r \<le> 2 ^ 63"
  shows "\<exists>cb. CreateCodeBook ranges = Some cb \<and> book_ok ranges cb"
proof -
  have "\<exists>st. fold_opt CodeBookStep ranges (\<lparr>cb_numWords = 0, cb_entries = []\<rparr>, 0) = Some st \<and> book_inv ranges st"
    using assms
  proof (induction ranges rule: rev_induct)
    case Nil
    then show ?case by (simp add: book_inv_def book_ok_def)
  next
    case (snoc r rs)
    then obtain cb rem where "fold_opt CodeBookStep rs (\<lparr>cb_numWords = 0, cb_entries = []\<rparr>, 0) = Some (cb, rem)"
      "book_inv rs (cb, rem)" by fastforce
    with CodeBookStep_inv[of rs cb rem r] snoc.prems show ?case by auto
  qed
  then obtain cb rem where "fold_opt CodeBookStep ranges (\<lparr>cb_numWords = 0, cb_entries = []\<rparr>, 0) = Some (cb, rem)"
    "book_inv ranges (cb, rem)" by fastforce
  then show ?thesis by (simp add: CreateCodeBook_def book_inv_def)
qed

subsection \<open>Reading and writing a field\<close>

lemma field_write_read:
  fixes w :: "64 word"
  assumes "s + k \<le> 64" "v < 2 ^ k"
  shows "unat (drop_bit s (((w AND NOT (push_bit s (mask k))) OR push_bit s (of_nat v)) AND push_bit s (mask k))) = v"
proof -
  have "drop_bit s (((w AND NOT (push_bit s (mask k))) OR push_bit s (of_nat v)) AND push_bit s (mask k)) =
      (of_nat v :: 64 word)"
    using assms bit_nat_less_exp[OF assms(2)]
    by (intro bit_eqI) (fastforce simp: bit_simps)
  moreover have "v < 2 ^ 64"
    using assms power_increasing[of k 64 "2::nat"] by simp
  ultimately show ?thesis by (simp add: unat_of_nat)
qed

lemma field_write_other:
  fixes w :: "64 word"
  assumes "s + k \<le> s' \<or> s' + k' \<le> s" "v < 2 ^ k"
  shows "((w AND NOT (push_bit s (mask k))) OR push_bit s (of_nat v)) AND push_bit s' (mask k') =
    w AND push_bit s' (mask k')"
  using assms bit_nat_less_exp[OF assms(2)]
  by (intro bit_eqI) (fastforce simp: bit_simps)

definition vector_ok :: "CompressedIntegerVector \<Rightarrow> bool" where
  "vector_ok v \<longleftrightarrow> (\<exists>cb. civ_codeBook v = Some cb \<and> book_ok (map cbe_upperBound (cb_entries cb)) cb \<and>
     length (civ_words v) = cb_numWords cb)"

definition vector_bounds :: "CompressedIntegerVector \<Rightarrow> nat list" where
  "vector_bounds v = (case civ_codeBook v of None \<Rightarrow> [] | Some cb \<Rightarrow> map cbe_upperBound (cb_entries cb))"

lemma new_vector_ok:
  "book_ok ranges cb \<Longrightarrow> vector_ok (new_CompressedIntegerVector cb) \<and>
     vector_bounds (new_CompressedIntegerVector cb) = ranges"
  by (auto simp: vector_ok_def vector_bounds_def new_CompressedIntegerVector_def book_ok_def)

lemma disjoint_fields_sym: "disjoint_fields e e' = disjoint_fields e' e"
  by (auto simp: disjoint_fields_def)

lemma book_disjoint:
  assumes "book_ok ranges cb" "i < length (cb_entries cb)" "j < length (cb_entries cb)" "i \<noteq> j"
  shows "disjoint_fields (cb_entries cb ! i) (cb_entries cb ! j)"
  using assms disjoint_fields_sym[of "cb_entries cb ! i" "cb_entries cb ! j"]
  by (cases i j rule: linorder_cases) (auto simp: book_ok_def sorted_wrt_iff_nth_less)

lemma Get_Set_same:
  assumes "book_ok ranges cb" "civ_codeBook v = Some cb" "length (civ_words v) = cb_numWords cb"
    and "CompressedIntegerVector_Set v i x = Some v'"
  shows "CompressedIntegerVector_Get v' i = Some x"
proof -
  from assms(2,4) obtain e where i: "i < length (cb_entries cb)" and e: "e = cb_entries cb ! i"
    and x: "x < cbe_upperBound e"
    by (auto simp: CompressedIntegerVector_Set_def GetCodeBookEntry_def)
  have ok: "field_ok (cb_numWords cb) e" using assms(1) i e by (simp add: book_ok_def)
  show ?thesis
  proof (cases "cbe_isConstantZero e")
    case True
    then show ?thesis
      using assms(2,4) i x ok
      by (auto simp: CompressedIntegerVector_Set_def CompressedIntegerVector_Get_def GetCodeBookEntry_def
          field_ok_def simp flip: e)
  next
    case False
    then have f: "cbe_shift e + field_bits e \<le> 64" "x < 2 ^ field_bits e" "cbe_wordIndex e < cb_numWords cb"
      "cbe_mask e = push_bit (cbe_shift e) (mask (field_bits e))"
      using ok x by (auto simp: field_ok_def bitsPerWord_def)
    then show ?thesis
      using assms(2,3,4) i x False field_write_read[OF f(1,2)]
      by (auto simp: CompressedIntegerVector_Set_def CompressedIntegerVector_Get_def GetCodeBookEntry_def
          simp flip: e)
  qed
qed

lemma Get_Set_other:
  assumes "book_ok ranges cb" "civ_codeBook v = Some cb"
    and "CompressedIntegerVector_Set v i x = Some v'" "j \<noteq> i"
  shows "CompressedIntegerVector_Get v' j = CompressedIntegerVector_Get v j"
proof -
  from assms(2,3) obtain e where i: "i < length (cb_entries cb)" and e: "e = cb_entries cb ! i"
    and x: "x < cbe_upperBound e"
    and v': "v' = (if \<not> cbe_isConstantZero e then v\<lparr>civ_words := (civ_words v)[cbe_wordIndex e :=
        (civ_words v ! cbe_wordIndex e AND NOT (cbe_mask e)) OR push_bit (cbe_shift e) (of_nat x)]\<rparr> else v)"
    by (auto simp: CompressedIntegerVector_Set_def GetCodeBookEntry_def)
  show ?thesis
  proof (cases "j < length (cb_entries cb)")
    case True
    define e' where "e' = cb_entries cb ! j"
    have ok: "field_ok (cb_numWords cb) e" "field_ok (cb_numWords cb) e'"
      using assms(1) i True e by (simp_all add: book_ok_def e'_def)
    have disj: "disjoint_fields e e'"
      using book_disjoint[OF assms(1) i True] assms(4) e e'_def by simp
    show ?thesis
    proof (cases "cbe_isConstantZero e \<or> cbe_isConstantZero e' \<or> cbe_wordIndex e \<noteq> cbe_wordIndex e'")
      case True
      then show ?thesis
        using v' assms(2) by (auto simp: CompressedIntegerVector_Get_def GetCodeBookEntry_def bind_assert_if
            simp flip: e'_def)
    next
      case False
      then have "((w AND NOT (cbe_mask e)) OR push_bit (cbe_shift e) (of_nat x)) AND cbe_mask e' = w AND cbe_mask e'"
        for w
        using ok disj x field_write_other[of "cbe_shift e" "field_bits e" "cbe_shift e'" "field_bits e'" x w]
        by (auto simp: field_ok_def disjoint_fields_def)
      then show ?thesis
        using v' assms(2) False
        by (cases "cbe_wordIndex e < length (civ_words v)")
          (auto simp: list_update_beyond CompressedIntegerVector_Get_def GetCodeBookEntry_def bind_assert_if simp flip: e'_def)
    qed
  qed (use v' assms(2) in \<open>auto simp: CompressedIntegerVector_Get_def GetCodeBookEntry_def\<close>)
qed

interpretation packed: int_store CompressedIntegerVector_Get CompressedIntegerVector_Set vector_bounds vector_ok
proof
  fix s i
  assume "vector_ok s" "i < length (vector_bounds s)"
  then show "\<exists>v. CompressedIntegerVector_Get s i = Some v"
    by (auto simp: vector_ok_def vector_bounds_def CompressedIntegerVector_Get_def GetCodeBookEntry_def)
next
  fix s i v
  assume "vector_ok s" "i < length (vector_bounds s)" "v < vector_bounds s ! i"
  then show "\<exists>s'. CompressedIntegerVector_Set s i v = Some s'"
    by (auto simp: vector_ok_def vector_bounds_def CompressedIntegerVector_Set_def GetCodeBookEntry_def)
next
  fix s i v s'
  assume ok: "vector_ok s" and set: "CompressedIntegerVector_Set s i v = Some s'"
  then obtain cb where cb: "civ_codeBook s = Some cb" "book_ok (map cbe_upperBound (cb_entries cb)) cb"
      "length (civ_words s) = cb_numWords cb"
    by (auto simp: vector_ok_def)
  then show "i < length (vector_bounds s) \<and> v < vector_bounds s ! i \<and> vector_ok s' \<and>
      vector_bounds s' = vector_bounds s \<and> CompressedIntegerVector_Get s' i = Some v"
    using Get_Set_same[OF cb(2,1,3) set] set
    by (auto simp: vector_ok_def vector_bounds_def CompressedIntegerVector_Set_def GetCodeBookEntry_def)
next
  fix s i v s' j
  assume "vector_ok s" "CompressedIntegerVector_Set s i v = Some s'" "j \<noteq> i"
  then show "CompressedIntegerVector_Get s' j = CompressedIntegerVector_Get s j"
    using Get_Set_other by (auto simp: vector_ok_def)
qed

subsection \<open>Parameter vectors as lists of optional numbers\<close>

text \<open>What a reader of the vector sees: the abstract value of a parameter vector.\<close>

definition view :: "IntegerParameterVector \<Rightarrow> nat option list" where
  "view v =
     map (\<lambda>i. if ipv_valid v ! i then CompressedIntegerVector_Get (ipv_data v) i else None)
       [0..<length (ipv_valid v)]"

definition ipv_ok :: "nat list \<Rightarrow> IntegerParameterVector \<Rightarrow> bool" where
  "ipv_ok ranges v \<longleftrightarrow>
     vector_ok (ipv_data v) \<and> vector_bounds (ipv_data v) = ranges \<and> length (ipv_valid v) = length ranges"

lemma length_view [simp]: "length (view v) = length (ipv_valid v)"
  by (simp add: view_def)

lemma view_nth:
  "i < length (ipv_valid v) \<Longrightarrow>
     view v ! i = (if ipv_valid v ! i then CompressedIntegerVector_Get (ipv_data v) i else None)"
  by (simp add: view_def)

lemma new_IntegerParameterVector_ok:
  assumes "book_ok ranges cb"
  shows "ipv_ok ranges (new_IntegerParameterVector cb)"
    "view (new_IntegerParameterVector cb) = replicate (length ranges) None"
proof -
  have len: "length (cb_entries cb) = length ranges"
    using assms by (auto simp: book_ok_def)
  show "ipv_ok ranges (new_IntegerParameterVector cb)"
    using new_vector_ok[OF assms] by (simp add: ipv_ok_def new_IntegerParameterVector_def len)
  show "view (new_IntegerParameterVector cb) = replicate (length ranges) None"
    by (rule nth_equalityI) (simp_all add: view_nth new_IntegerParameterVector_def len)
qed

lemma IsParameterDefined_view:
  assumes "ipv_ok ranges v" "i < length ranges"
  shows "IsParameterDefined v i = Some (view v ! i \<noteq> None)"
proof -
  have "\<exists>x. CompressedIntegerVector_Get (ipv_data v) i = Some x"
    using assms packed.get_total by (simp add: ipv_ok_def)
  then show ?thesis
    using assms by (auto simp: IsParameterDefined_def ipv_ok_def view_nth)
qed

lemma GetParameter_view:
  assumes "ipv_ok ranges v" "i < length ranges"
  shows "GetParameter v i = view v ! i"
  using assms by (auto simp: GetParameter_def ipv_ok_def view_nth bind_assert_if)

text \<open>Defining a parameter writes the abstract list and nothing else.\<close>

lemma SetParameter_view:
  assumes "ipv_ok ranges v" "SetParameter v i x = Some v'"
  shows "view v' = (view v)[i := Some x]" "ipv_ok ranges v'" "x < ranges ! i" "i < length ranges"
proof -
  from assms(2) obtain d where i: "i < length (ipv_valid v)"
    and d: "CompressedIntegerVector_Set (ipv_data v) i x = Some d"
    and v': "v' = \<lparr>ipv_data = d, ipv_valid = (ipv_valid v)[i := True]\<rparr>"
    by (auto simp: SetParameter_def split: bind_splits)
  have ok: "vector_ok (ipv_data v)" using assms(1) by (simp add: ipv_ok_def)
  note set = packed.set_Some[OF ok d]
  show "view v' = (view v)[i := Some x]"
  proof (rule nth_equalityI)
    fix j assume "j < length (view v')"
    then have j: "j < length (ipv_valid v)" by (simp add: v')
    show "view v' ! j = (view v)[i := Some x] ! j"
      using j i set packed.get_set_other[OF ok d, of j]
      by (cases "j = i") (simp_all add: v' view_nth)
  qed (simp add: v')
  show "ipv_ok ranges v'" "x < ranges ! i" "i < length ranges"
    using assms(1) set i by (simp_all add: ipv_ok_def v')
qed

lemma SetParameter_total:
  assumes "ipv_ok ranges v" "i < length ranges" "x < ranges ! i"
  shows "\<exists>v'. SetParameter v i x = Some v'"
  using packed.set_total[of "ipv_data v" i x] assms
  by (auto simp: SetParameter_def ipv_ok_def)

subsection \<open>Properties\<close>

text \<open>C10: a packed vector is a faithful array: for any list of ranges the code book can be built,
  writing a value in range succeeds, reads back, and leaves every other element as it was; a value
  out of range is refused.\<close>

theorem CompressedIntegerVector_roundtrip:
  assumes "\<forall>r \<in> set ranges. 0 < r \<and> r \<le> 2 ^ 63"
  shows "\<exists>cb. CreateCodeBook ranges = Some cb \<and>
    vector_ok (new_CompressedIntegerVector cb) \<and>
    vector_bounds (new_CompressedIntegerVector cb) = ranges \<and>
    (\<forall>v i x. vector_ok v \<and> vector_bounds v = ranges \<and> i < length ranges \<longrightarrow>
      (if x < ranges ! i
       then \<exists>v'. CompressedIntegerVector_Set v i x = Some v' \<and> vector_ok v' \<and> vector_bounds v' = ranges \<and>
         CompressedIntegerVector_Get v' i = Some x \<and>
         (\<forall>j. j \<noteq> i \<longrightarrow> CompressedIntegerVector_Get v' j = CompressedIntegerVector_Get v j)
       else CompressedIntegerVector_Set v i x = None))"
proof -
  obtain cb where cb: "CreateCodeBook ranges = Some cb" "book_ok ranges cb"
    using CreateCodeBook_ok[OF assms] by blast
  have "if x < ranges ! i
       then \<exists>v'. CompressedIntegerVector_Set v i x = Some v' \<and> vector_ok v' \<and> vector_bounds v' = ranges \<and>
         CompressedIntegerVector_Get v' i = Some x \<and>
         (\<forall>j. j \<noteq> i \<longrightarrow> CompressedIntegerVector_Get v' j = CompressedIntegerVector_Get v j)
       else CompressedIntegerVector_Set v i x = None"
    if v: "vector_ok v" "vector_bounds v = ranges" "i < length ranges" for v i x
  proof (cases "x < ranges ! i")
    case True
    then obtain v' where "CompressedIntegerVector_Set v i x = Some v'"
      using packed.set_total[OF v(1)] v(2,3) by auto
    with packed.set_Some[OF v(1) this] packed.get_set_other[OF v(1) this] v(2) True show ?thesis by auto
  next
    case False
    then have "CompressedIntegerVector_Set v i x = None"
      using packed.set_Some[OF v(1), of i x] v(2) by (cases "CompressedIntegerVector_Set v i x") auto
    with False show ?thesis by simp
  qed
  with cb new_vector_ok[OF cb(2)] show ?thesis by blast
qed

theorem CompressedIntegerVector_roundtrip_witness:
  "\<exists>cb v. CreateCodeBook [3, 1, 2 ^ 63, 5] = Some cb \<and>
     CompressedIntegerVector_Set (new_CompressedIntegerVector cb) 3 4 = Some v \<and>
     CompressedIntegerVector_Get v 3 = Some 4"
proof -
  have pre: "\<forall>r \<in> set [3, 1, 2 ^ 63, 5::nat]. 0 < r \<and> r \<le> 2 ^ 63" by simp
  from CompressedIntegerVector_roundtrip[OF pre] obtain cb where
    cb: "CreateCodeBook [3, 1, 2 ^ 63, 5] = Some cb" "vector_ok (new_CompressedIntegerVector cb)"
      "vector_bounds (new_CompressedIntegerVector cb) = [3, 1, 2 ^ 63, 5]"
    and w: "\<And>v i x. vector_ok v \<Longrightarrow> vector_bounds v = [3, 1, 2 ^ 63, 5] \<Longrightarrow> i < length [3, 1, 2 ^ 63, 5::nat] \<Longrightarrow>
      (if x < [3, 1, 2 ^ 63, 5] ! i
       then \<exists>v'. CompressedIntegerVector_Set v i x = Some v' \<and> vector_ok v' \<and>
         vector_bounds v' = [3, 1, 2 ^ 63, 5] \<and> CompressedIntegerVector_Get v' i = Some x \<and>
         (\<forall>j. j \<noteq> i \<longrightarrow> CompressedIntegerVector_Get v' j = CompressedIntegerVector_Get v j)
       else CompressedIntegerVector_Set v i x = None)" by blast
  from w[OF cb(2,3), of 3 4] have "\<exists>v'. CompressedIntegerVector_Set (new_CompressedIntegerVector cb) 3 4 = Some v' \<and>
      CompressedIntegerVector_Get v' 3 = Some 4" by auto
  with cb(1) show ?thesis by blast
qed

text \<open>C11: a parameter vector refines a list of optional numbers: defining a parameter updates that
  list, reading a parameter and asking whether it is defined read it.\<close>

theorem IntegerParameterVector_refines:
  assumes "ipv_ok ranges v" "i < length ranges"
  shows "GetParameter v i = view v ! i \<and>
    IsParameterDefined v i = Some (view v ! i \<noteq> None) \<and>
    (\<forall>x < ranges ! i. \<exists>v'. SetParameter v i x = Some v' \<and> ipv_ok ranges v' \<and>
      view v' = (view v)[i := Some x])"
  using GetParameter_view[OF assms] IsParameterDefined_view[OF assms] SetParameter_total[OF assms]
    SetParameter_view[OF assms(1)] by blast

theorem IntegerParameterVector_refines_witness:
  "\<exists>v'. SetParameter (new_IntegerParameterVector (the (CreateCodeBook [3, 2]))) 0 2 = Some v' \<and>
     ipv_ok [3, 2] v' \<and> view v' = [Some 2, None]"
proof -
  obtain cb where cb: "CreateCodeBook [3, 2] = Some cb" "book_ok [3, 2] cb"
    using CreateCodeBook_ok[of "[3, 2]"] by auto
  note new = new_IntegerParameterVector_ok[OF cb(2)]
  from IntegerParameterVector_refines[OF new(1), of 0] have
    "\<forall>x < 3. \<exists>v'. SetParameter (new_IntegerParameterVector cb) 0 x = Some v' \<and> ipv_ok [3, 2] v' \<and>
      view v' = (view (new_IntegerParameterVector cb))[0 := Some x]" by simp
  from this[rule_format, of 2] show ?thesis
    unfolding cb(1) option.sel by (simp add: new(2) upt_rec[of 0 2] replicate_Suc numeral_eq_Suc del: One_nat_def)
qed

end
