(* ===== verification/Thread_Pool.thy ===== *)
theory Thread_Pool
  imports Kanagawa_Prelude "HOL-Library.Multiset"
begin

text \<open>
  The thread pool of \<^verbatim>\<open>compiler/cpp/thread_pool.{h,cpp}\<close>. Every region of the code between two
  acquisitions of \<^verbatim>\<open>_lock\<close> is one step of a transition relation in which the threads of the pool and
  the client that owns the pool interleave freely; condition variables are modelled with
  \<^verbatim>\<open>wait\<close>, \<^verbatim>\<open>notify_one\<close> (any sleeping thread may be the one that wakes) and spurious wake-ups.
  A task is a closure of type \<open>'t\<close> over a shared memory \<open>'m\<close> that runs in atomic pieces, so the bodies of
  tasks interleave too. The counters \<^verbatim>\<open>_tasksEnqueued\<close> and \<^verbatim>\<open>_tasksCompleted\<close> are natural numbers: they
  count the tasks one pool is given, which stays far below the \<open>2^64\<close> of \<^verbatim>\<open>size_t\<close>.
\<close>

named_theorems pool_defs \<open>the steps of the pool, unfolded by the proofs about single steps\<close>

subsection \<open>State\<close>

text \<open>
  Where a thread is in \<^verbatim>\<open>ThreadFunction\<close>: at the top of its loop, in \<^verbatim>\<open>_cvToThreads.wait\<close>, inside
  \<^verbatim>\<open>(*task)()\<close>, about to record the outcome, about to call \<^verbatim>\<open>_cvFromThreads.notify_one\<close>, or returned.
\<close>

datatype 't worker =
  Checking
| Waiting
| Running 't
| Completing "string option"
| Notifying
| Exited

text \<open>
  What the owner of the pool still has to do. \<^verbatim>\<open>Async\<close> is \<open>Push\<close> (under the lock) and \<open>NotifyOne\<close>;
  the destructor is \<open>WaitIdle True\<close>, \<open>SetExit\<close>, \<open>NotifyAll\<close> and \<open>Join\<close>.
\<close>

datatype 't instr =
  Push 't
| NotifyOne
| WaitIdle bool
| SetExit
| NotifyAll
| Join

text \<open>
  \<open>Unwinding e\<close>: \<^verbatim>\<open>WaitForIdle\<close> threw \<open>e\<close> and the pool, a local of its owner, is being destroyed.
  \<open>Terminated\<close>: \<^verbatim>\<open>WaitForIdle\<close> threw inside the destructor, which ends in \<^verbatim>\<open>std::terminate\<close>.
  \<open>AssertFailed\<close>: \<^verbatim>\<open>assert(_taskQueue.empty())\<close> did not hold.
\<close>

datatype client_status = Normal | Unwinding string | Terminated | AssertFailed

record ('t, 'm) ThreadPool =
  threads :: "'t worker list"
  shouldExit :: bool
  taskQueue :: "'t list"
  tasksEnqueued :: nat
  tasksCompleted :: nat
  errorString :: "string option"
  script :: "'t instr list"
  asleep :: bool
  status :: client_status
  memory :: 'm

text \<open>One piece of a task: it continues as another closure, or ends, with or without an exception.\<close>

type_synonym ('t, 'm) task_semantics = "'t \<Rightarrow> 'm \<Rightarrow> ('t + string option) \<times> 'm"

subsection \<open>Steps\<close>

definition ThreadFunction :: "('t, 'm) task_semantics \<Rightarrow> nat \<Rightarrow> ('t, 'm) ThreadPool \<Rightarrow> ('t, 'm) ThreadPool option" where
  [pool_defs]: "ThreadFunction run i s = (case threads s ! i of
     Checking \<Rightarrow>
       (case taskQueue s of
          [] \<Rightarrow> Some (s\<lparr>threads := (threads s)[i := if shouldExit s then Exited else Waiting]\<rparr>)
        | t # q \<Rightarrow> Some (s\<lparr>taskQueue := q, threads := (threads s)[i := Running t]\<rparr>))
   | Waiting \<Rightarrow> None
   | Running t \<Rightarrow>
       (case run t (memory s) of
          (Inl t', m) \<Rightarrow> Some (s\<lparr>threads := (threads s)[i := Running t'], memory := m\<rparr>)
        | (Inr e, m) \<Rightarrow> Some (s\<lparr>threads := (threads s)[i := Completing e], memory := m\<rparr>))
   | Completing e \<Rightarrow>
       Some (s\<lparr>errorString := if e \<noteq> None \<and> errorString s = None then e else errorString s,
               tasksCompleted := tasksCompleted s + 1, threads := (threads s)[i := Notifying]\<rparr>)
   | Notifying \<Rightarrow> Some (s\<lparr>asleep := False, threads := (threads s)[i := Checking]\<rparr>)
   | Exited \<Rightarrow> None)"

text \<open>The code of the two operations of the interface, and of the destructor.\<close>

definition Async :: "'t \<Rightarrow> 't instr list" where
  "Async t = [Push t, NotifyOne]"

definition destructor :: "'t instr list" where
  "destructor = [WaitIdle True, SetExit, NotifyAll, Join]"

definition WaitForIdle :: "bool \<Rightarrow> ('t, 'm) ThreadPool \<Rightarrow> ('t, 'm) ThreadPool option" where
  [pool_defs]: "WaitForIdle inDestructor s =
     (if asleep s then None
      else if tasksEnqueued s \<noteq> tasksCompleted s then Some (s\<lparr>asleep := True\<rparr>)
      else if taskQueue s \<noteq> [] then Some (s\<lparr>status := AssertFailed, script := []\<rparr>)
      else case errorString s of
          None \<Rightarrow> Some (s\<lparr>script := tl (script s)\<rparr>)
        | Some e \<Rightarrow>
            if inDestructor then Some (s\<lparr>errorString := None, status := Terminated, script := []\<rparr>)
            else Some (s\<lparr>errorString := None, status := Unwinding e, script := destructor\<rparr>))"

definition wake :: "'t worker \<Rightarrow> 't worker" where
  "wake w = (case w of Waiting \<Rightarrow> Checking | _ \<Rightarrow> w)"

definition all_exited :: "'t worker list \<Rightarrow> bool" where
  "all_exited ws = list_all (\<lambda>w. w = Exited) ws"

definition client_step :: "('t, 'm) ThreadPool \<Rightarrow> ('t, 'm) ThreadPool option" where
  [pool_defs]: "client_step s = (case script s of
     Push t # r \<Rightarrow> Some (s\<lparr>taskQueue := taskQueue s @ [t], tasksEnqueued := tasksEnqueued s + 1, script := r\<rparr>)
   | WaitIdle inDestructor # r \<Rightarrow> WaitForIdle inDestructor s
   | SetExit # r \<Rightarrow> Some (s\<lparr>shouldExit := True, script := r\<rparr>)
   | NotifyAll # r \<Rightarrow> Some (s\<lparr>threads := map wake (threads s), script := r\<rparr>)
   | Join # r \<Rightarrow> if all_exited (threads s) then Some (s\<lparr>script := r\<rparr>) else None
   | _ \<Rightarrow> None)"

text \<open>The states \<^verbatim>\<open>_cvToThreads.notify_one()\<close> may lead to.\<close>

definition notify_one :: "('t, 'm) ThreadPool \<Rightarrow> ('t, 'm) ThreadPool list" where
  "notify_one s = (let sleeping = filter (\<lambda>i. threads s ! i = Waiting) [0..<length (threads s)] in
     if sleeping = [] then [s] else map (\<lambda>i. s\<lparr>threads := (threads s)[i := Checking]\<rparr>) sleeping)"

inductive pool_step :: "('t, 'm) task_semantics \<Rightarrow> ('t, 'm) ThreadPool \<Rightarrow> ('t, 'm) ThreadPool \<Rightarrow> bool" for run where
  worker: "i < length (threads s) \<Longrightarrow> ThreadFunction run i s = Some s' \<Longrightarrow> pool_step run s s'"
| client: "client_step s = Some s' \<Longrightarrow> pool_step run s s'"
| notify: "script s = NotifyOne # r \<Longrightarrow> s' \<in> set (notify_one (s\<lparr>script := r\<rparr>)) \<Longrightarrow> pool_step run s s'"

text \<open>The C++ standard lets a wait on a condition variable end without a notification.\<close>

inductive spurious_wakeup :: "('t, 'm) ThreadPool \<Rightarrow> ('t, 'm) ThreadPool \<Rightarrow> bool" where
  worker: "i < length (threads s) \<Longrightarrow> threads s ! i = Waiting \<Longrightarrow>
     spurious_wakeup s (s\<lparr>threads := (threads s)[i := Checking]\<rparr>)"
| client: "asleep s \<Longrightarrow> spurious_wakeup s (s\<lparr>asleep := False\<rparr>)"

text \<open>A use of the pool: calls of \<^verbatim>\<open>Async\<close> and \<^verbatim>\<open>WaitForIdle\<close>, then the destructor.\<close>

datatype 't pool_call = CallAsync 't | CallWaitForIdle

fun call_code :: "'t pool_call \<Rightarrow> 't instr list" where
  "call_code (CallAsync t) = Async t"
| "call_code CallWaitForIdle = [WaitIdle False]"

definition client_code :: "'t pool_call list \<Rightarrow> 't instr list" where
  "client_code calls = concat (map call_code calls) @ destructor"

definition new_ThreadPool :: "nat \<Rightarrow> 't pool_call list \<Rightarrow> 'm \<Rightarrow> ('t, 'm) ThreadPool" where
  "new_ThreadPool threadCount calls m =
     \<lparr>threads = replicate threadCount Checking, shouldExit = False, taskQueue = [], tasksEnqueued = 0,
      tasksCompleted = 0, errorString = None, script = client_code calls, asleep = False,
      status = Normal, memory = m\<rparr>"

inductive pool_reachable :: "('t, 'm) task_semantics \<Rightarrow> ('t, 'm) ThreadPool \<Rightarrow> ('t, 'm) ThreadPool \<Rightarrow> bool"
  for run s0 where
  start: "pool_reachable run s0 s0"
| step: "pool_reachable run s0 s \<Longrightarrow> pool_step run s s' \<Longrightarrow> pool_reachable run s0 s'"
| spurious: "pool_reachable run s0 s \<Longrightarrow> spurious_wakeup s s' \<Longrightarrow> pool_reachable run s0 s'"

subsection \<open>The invariant\<close>

definition busy :: "'t worker \<Rightarrow> bool" where
  "busy w = (case w of Running _ \<Rightarrow> True | Completing _ \<Rightarrow> True | _ \<Rightarrow> False)"

definition active :: "'t worker \<Rightarrow> bool" where
  "active w \<longleftrightarrow> w \<noteq> Waiting \<and> w \<noteq> Exited"

definition running :: "('t, 'm) ThreadPool \<Rightarrow> nat" where
  "running s = length (filter busy (threads s))"

text \<open>
  The code that is left to the client: calls and the destructor, perhaps the end of \<^verbatim>\<open>Async\<close> first, or
  what is left of the destructor.
\<close>

definition exiting :: "'t instr list list" where
  "exiting = [[NotifyAll, Join], [Join], []]"

definition script_ok :: "'t instr list \<Rightarrow> bool" where
  "script_ok r \<longleftrightarrow> (\<exists>calls. r = client_code calls \<or> r = NotifyOne # client_code calls) \<or>
     r = [SetExit, NotifyAll, Join] \<or> r \<in> set exiting"

definition counters_ok :: "('t, 'm) ThreadPool \<Rightarrow> bool" where
  "counters_ok s \<longleftrightarrow> tasksEnqueued s = tasksCompleted s + length (taskQueue s) + running s"

text \<open>No wake-up is lost: a task in the queue has a thread that will look for it, a client that can go on
  has a thread that will notify it.\<close>

definition wakeups_ok :: "('t, 'm) ThreadPool \<Rightarrow> bool" where
  "wakeups_ok s \<longleftrightarrow>
     (taskQueue s \<noteq> [] \<longrightarrow> (\<exists>w \<in> set (threads s). active w) \<or> (\<exists>r. script s = NotifyOne # r)) \<and>
     (asleep s \<longrightarrow> (\<exists>d r. script s = WaitIdle d # r)) \<and>
     (asleep s \<and> tasksEnqueued s = tasksCompleted s \<longrightarrow> Notifying \<in> set (threads s))"

definition exit_ok :: "('t, 'm) ThreadPool \<Rightarrow> bool" where
  "exit_ok s \<longleftrightarrow> threads s \<noteq> [] \<and> status s \<noteq> AssertFailed \<and>
     (status s \<noteq> Terminated \<longrightarrow> (shouldExit s \<longleftrightarrow> script s \<in> set exiting)) \<and>
     (status s = Terminated \<longrightarrow> script s = [] \<and> \<not> shouldExit s) \<and>
     (shouldExit s \<or> script s = [SetExit, NotifyAll, Join] \<longrightarrow> tasksEnqueued s = tasksCompleted s) \<and>
     (shouldExit s \<and> script s \<noteq> [NotifyAll, Join] \<longrightarrow> Waiting \<notin> set (threads s)) \<and>
     (Exited \<in> set (threads s) \<longrightarrow> shouldExit s) \<and>
     (shouldExit s \<and> script s = [] \<longrightarrow> all_exited (threads s))"

definition pool_inv :: "('t, 'm) ThreadPool \<Rightarrow> bool" where
  "pool_inv s \<longleftrightarrow> script_ok (script s) \<and> counters_ok s \<and> wakeups_ok s \<and> exit_ok s"

lemmas inv_defs = pool_inv_def counters_ok_def wakeups_ok_def exit_ok_def

lemma exiting_simps [simp]:
  "[] \<in> set exiting" "[Join] \<in> set exiting" "[NotifyAll, Join] \<in> set exiting"
  "Push t # r \<notin> set exiting" "NotifyOne # r \<notin> set exiting" "WaitIdle d # r \<notin> set exiting"
  "SetExit # r \<notin> set exiting"
  by (auto simp: exiting_def)

lemma client_code_simps [simp]:
  "client_code [] = destructor" "client_code (CallAsync t # c) = Push t # NotifyOne # client_code c"
  "client_code (CallWaitForIdle # c) = WaitIdle False # client_code c"
  by (simp_all add: client_code_def Async_def)

lemma client_code_cases:
  obtains "client_code c = destructor" | t c' where "client_code c = Push t # NotifyOne # client_code c'"
  | c' where "client_code c = WaitIdle False # client_code c'"
proof (cases c)
  case (Cons a c')
  with that show thesis by (cases a) auto
qed (use that in auto)

lemma client_code_not_exiting [simp]: "client_code c \<notin> set exiting" "client_code c \<noteq> [SetExit, NotifyAll, Join]"
    "client_code c \<noteq> []" "client_code c \<noteq> NotifyOne # r"
  by (rule client_code_cases[of c]; simp add: destructor_def)+

text \<open>What the next instruction says about the rest.\<close>

lemma script_okE:
  "script_ok (Push t # r) \<Longrightarrow> \<exists>c. r = NotifyOne # client_code c"
  "script_ok (NotifyOne # r) \<Longrightarrow> \<exists>c. r = client_code c"
  "script_ok (WaitIdle False # r) \<Longrightarrow> \<exists>c. r = client_code c"
  "script_ok (WaitIdle True # r) \<Longrightarrow> r = [SetExit, NotifyAll, Join]"
  "script_ok (SetExit # r) \<Longrightarrow> r = [NotifyAll, Join]"
  "script_ok (NotifyAll # r) \<Longrightarrow> r = [Join]"
  "script_ok (Join # r) \<Longrightarrow> r = []"
proof -
  have code: "\<exists>c'. i # r = client_code c \<longrightarrow> (case i of Push t \<Rightarrow> r = NotifyOne # client_code c'
      | WaitIdle d \<Rightarrow> (if d then r = [SetExit, NotifyAll, Join] else r = client_code c') | _ \<Rightarrow> False)"
    for i :: "'t instr" and r c
  proof (cases c)
    case (Cons a c')
    then show ?thesis by (cases a) (auto split: instr.splits)
  qed (auto simp: destructor_def split: instr.splits)
  show
    "script_ok (Push t # r) \<Longrightarrow> \<exists>c. r = NotifyOne # client_code c"
    "script_ok (NotifyOne # r) \<Longrightarrow> \<exists>c. r = client_code c"
    "script_ok (WaitIdle False # r) \<Longrightarrow> \<exists>c. r = client_code c"
    "script_ok (WaitIdle True # r) \<Longrightarrow> r = [SetExit, NotifyAll, Join]"
    "script_ok (SetExit # r) \<Longrightarrow> r = [NotifyAll, Join]"
    "script_ok (NotifyAll # r) \<Longrightarrow> r = [Join]"
    "script_ok (Join # r) \<Longrightarrow> r = []" for t :: 't and r
    using code by (fastforce simp: script_ok_def exiting_def)+
qed

lemma script_okI [simp]:
  "script_ok (client_code c)" "script_ok (NotifyOne # client_code c)" "script_ok destructor"
  "script_ok [SetExit, NotifyAll, Join]" "script_ok [NotifyAll, Join]" "script_ok [Join]" "script_ok []"
  using client_code_simps(1)[symmetric] by (auto simp: script_ok_def simp del: client_code_simps(1))

subsubsection \<open>Updates of one thread\<close>

lemma mem_update_other: "v \<in> set xs \<Longrightarrow> xs ! i \<noteq> v \<Longrightarrow> v \<in> set (xs[i := w])"
  by (metis in_set_conv_nth length_list_update nth_list_update_neq)

lemma mem_update_new: "i < length xs \<Longrightarrow> w \<in> set (xs[i := w])"
  by (rule set_update_memI)

lemma mem_updateD: "v \<in> set (xs[i := w]) \<Longrightarrow> v = w \<or> v \<in> set xs"
  using set_update_subset_insert by fastforce

lemma busy_simps [simp]:
  "\<not> busy Checking" "\<not> busy Waiting" "busy (Running t)" "busy (Completing e)" "\<not> busy Notifying" "\<not> busy Exited"
  by (simp_all add: busy_def)

lemma active_simps [simp]:
  "active Checking" "\<not> active Waiting" "active (Running t)" "active (Completing e)" "active Notifying" "\<not> active Exited"
  by (simp_all add: active_def)

subsubsection \<open>Every step keeps the invariant\<close>

lemma ThreadFunction_script:
  "ThreadFunction run i s = Some s' \<Longrightarrow> script s' = script s \<and> status s' = status s \<and>
     shouldExit s' = shouldExit s \<and> tasksEnqueued s' = tasksEnqueued s \<and> length (threads s') = length (threads s)"
  by (auto simp: pool_defs split: worker.splits list.splits prod.splits sum.splits)

lemma ThreadFunction_counters:
  assumes "i < length (threads s)" "ThreadFunction run i s = Some s'" "counters_ok s"
  shows "counters_ok s'"
proof -
  note len = length_filter_update[OF assms(1), of busy]
  show ?thesis
    using assms(2,3) len[of Exited] len[of Waiting] len[of Checking] len[of Notifying]
      len[of "Running _"] len[of "Completing _"]
    by (fastforce simp: pool_defs counters_ok_def running_def split: worker.splits list.splits prod.splits sum.splits)
qed

lemma ThreadFunction_wakeups:
  assumes "i < length (threads s)" "ThreadFunction run i s = Some s'" "wakeups_ok s"
  shows "wakeups_ok s'"
proof -
  have act: "\<exists>w \<in> set ((threads s)[i := w']). active w" if "active w'" for w'
    using that mem_update_new[OF assms(1)] by blast
  have other: "Notifying \<in> set ((threads s)[i := w'])" if "Notifying \<in> set (threads s)" "threads s ! i \<noteq> Notifying" for w'
    using that by (rule mem_update_other)
  show ?thesis
    using assms(2,3) act other mem_update_new[OF assms(1)]
    by (cases "threads s ! i")
      (auto simp: pool_defs wakeups_ok_def split: list.splits prod.splits sum.splits)
qed

lemma busy_running: "i < length (threads s) \<Longrightarrow> busy (threads s ! i) \<Longrightarrow> 0 < running s"
  by (auto simp: running_def filter_empty_conv)

lemma all_exitedD: "all_exited ws \<Longrightarrow> w \<in> set ws \<Longrightarrow> w = Exited"
  by (auto simp: all_exited_def list_all_iff)

lemma exit_ok_update:
  assumes "exit_ok s" "i < length (threads s)" "threads s ! i \<noteq> Exited"
    and "w = Exited \<Longrightarrow> shouldExit s" "w = Waiting \<Longrightarrow> \<not> shouldExit s"
    and same: "script s' = script s" "status s' = status s" "shouldExit s' = shouldExit s"
    and "threads s' = (threads s)[i := w]"
    and "shouldExit s \<or> script s = [SetExit, NotifyAll, Join] \<Longrightarrow> tasksEnqueued s' = tasksCompleted s'"
  shows "exit_ok s'"
proof -
  have i: "threads s ! i \<in> set (threads s)" using assms(2) by simp
  have "\<not> (shouldExit s \<and> script s = [])" using assms(1,3) i by (auto simp: exit_ok_def dest: all_exitedD)
  moreover have "Waiting \<in> set (threads s') \<Longrightarrow> w = Waiting \<or> Waiting \<in> set (threads s)"
    "Exited \<in> set (threads s') \<Longrightarrow> w = Exited \<or> Exited \<in> set (threads s)"
    by (auto simp: assms(9) dest: mem_updateD)
  ultimately show ?thesis
    using assms(1,4,5,9,10) i unfolding exit_ok_def same by auto
qed

lemma ThreadFunction_exit:
  assumes "i < length (threads s)" "ThreadFunction run i s = Some s'" "exit_ok s" "counters_ok s"
  shows "exit_ok s'"
proof -
  note same = ThreadFunction_script[OF assms(2)]
  obtain w where w: "threads s' = (threads s)[i := w]" "threads s ! i \<noteq> Exited"
      "w = Exited \<longrightarrow> shouldExit s" "w = Waiting \<longrightarrow> \<not> shouldExit s"
      "\<not> busy (threads s ! i) \<longrightarrow> tasksCompleted s' = tasksCompleted s"
    using assms(2) by (auto simp: pool_defs split: worker.splits list.splits prod.splits sum.splits if_splits)
  have "tasksEnqueued s' = tasksCompleted s'" if "shouldExit s \<or> script s = [SetExit, NotifyAll, Join]"
  proof -
    from that assms(3) have eq: "tasksEnqueued s = tasksCompleted s" by (auto simp: exit_ok_def)
    then have "\<not> busy (threads s ! i)"
      using assms(1,4) busy_running[of i s] by (auto simp: counters_ok_def)
    with w eq same show ?thesis by simp
  qed
  with w same show ?thesis by (intro exit_ok_update[OF assms(3,1)]) auto
qed

lemma ThreadFunction_inv:
  "i < length (threads s) \<Longrightarrow> ThreadFunction run i s = Some s' \<Longrightarrow> pool_inv s \<Longrightarrow> pool_inv s'"
  using ThreadFunction_script[of run i s s'] ThreadFunction_counters ThreadFunction_wakeups ThreadFunction_exit
  by (auto simp: pool_inv_def)

lemma frame_simps [simp]:
  "counters_ok (s\<lparr>script := r\<rparr>) = counters_ok s" "counters_ok (s\<lparr>asleep := b\<rparr>) = counters_ok s"
  "exit_ok (s\<lparr>asleep := b\<rparr>) = exit_ok s"
  by (simp_all add: counters_ok_def exit_ok_def running_def)

lemma busy_wake [simp]: "busy (wake w) = busy w" "wake w \<noteq> Waiting" "wake w = Exited \<longleftrightarrow> w = Exited"
    "wake w = Notifying \<longleftrightarrow> w = Notifying" "active w \<Longrightarrow> wake w = w"
  by (cases w; simp add: wake_def)+

lemma running_wake [simp]: "filter (busy \<circ> wake) ws = filter busy ws" "Waiting \<noteq> wake w"
  by (induction ws) (auto dest: sym)

lemma client_step_inv_push:
  assumes "script s = Push t # r" "client_step s = Some s'" "pool_inv s"
  shows "pool_inv s'"
proof -
  obtain c where "r = NotifyOne # client_code c" using assms(1,3) script_okE(1)[of t r] by (auto simp: pool_inv_def)
  with assms(1,2) have s': "s' = s\<lparr>taskQueue := taskQueue s @ [t], tasksEnqueued := tasksEnqueued s + 1,
      script := NotifyOne # client_code c\<rparr>" by (simp add: client_step_def)
  have awake: "\<not> asleep s" using assms(1,3) by (auto simp: pool_inv_def wakeups_ok_def)
  have "counters_ok s'" using assms(3) by (simp add: s' counters_ok_def running_def pool_inv_def)
  moreover have "wakeups_ok s'" using awake by (simp add: s' wakeups_ok_def)
  moreover have "exit_ok s'" using assms(1,3) by (simp add: s' exit_ok_def pool_inv_def) blast
  ultimately show ?thesis by (simp add: pool_inv_def s')
qed

lemma no_outstanding:
  "pool_inv s \<Longrightarrow> tasksEnqueued s = tasksCompleted s \<Longrightarrow> taskQueue s = [] \<and> running s = 0"
  by (auto simp: inv_defs)

lemma client_step_inv_wait:
  assumes "script s = WaitIdle d # r" "client_step s = Some s'" "pool_inv s"
  shows "pool_inv s'"
proof (cases "tasksEnqueued s = tasksCompleted s")
  case True
  note empty = no_outstanding[OF assms(3) True]
  have awake: "\<not> asleep s" using assms(1,2) by (auto simp: pool_defs split: if_splits)
  have code: "\<not> d \<Longrightarrow> \<exists>c. r = client_code c" "d \<Longrightarrow> r = [SetExit, NotifyAll, Join]"
    using assms(1,3) script_okE(3,4)[of r] by (auto simp: pool_inv_def)
  show ?thesis
  proof (cases d)
    case d: True
    with assms empty awake True code(2) show ?thesis
      by (auto simp: pool_defs inv_defs running_def split: option.splits if_splits)
  next
    case d: False
    with code(1) obtain c where "r = client_code c" by auto
    moreover have "destructor \<notin> set exiting" "script_ok destructor" "destructor \<noteq> [SetExit, NotifyAll, Join]"
      by (simp_all add: destructor_def exiting_def) (simp flip: destructor_def)
    ultimately show ?thesis using d assms empty awake True
      by (auto simp: pool_defs inv_defs running_def split: option.splits if_splits)
  qed
next
  case False
  with assms show ?thesis by (auto simp: pool_defs inv_defs running_def split: if_splits)
qed

lemma client_step_inv_exit:
  assumes "hd (script s) \<in> {SetExit, NotifyAll, Join}" "client_step s = Some s'" "pool_inv s"
  shows "pool_inv s'"
proof -
  obtain i r where ir: "script s = i # r" "i \<in> {SetExit, NotifyAll, Join}"
    using assms(1,2) by (cases "script s") (auto simp: pool_defs)
  have Q: "taskQueue s = []" using no_outstanding[OF assms(3)] assms(3) ir script_okE(5,6,7)[of r]
    by (auto simp: inv_defs)
  from ir(2) consider "i = SetExit" "r = [NotifyAll, Join]" | "i = NotifyAll" "r = [Join]" | "i = Join" "r = []"
    using assms(3) ir(1) script_okE(5,6,7)[of r] by (auto simp: pool_inv_def)
  then show ?thesis
  proof cases
    case 1
    with assms(2,3) ir(1) Q show ?thesis by (auto simp: pool_defs inv_defs running_def)
  next
    case 2
    with assms(2,3) ir(1) Q show ?thesis by (auto simp: pool_defs inv_defs running_def image_iff)
  next
    case 3
    with assms(2,3) ir(1) Q show ?thesis by (auto simp: pool_defs inv_defs running_def split: if_splits)
  qed
qed

lemma client_step_inv: "client_step s = Some s' \<Longrightarrow> pool_inv s \<Longrightarrow> pool_inv s'"
proof (cases "script s")
  case (Cons i r)
  assume "client_step s = Some s'" "pool_inv s"
  with Cons show ?thesis
    using client_step_inv_push[of s _ r s'] client_step_inv_wait[of s _ r s'] client_step_inv_exit[of s s']
    by (cases i) (simp_all, simp add: client_step_def)
qed (simp add: client_step_def)

lemma notify_one_cases:
  assumes "s' \<in> set (notify_one s)"
  obtains "s' = s" "Waiting \<notin> set (threads s)"
  | i where "i < length (threads s)" "threads s ! i = Waiting" "s' = s\<lparr>threads := (threads s)[i := Checking]\<rparr>"
proof (cases "filter (\<lambda>i. threads s ! i = Waiting) [0..<length (threads s)] = []")
  case True
  then have "Waiting \<notin> set (threads s)" by (auto simp: filter_empty_conv in_set_conv_nth)
  with True assms show thesis by (intro that(1)) (auto simp: notify_one_def)
next
  case False
  with assms show thesis by (auto simp: notify_one_def intro: that(2))
qed

text \<open>Waking a thread keeps the invariant, whoever does it.\<close>

lemma wake_thread_inv:
  assumes "i < length (threads s)" "threads s ! i = Waiting" "pool_inv s"
  shows "pool_inv (s\<lparr>threads := (threads s)[i := Checking]\<rparr>)"
proof -
  have "running (s\<lparr>threads := (threads s)[i := Checking]\<rparr>) = running s"
    using length_filter_update[OF assms(1), of busy Checking] assms(2) by (simp add: running_def)
  moreover have "exit_ok (s\<lparr>threads := (threads s)[i := Checking]\<rparr>)"
    by (rule exit_ok_update[of s i Checking]) (use assms in \<open>auto simp: pool_inv_def exit_ok_def[of s]\<close>)
  moreover have "\<exists>w \<in> set ((threads s)[i := Checking]). active w"
    using mem_update_new[OF assms(1), of Checking] by force
  moreover have "Notifying \<in> set (threads s) \<Longrightarrow> Notifying \<in> set ((threads s)[i := Checking])"
    using assms(2) by (auto intro: mem_update_other)
  ultimately show ?thesis using assms(3) unfolding pool_inv_def counters_ok_def wakeups_ok_def by simp
qed

lemma drop_notify_inv:
  assumes "script s = NotifyOne # r" "pool_inv s" "\<exists>w \<in> set (threads s). active w"
  shows "pool_inv (s\<lparr>script := r\<rparr>)"
proof -
  obtain c where "r = client_code c" using assms(1,2) script_okE(2)[of r] by (auto simp: pool_inv_def)
  moreover have "\<not> asleep s" using assms(1,2) by (auto simp: pool_inv_def wakeups_ok_def)
  moreover have "exit_ok s" "counters_ok s" using assms(2) by (simp_all add: pool_inv_def)
  moreover from calculation assms(1) have "exit_ok (s\<lparr>script := r\<rparr>)" by (simp add: exit_ok_def) blast
  ultimately show ?thesis using assms(3) by (simp add: pool_inv_def wakeups_ok_def)
qed

lemma notify_one_inv:
  assumes "script s = NotifyOne # r" "s' \<in> set (notify_one (s\<lparr>script := r\<rparr>))" "pool_inv s"
  shows "pool_inv s'"
  using assms(2)
proof (rule notify_one_cases)
  assume none: "s' = s\<lparr>script := r\<rparr>" "Waiting \<notin> set (threads (s\<lparr>script := r\<rparr>))"
  have "Exited \<notin> set (threads s)" "threads s \<noteq> []" using assms(1,3) by (auto simp: inv_defs)
  then have "\<exists>w \<in> set (threads s). active w" using none(2) by (cases "threads s") (auto simp: active_def)
  with assms(1,3) none(1) show ?thesis by (simp add: drop_notify_inv)
next
  fix i assume i: "i < length (threads (s\<lparr>script := r\<rparr>))" "threads (s\<lparr>script := r\<rparr>) ! i = Waiting"
    "s' = s\<lparr>script := r, threads := (threads (s\<lparr>script := r\<rparr>))[i := Checking]\<rparr>"
  let ?s = "s\<lparr>threads := (threads s)[i := Checking]\<rparr>"
  have "pool_inv ?s" using i(1,2) assms(3) by (intro wake_thread_inv) auto
  moreover have "\<exists>w \<in> set (threads ?s). active w" using mem_update_new[of i "threads s" Checking] i(1) by force
  ultimately have "pool_inv (?s\<lparr>script := r\<rparr>)" using assms(1) by (intro drop_notify_inv) auto
  then have "pool_inv (s\<lparr>script := r, threads := (threads s)[i := Checking]\<rparr>)" by (cases s) simp
  with i(3) show ?thesis by simp
qed

lemma pool_step_inv: "pool_step run s s' \<Longrightarrow> pool_inv s \<Longrightarrow> pool_inv s'"
  by (cases rule: pool_step.cases) (auto intro: ThreadFunction_inv client_step_inv notify_one_inv)

lemma spurious_inv: "spurious_wakeup s s' \<Longrightarrow> pool_inv s \<Longrightarrow> pool_inv s'"
proof (induction rule: spurious_wakeup.induct)
  case (client s)
  then show ?case by (simp add: pool_inv_def wakeups_ok_def)
qed (rule wake_thread_inv)

lemma new_ThreadPool_inv: "0 < n \<Longrightarrow> pool_inv (new_ThreadPool n calls m)"
  by (auto simp: inv_defs new_ThreadPool_def running_def filter_replicate)

lemma pool_reachable_inv: "pool_reachable run s0 s \<Longrightarrow> pool_inv s0 \<Longrightarrow> pool_inv s"
  by (induction rule: pool_reachable.induct) (auto intro: pool_step_inv spurious_inv)

subsection \<open>Errors reach the client\<close>

text \<open>
  When the last call before the destructor is \<^verbatim>\<open>WaitForIdle\<close>, nothing is outstanding in the destructor and
  no error is left for it to throw.
\<close>

definition waited :: "('t, 'm) ThreadPool \<Rightarrow> bool" where
  "waited s \<longleftrightarrow> status s \<noteq> Terminated \<and>
     (script s \<in> insert destructor (insert [SetExit, NotifyAll, Join] (set exiting)) \<longrightarrow>
        errorString s = None \<and> tasksEnqueued s = tasksCompleted s) \<and>
     (\<forall>c. script s = client_code c \<or> script s = NotifyOne # client_code c \<longrightarrow> c \<noteq> [] \<longrightarrow> last c = CallWaitForIdle) \<and>
     script s \<noteq> NotifyOne # destructor"

lemma destructor_simps [simp]:
  "destructor \<noteq> []" "Push t # r \<noteq> destructor" "NotifyOne # r \<noteq> destructor" "SetExit # r \<noteq> destructor"
  "NotifyAll # r \<noteq> destructor" "Join # r \<noteq> destructor" "WaitIdle False # r \<noteq> destructor"
  "destructor \<noteq> client_code (CallAsync t # c)" "destructor \<noteq> client_code (CallWaitForIdle # c)"
  by (simp_all add: destructor_def)

lemma client_code_inject: "client_code c = client_code c' \<Longrightarrow> c = c'"
proof (induction c arbitrary: c')
  case Nil
  then show ?case by (cases c' rule: list.exhaust) (auto, metis client_code_simps destructor_simps(8,9) pool_call.exhaust)
next
  case (Cons a c)
  then show ?case
    by (cases a; cases c'; simp; case_tac aa; simp add: destructor_def)
qed

lemma client_code_eq_destructor [simp]: "client_code c = destructor \<longleftrightarrow> c = []" "destructor = client_code c \<longleftrightarrow> c = []"
  using client_code_inject[of c "[]"] by auto

lemma waited_code:
  "script s = client_code c \<Longrightarrow> waited s \<longleftrightarrow> status s \<noteq> Terminated \<and>
     (if c = [] then errorString s = None \<and> tasksEnqueued s = tasksCompleted s else last c = CallWaitForIdle)"
  by (auto simp: waited_def dest: client_code_inject)

lemma waited_notify:
  "script s = NotifyOne # client_code c \<Longrightarrow> waited s \<longleftrightarrow>
     status s \<noteq> Terminated \<and> c \<noteq> [] \<and> last c = CallWaitForIdle"
  using client_code_not_exiting(4) by (auto simp: waited_def dest: client_code_inject)
    (metis client_code_not_exiting(4))

lemma waited_ending:
  "script s = [SetExit, NotifyAll, Join] \<or> script s \<in> set exiting \<Longrightarrow>
     waited s \<longleftrightarrow> status s \<noteq> Terminated \<and> errorString s = None \<and> tasksEnqueued s = tasksCompleted s"
  using client_code_not_exiting by (auto simp: waited_def)

lemma ThreadFunction_waited:
  assumes "i < length (threads s)" "ThreadFunction run i s = Some s'" "pool_inv s" "waited s"
  shows "waited s'"
proof -
  note same = ThreadFunction_script[OF assms(2)]
  have "errorString s' = errorString s \<and> tasksCompleted s' = tasksCompleted s" if "tasksEnqueued s = tasksCompleted s"
  proof -
    have "\<not> busy (threads s ! i)" using no_outstanding[OF assms(3) that] busy_running[OF assms(1)] by auto
    with assms(2) show ?thesis by (auto simp: pool_defs split: worker.splits list.splits)
  qed
  with assms(4) same show ?thesis by (auto simp: waited_def)
qed

lemma WaitForIdle_waited:
  assumes "script s = WaitIdle d # r" "WaitForIdle d s = Some s'" "pool_inv s" "waited s"
  shows "waited s'"
proof (cases "asleep s' \<and> script s' = script s")
  case True
  with assms show ?thesis by (auto simp: WaitForIdle_def waited_def split: if_splits option.splits)
next
  case False
  have idle: "tasksEnqueued s = tasksCompleted s" "\<not> asleep s" using False assms(2)
    by (auto simp: WaitForIdle_def split: if_splits)
  note empty = no_outstanding[OF assms(3) idle(1)]
  show ?thesis
  proof (cases d)
    case True
    then have r: "r = [SetExit, NotifyAll, Join]" using assms(1,3) script_okE(4)[of r] by (auto simp: pool_inv_def)
    with True assms(1,4) have "errorString s = None" "status s \<noteq> Terminated"
      by (auto simp: waited_def destructor_def)
    with True r assms(1,2) idle empty show ?thesis by (auto simp: WaitForIdle_def waited_ending)
  next
    case d: False
    then obtain c where r: "r = client_code c" using assms(1,3) script_okE(3)[of r] by (auto simp: pool_inv_def)
    have "script s = client_code (CallWaitForIdle # c)" using assms(1) r d by simp
    from waited_code[OF this] assms(4) have "status s \<noteq> Terminated" "c \<noteq> [] \<Longrightarrow> last c = CallWaitForIdle" by auto
    then show ?thesis
      using d r assms(1,2) idle empty
      by (cases "errorString s") (auto simp: WaitForIdle_def waited_code[of _ c] waited_code[of _ "[]"])
  qed
qed

lemma client_step_waited:
  assumes "client_step s = Some s'" "pool_inv s" "waited s"
  shows "waited s'"
proof (cases "script s")
  case (Cons i r)
  show ?thesis
  proof (cases i)
    case (Push t)
    then obtain c where r: "r = NotifyOne # client_code c"
      using Cons assms(2) script_okE(1)[of t r] by (auto simp: pool_inv_def)
    have "script s = client_code (CallAsync t # c)" using Cons Push r by simp
    from waited_code[OF this] assms(3) have "status s \<noteq> Terminated" "c \<noteq> []" "last c = CallWaitForIdle"
      by (auto split: if_splits)
    with assms(1) Cons Push r show ?thesis by (auto simp: client_step_def waited_notify)
  next
    case (WaitIdle d)
    with assms Cons show ?thesis by (auto simp: client_step_def intro: WaitForIdle_waited)
  next
    case SetExit
    with assms Cons script_okE(5)[of r] show ?thesis by (auto simp: client_step_def pool_inv_def waited_ending)
  next
    case NotifyAll
    with assms Cons script_okE(6)[of r] show ?thesis by (auto simp: client_step_def pool_inv_def waited_ending)
  next
    case Join
    with assms Cons script_okE(7)[of r] show ?thesis
      by (auto simp: client_step_def pool_inv_def waited_ending split: if_splits)
  qed (use assms(1) Cons in \<open>simp add: client_step_def\<close>)
qed (use assms(1) in \<open>simp add: client_step_def\<close>)

lemma pool_step_waited:
  assumes "pool_step run s s'" "pool_inv s" "waited s"
  shows "waited s'"
  using assms
proof (cases rule: pool_step.cases)
  case (notify r)
  then obtain c where c: "r = client_code c" using assms(2) script_okE(2)[of r] by (auto simp: pool_inv_def)
  have "status s' = status s \<and> script s' = r" using notify(2) by (elim notify_one_cases) auto
  with notify(1) c assms(3) show ?thesis by (simp add: waited_notify waited_code)
qed (auto intro: ThreadFunction_waited client_step_waited)

lemma spurious_waited: "spurious_wakeup s s' \<Longrightarrow> waited s \<Longrightarrow> waited s'"
  by (induction rule: spurious_wakeup.induct) (auto simp: waited_def)

lemma pool_reachable_waited:
  assumes "pool_reachable run s0 s" "pool_inv s0" "waited s0"
  shows "waited s"
  using assms(1)
proof (induction rule: pool_reachable.induct)
  case (step s s')
  then show ?case using pool_step_waited pool_reachable_inv[OF step.hyps(1) assms(2)] by blast
qed (use assms in \<open>auto intro: spurious_waited\<close>)

subsection \<open>Progress\<close>

text \<open>The client is done: the threads have returned, or an exception left the destructor.\<close>

definition pool_finished :: "('t, 'm) ThreadPool \<Rightarrow> bool" where
  "pool_finished s \<longleftrightarrow> script s = [] \<and> (status s = Terminated \<or> all_exited (threads s))"

lemma ThreadFunction_active:
  "active (threads s ! i) \<Longrightarrow> \<exists>s'. ThreadFunction run i s = Some s'"
  by (auto simp: pool_defs active_def split: worker.splits list.splits prod.splits sum.splits)

lemma notify_one_nonempty: "notify_one s \<noteq> []"
  by (simp add: notify_one_def Let_def)

lemma not_active_not_busy: "\<forall>w \<in> set ws. \<not> active w \<Longrightarrow> filter busy ws = []"
  by (auto simp: filter_empty_conv active_def busy_def split: worker.splits)

lemma client_can_step:
  assumes "pool_inv s" "\<forall>w \<in> set (threads s). \<not> active w" "script s = i # r" "i \<noteq> NotifyOne"
  shows "\<exists>s'. client_step s = Some s'"
proof (cases i)
  case (WaitIdle d)
  have "running s = 0" using not_active_not_busy[OF assms(2)] by (simp add: running_def)
  moreover have "taskQueue s = []" "Notifying \<notin> set (threads s)"
    using assms by (auto simp: pool_inv_def wakeups_ok_def active_def)
  ultimately have "\<not> asleep s" using assms(1) by (auto simp: inv_defs)
  with assms(3) WaitIdle show ?thesis by (auto simp: pool_defs split: option.splits)
next
  case Join
  with assms(1,3) have "r = []" using script_okE(7) by (auto simp: pool_inv_def)
  with assms(1,3) Join have "Waiting \<notin> set (threads s)" by (auto simp: pool_inv_def exit_ok_def)
  with assms(2) have "all_exited (threads s)" by (auto simp: all_exited_def list_all_iff active_def)
  with Join assms(3) show ?thesis by (simp add: client_step_def)
qed (use assms in \<open>auto simp: client_step_def\<close>)

lemma pool_progress:
  assumes "pool_inv s" "\<not> pool_finished s"
  shows "\<exists>s'. pool_step run s s'"
proof (cases "\<exists>w \<in> set (threads s). active w")
  case True
  then obtain i where "i < length (threads s)" "active (threads s ! i)" by (auto simp: in_set_conv_nth)
  with ThreadFunction_active[of s i run] show ?thesis by (blast intro: pool_step.worker)
next
  case False
  show ?thesis
  proof (cases "script s")
    case Nil
    with assms show ?thesis by (auto simp: inv_defs pool_finished_def)
  next
    case (Cons i r)
    show ?thesis
    proof (cases "i = NotifyOne")
      case True
      obtain s' where "s' \<in> set (notify_one (s\<lparr>script := r\<rparr>))"
        using notify_one_nonempty[of "s\<lparr>script := r\<rparr>"] list.set_intros(1) by (cases "notify_one (s\<lparr>script := r\<rparr>)") auto
      with Cons True show ?thesis by (blast intro: pool_step.notify)
    next
      case no: False
      with client_can_step[OF assms(1) _ Cons no] False show ?thesis by (blast intro: pool_step.client)
    qed
  qed
qed

subsection \<open>Termination\<close>

fun worker_weight :: "('t \<Rightarrow> nat) \<Rightarrow> 't worker \<Rightarrow> nat" where
  "worker_weight weight Exited = 0"
| "worker_weight weight Waiting = 1"
| "worker_weight weight Checking = 2"
| "worker_weight weight Notifying = 4"
| "worker_weight weight (Completing e) = 5"
| "worker_weight weight (Running t) = 6 + weight t"

fun instr_weight :: "('t \<Rightarrow> nat) \<Rightarrow> nat \<Rightarrow> 't instr \<Rightarrow> nat" where
  "instr_weight weight n (Push t) = 6 + weight t"
| "instr_weight weight n NotifyOne = 2"
| "instr_weight weight n NotifyAll = n + 1"
| "instr_weight weight n _ = 1"

definition potential :: "('t \<Rightarrow> nat) \<Rightarrow> ('t, 'm) ThreadPool \<Rightarrow> nat" where
  "potential weight s = sum_list (map (worker_weight weight) (threads s)) +
     sum_list (map (\<lambda>t. 5 + weight t) (taskQueue s)) +
     sum_list (map (instr_weight weight (length (threads s))) (script s)) + of_bool (\<not> asleep s)"

lemma destructor_weight:
  "sum_list (map (instr_weight weight n) destructor) \<le> sum_list (map (instr_weight weight n) (client_code c))"
proof (induction c)
  case (Cons a c)
  then show ?case by (cases a) auto
qed simp

lemma wake_all_weight:
  "sum_list (map (worker_weight weight) (map wake ws)) \<le> sum_list (map (worker_weight weight) ws) + length ws"
proof (induction ws)
  case (Cons w ws)
  then show ?case by (cases w) (auto simp: wake_def)
qed simp

text \<open>The contract a client of the pool keeps: each of its tasks ends.\<close>

locale finite_tasks =
  fixes run :: "('t, 'm) task_semantics" and weight :: "'t \<Rightarrow> nat"
  assumes run_weight: "run t m = (Inl t', m') \<Longrightarrow> weight t' < weight t"
begin

lemma ThreadFunction_potential:
  assumes "i < length (threads s)" "ThreadFunction run i s = Some s'"
  shows "potential weight s' < potential weight s"
proof -
  note sum = sum_list_map_update[OF assms(1), of "worker_weight weight"]
  show ?thesis
  proof (cases "threads s ! i")
    case (Running t)
    show ?thesis
    proof (cases "fst (run t (memory s))")
      case (Inl t')
      then obtain m where m: "run t (memory s) = (Inl t', m)" by (metis prod.collapse)
      from run_weight[OF m] show ?thesis using m assms(2) Running sum[of "Running t'"]
        by (auto simp: ThreadFunction_def potential_def)
    next
      case (Inr e)
      then obtain m where m: "run t (memory s) = (Inr e, m)" by (metis prod.collapse)
      then show ?thesis using assms(2) Running sum[of "Completing e"]
        by (auto simp: ThreadFunction_def potential_def)
    qed
  next
    case Checking
    then show ?thesis using assms(2) sum[of Exited] sum[of Waiting] sum[of "Running (hd (taskQueue s))"]
      by (auto simp: ThreadFunction_def potential_def split: list.splits if_splits)
  next
    case (Completing e)
    then show ?thesis using assms(2) sum[of Notifying] by (auto simp: ThreadFunction_def potential_def)
  next
    case Notifying
    then show ?thesis using assms(2) sum[of Checking] by (auto simp: ThreadFunction_def potential_def)
  qed (use assms(2) in \<open>simp_all add: ThreadFunction_def\<close>)
qed

lemma client_potential:
  assumes "pool_inv s" "client_step s = Some s'"
  shows "potential weight s' < potential weight s"
proof (cases "script s")
  case (Cons i r)
  show ?thesis
  proof (cases i)
    case (WaitIdle d)
    have "sum_list (map (instr_weight weight n) (destructor :: 't instr list)) \<le> sum_list (map (instr_weight weight n) r)"
      if "\<not> d" for n
      using assms(1) Cons WaitIdle that script_okE(3)[of r] destructor_weight[of weight n] by (auto simp: pool_inv_def)
    from this[of "length (threads s)"] show ?thesis using assms(2) Cons WaitIdle
      by (auto simp: pool_defs potential_def split: if_splits option.splits)
  next
    case NotifyAll
    with wake_all_weight[of weight "threads s"] assms(2) Cons show ?thesis
      by (auto simp: client_step_def potential_def)
  qed (use assms(2) Cons in \<open>auto simp: client_step_def potential_def split: if_splits\<close>)
qed (use assms(2) in \<open>simp add: client_step_def\<close>)

lemma notify_potential:
  assumes "script s = NotifyOne # r" "s' \<in> set (notify_one (s\<lparr>script := r\<rparr>))"
  shows "potential weight s' < potential weight s"
  using assms(2)
proof (rule notify_one_cases)
  fix i assume "i < length (threads (s\<lparr>script := r\<rparr>))" "threads (s\<lparr>script := r\<rparr>) ! i = Waiting"
    "s' = s\<lparr>script := r, threads := (threads (s\<lparr>script := r\<rparr>))[i := Checking]\<rparr>"
  then show ?thesis using sum_list_map_update[of i "threads s" "worker_weight weight" Checking] assms(1)
    by (simp add: potential_def)
qed (use assms(1) in \<open>simp add: potential_def\<close>)

lemma pool_step_potential: "pool_step run s s' \<Longrightarrow> pool_inv s \<Longrightarrow> potential weight s' < potential weight s"
  by (cases rule: pool_step.cases) (auto intro: ThreadFunction_potential client_potential notify_potential)

text \<open>No run goes on forever, and a run that stops has finished.\<close>

lemma pool_run_inv: "(pool_step run)\<^sup>*\<^sup>* s s' \<Longrightarrow> pool_inv s \<Longrightarrow> pool_inv s'"
  by (induction rule: rtranclp_induct) (auto intro: pool_step_inv)

lemma no_infinite_run:
  assumes "pool_inv s"
  shows "\<not> (f 0 = s \<and> (\<forall>i. pool_step run (f i) (f (Suc i))))"
proof
  assume f: "f 0 = s \<and> (\<forall>i. pool_step run (f i) (f (Suc i)))"
  have inv: "pool_inv (f i)" for i using f assms by (induction i) (auto intro: pool_step_inv)
  have "potential weight (f i) + i \<le> potential weight (f 0)" for i
  proof (induction i)
    case (Suc i)
    then show ?case using pool_step_potential[of "f i" "f (Suc i)"] f inv[of i] by fastforce
  qed simp
  from this[of "Suc (potential weight (f 0))"] show False by simp
qed

lemma terminates:
  assumes "pool_inv s"
  shows "(\<nexists>f. f 0 = s \<and> (\<forall>i. pool_step run (f i) (f (Suc i)))) \<and>
    (\<forall>s'. (pool_step run)\<^sup>*\<^sup>* s s' \<and> (\<nexists>s''. pool_step run s' s'') \<longrightarrow> pool_finished s')"
  using no_infinite_run[OF assms] pool_run_inv[OF _ assms] pool_progress[of _ run] by blast

end

subsection \<open>What a step does to the tasks\<close>

text \<open>The tasks that have not ended: not yet pushed, in the queue, or running.\<close>

definition pushes :: "'t instr list \<Rightarrow> 't list" where
  "pushes r = concat (map (\<lambda>i. case i of Push t \<Rightarrow> [t] | _ \<Rightarrow> []) r)"

definition runs :: "'t worker list \<Rightarrow> 't list" where
  "runs ws = concat (map (\<lambda>w. case w of Running t \<Rightarrow> [t] | _ \<Rightarrow> []) ws)"

definition pending :: "('t, 'm) ThreadPool \<Rightarrow> 't multiset" where
  "pending s = mset (pushes (script s)) + mset (taskQueue s) + mset (runs (threads s))"

text \<open>The exceptions of tasks that ended, until the client has thrown one.\<close>

definition failure :: "'t worker \<Rightarrow> string set" where
  "failure w = (case w of Completing (Some e) \<Rightarrow> {e} | _ \<Rightarrow> {})"

definition failures :: "'t worker list \<Rightarrow> string set" where
  "failures ws = \<Union> (failure ` set ws)"

definition errs :: "('t, 'm) ThreadPool \<Rightarrow> string set" where
  "errs s = set_option (errorString s) \<union> failures (threads s) \<union>
     (case status s of Unwinding e \<Rightarrow> {e} | _ \<Rightarrow> {})"

definition quiet :: "('t, 'm) ThreadPool \<Rightarrow> ('t, 'm) ThreadPool \<Rightarrow> bool" where
  "quiet s s' \<longleftrightarrow> pending s' = pending s \<and> memory s' = memory s \<and> errs s' \<subseteq> errs s \<and> (errs s \<noteq> {} \<longrightarrow> errs s' \<noteq> {})"

definition runs_task :: "('t, 'm) task_semantics \<Rightarrow> ('t, 'm) ThreadPool \<Rightarrow> ('t, 'm) ThreadPool \<Rightarrow> bool" where
  "runs_task run s s' \<longleftrightarrow> (\<exists>t R r. pending s = add_mset t R \<and> run t (memory s) = (r, memory s') \<and>
     pending s' = (case r of Inl t' \<Rightarrow> {#t'#} | Inr _ \<Rightarrow> {#}) + R \<and>
     errs s' = (case r of Inr (Some e) \<Rightarrow> {e} | _ \<Rightarrow> {}) \<union> errs s)"

lemma pushes_simps [simp]:
  "pushes [] = []" "pushes (Push t # r) = t # pushes r" "pushes (NotifyOne # r) = pushes r"
  "pushes (WaitIdle d # r) = pushes r" "pushes (SetExit # r) = pushes r" "pushes (NotifyAll # r) = pushes r"
  "pushes (Join # r) = pushes r" "pushes destructor = []"
  by (simp_all add: pushes_def destructor_def)

lemma runs_simps [simp]:
  "runs [] = []" "runs (Running t # ws) = t # runs ws" "runs (Checking # ws) = runs ws" "runs (Waiting # ws) = runs ws"
  "runs (Completing e # ws) = runs ws" "runs (Notifying # ws) = runs ws" "runs (Exited # ws) = runs ws"
  by (simp_all add: runs_def)

lemma runs_Cons: "runs (w # ws) = runs [w] @ runs ws"
  by (simp add: runs_def)

lemma mset_runs_update:
  assumes "i < length ws"
  shows "mset (runs (ws[i := w])) + mset (runs [ws ! i]) = mset (runs ws) + mset (runs [w])"
  using assms
proof (induction ws arbitrary: i)
  case (Cons x ws)
  note step = runs_Cons[of x ws] runs_Cons[of w ws]
  show ?case
  proof (cases i)
    case (Suc j)
    then show ?thesis using Cons.IH[of j] Cons.prems runs_Cons[of x "ws[j := w]"] step by simp
  qed (use step in simp)
qed simp

lemma mset_runs_update_idle:
  "i < length ws \<Longrightarrow> runs [ws ! i] = [] \<Longrightarrow> runs [w] = [] \<Longrightarrow> mset (runs (ws[i := w])) = mset (runs ws)"
  using mset_runs_update[of i ws w] by simp

lemma runs_wake [simp]: "runs (map wake ws) = runs ws"
proof (induction ws)
  case (Cons w ws)
  then show ?case by (cases w) (simp_all add: wake_def)
qed simp

lemma failure_simps [simp]:
  "failure Checking = {}" "failure Waiting = {}" "failure (Running t) = {}" "failure Notifying = {}" "failure Exited = {}"
  "failure (Completing None) = {}" "failure (Completing (Some e)) = {e}"
  by (simp_all add: failure_def)

lemma failures_wake [simp]: "failures (map wake ws) = failures ws"
proof -
  have "failure (wake w) = failure w" for w :: "'a worker" by (cases w) (simp_all add: wake_def)
  then show ?thesis by (simp add: failures_def)
qed

text \<open>What the other threads contribute, and what thread \<open>i\<close> does.\<close>

lemma failures_update:
  assumes "i < length ws"
  obtains F where "failures ws = F \<union> failure (ws ! i)" "\<And>w. failures (ws[i := w]) = F \<union> failure w"
proof -
  have split: "failures us = (\<Union>j \<in> {..<length us} - {i}. failure (us ! j)) \<union> failure (us ! i)"
    if "i < length us" for us :: "'a worker list"
    using that by (auto simp: failures_def set_conv_nth)
  show thesis
  proof (rule that)
    show "failures ws = (\<Union>j \<in> {..<length ws} - {i}. failure (ws ! j)) \<union> failure (ws ! i)"
      using split assms by blast
    show "failures (ws[i := w]) = (\<Union>j \<in> {..<length ws} - {i}. failure (ws ! j)) \<union> failure w" for w
      using split[of "ws[i := w]"] assms by (auto simp: nth_list_update split: if_splits)
  qed
qed

lemma ThreadFunction_effect:
  assumes "i < length (threads s)" "ThreadFunction run i s = Some s'"
  shows "quiet s s' \<or> runs_task run s s'"
proof -
  note upd = mset_runs_update[OF assms(1)]
  obtain F where F: "failures (threads s) = F \<union> failure (threads s ! i)"
    and comp: "\<And>w. failures ((threads s)[i := w]) = F \<union> failure w"
    using failures_update[OF assms(1)] by metis
  show ?thesis
  proof (cases "threads s ! i")
    case Checking
    then show ?thesis using assms(2) upd[of Exited] upd[of Waiting] upd[of "Running (hd (taskQueue s))"]
      by (auto simp: ThreadFunction_def quiet_def pending_def errs_def F comp split: list.splits if_splits)
  next
    case (Running t)
    obtain r m where r: "run t (memory s) = (r, m)" by force
    define w where "w = (case r of Inl t' \<Rightarrow> Running t' | Inr e \<Rightarrow> Completing e)"
    have s': "s' = s\<lparr>threads := (threads s)[i := w], memory := m\<rparr>"
      using assms(2) Running r by (auto simp: ThreadFunction_def w_def split: sum.splits)
    have "t \<in># mset (runs (threads s))" using Running assms(1)
      by (force simp: runs_def in_set_conv_nth[of _ "threads s"] intro!: bexI[of _ "Running t"])
    then obtain N where N: "mset (runs (threads s)) = add_mset t N" by (blast dest: multi_member_split)
    define R where "R = mset (pushes (script s)) + mset (taskQueue s) + N"
    have "pending s = add_mset t R" by (simp add: pending_def R_def N)
    moreover have "mset (runs ((threads s)[i := w])) = N + mset (runs [w])"
      using upd[of w] Running N by simp
    then have "pending s' = (case r of Inl t' \<Rightarrow> {#t'#} | Inr _ \<Rightarrow> {#}) + R"
      by (cases r) (simp_all add: pending_def R_def s' w_def)
    moreover have "errs s' = (case r of Inr (Some e) \<Rightarrow> {e} | _ \<Rightarrow> {}) \<union> errs s"
      using Running by (auto simp: errs_def s' F comp w_def split: sum.splits option.splits)
    ultimately show ?thesis using r s' by (auto simp: runs_task_def)
  next
    case (Completing e)
    then have "quiet s s'" using assms(2) upd[of Notifying]
      by (cases e; cases "errorString s") (auto simp: ThreadFunction_def quiet_def pending_def errs_def F comp)
    then show ?thesis ..
  next
    case Notifying
    then have "quiet s s'" using assms(2) upd[of Checking]
      by (auto simp: ThreadFunction_def quiet_def pending_def errs_def F comp)
    then show ?thesis ..
  qed (use assms(2) in \<open>simp_all add: ThreadFunction_def\<close>)
qed

lemma wake_thread_quiet:
  assumes "i < length (threads s)" "threads s ! i = Waiting"
  shows "quiet s (s\<lparr>threads := (threads s)[i := Checking]\<rparr>)"
proof -
  obtain F where "failures (threads s) = F \<union> failure (threads s ! i)"
    "\<And>w. failures ((threads s)[i := w]) = F \<union> failure w" using failures_update[OF assms(1)] by metis
  with assms show ?thesis by (simp add: quiet_def pending_def errs_def mset_runs_update_idle)
qed

lemma quiet_trans: "quiet a b \<Longrightarrow> quiet b c \<Longrightarrow> quiet a c"
  by (auto simp: quiet_def)

lemma notify_quiet:
  assumes "script s = NotifyOne # r" "s' \<in> set (notify_one (s\<lparr>script := r\<rparr>))"
  shows "quiet s s'"
proof -
  have first: "quiet s (s\<lparr>script := r\<rparr>)" using assms(1) by (simp add: quiet_def pending_def errs_def)
  show ?thesis using assms(2)
  proof (rule notify_one_cases)
    fix i assume "i < length (threads (s\<lparr>script := r\<rparr>))" "threads (s\<lparr>script := r\<rparr>) ! i = Waiting"
      "s' = s\<lparr>script := r, threads := (threads (s\<lparr>script := r\<rparr>))[i := Checking]\<rparr>"
    then show ?thesis using quiet_trans[OF first wake_thread_quiet[of i "s\<lparr>script := r\<rparr>"]] by simp
  qed (use first in simp)
qed

lemma spurious_quiet: "spurious_wakeup s s' \<Longrightarrow> quiet s s'"
  by (induction rule: spurious_wakeup.induct) (simp_all add: wake_thread_quiet, simp add: quiet_def pending_def errs_def)

text \<open>A client that throws only with nothing left to push does not touch the tasks.\<close>

lemma client_quiet:
  assumes "client_step s = Some s'" "pool_inv s" "status s \<in> {Normal} \<union> range Unwinding"
    and "\<And>r. script s = WaitIdle False # r \<Longrightarrow> pushes r = [] \<and> status s = Normal"
    and "script s = destructor \<Longrightarrow> errorString s = None"
  shows "quiet s s'"
proof (cases "script s")
  case (Cons i r)
  show ?thesis
  proof (cases i)
    case (WaitIdle d)
    show ?thesis
    proof (cases "tasksEnqueued s = tasksCompleted s")
      case True
      note empty = no_outstanding[OF assms(2) True]
      have "d \<Longrightarrow> errorString s = None" using assms(2,5) script_okE(4)[of r] Cons WaitIdle
        by (auto simp: pool_inv_def destructor_def)
      with True assms(1,4) Cons WaitIdle empty show ?thesis
        by (cases "errorString s"; cases d) (auto simp: pool_defs quiet_def pending_def errs_def split: if_splits)
    next
      case False
      with assms(1) Cons WaitIdle show ?thesis
        by (auto simp: pool_defs quiet_def pending_def errs_def split: if_splits)
    qed
  qed (use assms(1) Cons in \<open>auto simp: client_step_def quiet_def pending_def errs_def split: if_splits\<close>)
qed (use assms(1) in \<open>simp add: client_step_def\<close>)

subsection \<open>A task that throws\<close>

text \<open>The client has made no call of \<^verbatim>\<open>WaitForIdle\<close>: it is still before the end of the one in the
  destructor, with the task \<open>t\<close> to be run or an exception recorded, or that one has thrown.\<close>

definition throws :: "('t, 'm) task_semantics \<Rightarrow> 't \<Rightarrow> bool" where
  "throws run t \<longleftrightarrow> (\<forall>m. \<exists>e m'. run t m = (Inr (Some e), m'))"

definition async_code :: "'t instr list \<Rightarrow> bool" where
  "async_code r \<longleftrightarrow> (\<exists>ts. r = client_code (map CallAsync ts) \<or> r = NotifyOne # client_code (map CallAsync ts))"

definition unwaited :: "'t \<Rightarrow> nat \<Rightarrow> ('t, 'm) ThreadPool \<Rightarrow> bool" where
  "unwaited t k s \<longleftrightarrow> tasksEnqueued s + length (pushes (script s)) = k \<and>
     (status s = Terminated \<and> script s = [] \<and> tasksEnqueued s = tasksCompleted s \<or>
      status s = Normal \<and> async_code (script s) \<and> (t \<in># pending s \<or> errs s \<noteq> {}))"

lemma async_not_exiting: "async_code r \<Longrightarrow> r \<notin> set exiting"
  by (auto simp: async_code_def)

lemma pushes_client_code: "pushes (client_code (map CallAsync ts)) = ts"
  by (induction ts) simp_all

lemma new_ThreadPool_unwaited: "t \<in> set ts \<Longrightarrow> unwaited t (length ts) (new_ThreadPool n (map CallAsync ts) m)"
  by (auto simp: unwaited_def new_ThreadPool_def pending_def pushes_client_code async_code_def)

lemma idle_tasks:
  assumes "running s = 0"
  shows "runs (threads s) = []" "failures (threads s) = {}"
proof -
  have "\<not> busy w" if "w \<in> set (threads s)" for w using assms that by (auto simp: running_def filter_empty_conv)
  then show "runs (threads s) = []" "failures (threads s) = {}"
    by (force simp: runs_def failures_def failure_def busy_def split: worker.splits)+
qed

lemma unwaited_same:
  assumes "unwaited t k s" "quiet s s' \<or> runs_task run s s'" "script s' = script s \<or> script s = NotifyOne # script s'"
    and "status s' = status s" "tasksEnqueued s' = tasksEnqueued s" "status s = Terminated \<Longrightarrow> tasksCompleted s' = tasksCompleted s"
    and "throws run t"
  shows "unwaited t k s'"
proof -
  have "t \<in># pending s' \<or> errs s' \<noteq> {}" if "t \<in># pending s \<or> errs s \<noteq> {}"
    using assms(2)
  proof
    assume "runs_task run s s'"
    then obtain t0 R r where r: "pending s = add_mset t0 R" "run t0 (memory s) = (r, memory s')"
        "pending s' = (case r of Inl t' \<Rightarrow> {#t'#} | Inr _ \<Rightarrow> {#}) + R"
        "errs s' = (case r of Inr (Some e) \<Rightarrow> {e} | _ \<Rightarrow> {}) \<union> errs s"
      by (auto simp: runs_task_def)
    then show ?thesis using that assms(7)[unfolded throws_def, rule_format, of "memory s"] by (cases "t = t0") auto
  qed (use that in \<open>auto simp: quiet_def\<close>)
  moreover have "async_code (script s')" if "async_code (script s)"
    using that assms(3) unfolding async_code_def by (metis client_code_not_exiting(4) list.inject)
  moreover have "pushes (script s') = pushes (script s)" using assms(3) by auto
  ultimately show ?thesis using assms(1,3-6) by (auto simp: unwaited_def)
qed

lemma client_unwaited:
  assumes "unwaited t k s" "client_step s = Some s'" "pool_inv s"
  shows "unwaited t k s'"
proof -
  have s: "status s = Normal" "async_code (script s)" "t \<in># pending s \<or> errs s \<noteq> {}" "tasksEnqueued s + length (pushes (script s)) = k"
    using assms(1,2) by (auto simp: unwaited_def client_step_def)
  then obtain ts where ts: "script s = client_code (map CallAsync ts)"
    using assms(2) by (auto simp: async_code_def client_step_def)
  show ?thesis
  proof (cases ts)
    case (Cons t1 ts')
    then have s': "s' = s\<lparr>taskQueue := taskQueue s @ [t1], tasksEnqueued := tasksEnqueued s + 1, script := NotifyOne # client_code (map CallAsync ts')\<rparr>"
      using assms(2) ts by (simp add: client_step_def)
    then have "pending s' = pending s" "errs s' = errs s" "async_code (script s')"
      using ts Cons by (auto simp: pending_def errs_def async_code_def)
    with s show ?thesis using ts Cons s' by (simp add: unwaited_def)
  next
    case Nil
    then have code: "script s = destructor" using ts by simp
    show ?thesis
    proof (cases "tasksEnqueued s = tasksCompleted s")
      case True
      note empty = no_outstanding[OF assms(3) True]
      have "errorString s \<noteq> None"
        using s(1,3) code empty idle_tasks[of s] by (auto simp: pending_def errs_def)
      then show ?thesis using True s code empty assms(2) by (auto simp: pool_defs destructor_def unwaited_def split: if_splits)
    next
      case False
      then have "s' = s\<lparr>asleep := True\<rparr>" using assms(2) code by (auto simp: pool_defs destructor_def split: if_splits)
      with assms(1) show ?thesis by (simp add: unwaited_def pending_def errs_def)
    qed
  qed
qed

lemma Terminated_stuck: "pool_inv s \<Longrightarrow> status s = Terminated \<Longrightarrow> unwaited t k s \<Longrightarrow> \<not> busy w \<or> w \<notin> set (threads s)"
  using no_outstanding[of s] by (auto simp: unwaited_def running_def filter_empty_conv)

lemma step_unwaited:
  assumes "throws run t" "pool_step run s s'" "pool_inv s" "unwaited t k s"
  shows "unwaited t k s'"
  using assms(2)
proof (cases rule: pool_step.cases)
  case (worker i)
  note same = ThreadFunction_script[OF worker(2)]
  have "tasksCompleted s' = tasksCompleted s" if "status s = Terminated"
  proof -
    have "\<not> busy (threads s ! i)" using Terminated_stuck[OF assms(3) that assms(4)] worker(1) by fastforce
    with worker(2) show ?thesis by (auto simp: ThreadFunction_def split: worker.splits list.splits)
  qed
  then show ?thesis using same by (intro unwaited_same[OF assms(4) ThreadFunction_effect[OF worker] _ _ _ _ assms(1)]) auto
next
  case client
  then show ?thesis using client_unwaited[OF assms(4) _ assms(3)] by blast
next
  case (notify r)
  have "script s' = r \<and> status s' = status s \<and> tasksEnqueued s' = tasksEnqueued s \<and> tasksCompleted s' = tasksCompleted s"
    using notify(2) by (elim notify_one_cases) auto
  then show ?thesis using notify(1) notify_quiet[OF notify] by (intro unwaited_same[OF assms(4) _ _ _ _ _ assms(1)]) auto
qed

lemma spurious_unwaited:
  fixes s :: "('t, 'm) ThreadPool" and run :: "('t, 'm) task_semantics"
  assumes "throws run t" "spurious_wakeup s s'" "unwaited t k s"
  shows "unwaited t k s'"
proof -
  have "script s' = script s \<and> status s' = status s \<and> tasksEnqueued s' = tasksEnqueued s \<and> tasksCompleted s' = tasksCompleted s"
    using assms(2) by (cases rule: spurious_wakeup.cases) auto
  then show ?thesis using spurious_quiet[OF assms(2)] by (intro unwaited_same[OF assms(3) _ _ _ _ _ assms(1)]) auto
qed

lemma pool_reachable_unwaited:
  assumes "throws run t" "pool_reachable run s0 s" "pool_inv s0" "unwaited t k s0"
  shows "unwaited t k s"
  using assms(2)
proof (induction rule: pool_reachable.induct)
  case start
  show ?case by (rule assms(4))
next
  case (step s s')
  show ?case by (rule step_unwaited[OF assms(1) step.hyps(2) pool_reachable_inv[OF step.hyps(1) assms(3)] step.IH])
next
  case (spurious s s')
  show ?case by (rule spurious_unwaited[OF assms(1) spurious.hyps(2) spurious.IH])
qed

subsection \<open>Properties\<close>

lemma new_ThreadPool_waited:
  "(calls = [] \<or> last calls = CallWaitForIdle) \<Longrightarrow> waited (new_ThreadPool n calls m)"
  by (subst waited_code[of _ calls]) (auto simp: new_ThreadPool_def)

text \<open>C12: in every state a pool of at least one thread can reach, by whatever calls and interleaving, the
  tasks enqueued are those completed, those in the queue and those some thread is busy with; so
  \<^verbatim>\<open>assert(_taskQueue.empty())\<close> in \<^verbatim>\<open>WaitForIdle\<close> never fails. When the client waits after its last
  \<^verbatim>\<open>Async\<close>, no exception leaves the destructor.\<close>

theorem ThreadPool_safe:
  assumes "0 < n" "pool_reachable run (new_ThreadPool n calls m) s"
  shows "tasksEnqueued s = tasksCompleted s + length (taskQueue s) + length (filter busy (threads s)) \<and>
    status s \<noteq> AssertFailed \<and>
    (calls = [] \<or> last calls = CallWaitForIdle \<longrightarrow> status s \<noteq> Terminated)"
proof -
  have "pool_inv s" using pool_reachable_inv[OF assms(2) new_ThreadPool_inv[OF assms(1)]] .
  moreover have "status s \<noteq> Terminated" if "calls = [] \<or> last calls = CallWaitForIdle"
    using pool_reachable_waited[OF assms(2) new_ThreadPool_inv[OF assms(1)] new_ThreadPool_waited[OF that]]
    by (simp add: waited_def)
  ultimately show ?thesis by (auto simp: pool_inv_def counters_ok_def running_def exit_ok_def)
qed

theorem ThreadPool_safe_witness:
  "pool_reachable (\<lambda>t m. (Inr None, m + t)) (new_ThreadPool 2 [CallAsync 5, CallWaitForIdle] (0::nat))
     \<lparr>threads = [Running 5, Checking], shouldExit = False, taskQueue = [], tasksEnqueued = 1, tasksCompleted = 0,
      errorString = None, script = NotifyOne # client_code [CallWaitForIdle], asleep = False, status = Normal, memory = 0\<rparr> \<and>
   (1::nat) = 0 + length ([] :: nat list) + length (filter busy [Running (5::nat), Checking])"
proof -
  let ?run = "\<lambda>t m. (Inr None, m + t) :: (nat + string option) \<times> nat"
  let ?s0 = "new_ThreadPool 2 [CallAsync 5, CallWaitForIdle] (0::nat)"
  let ?s1 = "?s0\<lparr>taskQueue := [5], tasksEnqueued := 1, script := NotifyOne # client_code [CallWaitForIdle]\<rparr>"
  let ?s2 = "?s1\<lparr>taskQueue := [], threads := [Running 5, Checking]\<rparr>"
  have "pool_step ?run ?s0 ?s1" by (rule pool_step.client) (simp add: client_step_def new_ThreadPool_def)
  moreover have "pool_step ?run ?s1 ?s2"
    by (rule pool_step.worker[of 0]) (simp_all add: ThreadFunction_def new_ThreadPool_def numeral_2_eq_2)
  ultimately have reach: "pool_reachable ?run ?s0 ?s2" by (blast intro: pool_reachable.intros)
  from ThreadPool_safe[OF _ reach] reach show ?thesis by (simp add: new_ThreadPool_def)
qed

text \<open>C15: the destructor is not safe without that wait. However many threads the pool has and however
  many tasks it was given, if one of them throws and the client makes no call of \<^verbatim>\<open>WaitForIdle\<close>, the
  one in the destructor still waits until every task has been completed and then throws the recorded
  exception; a destructor does not let exceptions out, so the process ends in \<^verbatim>\<open>std::terminate\<close>.
  In no interleaving does the destructor get past its wait, no state but the terminated one is a dead
  end, and no run goes on forever when the tasks end.\<close>

theorem ThreadPool_destructor_terminates:
  assumes "0 < n" "t \<in> set ts" "throws run t"
    and "\<forall>t m t' m'. run t m = (Inl t', m') \<longrightarrow> weight t' < (weight t :: nat)"
    and "pool_reachable run (new_ThreadPool n (map CallAsync ts) m) s"
  shows "(status s = Terminated \<longrightarrow> tasksEnqueued s = length ts \<and> tasksCompleted s = length ts) \<and>
    \<not> shouldExit s \<and> (status s \<noteq> Terminated \<longrightarrow> (\<exists>s'. pool_step run s s')) \<and>
    (\<nexists>f. f 0 = s \<and> (\<forall>i. pool_step run (f i) (f (Suc i))))"
proof -
  note inv0 = new_ThreadPool_inv[OF assms(1), of "map CallAsync ts" m]
  have inv: "pool_inv s" by (rule pool_reachable_inv[OF assms(5) inv0])
  have fail: "unwaited t (length ts) s" by (rule pool_reachable_unwaited[OF assms(3,5) inv0 new_ThreadPool_unwaited[OF assms(2)]])
  have "\<not> pool_finished s" if "status s \<noteq> Terminated"
    using fail that async_not_exiting[of "[]"] by (auto simp: unwaited_def pool_finished_def)
  then have step: "\<exists>s'. pool_step run s s'" if "status s \<noteq> Terminated" using pool_progress[OF inv] that by blast
  have finite: "finite_tasks run weight" using assms(4) by (intro finite_tasks.intro) blast
  show ?thesis
  proof (intro conjI)
    show "status s = Terminated \<longrightarrow> tasksEnqueued s = length ts \<and> tasksCompleted s = length ts"
      using fail by (auto simp: unwaited_def)
    have "script s \<notin> set exiting" if "status s \<noteq> Terminated"
      using fail that async_not_exiting by (auto simp: unwaited_def)
    then show "\<not> shouldExit s" using inv by (auto simp: pool_inv_def exit_ok_def)
    show "status s \<noteq> Terminated \<longrightarrow> (\<exists>s'. pool_step run s s')" using step by blast
    show "\<nexists>f. f 0 = s \<and> (\<forall>i. pool_step run (f i) (f (Suc i)))"
      using finite_tasks.no_infinite_run[OF finite inv] by blast
  qed
qed

text \<open>Two threads, and a task that throws before one that does not.\<close>

theorem ThreadPool_destructor_terminates_witness:
  fixes run :: "bool \<Rightarrow> nat \<Rightarrow> (bool + string option) \<times> nat"
  defines "run \<equiv> \<lambda>throws m. (Inr (if throws then Some ''no memory'' else None), m + 1)"
  defines "s0 \<equiv> new_ThreadPool 2 [CallAsync True, CallAsync False] (0::nat)"
  shows "(\<exists>s'. pool_step run s0 s') \<and> (\<nexists>f. f 0 = s0 \<and> (\<forall>i. pool_step run (f i) (f (Suc i))))"
proof -
  have reach: "pool_reachable run (new_ThreadPool 2 (map CallAsync [True, False]) 0) s0" by (simp add: s0_def pool_reachable.start)
  have throws: "throws run True" and True: "True \<in> set [True, False]" by (simp_all add: throws_def run_def)
  have finite: "\<forall>t m t' m'. run t m = (Inl t', m') \<longrightarrow> (0::nat) < 0" by (simp add: run_def)
  note result = ThreadPool_destructor_terminates[where weight = "\<lambda>_. 0", OF zero_less_numeral True throws finite reach]
  have "status s0 \<noteq> Terminated" by (simp add: s0_def new_ThreadPool_def)
  with result show ?thesis by blast
qed

end
