(* ===== verification/Map_To_List.thy ===== *)
theory Map_To_List
  imports Thread_Pool
begin

text \<open>
  \<^verbatim>\<open>ThreadPool::MapToList\<close>: the elements are cut into at most one chunk per thread, each chunk is a task
  that appends to a list of its own, and the lists are joined when the pool is idle. The closure
  that \<^verbatim>\<open>MapToList\<close> gives to \<^verbatim>\<open>Async\<close> is the datatype \<open>MapTask\<close> of its captured variables; the shared
  memory of the pool is the vector \<^verbatim>\<open>subLists\<close>. Whatever the interleaving, the result is that of calling
  the callback for each element in turn.
\<close>

subsection \<open>Definitions\<close>

text \<open>
  A callback appends to the list it is given, and may then throw. The first constructor is the closure
  before \<^verbatim>\<open>assert(subList.empty())\<close>, the second one inside its loop.
\<close>

type_synonym 'a map_callback = "nat \<Rightarrow> 'a list \<times> string option"

datatype MapTask = Enter nat nat nat | Accumulate nat nat nat

fun tid :: "MapTask \<Rightarrow> nat" where
  "tid (Enter k i e) = k"
| "tid (Accumulate k i e) = k"

fun MapTask_run :: "'a map_callback \<Rightarrow> (MapTask, 'a list list) task_semantics" where
  "MapTask_run callback (Enter k i e) subLists =
     (if subLists ! k = [] then (Inl (Accumulate k i e), subLists)
      else (Inr (Some ''assert''), subLists))"
| "MapTask_run callback (Accumulate k i e) subLists =
     (if i < e
      then case callback i of (results, err) \<Rightarrow>
        ((case err of None \<Rightarrow> Inl (Accumulate k (i + 1) e) | Some x \<Rightarrow> Inr (Some x)),
         subLists[k := subLists ! k @ results])
      else (Inr None, subLists))"

definition elementsPerThread :: "nat \<Rightarrow> nat \<Rightarrow> nat" where
  "elementsPerThread threadCount cnt = (cnt + threadCount - 1) div threadCount"

function MapToListLoop :: "nat \<Rightarrow> nat \<Rightarrow> nat \<Rightarrow> nat \<Rightarrow> MapTask list option" where
  "MapToListLoop threadCount cnt ept startElement =
     (if startElement < cnt then
        let endElement = min (startElement + ept) cnt in
        if startElement < endElement \<and> startElement div ept < threadCount
        then map_option (Cons (Enter (startElement div ept) startElement endElement))
               (MapToListLoop threadCount cnt ept (startElement + ept))
        else None
      else Some [])"
  by pat_completeness auto
termination
  by (relation "measure (\<lambda>(t, cnt, ept, startElement). cnt - startElement)") auto

declare MapToListLoop.simps [simp del]

text \<open>The calls \<^verbatim>\<open>MapToList\<close> makes of its own pool, and the lists joined behind \<^verbatim>\<open>resultList\<close>.\<close>

definition MapToList :: "nat \<Rightarrow> nat \<Rightarrow> MapTask pool_call list option" where
  "MapToList threadCount cnt =
     map_option (\<lambda>tasks. map CallAsync tasks @ [CallWaitForIdle])
       (MapToListLoop threadCount cnt (elementsPerThread threadCount cnt) 0)"

definition splice_subLists :: "'a list \<Rightarrow> 'a list list \<Rightarrow> 'a list" where
  "splice_subLists resultList subLists = fold (\<lambda>subList acc. acc @ subList) subLists resultList"

text \<open>The outcome of a call for its caller, \<open>None\<close> when it throws: the specification the interleavings
  below are compared with, and what the callers of \<^verbatim>\<open>MapToList\<close> are modelled with.\<close>

definition MapToList_result :: "'a list \<Rightarrow> nat \<Rightarrow> 'a map_callback \<Rightarrow> 'a list option" where
  "MapToList_result resultList cnt callback =
     (if list_all (\<lambda>i. snd (callback i) = None) [0..<cnt]
      then Some (resultList @ concat (map (\<lambda>i. fst (callback i)) [0..<cnt])) else None)"

text \<open>A pool at rest, as the first call and every later one finds it.\<close>

definition idle_pool :: "('t, 'm) ThreadPool \<Rightarrow> bool" where
  "idle_pool s \<longleftrightarrow> pool_inv s \<and> taskQueue s = [] \<and> tasksEnqueued s = tasksCompleted s \<and>
     errorString s = None \<and> status s = Normal"

definition MapToList_started :: "nat \<Rightarrow> (MapTask, 'a list list) ThreadPool \<Rightarrow> bool" where
  "MapToList_started cnt s \<longleftrightarrow> idle_pool s \<and> memory s = replicate (length (threads s)) [] \<and>
     (\<exists>calls. MapToList (length (threads s)) cnt = Some calls \<and> script s = client_code calls)"

text \<open>\<^verbatim>\<open>WaitForIdle\<close> has returned or thrown; only the destructor of the pool is left.\<close>

definition MapToList_returned :: "('t, 'm) ThreadPool \<Rightarrow> bool" where
  "MapToList_returned s \<longleftrightarrow> script s \<in> insert destructor (insert [SetExit, NotifyAll, Join] (set exiting))"

subsection \<open>Chunks\<close>

definition chunk_end :: "nat \<Rightarrow> nat \<Rightarrow> nat \<Rightarrow> nat" where
  "chunk_end cnt ept k = min (k * ept + ept) cnt"

definition chunk_count :: "nat \<Rightarrow> nat \<Rightarrow> nat" where
  "chunk_count cnt ept = (if ept = 0 then 0 else (cnt + ept - 1) div ept)"

lemma chunk_count_iff: "0 < ept \<Longrightarrow> k < chunk_count cnt ept \<longleftrightarrow> k * ept < cnt"
proof -
  assume "0 < ept"
  then have "k < (cnt + ept - 1) div ept \<longleftrightarrow> Suc k * ept \<le> cnt + ept - 1"
    by (simp add: less_eq_div_iff_mult_less_eq flip: Suc_le_eq)
  with \<open>0 < ept\<close> show ?thesis by (auto simp: chunk_count_def)
qed

lemma elementsPerThread_enough:
  assumes "0 < n"
  shows "cnt \<le> n * elementsPerThread n cnt"
proof -
  have "cnt + n - 1 < Suc ((cnt + n - 1) div n) * n"
    using assms by (simp add: dividend_less_div_times)
  then show ?thesis using assms by (simp add: elementsPerThread_def algebra_simps)
qed

lemma elementsPerThread_pos: "0 < n \<Longrightarrow> 0 < cnt \<Longrightarrow> 0 < elementsPerThread n cnt"
  by (simp add: elementsPerThread_def div_greater_zero_iff)

lemma chunk_count_le: "0 < n \<Longrightarrow> chunk_count cnt (elementsPerThread n cnt) \<le> n"
proof (cases "cnt = 0")
  case False
  assume n: "0 < n"
  have "\<not> n < chunk_count cnt (elementsPerThread n cnt)"
    using elementsPerThread_enough[OF n, of cnt] elementsPerThread_pos[OF n, of cnt] False
    by (simp add: chunk_count_iff)
  then show ?thesis by simp
qed (simp add: chunk_count_def elementsPerThread_def)

lemma MapToListLoop_chunks:
  assumes "0 < ept" "chunk_count cnt ept \<le> n" "k \<le> chunk_count cnt ept"
  shows "MapToListLoop n cnt ept (k * ept) =
    Some (map (\<lambda>k. Enter k (k * ept) (chunk_end cnt ept k)) [k..<chunk_count cnt ept])"
  using assms(3)
proof (induction "chunk_count cnt ept - k" arbitrary: k)
  case 0
  then have "k = chunk_count cnt ept" by simp
  then have "\<not> k * ept < cnt" using chunk_count_iff[OF assms(1), of k cnt] by simp
  then show ?case using 0 by (simp add: MapToListLoop.simps)
next
  case (Suc m)
  then have k: "k < chunk_count cnt ept" by simp
  then have "k * ept < cnt" using chunk_count_iff[OF assms(1)] by simp
  moreover have "MapToListLoop n cnt ept (Suc k * ept) =
      Some (map (\<lambda>k. Enter k (k * ept) (chunk_end cnt ept k)) [Suc k..<chunk_count cnt ept])"
    using Suc k by (intro Suc.hyps(1)) auto
  ultimately show ?case using k assms(1,2)
    by (simp add: MapToListLoop.simps[of n cnt ept "k * ept"] upt_rec[of k] chunk_end_def add.commute)
qed

lemma MapToList_calls:
  assumes "0 < n"
  shows "MapToList n cnt = Some (map CallAsync (map (\<lambda>k. Enter k (k * elementsPerThread n cnt)
      (chunk_end cnt (elementsPerThread n cnt) k)) [0..<chunk_count cnt (elementsPerThread n cnt)]) @ [CallWaitForIdle])"
proof (cases "cnt = 0")
  case True
  with assms show ?thesis
    by (simp add: MapToList_def MapToListLoop.simps chunk_count_def elementsPerThread_def)
next
  case False
  with MapToListLoop_chunks[OF elementsPerThread_pos[OF assms] chunk_count_le[OF assms], of cnt 0] show ?thesis
    by (simp add: MapToList_def)
qed

lemma concat_chunks:
  assumes "0 < ept"
  shows "concat (map (\<lambda>k. concat (map f [k * ept..<chunk_end cnt ept k])) [0..<m]) =
    concat (map f [0..<min (m * ept) cnt])"
proof (induction m)
  case (Suc m)
  have "[0..<min (m * ept) cnt] @ [m * ept..<chunk_end cnt ept m] = [0..<min (Suc m * ept) cnt]"
  proof (cases "m * ept \<le> cnt")
    case True
    then show ?thesis using upt_add_eq_append[of 0 "m * ept" "chunk_end cnt ept m - m * ept"]
      by (auto simp: chunk_end_def min_def add.commute split: if_splits)
  next
    case False
    then show ?thesis by (simp add: chunk_end_def)
  qed
  from arg_cong[OF this, of "\<lambda>l. concat (map f l)"] Suc show ?case by simp
qed simp

subsection \<open>The tasks of a call\<close>

text \<open>
  \<open>task_ok\<close>: what a task that has not ended knows about its list. \<open>chunk_done\<close>: the list of a chunk
  whose callbacks all returned.
\<close>

definition chunk_done :: "'a map_callback \<Rightarrow> 'a list list \<Rightarrow> nat \<Rightarrow> nat \<Rightarrow> nat \<Rightarrow> bool" where
  "chunk_done cb subs k i e \<longleftrightarrow> subs ! k = concat (map (fst \<circ> cb) [i..<e]) \<and> (\<forall>j \<in> {i..<e}. snd (cb j) = None)"

fun task_ok :: "'a map_callback \<Rightarrow> nat \<Rightarrow> nat \<Rightarrow> 'a list list \<Rightarrow> MapTask \<Rightarrow> bool" where
  "task_ok cb cnt ept subs (Enter k i e) \<longleftrightarrow>
     k < chunk_count cnt ept \<and> i = k * ept \<and> e = chunk_end cnt ept k \<and> subs ! k = []"
| "task_ok cb cnt ept subs (Accumulate k i e) \<longleftrightarrow>
     k < chunk_count cnt ept \<and> k * ept \<le> i \<and> i \<le> e \<and> e = chunk_end cnt ept k \<and> chunk_done cb subs k (k * ept) i"

definition distinct_tids :: "MapTask multiset \<Rightarrow> bool" where
  "distinct_tids M \<longleftrightarrow> (\<forall>k. count (image_mset tid M) k \<le> 1)"

lemma distinct_tids_empty [simp]: "distinct_tids {#}"
  by (simp add: distinct_tids_def)

lemma count_add_le_one: "(\<forall>k. count (add_mset x A) k \<le> 1) \<longleftrightarrow> x \<notin># A \<and> (\<forall>k. count A k \<le> 1)"
proof (intro iffI conjI allI; (elim conjE)?)
  assume all: "\<forall>k. count (add_mset x A) k \<le> 1"
  from all[rule_format, of x] show "x \<notin># A" by (simp add: not_in_iff)
  show "count A k \<le> 1" for k using all[rule_format, of k] by (simp split: if_splits)
next
  fix k assume "x \<notin># A" "\<forall>k. count A k \<le> 1"
  then show "count (add_mset x A) k \<le> 1" by (cases "k = x") (simp_all add: not_in_iff)
qed

lemma distinct_tids_add [simp]:
  "distinct_tids (add_mset t R) \<longleftrightarrow> tid t \<notin> tid ` set_mset R \<and> distinct_tids R"
  using count_add_le_one[of "tid t" "image_mset tid R"] unfolding distinct_tids_def by simp

definition map_inv :: "'a map_callback \<Rightarrow> nat \<Rightarrow> nat \<Rightarrow> (MapTask, 'a list list) ThreadPool \<Rightarrow> bool" where
  "map_inv cb cnt ept s \<longleftrightarrow>
     length (memory s) = length (threads s) \<and>
     distinct_tids (pending s) \<and>
     (\<forall>t \<in># pending s. task_ok cb cnt ept (memory s) t) \<and>
     (\<forall>k < chunk_count cnt ept. k \<notin> tid ` set_mset (pending s) \<longrightarrow>
        errs s \<noteq> {} \<or> chunk_done cb (memory s) k (k * ept) (chunk_end cnt ept k)) \<and>
     (\<forall>k < length (threads s). chunk_count cnt ept \<le> k \<longrightarrow> memory s ! k = []) \<and>
     (\<forall>e \<in> errs s. \<exists>j < cnt. snd (cb j) = Some e)"

lemma MapTask_run_tid: "MapTask_run cb t m = (Inl t', m') \<Longrightarrow> tid t' = tid t"
  by (cases t) (auto split: if_splits prod.splits option.splits)

lemma MapTask_run_frame:
  "MapTask_run cb t m = (r, m') \<Longrightarrow> length m' = length m \<and> (\<forall>k. k \<noteq> tid t \<longrightarrow> m' ! k = m ! k)"
  by (cases t) (auto split: if_splits prod.splits option.splits)

lemma chunk_bounds: "k < chunk_count cnt ept \<Longrightarrow> 0 < ept \<and> k * ept < cnt \<and> k * ept < chunk_end cnt ept k \<and> chunk_end cnt ept k \<le> cnt"
  using chunk_count_iff[of ept k cnt] by (cases "ept = 0") (auto simp: chunk_count_def chunk_end_def)

text \<open>One piece of a task: it keeps what it knows, or it ends with its chunk done, or with the exception
  of a callback.\<close>

lemma MapTask_run_ok:
  assumes "task_ok cb cnt ept m t" "MapTask_run cb t m = (r, m')" "tid t < length m"
  shows "(\<exists>t'. r = Inl t' \<and> task_ok cb cnt ept m' t') \<or>
    (r = Inr None \<and> chunk_done cb m' (tid t) (tid t * ept) (chunk_end cnt ept (tid t))) \<or>
    (\<exists>e j. r = Inr (Some e) \<and> j < cnt \<and> snd (cb j) = Some e)"
proof (cases t)
  case (Enter k i e)
  with assms chunk_bounds[of k cnt ept] show ?thesis by (auto simp: chunk_done_def)
next
  case (Accumulate k i e)
  note ok = assms(1)[unfolded Accumulate task_ok.simps]
  show ?thesis
  proof (cases "i < e")
    case True
    obtain res err where cb: "cb i = (res, err)" by force
    have range: "{k * ept..<Suc i} = insert i {k * ept..<i}" "[k * ept..<Suc i] = [k * ept..<i] @ [i]" using ok by auto
    have "i < cnt" using True ok chunk_bounds[of k cnt ept] by auto
    moreover have "snd (cb i) = err" using cb by simp
    ultimately show ?thesis using assms(2,3) True Accumulate ok cb range
      by (cases err) (fastforce simp: chunk_done_def)+
  next
    case False
    with assms(2) ok Accumulate show ?thesis by auto
  qed
qed

lemma task_ok_frame:
  "task_ok cb cnt ept m t \<Longrightarrow> m' ! tid t = m ! tid t \<Longrightarrow> task_ok cb cnt ept m' t"
  by (cases t) (auto simp: chunk_done_def)

lemma quiet_map_inv:
  assumes "map_inv cb cnt ept s" "quiet s s'" "length (threads s') = length (threads s)"
  shows "map_inv cb cnt ept s'"
  using assms unfolding map_inv_def quiet_def by (elim conjE, simp) blast

lemma runs_task_map_inv:
  assumes "map_inv cb cnt ept s" "runs_task (MapTask_run cb) s s'" "length (threads s') = length (threads s)"
    and "chunk_count cnt ept \<le> length (threads s)"
  shows "map_inv cb cnt ept s'"
proof -
  from assms(2) obtain t R r where t: "pending s = add_mset t R" "MapTask_run cb t (memory s) = (r, memory s')"
    "pending s' = (case r of Inl t' \<Rightarrow> {#t'#} | Inr _ \<Rightarrow> {#}) + R"
    "errs s' = (case r of Inr (Some e) \<Rightarrow> {e} | _ \<Rightarrow> {}) \<union> errs s"
    unfolding runs_task_def by blast
  note inv = assms(1)[unfolded map_inv_def]
  have ok: "task_ok cb cnt ept (memory s) t" using inv t(1) by simp
  then have k: "tid t < chunk_count cnt ept" by (cases t) auto
  have fresh: "tid t \<notin> tid ` set_mset R" "distinct_tids R" using inv t(1) by simp_all
  note frame = MapTask_run_frame[OF t(2)]
  have R_ok: "\<forall>u \<in># R. task_ok cb cnt ept (memory s') u"
  proof
    fix u assume u: "u \<in># R"
    with fresh(1) have "tid u \<noteq> tid t" by (metis image_eqI)
    with frame have "memory s' ! tid u = memory s ! tid u" by simp
    moreover have "task_ok cb cnt ept (memory s) u" using inv t(1) u by simp
    ultimately show "task_ok cb cnt ept (memory s') u" by (rule task_ok_frame[rotated])
  qed
  have "tid t < length (memory s)" using k assms(4) inv by simp
  note run = MapTask_run_ok[OF ok t(2) this]
  have len: "length (memory s') = length (threads s')" using frame inv assms(3) by simp
  have tail: "\<forall>k < length (threads s'). chunk_count cnt ept \<le> k \<longrightarrow> memory s' ! k = []"
    using frame k inv assms(3) by (metis leD)
  have others: "errs s \<noteq> {} \<or> chunk_done cb (memory s') j (j * ept) (chunk_end cnt ept j)"
    if "j < chunk_count cnt ept" "j \<noteq> tid t" "j \<notin> tid ` set_mset R" for j
  proof -
    have "j \<notin> tid ` set_mset (pending s)" using that(2,3) t(1) by auto
    then have "errs s \<noteq> {} \<or> chunk_done cb (memory s) j (j * ept) (chunk_end cnt ept j)" using inv that(1) by blast
    then show ?thesis using frame that(2) by (simp add: chunk_done_def)
  qed
  have errs_ok: "\<forall>e \<in> errs s. \<exists>j < cnt. snd (cb j) = Some e" using inv by blast
  from run consider t' where "r = Inl t'" "task_ok cb cnt ept (memory s') t'"
    | "r = Inr None" "chunk_done cb (memory s') (tid t) (tid t * ept) (chunk_end cnt ept (tid t))"
    | e j where "r = Inr (Some e)" "j < cnt" "snd (cb j) = Some e" by blast
  then show ?thesis
  proof cases
    case 1
    then have tid: "tid t' = tid t" using MapTask_run_tid t(2) by metis
    have p: "pending s' = add_mset t' R" "errs s' = errs s" using t(3,4) 1(1) by simp_all
    then have "distinct_tids (pending s')" using fresh tid by simp
    moreover have "\<forall>u \<in># pending s'. task_ok cb cnt ept (memory s') u" using R_ok 1(2) p by simp
    moreover have "\<forall>j < chunk_count cnt ept. j \<notin> tid ` set_mset (pending s') \<longrightarrow>
        errs s' \<noteq> {} \<or> chunk_done cb (memory s') j (j * ept) (chunk_end cnt ept j)" using others p tid by simp
    ultimately show ?thesis using len tail errs_ok p unfolding map_inv_def by simp
  next
    case 2
    have p: "pending s' = R" "errs s' = errs s" using t(3,4) 2(1) by simp_all
    then show ?thesis using 2 len tail R_ok others errs_ok fresh unfolding map_inv_def by metis
  next
    case 3
    have p: "pending s' = R" "errs s' = insert e (errs s)" using t(3,4) 3(1) by simp_all
    then show ?thesis using 3 len tail R_ok errs_ok fresh(2) unfolding map_inv_def by simp blast
  qed
qed

subsection \<open>The client of a call\<close>

definition map_script :: "MapTask instr list \<Rightarrow> bool" where
  "map_script r \<longleftrightarrow> (\<exists>ts. r = client_code (map CallAsync ts @ [CallWaitForIdle]) \<or>
     r = NotifyOne # client_code (map CallAsync ts @ [CallWaitForIdle])) \<or>
     r \<in> insert destructor (insert [SetExit, NotifyAll, Join] (set exiting))"

text \<open>Everything known about a pool that runs a call of \<^verbatim>\<open>MapToList\<close>.\<close>

definition map_run_inv :: "'a map_callback \<Rightarrow> nat \<Rightarrow> nat \<Rightarrow> nat \<Rightarrow> (MapTask, 'a list list) ThreadPool \<Rightarrow> bool" where
  "map_run_inv cb cnt ept n s \<longleftrightarrow> pool_inv s \<and> waited s \<and> map_inv cb cnt ept s \<and> map_script (script s) \<and>
     length (threads s) = n \<and> chunk_count cnt ept \<le> n \<and>
     status s \<in> {Normal} \<union> range Unwinding \<and> (status s \<noteq> Normal \<longrightarrow> MapToList_returned s)"

lemma map_scriptE:
  assumes "map_script (i # r)"
  shows "(case i of
     Push t \<Rightarrow> \<exists>ts. r = NotifyOne # client_code (map CallAsync ts @ [CallWaitForIdle])
   | NotifyOne \<Rightarrow> \<exists>ts. r = client_code (map CallAsync ts @ [CallWaitForIdle])
   | WaitIdle d \<Rightarrow> r = (if d then [SetExit, NotifyAll, Join] else destructor)
   | SetExit \<Rightarrow> r = [NotifyAll, Join] | NotifyAll \<Rightarrow> r = [Join] | Join \<Rightarrow> r = [])"
proof -
  from assms consider ts where "i # r = client_code (map CallAsync ts @ [CallWaitForIdle])"
    | ts where "i # r = NotifyOne # client_code (map CallAsync ts @ [CallWaitForIdle])"
    | "i # r \<in> insert destructor (insert [SetExit, NotifyAll, Join] (set exiting))"
    unfolding map_script_def by blast
  then show ?thesis
  proof cases
    case 1
    then show ?thesis by (cases ts) auto
  next
    case 3
    then show ?thesis by (auto simp: destructor_def exiting_def)
  qed auto
qed

lemma map_script_intros [simp]:
  "map_script (client_code (map CallAsync ts @ [CallWaitForIdle]))"
  "map_script (NotifyOne # client_code (map CallAsync ts @ [CallWaitForIdle]))"
  "map_script destructor" "map_script [SetExit, NotifyAll, Join]" "map_script [NotifyAll, Join]"
  "map_script [Join]" "map_script []"
  by (auto simp: map_script_def)

lemma not_returned [simp]:
  "script s = Push t # r \<Longrightarrow> \<not> MapToList_returned s" "script s = NotifyOne # r \<Longrightarrow> \<not> MapToList_returned s"
  "script s = WaitIdle False # r \<Longrightarrow> \<not> MapToList_returned s"
  by (simp_all add: MapToList_returned_def destructor_def)

lemma client_step_map_script:
  assumes "client_step s = Some s'" "map_script (script s)"
  shows "map_script (script s')"
proof (cases "script s")
  case (Cons i r)
  with map_scriptE[of i r] assms show ?thesis
    by (cases i) (auto simp: pool_defs split: if_splits option.splits)
qed (use assms(1) in \<open>simp add: client_step_def\<close>)

lemma client_step_status:
  assumes "client_step s = Some s'" "map_run_inv cb cnt ept n s"
  shows "status s' \<in> {Normal} \<union> range Unwinding \<and> (status s' \<noteq> Normal \<longrightarrow> MapToList_returned s') \<and>
    length (threads s') = length (threads s)"
proof (cases "script s")
  case (Cons i r)
  note inv = assms(2)[unfolded map_run_inv_def]
  have next': "map_script (i # r)" using inv Cons by simp
  show ?thesis
  proof (cases i)
    case (WaitIdle d)
    have "d \<Longrightarrow> script s = destructor" using map_scriptE[OF next'] WaitIdle Cons by (simp add: destructor_def)
    then have "d \<Longrightarrow> errorString s = None" using inv by (auto simp: waited_def)
    moreover have "taskQueue s = []" if "tasksEnqueued s = tasksCompleted s"
      using no_outstanding[OF _ that] inv by blast
    ultimately show ?thesis using assms(1) inv Cons WaitIdle map_scriptE[OF next']
      by (cases d) (auto simp: pool_defs MapToList_returned_def split: if_splits option.splits)
  qed (use assms(1) inv Cons map_scriptE[OF next'] in
      \<open>auto simp: client_step_def MapToList_returned_def split: if_splits\<close>)
qed (use assms(1) in \<open>simp add: client_step_def\<close>)

lemma pushes_map_code [simp]: "pushes (client_code (map CallAsync ts @ [CallWaitForIdle])) = ts"
  by (induction ts) simp_all

lemma client_map_quiet:
  assumes "client_step s = Some s'" "map_run_inv cb cnt ept n s"
  shows "quiet s s'"
proof (rule client_quiet[OF assms(1)])
  note inv = assms(2)[unfolded map_run_inv_def]
  show "pool_inv s" "status s \<in> {Normal} \<union> range Unwinding" using inv by blast+
  show "pushes r = [] \<and> status s = Normal" if r: "script s = WaitIdle False # r" for r
    using inv map_scriptE[of "WaitIdle False" r] r not_returned(3)[OF r] by auto
  show "errorString s = None" if "script s = destructor" using inv that by (auto simp: waited_def)
qed

lemma quiet_step_map_run_inv:
  assumes "map_run_inv cb cnt ept n s" "quiet s s'" "length (threads s') = length (threads s)"
    and "pool_inv s'" "waited s'" "map_script (script s')"
    and "status s' \<in> {Normal} \<union> range Unwinding \<and> (status s' \<noteq> Normal \<longrightarrow> MapToList_returned s')"
  shows "map_run_inv cb cnt ept n s'"
  using assms quiet_map_inv[of cb cnt ept s s'] by (simp add: map_run_inv_def)

lemma notify_one_frame:
  "s' \<in> set (notify_one s) \<Longrightarrow> length (threads s') = length (threads s) \<and> script s' = script s \<and> status s' = status s"
  by (elim notify_one_cases) auto

lemma pool_step_map_run_inv:
  assumes "pool_step (MapTask_run cb) s s'" "map_run_inv cb cnt ept n s"
  shows "map_run_inv cb cnt ept n s'"
proof -
  note inv = assms(2)[unfolded map_run_inv_def]
  have next_inv: "pool_inv s'" "waited s'"
    using pool_step_inv[OF assms(1)] pool_step_waited[OF assms(1)] inv by blast+
  show ?thesis using assms(1)
  proof (cases rule: pool_step.cases)
    case (worker i)
    note same = ThreadFunction_script[OF worker(2)]
    have "map_inv cb cnt ept s'"
      using ThreadFunction_effect[OF worker] quiet_map_inv runs_task_map_inv inv same by metis
    with inv same next_inv show ?thesis by (simp add: map_run_inv_def MapToList_returned_def)
  next
    case client
    show ?thesis
      using quiet_step_map_run_inv[OF assms(2) client_map_quiet[OF client assms(2)] _ next_inv]
        client_step_status[OF client assms(2)] client_step_map_script[OF client] inv by blast
  next
    case (notify r)
    note same = notify_one_frame[OF notify(2), simplified]
    have "map_script (NotifyOne # r)" "\<not> MapToList_returned s" using inv notify(1) by auto
    with map_scriptE[of NotifyOne r] inv same show ?thesis
      by (intro quiet_step_map_run_inv[OF assms(2) notify_quiet[OF notify] _ next_inv]) auto
  qed
qed

lemma spurious_map_run_inv:
  assumes "spurious_wakeup s s'" "map_run_inv cb cnt ept n s"
  shows "map_run_inv cb cnt ept n s'"
proof -
  have "length (threads s') = length (threads s) \<and> script s' = script s \<and> status s' = status s"
    using assms(1) by (cases rule: spurious_wakeup.cases) auto
  with assms spurious_inv[OF assms(1)] spurious_waited[OF assms(1)] spurious_quiet[OF assms(1)] show ?thesis
    by (intro quiet_step_map_run_inv[OF assms(2)]) (auto simp: map_run_inv_def MapToList_returned_def)
qed

lemma pool_reachable_map_run_inv:
  "pool_reachable (MapTask_run cb) s0 s \<Longrightarrow> map_run_inv cb cnt ept n s0 \<Longrightarrow> map_run_inv cb cnt ept n s"
  by (induction rule: pool_reachable.induct) (auto intro: pool_step_map_run_inv spurious_map_run_inv)

subsection \<open>Start and end of a call\<close>

lemma distinct_tids_chunks: "distinct_tids (mset (map (\<lambda>k. Enter k (f k) (g k)) [a..<b]))"
proof (induction b)
  case (Suc b)
  then show ?case by (cases "a \<le> b") auto
qed simp

lemma MapToList_started_inv:
  assumes "MapToList_started cnt s"
  shows "map_run_inv cb cnt (elementsPerThread (length (threads s)) cnt) (length (threads s)) s"
proof -
  let ?n = "length (threads s)"
  let ?ept = "elementsPerThread ?n cnt"
  define ts where "ts = map (\<lambda>k. Enter k (k * ?ept) (chunk_end cnt ?ept k)) [0..<chunk_count cnt ?ept]"
  note st = assms[unfolded MapToList_started_def idle_pool_def]
  have n: "0 < ?n" using st by (auto simp: inv_defs)
  have code: "script s = client_code (map CallAsync ts @ [CallWaitForIdle])"
    using st MapToList_calls[OF n, of cnt] by (auto simp: ts_def)
  have "running s = 0" using no_outstanding[of s] st by blast
  note idle = idle_tasks[OF this]
  have p: "pending s = mset ts" using st idle by (simp add: pending_def code)
  have e: "errs s = {}" using st idle by (simp add: errs_def)
  have "map_inv cb cnt ?ept s"
    unfolding map_inv_def p e ts_def using st chunk_count_le[OF n, of cnt] distinct_tids_chunks by (fastforce simp: image_image)
  moreover have "waited s" using st by (simp add: waited_code[OF code])
  ultimately show ?thesis
    using st chunk_count_le[OF n] by (simp add: map_run_inv_def code)
qed

lemma concat_memory:
  assumes "length mem = n" "m \<le> n" "\<And>k. k < m \<Longrightarrow> mem ! k = f k" "\<And>k. k < n \<Longrightarrow> m \<le> k \<Longrightarrow> mem ! k = []"
  shows "concat mem = concat (map f [0..<m])"
proof -
  have take: "take m mem = map f [0..<m]" using assms(1-3) by (auto intro!: nth_equalityI)
  have "\<forall>x \<in> set (drop m mem). x = []" using assms(1,4) by (auto simp: in_set_conv_nth)
  then have drop: "concat (drop m mem) = []" by simp
  show ?thesis using arg_cong[OF append_take_drop_id[of m mem], of concat] take drop by simp
qed

lemma splice_subLists_concat: "splice_subLists rs subs = rs @ concat subs"
  unfolding splice_subLists_def by (induction subs arbitrary: rs) auto

lemma chunks_cover: "0 < ept \<Longrightarrow> i < cnt \<Longrightarrow> i div ept < chunk_count cnt ept \<and> i \<in> {i div ept * ept..<chunk_end cnt ept (i div ept)}"
  using dividend_less_div_times[of ept i]
  by (auto simp: chunk_count_iff chunk_end_def add.commute intro: le_less_trans[of _ i])

lemma map_returned:
  assumes "map_run_inv cb cnt ept n s" "MapToList_returned s"
  shows "pending s = {#} \<and> errs s = (case status s of Unwinding e \<Rightarrow> {e} | _ \<Rightarrow> {})"
proof -
  note inv = assms(1)[unfolded map_run_inv_def]
  have w: "errorString s = None" "tasksEnqueued s = tasksCompleted s"
    using inv assms(2) by (auto simp: waited_def MapToList_returned_def)
  note idle = no_outstanding[OF _ w(2)] idle_tasks[of s]
  have "pushes (script s) = []" using assms(2) by (auto simp: MapToList_returned_def exiting_def)
  with idle inv w(1) show ?thesis by (simp add: pending_def errs_def)
qed

lemma map_returned_normal:
  assumes "map_run_inv cb cnt ept n s" "MapToList_returned s" "status s = Normal" "cnt \<le> n * ept" "cnt > 0 \<Longrightarrow> 0 < ept"
  shows "(\<forall>i < cnt. snd (cb i) = None) \<and> concat (memory s) = concat (map (fst \<circ> cb) [0..<cnt])"
proof -
  note inv = assms(1)[unfolded map_run_inv_def map_inv_def]
  note ret = map_returned[OF assms(1,2), unfolded assms(3)]
  have chunk: "chunk_done cb (memory s) k (k * ept) (chunk_end cnt ept k)" if "k < chunk_count cnt ept" for k
    using inv ret that by simp
  have ok: "snd (cb i) = None" if "i < cnt" for i
    using chunk[of "i div ept"] chunks_cover[of ept i cnt] that assms(5) unfolding chunk_done_def by force
  have "concat (memory s) = concat (map (\<lambda>k. concat (map (fst \<circ> cb) [k * ept..<chunk_end cnt ept k])) [0..<chunk_count cnt ept])"
    using inv chunk by (intro concat_memory[where n = n]) (auto simp: chunk_done_def)
  also have "\<dots> = concat (map (fst \<circ> cb) [0..<cnt])"
  proof (cases "cnt = 0")
    case False
    then have "cnt \<le> chunk_count cnt ept * ept" using chunk_count_iff[of ept "chunk_count cnt ept" cnt] assms(5) by simp
    with concat_chunks[of ept "fst \<circ> cb" cnt "chunk_count cnt ept"] False assms(5) show ?thesis by (simp add: min_absorb2)
  qed (use chunk_bounds[of _ 0 ept] in \<open>auto simp: chunk_count_def\<close>)
  finally show ?thesis using ok by blast
qed

text \<open>C13: \<^verbatim>\<open>MapToList\<close> behaves like the sequential loop. Whatever the number of threads and their
  interleaving, when it returns, the result list has been extended by what the callback appends for element
  0, 1, 2, ... in this order; when some callback throws, \<^verbatim>\<open>MapToList\<close> throws the exception of one of them.\<close>

theorem MapToList_correct:
  assumes "MapToList_started cnt s0" "pool_reachable (MapTask_run callback) s0 s" "MapToList_returned s"
  shows "case MapToList_result resultList cnt callback of
      Some results \<Rightarrow> status s = Normal \<and> splice_subLists resultList (memory s) = results
    | None \<Rightarrow> \<exists>e i. status s = Unwinding e \<and> i < cnt \<and> snd (callback i) = Some e"
proof -
  let ?n = "length (threads s0)"
  let ?ept = "elementsPerThread ?n cnt"
  have n: "0 < ?n" using assms(1) by (auto simp: MapToList_started_def idle_pool_def inv_defs)
  have inv: "map_run_inv callback cnt ?ept ?n s"
    using pool_reachable_map_run_inv[OF assms(2) MapToList_started_inv[OF assms(1)]] .
  note normal = map_returned_normal[OF inv assms(3) _ elementsPerThread_enough[OF n] elementsPerThread_pos[OF n]]
  from inv consider "status s = Normal" | e where "status s = Unwinding e" by (auto simp: map_run_inv_def)
  then show ?thesis
  proof cases
    case 1
    from normal[OF 1] 1 show ?thesis
      by (simp add: splice_subLists_concat comp_def MapToList_result_def list_all_iff)
  next
    case 2
    then have "errs s = {e}" using map_returned[OF inv assms(3)] by simp
    with inv obtain j where j: "j < cnt" "snd (callback j) = Some e" by (auto simp: map_run_inv_def map_inv_def)
    then have "\<not> (\<forall>i < cnt. snd (callback i) = None)" by force
    with 2 j show ?thesis by (auto simp: MapToList_result_def list_all_iff)
  qed
qed

subsection \<open>Every call returns\<close>

fun MapTask_weight :: "MapTask \<Rightarrow> nat" where
  "MapTask_weight (Enter k i e) = e - i + 1"
| "MapTask_weight (Accumulate k i e) = e - i"

interpretation map_tasks: finite_tasks "MapTask_run callback" MapTask_weight
proof
  fix t t' and m m' :: "'a list list"
  assume "MapTask_run callback t m = (Inl t', m')"
  then show "MapTask_weight t' < MapTask_weight t"
    by (cases t) (auto split: if_splits prod.splits option.splits)
qed

lemma MapToList_started_pool_inv: "MapToList_started cnt s \<Longrightarrow> pool_inv s"
  by (simp add: MapToList_started_def idle_pool_def)

text \<open>C14: \<^verbatim>\<open>MapToList\<close> and the destructor of its pool always come to an end. From every state that can
  be reached, spurious wake-ups included, no schedule of the threads and the client runs forever, and a
  schedule that has no next step has returned from \<^verbatim>\<open>MapToList\<close> and joined every thread: there is no
  deadlock and no lost wake-up.\<close>

theorem MapToList_returns:
  assumes "MapToList_started cnt s0" "pool_reachable (MapTask_run callback) s0 s"
  shows "(\<nexists>f. f 0 = s \<and> (\<forall>i. pool_step (MapTask_run callback) (f i) (f (Suc i)))) \<and>
    (\<forall>s'. (pool_step (MapTask_run callback))\<^sup>*\<^sup>* s s' \<and> (\<nexists>s''. pool_step (MapTask_run callback) s' s'') \<longrightarrow>
      MapToList_returned s' \<and> all_exited (threads s'))"
proof -
  let ?run = "MapTask_run callback"
  have inv: "pool_inv s" using pool_reachable_inv[OF assms(2) MapToList_started_pool_inv[OF assms(1)]] .
  have "MapToList_returned s' \<and> all_exited (threads s')"
    if run: "(pool_step ?run)\<^sup>*\<^sup>* s s'" and stuck: "\<nexists>s''. pool_step ?run s' s''" for s'
  proof -
    have "pool_reachable ?run s0 s'"
      using run assms(2) by (induction rule: rtranclp_induct) (auto intro: pool_reachable.step)
    from pool_reachable_map_run_inv[OF this MapToList_started_inv[OF assms(1)]]
    have "status s' \<noteq> Terminated" by (auto simp: map_run_inv_def waited_def)
    with map_tasks.terminates[OF inv] run stuck show ?thesis
      by (auto simp: pool_finished_def MapToList_returned_def)
  qed
  with map_tasks.no_infinite_run[OF inv] show ?thesis by blast
qed

subsection \<open>Examples\<close>

definition squares :: "nat map_callback" where
  "squares i = ([i * i], None)"

definition squares_pool :: "(MapTask, nat list list) ThreadPool" where
  "squares_pool = new_ThreadPool 2 (the (MapToList 2 3)) [[], []]"

lemma squares_pool_started: "MapToList_started 3 squares_pool"
  using new_ThreadPool_inv[of 2 "the (MapToList 2 3)" "[[], []] :: nat list list"] MapToList_calls[of 2 3]
  by (simp add: MapToList_started_def squares_pool_def idle_pool_def new_ThreadPool_def numeral_2_eq_2)

lemma squares_pool_finishes:
  "\<exists>s. pool_reachable (MapTask_run squares) squares_pool s \<and> (\<nexists>s'. pool_step (MapTask_run squares) s s')"
proof (rule ccontr)
  assume none: "\<not> ?thesis"
  define nxt where "nxt s = (SOME s'. pool_step (MapTask_run squares) s s')" for s
  have nxt: "pool_reachable (MapTask_run squares) squares_pool s \<Longrightarrow> pool_step (MapTask_run squares) s (nxt s)" for s
    using none someI_ex[of "pool_step (MapTask_run squares) s"] unfolding nxt_def by blast
  have reach: "pool_reachable (MapTask_run squares) squares_pool ((nxt ^^ i) squares_pool)" for i
    by (induction i) (auto intro: pool_reachable.intros nxt)
  from map_tasks.no_infinite_run[OF MapToList_started_pool_inv[OF squares_pool_started],
      of "\<lambda>i. (nxt ^^ i) squares_pool" squares] reach nxt
  show False by auto
qed

theorem MapToList_correct_witness:
  "\<exists>s. pool_reachable (MapTask_run squares) squares_pool s \<and> MapToList_returned s \<and> status s = Normal \<and>
     splice_subLists [7] (memory s) = [7, 0, 1, 4]"
proof -
  obtain s where s: "pool_reachable (MapTask_run squares) squares_pool s" "\<nexists>s'. pool_step (MapTask_run squares) s s'"
    using squares_pool_finishes by blast
  have "pool_finished s"
    using pool_progress[OF pool_reachable_inv[OF s(1) MapToList_started_pool_inv[OF squares_pool_started]]] s(2) by blast
  then have ret: "MapToList_returned s" by (simp add: pool_finished_def MapToList_returned_def)
  from MapToList_correct[OF squares_pool_started s(1) ret, of "[7]"]
  have "status s = Normal \<and> splice_subLists [7] (memory s) = [7, 0, 1, 4]"
    by (simp add: squares_def upt_rec MapToList_result_def)
  with s(1) ret show ?thesis by blast
qed

theorem MapToList_returns_witness:
  "\<exists>s. pool_reachable (MapTask_run squares) squares_pool s \<and> MapToList_returned s \<and> all_exited (threads s)"
proof -
  obtain s where s: "pool_reachable (MapTask_run squares) squares_pool s" "\<nexists>s'. pool_step (MapTask_run squares) s s'"
    using squares_pool_finishes by blast
  from MapToList_returns[OF squares_pool_started s(1)] s show ?thesis by blast
qed

end
