(* ===== verification/Branch_And_Bound.thy ===== *)
theory Branch_And_Bound
  imports Compressed_Vector Map_To_List
begin

text \<open>
  The optimiser of \<^verbatim>\<open>compiler/cpp/branch_and_bound.cpp\<close>. \<open>IntegerBranchAndBoundImpl\<close> keeps a work list of regions of the
  search space, each an \<open>IntegerParameterVector\<close> with some parameters defined and bounds of the objective
  function; an iteration drops regions that cannot hold a better point, records regions that are points, and
  splits the most promising others. The callback of the caller is a parameter of the model; the call
  that reports the optimal point is the result. The parallel refinement goes through \<open>MapToList_result\<close>.
\<close>

subsection \<open>Definitions\<close>

record ObjectiveFunctionBounds =
  lowerBound :: nat
  upperBound :: nat

type_synonym BoundObjectiveFunction = "IntegerParameterVector \<Rightarrow> ObjectiveFunctionBounds"

text \<open>\<^verbatim>\<open>std::numeric_limits<size_t>::max()\<close>\<close>

definition sizeMax :: nat where
  "sizeMax = 2 ^ 64 - 1"

record WorkListEntry =
  wle_parameters :: IntegerParameterVector
  wle_bounds :: ObjectiveFunctionBounds

record SearchState =
  workList :: "WorkListEntry list"
  bestObjectiveFunctionValue :: nat
  bestParameters :: IntegerParameterVector

text \<open>\<^verbatim>\<open>std::set<size_t>\<close> is the sorted list of its elements.\<close>

definition SelectParameterStep :: "nat list \<Rightarrow> nat list \<Rightarrow> IntegerParameterVector \<Rightarrow> nat \<Rightarrow> nat option \<Rightarrow> nat option option" where
  "SelectParameterStep parameterRanges parametersToOptimize ipv i selected = do {
     def \<leftarrow> IsParameterDefined ipv i;
     Some (if \<not> def \<and> i \<in> set parametersToOptimize then
             (case selected of
                Some j \<Rightarrow> if parameterRanges ! i < parameterRanges ! j then Some i else selected
              | None \<Rightarrow> Some i)
           else selected) }"

definition selectParameterToDefine :: "nat list \<Rightarrow> nat list \<Rightarrow> IntegerParameterVector \<Rightarrow> nat option" where
  "selectParameterToDefine parameterRanges parametersToOptimize ipv = do {
     selected \<leftarrow> fold_opt (SelectParameterStep parameterRanges parametersToOptimize ipv) [0..<GetParameterCount ipv] None;
     selected }"

fun allDefined :: "nat list \<Rightarrow> IntegerParameterVector \<Rightarrow> bool option" where
  "allDefined [] params = Some True"
| "allDefined (parameterIndex # rest) params = do {
     def \<leftarrow> IsParameterDefined params parameterIndex;
     if \<not> def then Some False else allDefined rest params }"

definition SeedStep :: "nat \<times> nat \<Rightarrow> IntegerParameterVector \<Rightarrow> IntegerParameterVector option" where
  "SeedStep p params = do {
     def \<leftarrow> IsParameterDefined params (fst p);
     _ \<leftarrow> assert_that (\<not> def);
     SetParameter params (fst p) (snd p) }"

definition SeedWorkList :: "CodeBook \<Rightarrow> BoundObjectiveFunction \<Rightarrow> (nat, nat) smap \<Rightarrow> WorkListEntry list option" where
  "SeedWorkList codeBook boundCallback fixedParameterValues = do {
     params \<leftarrow> fold_opt SeedStep fixedParameterValues (new_IntegerParameterVector codeBook);
     Some [\<lparr>wle_parameters = params, wle_bounds = boundCallback params\<rparr>] }"

definition lowestLowerBound :: "WorkListEntry list \<Rightarrow> nat" where
  "lowestLowerBound wl = fold (\<lambda>wle acc. min acc (lowerBound (wle_bounds wle))) wl sizeMax"

definition lowestUpperBound :: "WorkListEntry list \<Rightarrow> nat" where
  "lowestUpperBound wl = fold (\<lambda>wle acc. min acc (upperBound (wle_bounds wle))) wl sizeMax"

definition shouldFilter :: "nat \<Rightarrow> nat \<Rightarrow> ObjectiveFunctionBounds \<Rightarrow> bool" where
  "shouldFilter lowestUpper best bounds \<longleftrightarrow> lowerBound bounds > lowestUpper \<or> lowerBound bounds \<ge> best"

text \<open>The locals of an iteration. The filter uses the best value found before the iteration.\<close>

record IterationState =
  it_best :: nat
  it_bestParameters :: IntegerParameterVector
  elementsToRefine :: "WorkListEntry list"
  newWorkList :: "WorkListEntry list"

definition ClassifyStep :: "nat list \<Rightarrow> nat \<Rightarrow> nat \<Rightarrow> nat \<Rightarrow> WorkListEntry \<Rightarrow> IterationState \<Rightarrow> IterationState option" where
  "ClassifyStep parametersToOptimize lowestLower lowestUpper bestBefore wle st =
     (let bounds = wle_bounds wle in
      if shouldFilter lowestUpper bestBefore bounds then Some st
      else do {
        def \<leftarrow> allDefined parametersToOptimize (wle_parameters wle);
        Some (if def then
                (if lowerBound bounds < it_best st
                 then st\<lparr>it_best := lowerBound bounds, it_bestParameters := wle_parameters wle\<rparr> else st)
              else if lowerBound bounds = lowestLower \<or> upperBound bounds = lowestUpper
              then st\<lparr>elementsToRefine := elementsToRefine st @ [wle]\<rparr>
              else st\<lparr>newWorkList := newWorkList st @ [wle]\<rparr>) })"

definition RefineValue :: "BoundObjectiveFunction \<Rightarrow> WorkListEntry \<Rightarrow> nat \<Rightarrow> nat \<Rightarrow> WorkListEntry option" where
  "RefineValue boundCallback baseWle newParameterIndex newParameterValue = do {
     def \<leftarrow> IsParameterDefined (wle_parameters baseWle) newParameterIndex;
     _ \<leftarrow> assert_that (\<not> def);
     newParams \<leftarrow> SetParameter (wle_parameters baseWle) newParameterIndex newParameterValue;
     let bounds = boundCallback newParams;
     _ \<leftarrow> assert_that (lowerBound bounds \<le> upperBound bounds);
     _ \<leftarrow> assert_that (lowerBound bounds \<ge> lowerBound (wle_bounds baseWle));
     _ \<leftarrow> assert_that (upperBound bounds \<ge> lowerBound (wle_bounds baseWle));
     Some \<lparr>wle_parameters = newParams, wle_bounds = bounds\<rparr> }"

definition RefineEntry :: "nat list \<Rightarrow> nat list \<Rightarrow> BoundObjectiveFunction \<Rightarrow> WorkListEntry \<Rightarrow> WorkListEntry list option" where
  "RefineEntry parameterRanges parametersToOptimize boundCallback baseWle = do {
     newParameterIndex \<leftarrow> selectParameterToDefine parameterRanges parametersToOptimize (wle_parameters baseWle);
     _ \<leftarrow> assert_that (newParameterIndex < length parameterRanges);
     map_opt (RefineValue boundCallback baseWle newParameterIndex) [0..<parameterRanges ! newParameterIndex] }"

definition refineCallback ::
  "nat list \<Rightarrow> nat list \<Rightarrow> BoundObjectiveFunction \<Rightarrow> WorkListEntry list \<Rightarrow> WorkListEntry map_callback" where
  "refineCallback parameterRanges parametersToOptimize boundCallback elements elementIndex =
     (if elementIndex < length elements
      then case RefineEntry parameterRanges parametersToOptimize boundCallback (elements ! elementIndex) of
             Some results \<Rightarrow> (results, None) | None \<Rightarrow> ([], Some ''assert'')
      else ([], Some ''assert''))"

definition Iteration :: "nat list \<Rightarrow> nat list \<Rightarrow> BoundObjectiveFunction \<Rightarrow> SearchState \<Rightarrow> SearchState option" where
  "Iteration parameterRanges parametersToOptimize boundCallback st = do {
     let lowestLower = lowestLowerBound (workList st);
     let lowestUpper = lowestUpperBound (workList st);
     it \<leftarrow> fold_opt (ClassifyStep parametersToOptimize lowestLower lowestUpper (bestObjectiveFunctionValue st))
       (workList st)
       \<lparr>it_best = bestObjectiveFunctionValue st, it_bestParameters = bestParameters st,
        elementsToRefine = [], newWorkList = []\<rparr>;
     wl \<leftarrow> MapToList_result (newWorkList it) (length (elementsToRefine it))
       (refineCallback parameterRanges parametersToOptimize boundCallback (elementsToRefine it));
     Some \<lparr>workList = wl, bestObjectiveFunctionValue = it_best it, bestParameters = it_bestParameters it\<rparr> }"

text \<open>
  The loop \<^verbatim>\<open>while (!workList.empty())\<close>. \<open>Some None\<close> is the early \<^verbatim>\<open>return false\<close>; \<open>None\<close> is an
  exception, or a loop that does not end.
\<close>

definition workListTooLarge :: "nat list \<Rightarrow> nat option \<Rightarrow> WorkListEntry list \<Rightarrow> bool" where
  "workListTooLarge parametersToOptimize maxWorkListSize wl =
     (case maxWorkListSize of None \<Rightarrow> False
      | Some limit \<Rightarrow> length wl > limit \<and> length parametersToOptimize > 1)"

partial_function (option) SearchLoop ::
  "nat list \<Rightarrow> nat list \<Rightarrow> BoundObjectiveFunction \<Rightarrow> nat option \<Rightarrow> SearchState \<Rightarrow> SearchState option option" where
  "SearchLoop parameterRanges parametersToOptimize boundCallback maxWorkListSize st =
     (if workList st = [] then Some (Some st)
      else if workListTooLarge parametersToOptimize maxWorkListSize (workList st) then Some None
      else Iteration parameterRanges parametersToOptimize boundCallback st \<bind>
        SearchLoop parameterRanges parametersToOptimize boundCallback maxWorkListSize)"

text \<open>\<open>Some (Some v)\<close>: the function calls \<^verbatim>\<open>boundCallback(v, true)\<close> and returns true.\<close>

definition IntegerBranchAndBoundImpl ::
  "nat list \<Rightarrow> BoundObjectiveFunction \<Rightarrow> nat list \<Rightarrow> nat option \<Rightarrow> (nat, nat) smap \<Rightarrow> IntegerParameterVector option option" where
  "IntegerBranchAndBoundImpl parameterRanges boundCallback parametersToOptimize maxWorkListSize fixedParameterValues = do {
     _ \<leftarrow> assert_that (parameterRanges \<noteq> []);
     _ \<leftarrow> assert_that (parametersToOptimize \<noteq> []);
     _ \<leftarrow> assert_that (list_all (\<lambda>r. r > 0) parameterRanges);
     codeBook \<leftarrow> CreateCodeBook parameterRanges;
     wl \<leftarrow> SeedWorkList codeBook boundCallback fixedParameterValues;
     outcome \<leftarrow> SearchLoop parameterRanges parametersToOptimize boundCallback maxWorkListSize
       \<lparr>workList = wl, bestObjectiveFunctionValue = sizeMax, bestParameters = empty_IntegerParameterVector\<rparr>;
     case outcome of
       None \<Rightarrow> Some None
     | Some st \<Rightarrow> do {
         _ \<leftarrow> assert_that (bestObjectiveFunctionValue st \<noteq> sizeMax);
         def \<leftarrow> allDefined parametersToOptimize (bestParameters st);
         _ \<leftarrow> assert_that def;
         _ \<leftarrow> map_opt (\<lambda>p. do { x \<leftarrow> GetParameter (bestParameters st) (fst p); assert_that (x = snd p) })
           fixedParameterValues;
         Some (Some (bestParameters st)) } }"

definition IntegerBranchAndBound :: "nat list \<Rightarrow> BoundObjectiveFunction \<Rightarrow> IntegerParameterVector option" where
  "IntegerBranchAndBound parameterRanges boundCallback =
     (if parameterRanges = [] then Some empty_IntegerParameterVector
      else do {
        searchResult \<leftarrow> IntegerBranchAndBoundImpl parameterRanges boundCallback [0..<length parameterRanges] None [];
        searchResult })"

subsection \<open>Regions and points\<close>

text \<open>
  \<open>refines q p\<close>: \<open>q\<close> defines what \<open>p\<close> defines, with the same values, and perhaps more. A region of a search
  from \<open>seed\<close> defines some of the parameters to optimise; a point defines all of them.
\<close>

definition refines :: "nat option list \<Rightarrow> nat option list \<Rightarrow> bool" where
  "refines q p \<longleftrightarrow> length q = length p \<and> (\<forall>i < length p. p ! i \<noteq> None \<longrightarrow> q ! i = p ! i)"

definition regions :: "nat list \<Rightarrow> nat list \<Rightarrow> nat option list \<Rightarrow> nat option list set" where
  "regions ranges opts seed = {p. length p = length ranges \<and> (\<forall>i < length p. \<forall>x. p ! i = Some x \<longrightarrow> x < ranges ! i) \<and>
     refines p seed \<and> (\<forall>i < length p. p ! i \<noteq> None \<longrightarrow> seed ! i \<noteq> None \<or> i \<in> set opts)}"

definition points :: "nat list \<Rightarrow> nat list \<Rightarrow> nat option list \<Rightarrow> nat option list set" where
  "points ranges opts seed = {p \<in> regions ranges opts seed. \<forall>i \<in> set opts. p ! i \<noteq> None}"

text \<open>
  What a bound callback promises (the comments of \<^verbatim>\<open>ObjectiveFunctionBounds\<close> and the assertions of the
  search): the least value \<open>V\<close> of the objective function in a region lies between the bounds, the bounds of a
  point are exact, and the lower bound does not decrease when a region is refined.
\<close>

definition bound_contract ::
  "nat list \<Rightarrow> nat list \<Rightarrow> nat option list \<Rightarrow> BoundObjectiveFunction \<Rightarrow> (nat option list \<Rightarrow> nat) \<Rightarrow> bool" where
  "bound_contract ranges opts seed cb f \<longleftrightarrow>
     (\<forall>v. ipv_ok ranges v \<and> view v \<in> regions ranges opts seed \<longrightarrow>
        lowerBound (cb v) \<le> upperBound (cb v) \<and>
        (\<forall>q \<in> points ranges opts seed. refines q (view v) \<longrightarrow> lowerBound (cb v) \<le> f q) \<and>
        (\<exists>q \<in> points ranges opts seed. refines q (view v) \<and> f q \<le> upperBound (cb v)) \<and>
        (view v \<in> points ranges opts seed \<longrightarrow> lowerBound (cb v) = f (view v))) \<and>
     (\<forall>v w. ipv_ok ranges v \<and> ipv_ok ranges w \<and> view v \<in> regions ranges opts seed \<and>
        view w \<in> regions ranges opts seed \<and> refines (view w) (view v) \<longrightarrow> lowerBound (cb v) \<le> lowerBound (cb w)) \<and>
     (\<forall>q \<in> points ranges opts seed. f q < sizeMax)"

lemma refines_refl [simp]: "refines p p"
  by (simp add: refines_def)

lemma refines_trans: "refines r q \<Longrightarrow> refines q p \<Longrightarrow> refines r p"
  by (simp add: refines_def)

lemma refines_update: "i < length p \<Longrightarrow> p ! i = None \<Longrightarrow> refines (p[i := Some x]) p"
  by (auto simp: refines_def nth_list_update)

lemma refines_child:
  "refines q p \<Longrightarrow> i < length p \<Longrightarrow> q ! i = Some x \<Longrightarrow> refines q (p[i := Some x])"
  by (auto simp: refines_def nth_list_update)

lemma regions_child:
  assumes "p \<in> regions ranges opts seed" "i \<in> set opts" "i < length ranges" "p ! i = None" "x < ranges ! i"
  shows "p[i := Some x] \<in> regions ranges opts seed"
proof -
  have "refines (p[i := Some x]) seed"
    using assms refines_trans[OF refines_update[of i p x], of seed] by (simp add: regions_def)
  then show ?thesis using assms by (auto simp: regions_def nth_list_update)
qed

lemma points_value:
  "q \<in> points ranges opts seed \<Longrightarrow> i \<in> set opts \<Longrightarrow> i < length ranges \<Longrightarrow> \<exists>x < ranges ! i. q ! i = Some x"
  by (fastforce simp: points_def regions_def)

lemma points_region: "q \<in> points ranges opts seed \<Longrightarrow> q \<in> regions ranges opts seed"
  by (simp add: points_def)

text \<open>A region without undefined parameters is the only point it contains.\<close>

lemma refines_point:
  assumes "p \<in> points ranges opts seed" "q \<in> points ranges opts seed" "refines q p"
  shows "q = p"
proof (rule nth_equalityI)
  show "length q = length p" using assms(3) by (simp add: refines_def)
  fix i assume i: "i < length q"
  show "q ! i = p ! i"
  proof (cases "p ! i")
    case None
    then have "seed ! i = None" "i \<notin> set opts" using assms(1) i \<open>length q = length p\<close>
      by (auto simp: points_def regions_def refines_def)
    then show ?thesis using assms(2) i None by (auto simp: points_def regions_def)
  qed (use assms(3) i in \<open>simp add: refines_def\<close>)
qed

subsection \<open>The helpers of an iteration\<close>

lemma allDefined_view:
  assumes "ipv_ok ranges v" "\<forall>i \<in> set opts. i < length ranges"
  shows "allDefined opts v = Some (\<forall>i \<in> set opts. view v ! i \<noteq> None)"
  using assms(2) by (induction opts) (auto simp: IsParameterDefined_view[OF assms(1)])

lemma select_fold:
  assumes "ipv_ok ranges v" "k \<le> length ranges"
  shows "\<exists>sel. fold_opt (SelectParameterStep ranges opts v) [0..<k] None = Some sel \<and>
    (sel = None \<longrightarrow> (\<forall>i < k. i \<in> set opts \<longrightarrow> view v ! i \<noteq> None)) \<and>
    (\<forall>j. sel = Some j \<longrightarrow> j < k \<and> j \<in> set opts \<and> view v ! j = None)"
  using assms(2)
proof (induction k)
  case (Suc k)
  then obtain sel where sel: "fold_opt (SelectParameterStep ranges opts v) [0..<k] None = Some sel"
    "sel = None \<longrightarrow> (\<forall>i < k. i \<in> set opts \<longrightarrow> view v ! i \<noteq> None)"
    "\<forall>j. sel = Some j \<longrightarrow> j < k \<and> j \<in> set opts \<and> view v ! j = None" by auto
  have "IsParameterDefined v k = Some (view v ! k \<noteq> None)"
    using IsParameterDefined_view[OF assms(1)] Suc.prems by simp
  with sel show ?case
    by (cases sel) (auto simp: SelectParameterStep_def[of ranges opts v k] less_Suc_eq)
qed simp

lemma selectParameterToDefine_ok:
  assumes "ipv_ok ranges v" "i \<in> set opts" "i < length ranges" "view v ! i = None"
  shows "\<exists>j. selectParameterToDefine ranges opts v = Some j \<and> j \<in> set opts \<and> j < length ranges \<and> view v ! j = None"
proof -
  have "GetParameterCount v = length ranges" using assms(1) by (simp add: GetParameterCount_def ipv_ok_def)
  with select_fold[OF assms(1), of "length ranges" opts] assms show ?thesis
    by (fastforce simp: selectParameterToDefine_def)
qed

text \<open>A work list entry: a region with the bounds of the callback.\<close>

definition entry_ok :: "nat list \<Rightarrow> nat list \<Rightarrow> nat option list \<Rightarrow> BoundObjectiveFunction \<Rightarrow> WorkListEntry \<Rightarrow> bool" where
  "entry_ok ranges opts seed cb e \<longleftrightarrow> ipv_ok ranges (wle_parameters e) \<and>
     view (wle_parameters e) \<in> regions ranges opts seed \<and> wle_bounds e = cb (wle_parameters e)"

lemma RefineValue_ok:
  assumes "bound_contract ranges opts seed cb f" "entry_ok ranges opts seed cb e"
    and "i \<in> set opts" "i < length ranges" "view (wle_parameters e) ! i = None" "x < ranges ! i"
  shows "\<exists>e'. RefineValue cb e i x = Some e' \<and> entry_ok ranges opts seed cb e' \<and>
    view (wle_parameters e') = (view (wle_parameters e))[i := Some x]"
proof -
  note e = assms(2)[unfolded entry_ok_def]
  obtain v' where set: "SetParameter (wle_parameters e) i x = Some v'"
    using SetParameter_total e assms(4,6) by blast
  note v' = SetParameter_view[OF _ set, of ranges]
  have reg: "view v' \<in> regions ranges opts seed" using v' e regions_child assms(3-6) by simp
  have "refines (view v') (view (wle_parameters e))" using v'(1) e refines_update assms(4,5)
    by (simp add: ipv_ok_def)
  with assms(1) e v' reg have "lowerBound (cb (wle_parameters e)) \<le> lowerBound (cb v')" "lowerBound (cb v') \<le> upperBound (cb v')"
    unfolding bound_contract_def by blast+
  then show ?thesis
    using IsParameterDefined_view[of ranges "wle_parameters e" i] e assms(4,5) set v' reg
    by (simp add: RefineValue_def Let_def entry_ok_def)
qed

lemma RefineEntry_ok:
  assumes "bound_contract ranges opts seed cb f" "entry_ok ranges opts seed cb e"
    and opts: "\<forall>i \<in> set opts. i < length ranges" and undef: "\<exists>i \<in> set opts. view (wle_parameters e) ! i = None"
  shows "\<exists>i es. RefineEntry ranges opts cb e = Some es \<and> i \<in> set opts \<and> view (wle_parameters e) ! i = None \<and>
    list_all2 (\<lambda>x e'. entry_ok ranges opts seed cb e' \<and> view (wle_parameters e') = (view (wle_parameters e))[i := Some x])
      [0..<ranges ! i] es"
proof -
  obtain i where i: "selectParameterToDefine ranges opts (wle_parameters e) = Some i" "i \<in> set opts"
    "i < length ranges" "view (wle_parameters e) ! i = None"
    using selectParameterToDefine_ok assms(2) undef opts unfolding entry_ok_def by metis
  obtain es where "map_opt (RefineValue cb e i) [0..<ranges ! i] = Some es"
    "list_all2 (\<lambda>x e'. entry_ok ranges opts seed cb e' \<and> view (wle_parameters e') = (view (wle_parameters e))[i := Some x])
      [0..<ranges ! i] es"
    using map_opt_exists[of "[0..<ranges ! i]" "RefineValue cb e i"
        "\<lambda>x e'. entry_ok ranges opts seed cb e' \<and> view (wle_parameters e') = (view (wle_parameters e))[i := Some x]"]
      RefineValue_ok[OF assms(1,2) i(2-4)] by auto
  with i show ?thesis by (auto simp: RefineEntry_def)
qed

subsubsection \<open>Classification\<close>

text \<open>What the loop over the work list sorts out, as filters.\<close>

definition is_point :: "nat list \<Rightarrow> WorkListEntry \<Rightarrow> bool" where
  "is_point opts e \<longleftrightarrow> (\<forall>i \<in> set opts. view (wle_parameters e) ! i \<noteq> None)"

definition kept :: "nat \<Rightarrow> nat \<Rightarrow> WorkListEntry \<Rightarrow> bool" where
  "kept lowestUpper best e \<longleftrightarrow> \<not> shouldFilter lowestUpper best (wle_bounds e)"

definition promising :: "nat \<Rightarrow> nat \<Rightarrow> WorkListEntry \<Rightarrow> bool" where
  "promising lowestLower lowestUpper e \<longleftrightarrow>
     lowerBound (wle_bounds e) = lowestLower \<or> upperBound (wle_bounds e) = lowestUpper"

definition record_best :: "WorkListEntry \<Rightarrow> nat \<times> IntegerParameterVector \<Rightarrow> nat \<times> IntegerParameterVector" where
  "record_best e b = (if lowerBound (wle_bounds e) < fst b then (lowerBound (wle_bounds e), wle_parameters e) else b)"

lemma ClassifyStep_fold:
  assumes "\<forall>e \<in> set wl. ipv_ok ranges (wle_parameters e)" "\<forall>i \<in> set opts. i < length ranges"
  shows "fold_opt (ClassifyStep opts ll lu best) wl it = (let b = fold record_best (filter (\<lambda>e. kept lu best e \<and> is_point opts e) wl)
      (it_best it, it_bestParameters it) in
    Some \<lparr>it_best = fst b, it_bestParameters = snd b,
      elementsToRefine = elementsToRefine it @ filter (\<lambda>e. kept lu best e \<and> \<not> is_point opts e \<and> promising ll lu e) wl,
      newWorkList = newWorkList it @ filter (\<lambda>e. kept lu best e \<and> \<not> is_point opts e \<and> \<not> promising ll lu e) wl\<rparr>)"
  using assms(1)
proof (induction wl arbitrary: it)
  case (Cons e wl)
  have "allDefined opts (wle_parameters e) = Some (is_point opts e)"
    using allDefined_view[OF _ assms(2)] Cons.prems by (simp add: is_point_def)
  then have "ClassifyStep opts ll lu best e it = Some (
      if \<not> kept lu best e then it
      else if is_point opts e then it\<lparr>it_best := fst (record_best e (it_best it, it_bestParameters it)),
          it_bestParameters := snd (record_best e (it_best it, it_bestParameters it))\<rparr>
      else if promising ll lu e then it\<lparr>elementsToRefine := elementsToRefine it @ [e]\<rparr>
      else it\<lparr>newWorkList := newWorkList it @ [e]\<rparr>)"
    by (cases it) (simp add: ClassifyStep_def Let_def kept_def promising_def record_best_def)
  with Cons.IH Cons.prems show ?case by (simp add: Let_def)
qed (cases it, simp)

lemma record_best_fold:
  assumes "fold record_best es b = b'"
  shows "fst b' \<le> fst b \<and> (\<forall>e \<in> set es. fst b' \<le> lowerBound (wle_bounds e)) \<and>
    (b' = b \<or> (\<exists>e \<in> set es. b' = (lowerBound (wle_bounds e), wle_parameters e)))"
  using assms
proof (induction es arbitrary: b)
  case (Cons e es)
  have "fst (record_best e b) \<le> fst b" "fst (record_best e b) \<le> lowerBound (wle_bounds e)"
    "record_best e b = b \<or> record_best e b = (lowerBound (wle_bounds e), wle_parameters e)"
    by (auto simp: record_best_def)
  with Cons.IH[of "record_best e b"] Cons.prems show ?case by fastforce
qed simp

lemma fold_min:
  fixes g :: "'a \<Rightarrow> nat"
  shows "fold (\<lambda>e acc. min acc (g e)) es m \<le> m \<and> (\<forall>e \<in> set es. fold (\<lambda>e acc. min acc (g e)) es m \<le> g e) \<and>
    (fold (\<lambda>e acc. min acc (g e)) es m = m \<or> (\<exists>e \<in> set es. fold (\<lambda>e acc. min acc (g e)) es m = g e))"
proof (induction es arbitrary: m)
  case (Cons e es)
  from Cons[of "min m (g e)"] show ?case by (auto simp: min_def split: if_splits)
qed simp

lemma lowestUpperBound_cases:
  "lowestUpperBound wl = sizeMax \<or> (\<exists>e \<in> set wl. lowestUpperBound wl = upperBound (wle_bounds e))"
  using fold_min[of "\<lambda>e. upperBound (wle_bounds e)" wl sizeMax] by (auto simp: lowestUpperBound_def)

lemma lowestLowerBound_attained:
  assumes "wl \<noteq> []" "\<forall>e \<in> set wl. lowerBound (wle_bounds e) \<le> sizeMax"
  shows "\<exists>e \<in> set wl. lowerBound (wle_bounds e) = lowestLowerBound wl"
proof -
  note m = fold_min[of "\<lambda>e. lowerBound (wle_bounds e)" wl sizeMax, folded lowestLowerBound_def]
  obtain e where "e \<in> set wl" using assms(1) by (cases wl) auto
  then show ?thesis using m assms(2) by (metis le_antisym)
qed

subsubsection \<open>The measure of the search\<close>

text \<open>The size of a region counts one value more for each parameter than it has, so that splitting decreases it.\<close>

definition slot :: "nat list \<Rightarrow> nat option list \<Rightarrow> nat \<Rightarrow> nat" where
  "slot ranges p i = (if p ! i = None then ranges ! i + 1 else 1)"

definition entry_weight :: "nat list \<Rightarrow> nat list \<Rightarrow> WorkListEntry \<Rightarrow> nat" where
  "entry_weight ranges opts e = prod_list (map (slot ranges (view (wle_parameters e))) opts)"

definition search_weight :: "nat list \<Rightarrow> nat list \<Rightarrow> WorkListEntry list \<Rightarrow> nat" where
  "search_weight ranges opts wl = sum_list (map (entry_weight ranges opts) wl)"

lemma entry_weight_pos: "0 < entry_weight ranges opts e"
proof -
  have "0 \<notin> set (map (slot ranges (view (wle_parameters e))) opts)" by (auto simp: slot_def)
  then show ?thesis unfolding entry_weight_def by (metis gr0I prod_list_zero_iff)
qed

lemma entry_weight_child:
  assumes "view (wle_parameters e') = (view (wle_parameters e))[i := Some x]" "i < length (view (wle_parameters e))"
    and "view (wle_parameters e) ! i = None" "i \<in> set opts" "distinct opts"
  shows "entry_weight ranges opts e = (ranges ! i + 1) * entry_weight ranges opts e'"
proof -
  obtain xs ys where opts: "opts = xs @ i # ys" "i \<notin> set xs" "i \<notin> set ys"
    using assms(4,5) by (metis distinct.simps(2) distinct_append not_distinct_conv_prefix split_list disjoint_insert(1) list.set(2))
  have same: "map (slot ranges (view (wle_parameters e'))) zs = map (slot ranges (view (wle_parameters e))) zs"
    if "i \<notin> set zs" for zs
  proof (intro map_cong refl)
    fix j assume "j \<in> set zs"
    with that have "i \<noteq> j" by auto
    then show "slot ranges (view (wle_parameters e')) j = slot ranges (view (wle_parameters e)) j"
      by (simp add: assms(1) slot_def)
  qed
  have "slot ranges (view (wle_parameters e)) i = ranges ! i + 1" "slot ranges (view (wle_parameters e')) i = 1"
    using assms(1-3) by (simp_all add: slot_def)
  then show ?thesis
    by (simp add: entry_weight_def opts(1) same[OF opts(2)] same[OF opts(3)] algebra_simps del: length_view)
qed

lemma search_weight_children:
  assumes "list_all2 (\<lambda>x e'. entry_ok ranges opts seed cb e' \<and> view (wle_parameters e') = (view (wle_parameters e))[i := Some x])
      [0..<ranges ! i] es"
    and "i < length (view (wle_parameters e))" "view (wle_parameters e) ! i = None" "i \<in> set opts" "distinct opts"
  shows "search_weight ranges opts es < entry_weight ranges opts e"
proof -
  have child: "entry_weight ranges opts e = (ranges ! i + 1) * entry_weight ranges opts e'" if mem: "e' \<in> set es" for e'
  proof -
    obtain k where k: "k < length es" "e' = es ! k" using mem by (metis in_set_conv_nth)
    have "[0..<ranges ! i] ! k = k" using k(1) list_all2_lengthD[OF assms(1)] by simp
    with list_all2_nthD2[OF assms(1) k(1)] have "view (wle_parameters e') = (view (wle_parameters e))[i := Some k]"
      unfolding k(2) by metis
    then show ?thesis by (rule entry_weight_child[OF _ assms(2-5)])
  qed
  have len: "length es = ranges ! i" using assms(1) by (auto dest: list_all2_lengthD)
  have "(ranges ! i + 1) * search_weight ranges opts es = length es * entry_weight ranges opts e"
    using child[symmetric] unfolding search_weight_def by (induction es) (simp_all add: distrib_left)
  also have "\<dots> < (ranges ! i + 1) * entry_weight ranges opts e"
    using len entry_weight_pos[of ranges opts e] by simp
  finally show ?thesis by (rule mult_left_less_imp_less) simp
qed

subsection \<open>An iteration\<close>

text \<open>
  The invariant of the search. The best value is that of the best point found so far, and some optimal
  point has been found or lies in a region of the work list.
\<close>

definition optimal_point :: "nat list \<Rightarrow> nat list \<Rightarrow> nat option list \<Rightarrow> (nat option list \<Rightarrow> nat) \<Rightarrow> nat option list \<Rightarrow> bool" where
  "optimal_point ranges opts seed f q \<longleftrightarrow> q \<in> points ranges opts seed \<and> (\<forall>q' \<in> points ranges opts seed. f q \<le> f q')"

definition best_ok :: "nat list \<Rightarrow> nat list \<Rightarrow> nat option list \<Rightarrow> (nat option list \<Rightarrow> nat) \<Rightarrow> nat \<Rightarrow> IntegerParameterVector \<Rightarrow> bool" where
  "best_ok ranges opts seed f best params \<longleftrightarrow> best = sizeMax \<or>
     ipv_ok ranges params \<and> view params \<in> points ranges opts seed \<and> best = f (view params)"

definition search_inv ::
  "nat list \<Rightarrow> nat list \<Rightarrow> nat option list \<Rightarrow> BoundObjectiveFunction \<Rightarrow> (nat option list \<Rightarrow> nat) \<Rightarrow> SearchState \<Rightarrow> bool" where
  "search_inv ranges opts seed cb f st \<longleftrightarrow>
     (\<forall>e \<in> set (workList st). entry_ok ranges opts seed cb e) \<and>
     best_ok ranges opts seed f (bestObjectiveFunctionValue st) (bestParameters st) \<and>
     (\<exists>q. optimal_point ranges opts seed f q \<and>
        (bestObjectiveFunctionValue st = f q \<or> (\<exists>e \<in> set (workList st). refines q (view (wle_parameters e)))))"

lemma is_point_points:
  "entry_ok ranges opts seed cb e \<Longrightarrow> is_point opts e \<longleftrightarrow> view (wle_parameters e) \<in> points ranges opts seed"
  by (auto simp: entry_ok_def is_point_def points_def)

lemma entry_bounds:
  assumes "bound_contract ranges opts seed cb f" "entry_ok ranges opts seed cb e"
  shows "q \<in> points ranges opts seed \<Longrightarrow> refines q (view (wle_parameters e)) \<Longrightarrow> lowerBound (wle_bounds e) \<le> f q"
    and "\<exists>q \<in> points ranges opts seed. refines q (view (wle_parameters e)) \<and> f q \<le> upperBound (wle_bounds e)"
    and "is_point opts e \<Longrightarrow> lowerBound (wle_bounds e) = f (view (wle_parameters e))"
    and "lowerBound (wle_bounds e) < sizeMax"
proof -
  have c: "ipv_ok ranges (wle_parameters e)" "view (wle_parameters e) \<in> regions ranges opts seed"
    "wle_bounds e = cb (wle_parameters e)" using assms(2) by (auto simp: entry_ok_def)
  show low: "lowerBound (wle_bounds e) \<le> f q" if "q \<in> points ranges opts seed" "refines q (view (wle_parameters e))" for q
    using assms(1) c that unfolding bound_contract_def by metis
  show up: "\<exists>q \<in> points ranges opts seed. refines q (view (wle_parameters e)) \<and> f q \<le> upperBound (wle_bounds e)"
    using assms(1) c unfolding bound_contract_def by metis
  show "lowerBound (wle_bounds e) = f (view (wle_parameters e))" if "is_point opts e"
    using assms(1) c that is_point_points[OF assms(2)] unfolding bound_contract_def by metis
  from up obtain q where "q \<in> points ranges opts seed" "refines q (view (wle_parameters e))" by blast
  with low[OF this] assms(1) show "lowerBound (wle_bounds e) < sizeMax"
    unfolding bound_contract_def by (meson le_less_trans)
qed

text \<open>A region with an optimal point is not filtered out before that value has been found.\<close>

lemma optimal_kept:
  assumes "bound_contract ranges opts seed cb f" "\<forall>e \<in> set wl. entry_ok ranges opts seed cb e" "e \<in> set wl"
    and "optimal_point ranges opts seed f q" "refines q (view (wle_parameters e))" "f q < best"
  shows "kept (lowestUpperBound wl) best e"
proof -
  have q: "q \<in> points ranges opts seed" using assms(4) by (simp add: optimal_point_def)
  have low: "lowerBound (wle_bounds e) \<le> f q"
    using entry_bounds(1)[OF assms(1) bspec[OF assms(2,3)] q assms(5)] .
  have "f q \<le> lowestUpperBound wl"
  proof (cases "lowestUpperBound wl = sizeMax")
    case True
    then show ?thesis using assms(1) q unfolding bound_contract_def by (metis less_imp_le)
  next
    case False
    then obtain e' where e': "e' \<in> set wl" "lowestUpperBound wl = upperBound (wle_bounds e')"
      using lowestUpperBound_cases by blast
    with entry_bounds(2)[OF assms(1) bspec[OF assms(2) e'(1)]] assms(4) show ?thesis
      unfolding optimal_point_def by (metis le_trans)
  qed
  with low assms(6) show ?thesis by (simp add: kept_def shouldFilter_def)
qed

text \<open>The regions a split replaces: they hold the same points and weigh less.\<close>

definition split_ok :: "nat list \<Rightarrow> nat list \<Rightarrow> nat option list \<Rightarrow> BoundObjectiveFunction \<Rightarrow> WorkListEntry \<Rightarrow> WorkListEntry list \<Rightarrow> bool" where
  "split_ok ranges opts seed cb e es \<longleftrightarrow> (\<forall>e' \<in> set es. entry_ok ranges opts seed cb e') \<and>
     (\<forall>q \<in> points ranges opts seed. refines q (view (wle_parameters e)) \<longrightarrow>
        (\<exists>e' \<in> set es. refines q (view (wle_parameters e')))) \<and>
     search_weight ranges opts es < entry_weight ranges opts e"

lemma RefineEntry_split:
  assumes "bound_contract ranges opts seed cb f" "entry_ok ranges opts seed cb e" "\<not> is_point opts e"
    and "\<forall>i \<in> set opts. i < length ranges" "distinct opts"
  shows "\<exists>es. RefineEntry ranges opts cb e = Some es \<and> split_ok ranges opts seed cb e es"
proof -
  have "\<exists>i \<in> set opts. view (wle_parameters e) ! i = None" using assms(3) by (auto simp: is_point_def)
  from RefineEntry_ok[OF assms(1,2,4) this] obtain i es where es: "RefineEntry ranges opts cb e = Some es"
    and i: "i \<in> set opts" "view (wle_parameters e) ! i = None"
    and all: "list_all2 (\<lambda>x e'. entry_ok ranges opts seed cb e' \<and>
        view (wle_parameters e') = (view (wle_parameters e))[i := Some x]) [0..<ranges ! i] es"
    by blast
  have len: "i < length ranges" "i < length (view (wle_parameters e))" using i(1) assms(2,4)
    by (auto simp: entry_ok_def ipv_ok_def)
  have child: "entry_ok ranges opts seed cb (es ! x) \<and> view (wle_parameters (es ! x)) = (view (wle_parameters e))[i := Some x] \<and> x < length es"
    if "x < ranges ! i" for x
    using list_all2_nthD[OF all, of x] list_all2_lengthD[OF all] that by simp
  have "\<forall>e' \<in> set es. entry_ok ranges opts seed cb e'"
    using child list_all2_lengthD[OF all] by (auto simp: in_set_conv_nth)
  moreover have "\<exists>e' \<in> set es. refines q (view (wle_parameters e'))"
    if q: "q \<in> points ranges opts seed" "refines q (view (wle_parameters e))" for q
  proof -
    obtain x where "x < ranges ! i" "q ! i = Some x" using points_value[OF q(1) i(1) len(1)] by blast
    with child[of x] refines_child[OF q(2) len(2), of x] show ?thesis by (metis nth_mem)
  qed
  ultimately show ?thesis
    using es search_weight_children[OF all len(2) i(2,1) assms(5)] by (auto simp: split_ok_def)
qed

text \<open>The refinement of all elements, as the pool returns it.\<close>

lemma refine_all:
  assumes "\<forall>e \<in> set els. \<exists>es. RefineEntry ranges opts cb e = Some es \<and> split_ok ranges opts seed cb e es"
  shows "\<exists>ess. MapToList_result base (length els) (refineCallback ranges opts cb els) = Some (base @ concat ess) \<and>
    list_all2 (split_ok ranges opts seed cb) els ess"
proof -
  define g where "g e = the (RefineEntry ranges opts cb e)" for e
  have g: "RefineEntry ranges opts cb e = Some (g e) \<and> split_ok ranges opts seed cb e (g e)" if "e \<in> set els" for e
    using assms that by (auto simp: g_def)
  have call: "refineCallback ranges opts cb els i = (g (els ! i), None)" if "i < length els" for i
    using that g[of "els ! i"] by (simp add: refineCallback_def)
  have "map (\<lambda>i. fst (refineCallback ranges opts cb els i)) [0..<length els] = map g els"
    using call by (auto intro!: nth_equalityI)
  with call g show ?thesis
    by (intro exI[of _ "map g els"]) (auto simp: MapToList_result_def list_all_iff list_all2_conv_all_nth)
qed

lemma split_weight:
  "list_all2 (split_ok ranges opts seed cb) els ess \<Longrightarrow>
     search_weight ranges opts (concat ess) + length els \<le> search_weight ranges opts els"
  by (induction rule: list_all2_induct) (auto simp: search_weight_def split_ok_def)

lemma filter_weight:
  assumes "\<And>x. P x \<Longrightarrow> \<not> Q x"
  shows "search_weight ranges opts (filter P wl) + search_weight ranges opts (filter Q wl) +
    length (filter (\<lambda>x. \<not> P x \<and> \<not> Q x) wl) \<le> search_weight ranges opts wl"
proof (induction wl)
  case (Cons e wl)
  then show ?case using entry_weight_pos[of ranges opts e] assms[of e]
    by (cases "P e"; cases "Q e") (auto simp: search_weight_def)
qed (simp add: search_weight_def)

text \<open>The parts of a work list: points found, regions split, regions kept for later.\<close>

definition found_of :: "nat list \<Rightarrow> SearchState \<Rightarrow> WorkListEntry list" where
  "found_of opts st = filter (\<lambda>e. kept (lowestUpperBound (workList st)) (bestObjectiveFunctionValue st) e \<and> is_point opts e)
     (workList st)"

definition to_split :: "nat list \<Rightarrow> SearchState \<Rightarrow> WorkListEntry \<Rightarrow> bool" where
  "to_split opts st e \<longleftrightarrow> kept (lowestUpperBound (workList st)) (bestObjectiveFunctionValue st) e \<and> \<not> is_point opts e \<and>
     promising (lowestLowerBound (workList st)) (lowestUpperBound (workList st)) e"

definition to_keep :: "nat list \<Rightarrow> SearchState \<Rightarrow> WorkListEntry \<Rightarrow> bool" where
  "to_keep opts st e \<longleftrightarrow> kept (lowestUpperBound (workList st)) (bestObjectiveFunctionValue st) e \<and> \<not> is_point opts e \<and>
     \<not> promising (lowestLowerBound (workList st)) (lowestUpperBound (workList st)) e"

definition after_iteration :: "nat list \<Rightarrow> SearchState \<Rightarrow> WorkListEntry list list \<Rightarrow> SearchState" where
  "after_iteration opts st ess =
     (let b = fold record_best (found_of opts st) (bestObjectiveFunctionValue st, bestParameters st) in
      \<lparr>workList = filter (to_keep opts st) (workList st) @ concat ess, bestObjectiveFunctionValue = fst b, bestParameters = snd b\<rparr>)"

lemma Iteration_result:
  assumes "bound_contract ranges opts seed cb f" "\<forall>e \<in> set (workList st). entry_ok ranges opts seed cb e"
    and opts: "\<forall>i \<in> set opts. i < length ranges" "distinct opts"
  shows "\<exists>ess. Iteration ranges opts cb st = Some (after_iteration opts st ess) \<and>
    list_all2 (split_ok ranges opts seed cb) (filter (to_split opts st) (workList st)) ess"
proof -
  have ipv: "\<forall>e \<in> set (workList st). ipv_ok ranges (wle_parameters e)" using assms(2) by (auto simp: entry_ok_def)
  have "\<forall>e \<in> set (filter (to_split opts st) (workList st)). \<exists>es. RefineEntry ranges opts cb e = Some es \<and>
      split_ok ranges opts seed cb e es"
    using RefineEntry_split[OF assms(1) _ _ opts] assms(2) by (auto simp: to_split_def)
  from refine_all[OF this, of "filter (to_keep opts st) (workList st)"] show ?thesis
    by (auto simp: Iteration_def ClassifyStep_fold[OF ipv opts(1)] Let_def after_iteration_def found_of_def
        simp flip: to_split_def to_keep_def)
qed

lemma after_iteration_best:
  assumes "bound_contract ranges opts seed cb f" "search_inv ranges opts seed cb f st"
  shows "best_ok ranges opts seed f (bestObjectiveFunctionValue (after_iteration opts st ess))
    (bestParameters (after_iteration opts st ess))"
proof -
  obtain b where b: "fold record_best (found_of opts st) (bestObjectiveFunctionValue st, bestParameters st) = b" by blast
  show ?thesis
  proof (cases "b = (bestObjectiveFunctionValue st, bestParameters st)")
    case True
    then show ?thesis using assms(2) b by (simp add: search_inv_def after_iteration_def Let_def)
  next
    case False
    then obtain e where e: "e \<in> set (found_of opts st)" "b = (lowerBound (wle_bounds e), wle_parameters e)"
      using record_best_fold[OF b] by blast
    then have "entry_ok ranges opts seed cb e" "is_point opts e"
      using assms(2) by (auto simp: found_of_def search_inv_def)
    with e(2) b entry_bounds(3)[OF assms(1)] is_point_points show ?thesis
      by (auto simp: best_ok_def entry_ok_def after_iteration_def Let_def)
  qed
qed

lemma after_iteration_entries:
  assumes "\<forall>e \<in> set (workList st). entry_ok ranges opts seed cb e" "list_all2 (split_ok ranges opts seed cb) els ess"
  shows "\<forall>e \<in> set (workList (after_iteration opts st ess)). entry_ok ranges opts seed cb e"
  using assms
  by (auto simp: after_iteration_def Let_def split_ok_def list_all2_conv_all_nth in_set_conv_nth[of _ ess])

text \<open>An optimal point that was in the work list has been recorded, or still is in the work list.\<close>

lemma after_iteration_optimal:
  assumes contract: "bound_contract ranges opts seed cb f" and ok: "\<forall>e \<in> set (workList st). entry_ok ranges opts seed cb e"
    and split: "list_all2 (split_ok ranges opts seed cb) (filter (to_split opts st) (workList st)) ess"
    and q: "optimal_point ranges opts seed f q" and e: "e \<in> set (workList st)" "refines q (view (wle_parameters e))"
    and less: "f q < bestObjectiveFunctionValue st"
  shows "bestObjectiveFunctionValue (after_iteration opts st ess) \<le> f q \<or>
    (\<exists>e \<in> set (workList (after_iteration opts st ess)). refines q (view (wle_parameters e)))"
proof -
  note kept = optimal_kept[OF contract ok e(1) q e(2) less]
  consider "is_point opts e" | "e \<in> set (filter (to_split opts st) (workList st))" | "to_keep opts st e"
    using e(1) kept by (auto simp: to_split_def to_keep_def)
  then show ?thesis
  proof cases
    case 1
    then have "lowerBound (wle_bounds e) = f (view (wle_parameters e))" "view (wle_parameters e) = q"
      using entry_bounds(3)[OF contract] is_point_points ok e q refines_point[of "view (wle_parameters e)" ranges opts seed q]
      by (auto simp: optimal_point_def)
    moreover have "e \<in> set (found_of opts st)" using 1 kept e(1) by (simp add: found_of_def)
    ultimately show ?thesis using record_best_fold[OF refl, of "found_of opts st"]
      by (fastforce simp: after_iteration_def Let_def)
  next
    case 2
    then obtain k where k: "k < length (filter (to_split opts st) (workList st))" "e = filter (to_split opts st) (workList st) ! k"
      by (metis in_set_conv_nth)
    have "q \<in> points ranges opts seed" using q by (simp add: optimal_point_def)
    with list_all2_nthD[OF split k(1)] e(2) k(2) obtain e' where e': "e' \<in> set (ess ! k)" "refines q (view (wle_parameters e'))"
      by (auto simp: split_ok_def)
    have "ess ! k \<in> set ess" using k(1) list_all2_lengthD[OF split] by simp
    with e' show ?thesis by (auto simp: after_iteration_def Let_def)
  next
    case 3
    with e show ?thesis by (auto simp: after_iteration_def Let_def)
  qed
qed

lemma after_iteration_weight:
  assumes "bound_contract ranges opts seed cb f" "\<forall>e \<in> set (workList st). entry_ok ranges opts seed cb e" "workList st \<noteq> []"
    and split: "list_all2 (split_ok ranges opts seed cb) (filter (to_split opts st) (workList st)) ess"
  shows "search_weight ranges opts (workList (after_iteration opts st ess)) < search_weight ranges opts (workList st)"
proof -
  obtain e where e: "e \<in> set (workList st)" "lowerBound (wle_bounds e) = lowestLowerBound (workList st)"
    using lowestLowerBound_attained[of "workList st"] assms(2,3) entry_bounds(4)[OF assms(1)]
    by (metis less_imp_le)
  then have "\<not> to_keep opts st e" by (simp add: to_keep_def promising_def)
  with e(1) have some: "0 < length (filter (to_split opts st) (workList st)) +
      length (filter (\<lambda>e. \<not> to_keep opts st e \<and> \<not> to_split opts st e) (workList st))"
    by (auto simp: filter_empty_conv)
  have excl: "to_keep opts st x \<Longrightarrow> \<not> to_split opts st x" for x by (simp add: to_keep_def to_split_def)
  have "search_weight ranges opts (workList (after_iteration opts st ess)) =
      search_weight ranges opts (filter (to_keep opts st) (workList st)) + search_weight ranges opts (concat ess)"
    by (simp add: search_weight_def after_iteration_def Let_def)
  then show ?thesis
    using split_weight[OF split] some filter_weight[of "to_keep opts st" "to_split opts st" ranges opts "workList st", OF excl]
    by linarith
qed

text \<open>An iteration of a non-empty work list does not throw, keeps the invariant and makes the search smaller.\<close>

lemma Iteration_ok:
  assumes contract: "bound_contract ranges opts seed cb f" and inv: "search_inv ranges opts seed cb f st"
    and ne: "workList st \<noteq> []" and opts: "\<forall>i \<in> set opts. i < length ranges" "distinct opts"
  shows "\<exists>st'. Iteration ranges opts cb st = Some st' \<and> search_inv ranges opts seed cb f st' \<and>
    search_weight ranges opts (workList st') < search_weight ranges opts (workList st)"
proof -
  have ok: "\<forall>e \<in> set (workList st). entry_ok ranges opts seed cb e" using inv by (simp add: search_inv_def)
  obtain ess where run: "Iteration ranges opts cb st = Some (after_iteration opts st ess)"
    and split: "list_all2 (split_ok ranges opts seed cb) (filter (to_split opts st) (workList st)) ess"
    using Iteration_result[OF contract ok opts] by blast
  let ?st = "after_iteration opts st ess"
  note best = after_iteration_best[OF contract inv, of ess]
  obtain q where q: "optimal_point ranges opts seed f q"
    "bestObjectiveFunctionValue st = f q \<or> (\<exists>e \<in> set (workList st). refines q (view (wle_parameters e)))"
    using inv by (auto simp: search_inv_def)
  have least: "f q \<le> bestObjectiveFunctionValue ?st"
    using best q(1) contract by (auto simp: best_ok_def optimal_point_def bound_contract_def)
  have lower: "bestObjectiveFunctionValue ?st \<le> bestObjectiveFunctionValue st"
    using record_best_fold[OF refl, of "found_of opts st" "(bestObjectiveFunctionValue st, bestParameters st)"]
    by (simp add: after_iteration_def Let_def)
  have "bestObjectiveFunctionValue ?st = f q \<or> (\<exists>e \<in> set (workList ?st). refines q (view (wle_parameters e)))"
    using after_iteration_optimal[OF contract ok split q(1)] q(2) least lower by (metis leI le_antisym le_trans)
  then show ?thesis
    using run best q(1) after_iteration_entries[OF ok split] after_iteration_weight[OF contract ok ne split]
    unfolding search_inv_def by auto
qed

subsection \<open>The loop\<close>

lemma SearchLoop_ok:
  assumes contract: "bound_contract ranges opts seed cb f" and opts: "\<forall>i \<in> set opts. i < length ranges" "distinct opts"
    and inv: "search_inv ranges opts seed cb f st"
  shows "\<exists>r. SearchLoop ranges opts cb limit st = Some r \<and> (limit = None \<or> length opts = 1 \<longrightarrow> r \<noteq> None) \<and>
    (\<forall>st'. r = Some st' \<longrightarrow> search_inv ranges opts seed cb f st' \<and> workList st' = [])"
  using inv
proof (induction st rule: measure_induct_rule[where f = "\<lambda>st. search_weight ranges opts (workList st)"])
  case (less st)
  show ?case
  proof (cases "workList st = [] \<or> workListTooLarge opts limit (workList st)")
    case True
    then show ?thesis using less.prems
      by (subst SearchLoop.simps) (auto simp: workListTooLarge_def split: option.splits)
  next
    case False
    then obtain st' where "Iteration ranges opts cb st = Some st'" "search_inv ranges opts seed cb f st'"
      "search_weight ranges opts (workList st') < search_weight ranges opts (workList st)"
      using Iteration_ok[OF contract less.prems _ opts] by blast
    with less.IH[of st'] False show ?thesis by (subst SearchLoop.simps) simp
  qed
qed

subsection \<open>Fixed parameters\<close>

definition seed_of :: "nat list \<Rightarrow> (nat, nat) smap \<Rightarrow> nat option list" where
  "seed_of ranges fixed = fold (\<lambda>p l. l[fst p := Some (snd p)]) fixed (replicate (length ranges) None)"

definition fixed_ok :: "nat list \<Rightarrow> (nat, nat) smap \<Rightarrow> bool" where
  "fixed_ok ranges fixed \<longleftrightarrow> smap_ok fixed \<and> (\<forall>p \<in> set fixed. fst p < length ranges \<and> snd p < ranges ! fst p)"

lemma SeedStep_fold:
  assumes "ipv_ok ranges v" "distinct (map fst fixed)" "\<forall>p \<in> set fixed. fst p < length ranges \<and> snd p < ranges ! fst p"
    and "\<forall>p \<in> set fixed. view v ! fst p = None"
  shows "\<exists>v'. fold_opt SeedStep fixed v = Some v' \<and> ipv_ok ranges v' \<and>
    view v' = fold (\<lambda>p l. l[fst p := Some (snd p)]) fixed (view v)"
  using assms
proof (induction fixed arbitrary: v)
  case (Cons p fixed)
  have p: "fst p < length ranges" "snd p < ranges ! fst p" "view v ! fst p = None" using Cons.prems by auto
  obtain v' where set: "SetParameter v (fst p) (snd p) = Some v'" using SetParameter_total[OF Cons.prems(1) p(1,2)] by blast
  note v' = SetParameter_view[OF Cons.prems(1) set]
  have "SeedStep p v = Some v'" using IsParameterDefined_view[OF Cons.prems(1) p(1)] p(3) set by (simp add: SeedStep_def)
  moreover have "\<forall>q \<in> set fixed. view v' ! fst q = None"
  proof
    fix q assume q: "q \<in> set fixed"
    then have "fst p \<noteq> fst q" using Cons.prems(2) by (metis distinct.simps(2) image_eqI list.set_map list.simps(9))
    then show "view v' ! fst q = None" using Cons.prems(4) v'(1) q by simp
  qed
  ultimately show ?case using Cons.IH[OF v'(2)] Cons.prems(2,3) v'(1) by simp
qed simp

lemma fold_assign:
  assumes "distinct (map fst fixed)" "\<forall>p \<in> set fixed. fst p < length l"
  shows "length (fold (\<lambda>p l. l[fst p := Some (snd p)]) fixed l) = length l \<and>
    (\<forall>i < length l. fold (\<lambda>p l. l[fst p := Some (snd p)]) fixed l ! i =
       (case map_of fixed i of Some x \<Rightarrow> Some x | None \<Rightarrow> l ! i))"
  using assms
proof (induction fixed arbitrary: l)
  case (Cons p fixed)
  have "fst p \<notin> set (map fst fixed)" using Cons.prems(1) by simp
  then have "map_of fixed (fst p) = None" by (simp add: map_of_eq_None_iff)
  with Cons.IH[of "l[fst p := Some (snd p)]"] Cons.prems show ?case
    by (auto simp: nth_list_update split: option.splits)
qed simp

lemma seed_of_nth:
  assumes "fixed_ok ranges fixed"
  shows "length (seed_of ranges fixed) = length ranges" "i < length ranges \<Longrightarrow> seed_of ranges fixed ! i = map_of fixed i"
proof -
  have "distinct (map fst fixed)" using assms smap_ok_distinct by (auto simp: fixed_ok_def)
  note * = fold_assign[OF this, of "replicate (length ranges) (None :: nat option)"]
  show "length (seed_of ranges fixed) = length ranges" "i < length ranges \<Longrightarrow> seed_of ranges fixed ! i = map_of fixed i"
    using * assms by (auto simp: seed_of_def fixed_ok_def split: option.splits)
qed

lemma seed_of_region:
  assumes "fixed_ok ranges fixed"
  shows "seed_of ranges fixed \<in> regions ranges opts (seed_of ranges fixed)"
  using seed_of_nth[OF assms] assms by (fastforce simp: regions_def fixed_ok_def dest!: map_of_SomeD)

subsection \<open>The search\<close>

lemma exists_optimal:
  assumes "bound_contract ranges opts seed cb f" "entry_ok ranges opts seed cb e"
  shows "\<exists>q. optimal_point ranges opts seed f q"
proof -
  obtain q0 where "q0 \<in> points ranges opts seed" using entry_bounds(2)[OF assms] by blast
  from ex_has_least_nat[of "\<lambda>q. q \<in> points ranges opts seed" q0 f, OF this] show ?thesis
    by (auto simp: optimal_point_def)
qed

lemma optimal_refines_seed: "optimal_point ranges opts seed f q \<Longrightarrow> refines q seed"
  by (simp add: optimal_point_def points_def regions_def)

text \<open>What is left when the work list is empty.\<close>

lemma search_inv_final:
  assumes "bound_contract ranges opts seed cb f" "search_inv ranges opts seed cb f st" "workList st = []"
  shows "bestObjectiveFunctionValue st \<noteq> sizeMax \<and> ipv_ok ranges (bestParameters st) \<and>
    optimal_point ranges opts seed f (view (bestParameters st))"
proof -
  obtain q where q: "optimal_point ranges opts seed f q" "bestObjectiveFunctionValue st = f q"
    using assms(2,3) by (auto simp: search_inv_def)
  have "f q < sizeMax" using q(1) assms(1) by (auto simp: optimal_point_def bound_contract_def)
  with q assms(2) show ?thesis by (auto simp: search_inv_def best_ok_def optimal_point_def)
qed

lemma final_asserts:
  assumes "fixed_ok ranges fixed" "ipv_ok ranges v" "view v \<in> points ranges opts (seed_of ranges fixed)"
    and "\<forall>i \<in> set opts. i < length ranges"
  shows "allDefined opts v = Some True"
    and "\<exists>us. map_opt (\<lambda>p. do { x \<leftarrow> GetParameter v (fst p); assert_that (x = snd p) }) fixed = Some us"
proof -
  show "allDefined opts v = Some True" using allDefined_view[OF assms(2,4)] assms(3) by (simp add: points_def)
  have "GetParameter v (fst p) = Some (snd p)" if p: "p \<in> set fixed" for p
  proof -
    have i: "fst p < length ranges" using assms(1) p by (auto simp: fixed_ok_def)
    have "map_of fixed (fst p) = Some (snd p)"
      using assms(1) p smap_ok_distinct[of fixed] by (simp add: fixed_ok_def)
    then have "view v ! fst p = Some (snd p)"
      using assms(3) i seed_of_nth[OF assms(1)] by (simp add: points_def regions_def refines_def)
    then show ?thesis using GetParameter_view[OF assms(2) i] by simp
  qed
  then show "\<exists>us. map_opt (\<lambda>p. do { x \<leftarrow> GetParameter v (fst p); assert_that (x = snd p) }) fixed = Some us"
    using map_opt_total[of fixed _ "\<lambda>_. ()"] by simp
qed

text \<open>The hypotheses of a call.\<close>

definition search_ok :: "nat list \<Rightarrow> nat list \<Rightarrow> (nat, nat) smap \<Rightarrow> bool" where
  "search_ok ranges opts fixed \<longleftrightarrow> ranges \<noteq> [] \<and> (\<forall>r \<in> set ranges. 0 < r \<and> r \<le> 2 ^ 63) \<and>
     opts \<noteq> [] \<and> distinct opts \<and> (\<forall>i \<in> set opts. i < length ranges) \<and> fixed_ok ranges fixed"

lemma search_optimal:
  assumes "search_ok ranges opts fixed" "bound_contract ranges opts (seed_of ranges fixed) boundCallback f"
  shows "\<exists>r. IntegerBranchAndBoundImpl ranges boundCallback opts limit fixed = Some r \<and>
    (limit = None \<or> length opts = 1 \<longrightarrow> r \<noteq> None) \<and>
    (\<forall>v. r = Some v \<longrightarrow> ipv_ok ranges v \<and> optimal_point ranges opts (seed_of ranges fixed) f (view v))"
proof -
  note ok = assms(1)[unfolded search_ok_def]
  let ?seed = "seed_of ranges fixed"
  obtain cb where cb: "CreateCodeBook ranges = Some cb" "book_ok ranges cb" using CreateCodeBook_ok[of ranges] ok by blast
  note new = new_IntegerParameterVector_ok[OF cb(2)]
  have "distinct (map fst fixed)" using ok smap_ok_distinct by (auto simp: fixed_ok_def)
  from SeedStep_fold[OF new(1) this] ok new(2) obtain v where v: "fold_opt SeedStep fixed (new_IntegerParameterVector cb) = Some v"
    "ipv_ok ranges v" "view v = ?seed" by (auto simp: fixed_ok_def seed_of_def)
  let ?e = "\<lparr>wle_parameters = v, wle_bounds = boundCallback v\<rparr>"
  have e: "entry_ok ranges opts ?seed boundCallback ?e" using v ok seed_of_region by (simp add: entry_ok_def)
  obtain q where "optimal_point ranges opts ?seed f q" using exists_optimal[OF assms(2) e] by blast
  then have "search_inv ranges opts ?seed boundCallback f
      \<lparr>workList = [?e], bestObjectiveFunctionValue = sizeMax, bestParameters = empty_IntegerParameterVector\<rparr>"
    using e v(3) optimal_refines_seed by (auto simp: search_inv_def best_ok_def)
  from SearchLoop_ok[OF assms(2) _ _ this, of limit] ok obtain r where
    r: "SearchLoop ranges opts boundCallback limit
      \<lparr>workList = [?e], bestObjectiveFunctionValue = sizeMax, bestParameters = empty_IntegerParameterVector\<rparr> = Some r"
    "limit = None \<or> length opts = 1 \<longrightarrow> r \<noteq> None"
    "\<forall>st'. r = Some st' \<longrightarrow> search_inv ranges opts ?seed boundCallback f st' \<and> workList st' = []" by blast
  have "list_all (\<lambda>r. 0 < r) ranges" using ok by (simp add: list_all_iff)
  then have run: "IntegerBranchAndBoundImpl ranges boundCallback opts limit fixed = (case r of None \<Rightarrow> Some None
     | Some st \<Rightarrow> do {
         _ \<leftarrow> assert_that (bestObjectiveFunctionValue st \<noteq> sizeMax);
         def \<leftarrow> allDefined opts (bestParameters st);
         _ \<leftarrow> assert_that def;
         _ \<leftarrow> map_opt (\<lambda>p. do { x \<leftarrow> GetParameter (bestParameters st) (fst p); assert_that (x = snd p) }) fixed;
         Some (Some (bestParameters st)) })"
    using ok cb(1) v(1) r(1) by (simp add: IntegerBranchAndBoundImpl_def SeedWorkList_def)
  show ?thesis
  proof (cases r)
    case (Some st)
    note fin = search_inv_final[OF assms(2)] and inv = r(3)[rule_format, OF Some]
    from fin inv have st: "bestObjectiveFunctionValue st \<noteq> sizeMax" "ipv_ok ranges (bestParameters st)"
      "optimal_point ranges opts ?seed f (view (bestParameters st))" by blast+
    then have "view (bestParameters st) \<in> points ranges opts ?seed" by (simp add: optimal_point_def)
    from final_asserts[OF _ st(2) this] ok run Some st show ?thesis by auto
  qed (use run r(2) in simp)
qed

text \<open>C16: the search is correct. For ranges that fit a word and a callback whose bounds hold, it neither
  throws nor runs forever; when it reports a point, that point has the fixed values and minimises the
  objective function over the parameters to optimise; it does not give up when no limit was set, nor when
  one parameter is to be optimised.\<close>

theorem IntegerBranchAndBoundImpl_optimal:
  assumes "search_ok ranges opts fixed" "bound_contract ranges opts (seed_of ranges fixed) boundCallback f"
  shows "\<exists>r. IntegerBranchAndBoundImpl ranges boundCallback opts limit fixed = Some r \<and>
    (limit = None \<or> length opts = 1 \<longrightarrow> r \<noteq> None) \<and>
    (\<forall>v. r = Some v \<longrightarrow> ipv_ok ranges v \<and> optimal_point ranges opts (seed_of ranges fixed) f (view v))"
  using assms by (rule search_optimal)

text \<open>C17: \<^verbatim>\<open>IntegerBranchAndBound\<close> always reports a point that minimises the objective function over the
  whole search space.\<close>

theorem IntegerBranchAndBound_optimal:
  assumes "ranges \<noteq> []" "\<forall>r \<in> set ranges. 0 < r \<and> r \<le> 2 ^ 63"
    and "bound_contract ranges [0..<length ranges] (replicate (length ranges) None) boundCallback f"
  shows "\<exists>v. IntegerBranchAndBound ranges boundCallback = Some v \<and> ipv_ok ranges v \<and>
    optimal_point ranges [0..<length ranges] (replicate (length ranges) None) f (view v)"
proof -
  have "search_ok ranges [0..<length ranges] []" using assms(1,2) by (simp add: search_ok_def fixed_ok_def)
  moreover have "seed_of ranges [] = replicate (length ranges) None" by (simp add: seed_of_def)
  ultimately show ?thesis
    using search_optimal[of ranges "[0..<length ranges]" "[]" boundCallback f None] assms(1,3)
    by (auto simp: IntegerBranchAndBound_def)
qed

subsection \<open>Examples\<close>

definition demo_objective :: "nat option list \<Rightarrow> nat" where
  "demo_objective p = (2 - the (p ! 0)) + the (p ! 1)"

definition demo_bounds :: BoundObjectiveFunction where
  "demo_bounds v = (let p = view v in
     if p ! 0 \<noteq> None \<and> p ! 1 \<noteq> None then \<lparr>lowerBound = demo_objective p, upperBound = demo_objective p\<rparr>
     else \<lparr>lowerBound = 0, upperBound = 3\<rparr>)"

lemma refines_complete:
  assumes "length p = 2" "p ! 0 \<noteq> None" "p ! 1 \<noteq> None" "refines q p"
  shows "q = p"
  using assms by (intro nth_equalityI) (auto simp: refines_def numeral_2_eq_2 less_Suc_eq)

lemma demo_contract:
  assumes points: "\<forall>q \<in> points [3, 2] opts seed. q ! 0 \<noteq> None \<and> q ! 1 \<noteq> None"
    and some: "\<forall>p \<in> regions [3, 2] opts seed. \<exists>q \<in> points [3, 2] opts seed. refines q p"
  shows "bound_contract [3, 2] opts seed demo_bounds demo_objective"
proof -
  have small: "demo_objective q \<le> 3" if q: "q \<in> points [3, 2] opts seed" for q
  proof -
    from points q obtain x y where "q ! 0 = Some x" "q ! 1 = Some y" by blast
    moreover have "y < 2" if "q ! 1 = Some y" for y
      using q that by (auto simp: points_def regions_def less_Suc_eq numeral_2_eq_2)
    ultimately show ?thesis by (fastforce simp: demo_objective_def)
  qed
  have same: "q = view v" if "view v ! 0 \<noteq> None" "view v ! 1 \<noteq> None" "view v \<in> regions [3, 2] opts seed" "refines q (view v)" for q v
    using refines_complete[OF _ that(1,2,4)] that(3) by (simp add: regions_def numeral_2_eq_2)
  have "lowerBound (demo_bounds v) \<le> demo_objective q \<and> demo_objective q \<le> upperBound (demo_bounds v)"
    if "view v \<in> regions [3, 2] opts seed" "q \<in> points [3, 2] opts seed" "refines q (view v)" for v q
    using small[OF that(2)] same[OF _ _ that(1,3)] by (auto simp: demo_bounds_def Let_def)
  moreover have "lowerBound (demo_bounds v) = demo_objective (view v)" if "view v \<in> points [3, 2] opts seed" for v
    using points that by (auto simp: demo_bounds_def Let_def)
  moreover have "lowerBound (demo_bounds v) \<le> lowerBound (demo_bounds w)"
    if "view v \<in> regions [3, 2] opts seed" "refines (view w) (view v)" for v w
    using same[OF _ _ that] by (auto simp: demo_bounds_def Let_def)
  moreover have "demo_objective q < sizeMax" if "q \<in> points [3, 2] opts seed" for q
    using small[OF that] by (simp add: sizeMax_def)
  moreover have "lowerBound (demo_bounds v) \<le> upperBound (demo_bounds v)" for v
    by (simp add: demo_bounds_def Let_def)
  ultimately show ?thesis using some unfolding bound_contract_def by blast
qed

text \<open>Filling the undefined parameters with 0 gives a point of a region.\<close>

lemma region_fill:
  assumes "p \<in> regions ranges opts seed" "\<forall>r \<in> set ranges. 0 < r" "\<forall>i \<in> set opts. i < length ranges"
  shows "\<exists>q \<in> points ranges opts seed. refines q p \<and> (\<forall>i < length ranges. q ! i = p ! i \<or> p ! i = None \<and> q ! i = Some 0)"
proof -
  define q where "q = map (\<lambda>i. if p ! i = None \<and> i \<in> set opts then Some 0 else p ! i) [0..<length ranges]"
  have "refines q p" using assms(1) by (auto simp: refines_def q_def regions_def)
  moreover from this have "q \<in> points ranges opts seed"
    using assms refines_trans[of q p seed] by (auto simp: points_def regions_def q_def split: if_splits)
  moreover have "\<forall>i < length ranges. q ! i = p ! i \<or> p ! i = None \<and> q ! i = Some 0" by (auto simp: q_def)
  ultimately show ?thesis by blast
qed

lemma region_has_point:
  "p \<in> regions ranges opts seed \<Longrightarrow> \<forall>r \<in> set ranges. 0 < r \<Longrightarrow> \<forall>i \<in> set opts. i < length ranges \<Longrightarrow>
     \<exists>q \<in> points ranges opts seed. refines q p"
  using region_fill by blast

theorem IntegerBranchAndBoundImpl_optimal_witness:
  "\<exists>v. IntegerBranchAndBoundImpl [3, 2] demo_bounds [0] (Some 1) [(1, 1)] = Some (Some v) \<and> view v = [Some 2, Some 1]"
proof -
  let ?seed = "[None, Some 1] :: nat option list"
  have seed: "seed_of [3, 2] [(1, 1)] = ?seed" by (simp add: seed_of_def)
  have len: "length q = 2 \<and> q ! 1 = Some 1" if "q \<in> regions [3, 2] [0] ?seed" for q
    using that by (auto simp: regions_def refines_def)
  have pts: "\<exists>x < 3. q = [Some x, Some 1]" if q: "q \<in> points [3, 2] [0] ?seed" for q
  proof -
    obtain x where "x < 3" "q ! 0 = Some x" using points_value[OF q, of 0] by auto
    then show ?thesis using len[OF points_region[OF q]]
      by (intro exI[of _ x] conjI nth_equalityI) (auto simp: less_Suc_eq numeral_2_eq_2)
  qed
  have "bound_contract [3, 2] [0] ?seed demo_bounds demo_objective"
    using demo_contract[of "[0]" ?seed] pts region_has_point[of _ "[3, 2]" "[0]" ?seed] by force
  moreover have "search_ok [3, 2] [0] [(1, 1)]" by (simp add: search_ok_def fixed_ok_def smap_ok_def)
  ultimately obtain v where v: "IntegerBranchAndBoundImpl [3, 2] demo_bounds [0] (Some 1) [(1, 1)] = Some (Some v)"
    "optimal_point [3, 2] [0] ?seed demo_objective (view v)"
    using IntegerBranchAndBoundImpl_optimal[of "[3, 2]" "[0]" "[(1, 1)]" demo_bounds demo_objective "Some 1"] seed by auto
  have best: "[Some 2, Some 1] \<in> points [3, 2] [0] ?seed"
    by (auto simp: points_def regions_def refines_def less_Suc_eq nth_Cons split: nat.splits)
  from v(2) pts obtain x where x: "x < 3" "view v = [Some x, Some 1]" by (auto simp: optimal_point_def)
  with v(2) best have "demo_objective [Some x, Some 1] \<le> demo_objective [Some 2, Some 1]" by (auto simp: optimal_point_def)
  with x have "x = 2" by (simp add: demo_objective_def)
  with x v(1) show ?thesis by blast
qed

theorem IntegerBranchAndBound_optimal_witness:
  "\<exists>v. IntegerBranchAndBound [3, 2] demo_bounds = Some v \<and> view v = [Some 2, Some 0]"
proof -
  let ?seed = "[None, None] :: nat option list"
  have pts: "\<exists>x y. x < 3 \<and> y < 2 \<and> q = [Some x, Some y]" if q: "q \<in> points [3, 2] [0, 1] ?seed" for q
  proof -
    obtain x y where "x < 3" "q ! 0 = Some x" "y < 2" "q ! 1 = Some y"
      using points_value[OF q, of 0] points_value[OF q, of 1] by auto
    moreover have "length q = 2" using points_region[OF q] by (simp add: regions_def)
    ultimately show ?thesis
      by (intro exI[of _ x] exI[of _ y] conjI nth_equalityI) (auto simp: less_Suc_eq numeral_2_eq_2)
  qed
  have opts: "[0..<length [3, 2::nat]] = [0, 1]" "replicate (length [3, 2::nat]) None = ?seed" by (simp_all add: upt_rec)
  have "bound_contract [3, 2] [0, 1] ?seed demo_bounds demo_objective"
    using demo_contract[of "[0, 1]" ?seed] pts region_has_point[of _ "[3, 2]" "[0, 1]" ?seed] by force
  then obtain v where v: "IntegerBranchAndBound [3, 2] demo_bounds = Some v"
    "optimal_point [3, 2] [0, 1] ?seed demo_objective (view v)"
    using IntegerBranchAndBound_optimal[of "[3, 2]" demo_bounds demo_objective] unfolding opts by auto
  have best: "[Some 2, Some 0] \<in> points [3, 2] [0, 1] ?seed"
    by (auto simp: points_def regions_def refines_def less_Suc_eq nth_Cons split: nat.splits)
  have "view v \<in> points [3, 2] [0, 1] ?seed" using v(2) by (simp add: optimal_point_def)
  from pts[OF this] obtain x y where x: "x < 3" "view v = [Some x, Some y]" by blast
  with v(2) best have "demo_objective [Some x, Some y] \<le> demo_objective [Some 2, Some 0]" by (auto simp: optimal_point_def)
  with x have "x = 2 \<and> y = 0" by (simp add: demo_objective_def)
  with x v(1) show ?thesis by blast
qed

end
