(* ===== verification/Sparse_Search.thy ===== *)
theory Sparse_Search
  imports Branch_And_Bound
begin

text \<open>
  \<^verbatim>\<open>IntegerBranchAndBoundSparse\<close> (\<^verbatim>\<open>compiler/cpp/branch_and_bound.cpp\<close>): the parameters are the vertices of a
  graph of interactions; connected components are searched one after the other, with the values found so far
  fixed, and a component whose search exceeds the limit loses a vertex, which is searched alone. The graph
  algorithms of boost (\<^verbatim>\<open>connected_components\<close>, \<^verbatim>\<open>articulation_points\<close>, \<^verbatim>\<open>degree\<close>) are parameters of the model.
\<close>

subsection \<open>Graphs\<close>

text \<open>Vertices are numbered; the vertex property is the index of the parameter.\<close>

record UndirectedGraph =
  g_parameters :: "nat list"
  g_edges :: "(nat \<times> nat) list"

definition num_vertices :: "UndirectedGraph \<Rightarrow> nat" where
  "num_vertices g = length (g_parameters g)"

definition add_vertex :: "nat \<Rightarrow> UndirectedGraph \<Rightarrow> UndirectedGraph" where
  "add_vertex parameterIndex g = g\<lparr>g_parameters := g_parameters g @ [parameterIndex]\<rparr>"

definition add_edge :: "nat \<Rightarrow> nat \<Rightarrow> UndirectedGraph \<Rightarrow> UndirectedGraph" where
  "add_edge u v g = g\<lparr>g_edges := g_edges g @ [(u, v)]\<rparr>"

text \<open>The algorithms of the graph library.\<close>

record GraphLibrary =
  connected_components :: "UndirectedGraph \<Rightarrow> nat list \<times> nat"
  articulation_points :: "UndirectedGraph \<Rightarrow> nat list"
  degree :: "nat \<Rightarrow> UndirectedGraph \<Rightarrow> nat"

subsubsection \<open>Subgraphs\<close>

definition SubgraphVertex ::
  "UndirectedGraph \<Rightarrow> (nat \<Rightarrow> bool) \<Rightarrow> nat \<Rightarrow> UndirectedGraph \<times> (nat, nat) smap \<Rightarrow> (UndirectedGraph \<times> (nat, nat) smap) option" where
  "SubgraphVertex srcGraph predicate vertexIdInSrcGraph st =
     (if predicate vertexIdInSrcGraph then do {
        let vertexIdInNewGraph = num_vertices (fst st);
        srcToNewVertex \<leftarrow> SafeInsert (snd st) vertexIdInSrcGraph vertexIdInNewGraph;
        Some (add_vertex (g_parameters srcGraph ! vertexIdInSrcGraph) (fst st), srcToNewVertex) }
      else Some st)"

definition SubgraphEdge ::
  "(nat \<Rightarrow> bool) \<Rightarrow> (nat, nat) smap \<Rightarrow> nat \<times> nat \<Rightarrow> UndirectedGraph \<Rightarrow> UndirectedGraph option" where
  "SubgraphEdge predicate srcToNewVertex e g =
     (if predicate (fst e) \<and> predicate (snd e) then do {
        srcInNewGraph \<leftarrow> SafeLookup srcToNewVertex (fst e);
        targetInNewGraph \<leftarrow> SafeLookup srcToNewVertex (snd e);
        _ \<leftarrow> assert_that (srcInNewGraph \<noteq> targetInNewGraph);
        Some (add_edge srcInNewGraph targetInNewGraph g) }
      else Some g)"

definition Subgraph :: "UndirectedGraph \<Rightarrow> (nat \<Rightarrow> bool) \<Rightarrow> UndirectedGraph option" where
  "Subgraph srcGraph predicate = do {
     (newGraph, srcToNewVertex) \<leftarrow> fold_opt (SubgraphVertex srcGraph predicate) [0..<num_vertices srcGraph]
       (\<lparr>g_parameters = [], g_edges = []\<rparr>, []);
     _ \<leftarrow> assert_that (srcToNewVertex \<noteq> []);
     fold_opt (SubgraphEdge predicate srcToNewVertex) (g_edges srcGraph) newGraph }"

definition DecomposeConnectedComponents ::
  "UndirectedGraph list \<Rightarrow> UndirectedGraph \<Rightarrow> nat list \<Rightarrow> nat \<Rightarrow> UndirectedGraph list option" where
  "DecomposeConnectedComponents outputList srcGraph componentVector connectedComponentCount = do {
     _ \<leftarrow> assert_that (connectedComponentCount > 1);
     _ \<leftarrow> assert_that (num_vertices srcGraph \<le> length componentVector);
     fold_opt (\<lambda>componentIndex out. do {
         g \<leftarrow> Subgraph srcGraph (\<lambda>vertexId. componentVector ! vertexId = componentIndex);
         Some (out @ [g]) })
       [0..<connectedComponentCount] outputList }"

definition MaxDegreeStep :: "GraphLibrary \<Rightarrow> UndirectedGraph \<Rightarrow> nat \<Rightarrow> nat option \<times> nat \<Rightarrow> nat option \<times> nat" where
  "MaxDegreeStep lib srcGraph vertex st =
     (if degree lib vertex srcGraph \<ge> snd st then (Some vertex, degree lib vertex srcGraph) else st)"

definition SelectVertexToRemove :: "GraphLibrary \<Rightarrow> UndirectedGraph \<Rightarrow> nat option" where
  "SelectVertexToRemove lib srcGraph = do {
     let candidateVertices = (case articulation_points lib srcGraph of
         [] \<Rightarrow> [0..<num_vertices srcGraph] | vs \<Rightarrow> vs);
     _ \<leftarrow> assert_that (candidateVertices \<noteq> []);
     fst (fold (MaxDegreeStep lib srcGraph) candidateVertices (None, 0)) }"

definition RemoveVertex :: "UndirectedGraph list \<Rightarrow> UndirectedGraph \<Rightarrow> nat \<Rightarrow> UndirectedGraph list option" where
  "RemoveVertex outputList srcGraph vertexToRemove = do {
     others \<leftarrow> Subgraph srcGraph (\<lambda>vertexId. vertexId \<noteq> vertexToRemove);
     alone \<leftarrow> Subgraph srcGraph (\<lambda>vertexId. vertexId = vertexToRemove);
     Some (outputList @ [others, alone]) }"

text \<open>\<^verbatim>\<open>SafeInsert\<close> on a \<^verbatim>\<open>std::set\<close> throws when the parameter is already there; a set is a sorted list.\<close>

definition GetParameterSet :: "UndirectedGraph \<Rightarrow> nat list option" where
  "GetParameterSet srcGraph = do {
     s \<leftarrow> fold_opt (\<lambda>vertexId result. SafeInsertSet result (g_parameters srcGraph ! vertexId))
       [0..<num_vertices srcGraph] {};
     Some (sorted_list_of_set s) }"

subsection \<open>The search\<close>

type_synonym ParameterInteractionGraph = "(nat, nat list) smap"

definition InteractionEdge ::
  "nat \<Rightarrow> nat \<Rightarrow> UndirectedGraph \<times> (nat \<times> nat) set \<Rightarrow> (UndirectedGraph \<times> (nat \<times> nat) set) option" where
  "InteractionEdge v otherVertex st =
     (if otherVertex = v then Some st
      else do {
        let v1 = min v otherVertex;
        let v2 = max v otherVertex;
        _ \<leftarrow> assert_that (v1 \<noteq> v2);
        _ \<leftarrow> assert_that (v1 < v2);
        Some (if (v1, v2) \<in> snd st then st
              else (add_edge v1 v2 (fst st), insert (v1, v2) (snd st))) })"

definition FullGraph :: "nat \<Rightarrow> ParameterInteractionGraph \<Rightarrow> UndirectedGraph option" where
  "FullGraph parameterCount interactions = do {
     let fullGraph = fold add_vertex [0..<parameterCount] \<lparr>g_parameters = [], g_edges = []\<rparr>;
     st \<leftarrow> fold_opt (\<lambda>p. fold_opt (InteractionEdge (fst p)) (snd p)) interactions (fullGraph, {});
     Some (fst st) }"

record SparseState =
  graphs :: "UndirectedGraph list"
  optimalValues :: "(nat, nat) smap"
  maxSearchSpaceSize :: nat

text \<open>The part of \<^verbatim>\<open>boundCallbackWrapper\<close> that runs for the optimal point.\<close>

definition RecordOptimal :: "IntegerParameterVector \<Rightarrow> (nat, nat) smap \<Rightarrow> (nat, nat) smap option" where
  "RecordOptimal paramVector values = fold_opt (\<lambda>i m. do {
       def \<leftarrow> IsParameterDefined paramVector i;
       if def then do {
         parameterValue \<leftarrow> GetParameter paramVector i;
         SafeInsertIdempotent m i parameterValue }
       else Some m })
     [0..<GetParameterCount paramVector] values"

text \<open>\<^verbatim>\<open>logSearchSpaceSize\<close> is a \<^verbatim>\<open>size_t\<close>: the sum wraps around.\<close>

definition logSearchSpaceSize :: "nat list \<Rightarrow> nat list \<Rightarrow> nat" where
  "logSearchSpaceSize parameterRanges parametersToOptimize =
     fold (\<lambda>i acc. (acc + parameterRanges ! i) mod 2 ^ 64) parametersToOptimize 0"

definition OptimizeGraph ::
  "nat list \<Rightarrow> BoundObjectiveFunction \<Rightarrow> nat \<Rightarrow> GraphLibrary \<Rightarrow> UndirectedGraph \<Rightarrow> SparseState \<Rightarrow> SparseState option" where
  "OptimizeGraph parameterRanges boundCallback maxWorkListSize lib srcGraph st = do {
     parametersToOptimize \<leftarrow> GetParameterSet srcGraph;
     let logSize = logSearchSpaceSize parameterRanges parametersToOptimize;
     (optimizeResult, st) \<leftarrow>
       (if logSize < maxSearchSpaceSize st \<or> length parametersToOptimize = 1 then do {
          outcome \<leftarrow> IntegerBranchAndBoundImpl parameterRanges boundCallback parametersToOptimize
            (Some maxWorkListSize) (optimalValues st);
          case outcome of
            Some v \<Rightarrow> do {
              values \<leftarrow> RecordOptimal v (optimalValues st);
              Some (True, st\<lparr>optimalValues := values\<rparr>) }
          | None \<Rightarrow> Some (False, st\<lparr>maxSearchSpaceSize := logSize\<rparr>) }
        else Some (False, st));
     if optimizeResult then do {
       _ \<leftarrow> assert_that (list_all (\<lambda>i. map_of (optimalValues st) i \<noteq> None) parametersToOptimize);
       Some st }
     else do {
       vertexToRemove \<leftarrow> SelectVertexToRemove lib srcGraph;
       gs \<leftarrow> RemoveVertex (graphs st) srcGraph vertexToRemove;
       Some (st\<lparr>graphs := gs\<rparr>) } }"

definition SparseStep ::
  "nat list \<Rightarrow> BoundObjectiveFunction \<Rightarrow> nat \<Rightarrow> GraphLibrary \<Rightarrow>
   SparseState \<Rightarrow> SparseState option" where
  "SparseStep parameterRanges boundCallback maxWorkListSize lib st =
     (case graphs st of
        [] \<Rightarrow> Some st
      | srcGraph # rest \<Rightarrow>
          (case connected_components lib srcGraph of (componentVector, connectedComponentCount) \<Rightarrow>
             if connectedComponentCount > 1 then do {
               gs \<leftarrow> DecomposeConnectedComponents rest srcGraph componentVector connectedComponentCount;
               Some (st\<lparr>graphs := gs\<rparr>) }
             else OptimizeGraph parameterRanges boundCallback maxWorkListSize lib srcGraph (st\<lparr>graphs := rest\<rparr>)))"

partial_function (option) SparseLoop ::
  "nat list \<Rightarrow> BoundObjectiveFunction \<Rightarrow> nat \<Rightarrow> GraphLibrary \<Rightarrow>
   SparseState \<Rightarrow> SparseState option" where
  "SparseLoop parameterRanges boundCallback maxWorkListSize lib st =
     (if graphs st = [] then Some st
      else SparseStep parameterRanges boundCallback maxWorkListSize lib st \<bind>
        SparseLoop parameterRanges boundCallback maxWorkListSize lib)"

text \<open>The result is the vector of the final \<^verbatim>\<open>boundCallback(finalVector, true)\<close>.\<close>

definition IntegerBranchAndBoundSparse ::
  "GraphLibrary \<Rightarrow>
   nat list \<Rightarrow> ParameterInteractionGraph \<Rightarrow> nat \<Rightarrow> BoundObjectiveFunction \<Rightarrow> IntegerParameterVector option" where
  "IntegerBranchAndBoundSparse lib parameterRanges interactions maxWorkListSize boundCallback =
     (if parameterRanges = [] then Some empty_IntegerParameterVector
      else do {
        fullGraph \<leftarrow> FullGraph (length parameterRanges) interactions;
        st \<leftarrow> SparseLoop parameterRanges boundCallback maxWorkListSize lib
          \<lparr>graphs = [fullGraph], optimalValues = [], maxSearchSpaceSize = sizeMax\<rparr>;
        codeBook \<leftarrow> CreateCodeBook parameterRanges;
        fold_opt (\<lambda>i v. do { value \<leftarrow> SafeLookup (optimalValues st) i; SetParameter v i value })
          [0..<length parameterRanges] (new_IntegerParameterVector codeBook) })"

subsection \<open>Subgraphs keep their parameters\<close>

definition graph_ok :: "nat \<Rightarrow> UndirectedGraph \<Rightarrow> bool" where
  "graph_ok n g \<longleftrightarrow> g_parameters g \<noteq> [] \<and> distinct (g_parameters g) \<and> set (g_parameters g) \<subseteq> {..<n} \<and>
     (\<forall>e \<in> set (g_edges g). fst e < num_vertices g \<and> snd e < num_vertices g \<and> fst e \<noteq> snd e)"

lemma SubgraphVertex_fold:
  "\<exists>m. fold_opt (SubgraphVertex g pred) [0..<k] (\<lparr>g_parameters = [], g_edges = []\<rparr>, []) =
     Some (\<lparr>g_parameters = map ((!) (g_parameters g)) (filter pred [0..<k]), g_edges = []\<rparr>, m) \<and>
     (\<forall>v j. map_of m v = Some j \<longleftrightarrow> j < length (filter pred [0..<k]) \<and> filter pred [0..<k] ! j = v)"
proof (induction k)
  case (Suc k)
  then obtain m where m: "fold_opt (SubgraphVertex g pred) [0..<k] (\<lparr>g_parameters = [], g_edges = []\<rparr>, []) =
      Some (\<lparr>g_parameters = map ((!) (g_parameters g)) (filter pred [0..<k]), g_edges = []\<rparr>, m)"
    "\<forall>v j. map_of m v = Some j \<longleftrightarrow> j < length (filter pred [0..<k]) \<and> filter pred [0..<k] ! j = v" by blast
  have notk: "filter pred [0..<k] ! j \<noteq> k" if "j < length (filter pred [0..<k])" for j
    using nth_mem[OF that] by auto
  have new: "map_of m k = None"
  proof (rule ccontr)
    assume "map_of m k \<noteq> None"
    with m(2) notk show False by blast
  qed
  show ?case
  proof (cases "pred k")
    case True
    then have "fold_opt (SubgraphVertex g pred) [0..<Suc k] (\<lparr>g_parameters = [], g_edges = []\<rparr>, []) =
        Some (\<lparr>g_parameters = map ((!) (g_parameters g)) (filter pred [0..<Suc k]), g_edges = []\<rparr>,
          map_insert k (length (filter pred [0..<k])) m)"
      using m(1) new by (simp add: SubgraphVertex_def[of g pred k] SafeInsert_def num_vertices_def add_vertex_def)
    moreover have "(map_of (map_insert k (length (filter pred [0..<k])) m) v = Some j) =
        (j < length (filter pred [0..<Suc k]) \<and> filter pred [0..<Suc k] ! j = v)" for v j
      using True m(2) new notk by (auto simp: nth_append less_Suc_eq)
    ultimately show ?thesis by blast
  next
    case False
    then show ?thesis using m by (intro exI[of _ m]) (simp add: SubgraphVertex_def[of g pred k])
  qed
qed simp

lemma SubgraphEdge_fold:
  assumes "\<forall>e \<in> set es. fst e < nv \<and> snd e < nv \<and> fst e \<noteq> snd e"
    and "\<forall>v < nv. pred v \<longrightarrow> (\<exists>j < num_vertices g. map_of m v = Some j)"
    and "\<forall>u v j. map_of m u = Some j \<and> map_of m v = Some j \<longrightarrow> u = v"
    and "\<forall>e \<in> set (g_edges g). fst e < num_vertices g \<and> snd e < num_vertices g \<and> fst e \<noteq> snd e"
  shows "\<exists>g'. fold_opt (SubgraphEdge pred m) es g = Some g' \<and> g_parameters g' = g_parameters g \<and>
    (\<forall>e \<in> set (g_edges g'). fst e < num_vertices g \<and> snd e < num_vertices g \<and> fst e \<noteq> snd e)"
  using assms(1,2,4)
proof (induction es arbitrary: g)
  case (Cons e es)
  show ?case
  proof (cases "pred (fst e) \<and> pred (snd e)")
    case True
    then obtain i j where ij: "map_of m (fst e) = Some i" "i < num_vertices g" "map_of m (snd e) = Some j" "j < num_vertices g"
      using Cons.prems(1,2) by (metis list.set_intros(1))
    have "i \<noteq> j" using ij assms(3) Cons.prems(1) by (metis list.set_intros(1))
    moreover have "num_vertices (add_edge i j g) = num_vertices g" "g_parameters (add_edge i j g) = g_parameters g"
      by (simp_all add: num_vertices_def add_edge_def)
    moreover have "\<forall>e \<in> set (g_edges (add_edge i j g)). fst e < num_vertices g \<and> snd e < num_vertices g \<and> fst e \<noteq> snd e"
      using Cons.prems(3) ij \<open>i \<noteq> j\<close> by (auto simp: add_edge_def)
    ultimately show ?thesis
      using Cons.IH[of "add_edge i j g"] Cons.prems(1,2) True ij by (simp add: SubgraphEdge_def[of pred m e] SafeLookup_def)
  next
    case False
    then have "SubgraphEdge pred m e g = Some g" by (auto simp: SubgraphEdge_def)
    then show ?thesis using Cons.IH[of g] Cons.prems by simp
  qed
qed simp

lemma Subgraph_ok:
  assumes "graph_ok n g" "v < num_vertices g" "pred v"
  shows "\<exists>g'. Subgraph g pred = Some g' \<and> graph_ok n g' \<and>
    g_parameters g' = map ((!) (g_parameters g)) (filter pred [0..<num_vertices g])"
proof -
  let ?fl = "filter pred [0..<num_vertices g]"
  let ?g0 = "\<lparr>g_parameters = map ((!) (g_parameters g)) ?fl, g_edges = []\<rparr>"
  obtain m where m: "fold_opt (SubgraphVertex g pred) [0..<num_vertices g] (\<lparr>g_parameters = [], g_edges = []\<rparr>, []) = Some (?g0, m)"
    "\<forall>v j. map_of m v = Some j \<longleftrightarrow> j < length ?fl \<and> ?fl ! j = v"
    using SubgraphVertex_fold by blast
  have mem: "v \<in> set ?fl" using assms(2,3) by simp
  then obtain j where "map_of m v = Some j" using m(2) by (metis in_set_conv_nth)
  then have ne: "m \<noteq> []" by auto
  have "\<forall>v < num_vertices g. pred v \<longrightarrow> (\<exists>j < num_vertices ?g0. map_of m v = Some j)"
  proof (intro allI impI)
    fix v assume "v < num_vertices g" "pred v"
    then have "v \<in> set ?fl" by simp
    then obtain j where "j < length ?fl" "?fl ! j = v" by (metis in_set_conv_nth)
    then show "\<exists>j < num_vertices ?g0. map_of m v = Some j" using m(2) by (intro exI[of _ j]) (simp add: num_vertices_def)
  qed
  moreover have "\<forall>u v j. map_of m u = Some j \<and> map_of m v = Some j \<longrightarrow> u = v" using m(2) by metis
  ultimately obtain g' where g': "fold_opt (SubgraphEdge pred m) (g_edges g) ?g0 = Some g'" "g_parameters g' = g_parameters ?g0"
    "\<forall>e \<in> set (g_edges g'). fst e < num_vertices ?g0 \<and> snd e < num_vertices ?g0 \<and> fst e \<noteq> snd e"
    using SubgraphEdge_fold[of "g_edges g" "num_vertices g" pred ?g0 m] assms(1) by (auto simp: graph_ok_def)
  have "distinct (map ((!) (g_parameters g)) ?fl)"
    using assms(1) by (auto simp: distinct_map graph_ok_def num_vertices_def intro!: inj_onI dest: nth_eq_iff_index_eq)
  moreover have "set (map ((!) (g_parameters g)) ?fl) \<subseteq> {..<n}"
    using assms(1) by (fastforce simp: graph_ok_def num_vertices_def dest: nth_mem)
  moreover have "?fl \<noteq> []" using mem by (metis list.distinct(1) list.set_cases)
  ultimately have "graph_ok n g'" using g' by (simp add: graph_ok_def num_vertices_def)
  with m(1) ne g' show ?thesis by (simp add: Subgraph_def)
qed

text \<open>The parts of a graph have the parameters of the graph.\<close>

definition all_parameters :: "UndirectedGraph list \<Rightarrow> nat multiset" where
  "all_parameters gs = mset (concat (map g_parameters gs))"

lemma all_parameters_simps [simp]:
  "all_parameters [] = {#}" "all_parameters (g # gs) = mset (g_parameters g) + all_parameters gs"
  "all_parameters (gs @ hs) = all_parameters gs + all_parameters hs"
  by (simp_all add: all_parameters_def)

lemma mset_filter_split: "mset (map f (filter P xs)) + mset (map f (filter (\<lambda>x. \<not> P x) xs)) = mset (map f xs)"
  by (induction xs) auto

lemma mset_labels:
  "mset (concat (map (\<lambda>k. map f (filter (\<lambda>v. lab v = k) xs)) [0..<c])) = mset (map f (filter (\<lambda>v. lab v < c) xs))"
proof (induction c)
  case (Suc c)
  have "mset (map f (filter (\<lambda>v. lab v < Suc c) xs)) =
      mset (map f (filter (\<lambda>v. lab v < c) xs)) + mset (map f (filter (\<lambda>v. lab v = c) xs))"
    by (induction xs) auto
  with Suc show ?case by simp
qed simp

lemma vertices_parameters: "map ((!) (g_parameters g)) [0..<num_vertices g] = g_parameters g"
  by (simp add: num_vertices_def map_nth)

definition sparse_weight :: "UndirectedGraph list \<Rightarrow> nat" where
  "sparse_weight gs = sum_list (map (\<lambda>g. 2 * num_vertices g - 1) gs)"

lemma sparse_weight_parts:
  "\<forall>g \<in> set gs. g_parameters g \<noteq> [] \<Longrightarrow> sparse_weight gs + length gs = 2 * size (all_parameters gs)"
proof (induction gs)
  case (Cons g gs)
  then show ?case by (cases "g_parameters g") (simp_all add: sparse_weight_def num_vertices_def)
qed (simp add: sparse_weight_def)

lemma Decompose_ok:
  assumes "graph_ok n g" "length vec = num_vertices g" "1 < c"
    and lab: "\<forall>v < num_vertices g. vec ! v < c" "\<forall>k < c. \<exists>v < num_vertices g. vec ! v = k"
  shows "\<exists>gs. DecomposeConnectedComponents out g vec c = Some (out @ gs) \<and> (\<forall>h \<in> set gs. graph_ok n h) \<and>
    all_parameters gs = mset (g_parameters g) \<and> length gs = c"
proof -
  define part where "part k = the (Subgraph g (\<lambda>v. vec ! v = k))" for k
  have part: "Subgraph g (\<lambda>v. vec ! v = k) = Some (part k) \<and> graph_ok n (part k) \<and>
      g_parameters (part k) = map ((!) (g_parameters g)) (filter (\<lambda>v. vec ! v = k) [0..<num_vertices g])" if k: "k < c" for k
  proof -
    obtain v where "v < num_vertices g" "vec ! v = k" using lab(2) k by blast
    from Subgraph_ok[OF assms(1) this(1), of "\<lambda>v. vec ! v = k", OF this(2)] show ?thesis by (auto simp: part_def)
  qed
  have "fold_opt (\<lambda>k out. do { g' \<leftarrow> Subgraph g (\<lambda>v. vec ! v = k); Some (out @ [g']) }) [0..<j] out = Some (out @ map part [0..<j])"
    if "j \<le> c" for j
    using that part by (induction j) auto
  from this[of c] have "DecomposeConnectedComponents out g vec c = Some (out @ map part [0..<c])"
    using assms(2,3) by (simp add: DecomposeConnectedComponents_def)
  moreover have "all_parameters (map part [0..<c]) = mset (g_parameters g)"
  proof -
    have "map g_parameters (map part [0..<c]) =
        map (\<lambda>k. map ((!) (g_parameters g)) (filter (\<lambda>v. vec ! v = k) [0..<num_vertices g])) [0..<c]" using part by simp
    moreover have "filter (\<lambda>v. vec ! v < c) [0..<num_vertices g] = [0..<num_vertices g]" using lab(1) by simp
    ultimately show ?thesis unfolding all_parameters_def using mset_labels[of "(!) (g_parameters g)" "(!) vec" "[0..<num_vertices g]" c]
      by (simp only: vertices_parameters)
  qed
  ultimately show ?thesis using part by (intro exI[of _ "map part [0..<c]"]) auto
qed

lemma RemoveVertex_ok:
  assumes "graph_ok n g" "v < num_vertices g" "1 < num_vertices g"
  shows "\<exists>a b. RemoveVertex out g v = Some (out @ [a, b]) \<and> graph_ok n a \<and> graph_ok n b \<and>
    all_parameters [a, b] = mset (g_parameters g)"
proof -
  obtain u where "u < num_vertices g" "u \<noteq> v" using assms(3) by (metis less_trans zero_less_one zero_neq_one)
  from Subgraph_ok[OF assms(1) this(1), of "\<lambda>u. u \<noteq> v", OF this(2)] obtain a where
    a: "Subgraph g (\<lambda>u. u \<noteq> v) = Some a" "graph_ok n a"
    "g_parameters a = map ((!) (g_parameters g)) (filter (\<lambda>u. u \<noteq> v) [0..<num_vertices g])" by blast
  from Subgraph_ok[OF assms(1,2), of "\<lambda>u. u = v"] obtain b where
    b: "Subgraph g (\<lambda>u. u = v) = Some b" "graph_ok n b"
    "g_parameters b = map ((!) (g_parameters g)) (filter (\<lambda>u. u = v) [0..<num_vertices g])" by blast
  have "mset (g_parameters a) + mset (g_parameters b) = mset (g_parameters g)"
    using mset_filter_split[of "(!) (g_parameters g)" "\<lambda>u. u \<noteq> v" "[0..<num_vertices g]"] a(3) b(3)
    by (simp only: vertices_parameters not_not)
  with a b show ?thesis by (simp add: RemoveVertex_def)
qed

lemma SelectVertexToRemove_ok:
  assumes "graph_ok n g" "\<forall>v \<in> set (articulation_points lib g). v < num_vertices g"
  shows "\<exists>v < num_vertices g. SelectVertexToRemove lib g = Some v"
proof -
  have fold: "vs \<noteq> [] \<Longrightarrow> \<exists>v \<in> set vs. fst (fold (MaxDegreeStep lib g) vs (None, 0)) = Some v" for vs
  proof (induction vs rule: rev_induct)
    case (snoc v vs)
    then show ?case
      by (cases "vs = []") (auto simp: MaxDegreeStep_def)
  qed simp
  obtain vs where vs: "(case articulation_points lib g of [] \<Rightarrow> [0..<num_vertices g] | vs \<Rightarrow> vs) = vs" by blast
  have "vs \<noteq> []" "\<forall>v \<in> set vs. v < num_vertices g"
    using vs assms by (auto simp: graph_ok_def num_vertices_def split: list.splits)
  with fold[of vs] show ?thesis by (auto simp: SelectVertexToRemove_def Let_def vs)
qed

subsection \<open>The values found so far\<close>

lemma dom_smap: "fst ` set m = {k. map_of m k \<noteq> None}"
  by (auto simp: map_of_eq_None_iff)

lemma RecordOptimal_ok:
  assumes "ipv_ok ranges v" "smap_ok m" "\<forall>i x. map_of m i = Some x \<longrightarrow> i < length ranges \<and> view v ! i = Some x"
  shows "\<exists>m'. RecordOptimal v m = Some m' \<and> smap_ok m' \<and>
    (\<forall>i. map_of m' i = (if i < length ranges then view v ! i else None))"
proof -
  let ?step = "\<lambda>i m. do { def \<leftarrow> IsParameterDefined v i;
      if def then do { x \<leftarrow> GetParameter v i; SafeInsertIdempotent m i x } else Some m }"
  have "\<exists>m'. fold_opt ?step [0..<k] m = Some m' \<and> smap_ok m' \<and>
      (\<forall>i. map_of m' i = (if i < k then view v ! i else map_of m i))" if "k \<le> length ranges" for k
    using that
  proof (induction k)
    case (Suc k)
    then obtain m' where m': "fold_opt ?step [0..<k] m = Some m'" "smap_ok m'"
      "\<forall>i. map_of m' i = (if i < k then view v ! i else map_of m i)" by auto
    have k: "IsParameterDefined v k = Some (view v ! k \<noteq> None)" "GetParameter v k = view v ! k"
      using IsParameterDefined_view[OF assms(1)] GetParameter_view[OF assms(1)] Suc.prems by simp_all
    show ?case
    proof (cases "view v ! k")
      case None
      then have "map_of m k = None" using assms(3) by (cases "map_of m k") auto
      with None k m' show ?thesis by (intro exI[of _ m']) (auto simp: less_Suc_eq)
    next
      case (Some x)
      have "map_of m' k = map_of m k" using m'(3) by simp
      then have "map_of m' k = None \<or> map_of m' k = Some x" using assms(3) Some by (cases "map_of m k") auto
      then obtain m'' where "SafeInsertIdempotent m' k x = Some m''" "smap_ok m''" "map_of m'' = (map_of m')(k \<mapsto> x)"
        using m'(2) by (auto simp: SafeInsertIdempotent_def fun_upd_idem)
      with Some k m' show ?thesis by (intro exI[of _ m'']) (auto simp: less_Suc_eq)
    qed
  qed (use assms(2) in auto)
  from this[of "length ranges"] obtain m' where m': "fold_opt ?step [0..<length ranges] m = Some m'" "smap_ok m'"
    "\<forall>i. map_of m' i = (if i < length ranges then view v ! i else map_of m i)" by auto
  have "map_of m i = None" if "\<not> i < length ranges" for i using assms(3) that by (cases "map_of m i") auto
  moreover have "GetParameterCount v = length ranges" using assms(1) by (simp add: GetParameterCount_def ipv_ok_def)
  ultimately show ?thesis using m' unfolding RecordOptimal_def by auto
qed

lemma GetParameterSet_ok:
  assumes "graph_ok n g"
  shows "GetParameterSet g = Some (sorted_list_of_set (set (g_parameters g)))"
proof -
  have "fold_opt (\<lambda>v s. SafeInsertSet s (g_parameters g ! v)) [0..<k] {} = Some (set (take k (g_parameters g)))"
    if "k \<le> num_vertices g" for k
    using that
  proof (induction k)
    case (Suc k)
    then have "g_parameters g ! k \<notin> set (take k (g_parameters g))"
      using assms by (auto simp: graph_ok_def num_vertices_def in_set_conv_nth distinct_conv_nth)
    with Suc show ?case by (simp add: SafeInsertSet_def num_vertices_def take_Suc_conv_app_nth)
  qed simp
  from this[of "num_vertices g"] show ?thesis by (simp add: GetParameterSet_def num_vertices_def)
qed

subsection \<open>Contracts\<close>

text \<open>What the search relies on: the documented results of the boost algorithms, and bounds that hold for
  every group of parameters and all values fixed before.\<close>

definition boost_contract :: "nat \<Rightarrow> GraphLibrary \<Rightarrow> bool" where
  "boost_contract n lib \<longleftrightarrow> (\<forall>g. graph_ok n g \<longrightarrow>
     length (fst (connected_components lib g)) = num_vertices g \<and>
     (\<forall>v < num_vertices g. fst (connected_components lib g) ! v < snd (connected_components lib g)) \<and>
     (\<forall>k < snd (connected_components lib g). \<exists>v < num_vertices g. fst (connected_components lib g) ! v = k) \<and>
     (\<forall>v \<in> set (articulation_points lib g). v < num_vertices g))"

definition sparse_contract :: "nat list \<Rightarrow> BoundObjectiveFunction \<Rightarrow> bool" where
  "sparse_contract ranges cb \<longleftrightarrow> (\<forall>opts fixed. search_ok ranges opts fixed \<and> set opts \<inter> fst ` set fixed = {} \<longrightarrow>
     (\<exists>f. bound_contract ranges opts (seed_of ranges fixed) cb f))"

text \<open>Each parameter waits in exactly one graph, or has its value.\<close>

definition sparse_inv :: "nat list \<Rightarrow> SparseState \<Rightarrow> bool" where
  "sparse_inv ranges st \<longleftrightarrow> (\<forall>g \<in> set (graphs st). graph_ok (length ranges) g) \<and> fixed_ok ranges (optimalValues st) \<and>
     all_parameters (graphs st) + mset (map fst (optimalValues st)) = mset [0..<length ranges]"

lemma mset_upt_mem: "A + mset xs = mset [0..<n] \<Longrightarrow> x \<in># A \<Longrightarrow> x < n \<and> x \<notin> set xs"
proof -
  assume eq: "A + mset xs = mset [0..<n]" and x: "x \<in># A"
  have "count (mset [0..<n]) x \<le> 1" using distinct_count_atmost_1[of "[0..<n]"] by simp
  then have "count (A + mset xs) x \<le> 1" using eq by simp
  moreover have "count A x \<ge> 1" using x by (simp add: Suc_le_eq)
  ultimately have "count (mset xs) x = 0" unfolding count_union by linarith
  then have "x \<notin> set xs" by (metis count_mset_0_iff)
  moreover have "x \<in># mset [0..<n]" using eq x by (metis union_iff)
  ultimately show ?thesis by simp
qed

lemma search_ok_graph:
  assumes "sparse_inv ranges st" "graphs st = g # rest" "\<forall>r \<in> set ranges. 0 < r \<and> r \<le> 2 ^ 63"
  shows "search_ok ranges (sorted_list_of_set (set (g_parameters g))) (optimalValues st)"
    "set (g_parameters g) \<inter> fst ` set (optimalValues st) = {}"
proof -
  have g: "graph_ok (length ranges) g" "fixed_ok ranges (optimalValues st)" using assms(1,2) by (auto simp: sparse_inv_def)
  then show "search_ok ranges (sorted_list_of_set (set (g_parameters g))) (optimalValues st)"
    using assms(3) by (auto simp: search_ok_def graph_ok_def)
  have "all_parameters (graphs st) + mset (map fst (optimalValues st)) = mset [0..<length ranges]"
    using assms(1) by (simp add: sparse_inv_def)
  note mem = mset_upt_mem[OF this]
  show "set (g_parameters g) \<inter> fst ` set (optimalValues st) = {}"
  proof (rule equals0I)
    fix x assume x: "x \<in> set (g_parameters g) \<inter> fst ` set (optimalValues st)"
    then have "x \<in># all_parameters (graphs st)" using assms(2) by simp
    with mem[of x] x show False by simp
  qed
qed

subsection \<open>Steps\<close>

lemma optimal_values_ok:
  assumes "search_ok ranges opts fixed" "set opts \<inter> fst ` set fixed = {}"
    and "ipv_ok ranges v" "view v \<in> points ranges opts (seed_of ranges fixed)"
  shows "\<exists>m. RecordOptimal v fixed = Some m \<and> fixed_ok ranges m \<and>
    mset (map fst m) = mset opts + mset (map fst fixed) \<and> list_all (\<lambda>i. map_of m i \<noteq> None) opts"
proof -
  have fixed: "fixed_ok ranges fixed" and opts: "distinct opts" "\<forall>i \<in> set opts. i < length ranges"
    using assms(1) by (auto simp: search_ok_def)
  note seed = seed_of_nth[OF fixed]
  have len: "i < length ranges" if "map_of fixed i = Some x" for i x
    using fixed that by (auto simp: fixed_ok_def dest!: map_of_SomeD)
  have def: "view v ! i = Some x" if "map_of fixed i = Some x" for i x
    using assms(4) seed len[OF that] that by (simp add: points_def regions_def refines_def)
  then obtain m where m: "RecordOptimal v fixed = Some m" "smap_ok m"
    "\<forall>i. map_of m i = (if i < length ranges then view v ! i else None)"
    using RecordOptimal_ok[OF assms(3), of fixed] fixed len by (auto simp: fixed_ok_def)
  have in_range: "x < ranges ! i" if "map_of m i = Some x" for i x
    using m(3) assms(4) that by (auto simp: points_def regions_def split: if_splits)
  have "fixed_ok ranges m" unfolding fixed_ok_def
  proof (intro conjI ballI)
    fix p assume "p \<in> set m"
    then have p: "map_of m (fst p) = Some (snd p)" using smap_ok_distinct[OF m(2)] by simp
    then show "fst p < length ranges" using m(3) by (metis option.distinct(1))
    show "snd p < ranges ! fst p" using in_range[OF p] .
  qed (rule m(2))
  moreover have "set (map fst m) = set opts \<union> set (map fst fixed)"
  proof -
    have "(map_of m i \<noteq> None) = (i \<in> set opts \<or> map_of fixed i \<noteq> None)" for i
    proof (cases "i < length ranges")
      case True
      have "view v ! i \<noteq> None \<longrightarrow> seed_of ranges fixed ! i \<noteq> None \<or> i \<in> set opts"
        "i \<in> set opts \<longrightarrow> view v ! i \<noteq> None" "seed_of ranges fixed ! i \<noteq> None \<longrightarrow> view v ! i \<noteq> None"
        using assms(4) True seed(1) by (auto simp: points_def regions_def refines_def)
      then show ?thesis using True m(3) seed(2)[OF True] by auto
    next
      case False
      have "map_of fixed i = None" using len False by (cases "map_of fixed i") auto
      with False m(3) opts(2) show ?thesis by auto
    qed
    then show ?thesis using dom_smap[of m] dom_smap[of fixed] by auto
  qed
  then have "mset (map fst m) = mset (opts @ map fst fixed)"
    using smap_ok_distinct[OF m(2)] smap_ok_distinct[of fixed] fixed opts(1) assms(2)
    by (intro set_eq_iff_mset_eq_distinct[THEN iffD1]) (auto simp: fixed_ok_def)
  moreover have "list_all (\<lambda>i. map_of m i \<noteq> None) opts"
    using m(3) opts(2) assms(4) by (auto simp: list_all_iff points_def)
  ultimately show ?thesis using m(1) by auto
qed

text \<open>A step of the loop does not throw, keeps the invariant and makes the work smaller.\<close>

definition step_ok :: "nat list \<Rightarrow> SparseState \<Rightarrow> SparseState option \<Rightarrow> bool" where
  "step_ok ranges st r \<longleftrightarrow> (\<exists>st'. r = Some st' \<and> sparse_inv ranges st' \<and> sparse_weight (graphs st') < sparse_weight (graphs st))"

lemma parts_step_ok:
  assumes "sparse_inv ranges st" "graphs st = g # rest" "\<forall>h \<in> set gs. graph_ok (length ranges) h"
    and "all_parameters gs = mset (g_parameters g)" "1 < length gs"
    and "graphs st' = rest @ gs" "optimalValues st' = optimalValues st"
  shows "step_ok ranges st (Some st')"
proof -
  have "\<forall>h \<in> set gs. g_parameters h \<noteq> []" "\<forall>h \<in> set [g]. g_parameters h \<noteq> []"
    using assms(1-3) by (auto simp: graph_ok_def sparse_inv_def)
  from this[THEN sparse_weight_parts] assms(4,5) have "sparse_weight gs < sparse_weight [g]" by simp
  then have "sparse_weight (graphs st') < sparse_weight (graphs st)" using assms(2,6) by (simp add: sparse_weight_def)
  then show ?thesis using assms by (simp add: step_ok_def sparse_inv_def ac_simps ball_Un)
qed

lemma OptimizeGraph_ok:
  assumes "sparse_inv ranges st" "graphs st = g # rest" "\<forall>r \<in> set ranges. 0 < r \<and> r \<le> 2 ^ 63"
    and "sparse_contract ranges cb" "\<forall>v \<in> set (articulation_points lib g). v < num_vertices g"
  shows "step_ok ranges st (OptimizeGraph ranges cb limit lib g (st\<lparr>graphs := rest\<rparr>))"
proof -
  let ?opts = "sorted_list_of_set (set (g_parameters g))"
  have g: "graph_ok (length ranges) g" using assms(1,2) by (simp add: sparse_inv_def)
  note ok = search_ok_graph[OF assms(1-3)]
  have size: "length ?opts = num_vertices g" using g by (simp add: graph_ok_def num_vertices_def distinct_card)
  have disj: "set ?opts \<inter> fst ` set (optimalValues st) = {}" using ok(2) by simp
  obtain f where f: "bound_contract ranges ?opts (seed_of ranges (optimalValues st)) cb f"
    using assms(4) ok(1) disj unfolding sparse_contract_def by blast
  have split: "step_ok ranges st (do { v \<leftarrow> SelectVertexToRemove lib g; gs \<leftarrow> RemoveVertex rest g v;
      Some (st\<lparr>maxSearchSpaceSize := z, graphs := gs\<rparr>) })" if "length ?opts \<noteq> 1" for z
  proof -
    have "num_vertices g \<noteq> 0" using g by (simp add: graph_ok_def num_vertices_def)
    with size that have "1 < num_vertices g" by simp
    moreover obtain v where "v < num_vertices g" "SelectVertexToRemove lib g = Some v"
      using SelectVertexToRemove_ok[where lib = lib, OF g assms(5)] by blast
    ultimately obtain a b where ab: "RemoveVertex rest g v = Some (rest @ [a, b])" "graph_ok (length ranges) a" "graph_ok (length ranges) b"
      "all_parameters [a, b] = mset (g_parameters g)" using RemoveVertex_ok[OF g] by blast
    have "step_ok ranges st (Some (st\<lparr>maxSearchSpaceSize := z, graphs := rest @ [a, b]\<rparr>))"
      using ab by (intro parts_step_ok[OF assms(1,2), of "[a, b]"]) simp_all
    with ab(1) \<open>SelectVertexToRemove lib g = Some v\<close> show ?thesis by simp
  qed
  obtain r where r: "IntegerBranchAndBoundImpl ranges cb ?opts (Some limit) (optimalValues st) = Some r"
    "length ?opts = 1 \<longrightarrow> r \<noteq> None"
    "\<forall>v. r = Some v \<longrightarrow> ipv_ok ranges v \<and> optimal_point ranges ?opts (seed_of ranges (optimalValues st)) f (view v)"
    using search_optimal[OF ok(1) f, of "Some limit"] by auto
  show ?thesis
  proof (cases "logSearchSpaceSize ranges ?opts < maxSearchSpaceSize st \<or> length ?opts = 1")
    case search: True
    show ?thesis
    proof (cases r)
      case None
      with r search split[of "logSearchSpaceSize ranges ?opts"] show ?thesis
        by (simp add: OptimizeGraph_def GetParameterSet_ok[OF g] Let_def)
    next
      case (Some v)
      obtain m where m: "RecordOptimal v (optimalValues st) = Some m" "fixed_ok ranges m"
        "mset (map fst m) = mset ?opts + mset (map fst (optimalValues st))" "list_all (\<lambda>i. map_of m i \<noteq> None) ?opts"
        using optimal_values_ok[OF ok(1) disj] r(3) Some by (auto simp: optimal_point_def)
      have "mset ?opts = mset (g_parameters g)"
        using g by (intro set_eq_iff_mset_eq_distinct[THEN iffD1]) (auto simp: graph_ok_def)
      then have "sparse_inv ranges (st\<lparr>graphs := rest, optimalValues := m\<rparr>)"
        using assms(1,2) m(2,3) by (simp add: sparse_inv_def ac_simps)
      moreover have "sparse_weight rest < sparse_weight (graphs st)"
        using assms(2) g by (cases "g_parameters g") (simp_all add: sparse_weight_def graph_ok_def num_vertices_def)
      ultimately show ?thesis using r(1) Some search m(1,4)
        by (simp add: OptimizeGraph_def GetParameterSet_ok[OF g] Let_def step_ok_def)
    qed
  next
    case False
    moreover have "st\<lparr>maxSearchSpaceSize := maxSearchSpaceSize st\<rparr> = st" by (cases st) simp
    ultimately show ?thesis using split[of "maxSearchSpaceSize st"]
      by (simp add: OptimizeGraph_def GetParameterSet_ok[OF g] Let_def)
  qed
qed

lemma SparseStep_ok:
  assumes "sparse_inv ranges st" "graphs st \<noteq> []" "\<forall>r \<in> set ranges. 0 < r \<and> r \<le> 2 ^ 63"
    and "sparse_contract ranges cb" "boost_contract (length ranges) lib"
  shows "step_ok ranges st (SparseStep ranges cb limit lib st)"
proof -
  obtain g rest where gs: "graphs st = g # rest" using assms(2) by (cases "graphs st") auto
  have g: "graph_ok (length ranges) g" using assms(1) gs by (simp add: sparse_inv_def)
  obtain vec c where cc: "connected_components lib g = (vec, c)" by force
  have boost: "length vec = num_vertices g" "\<forall>v < num_vertices g. vec ! v < c" "\<forall>k < c. \<exists>v < num_vertices g. vec ! v = k"
    "\<forall>v \<in> set (articulation_points lib g). v < num_vertices g"
    using assms(5) g cc by (fastforce simp: boost_contract_def)+
  show ?thesis
  proof (cases "1 < c")
    case True
    obtain hs where "DecomposeConnectedComponents rest g vec c = Some (rest @ hs)" "\<forall>h \<in> set hs. graph_ok (length ranges) h"
      "all_parameters hs = mset (g_parameters g)" "length hs = c"
      using Decompose_ok[OF g boost(1) True boost(2,3)] by blast
    with True cc gs parts_step_ok[OF assms(1) gs, of hs "st\<lparr>graphs := rest @ hs\<rparr>"] show ?thesis
      by (simp add: SparseStep_def)
  next
    case False
    with cc gs OptimizeGraph_ok[where limit = limit and lib = lib and g = g, OF assms(1) gs assms(3,4) boost(4)] show ?thesis by (simp add: SparseStep_def)
  qed
qed

lemma SparseLoop_ok:
  assumes "sparse_inv ranges st" "\<forall>r \<in> set ranges. 0 < r \<and> r \<le> 2 ^ 63"
    and "sparse_contract ranges cb" "boost_contract (length ranges) lib"
  shows "\<exists>st'. SparseLoop ranges cb limit lib st = Some st' \<and> sparse_inv ranges st' \<and> graphs st' = []"
  using assms(1)
proof (induction st rule: measure_induct_rule[where f = "\<lambda>st. sparse_weight (graphs st)"])
  case (less st)
  show ?case
  proof (cases "graphs st = []")
    case True
    with less.prems show ?thesis by (subst SparseLoop.simps) simp
  next
    case False
    from SparseStep_ok[OF less.prems False assms(2-4), of limit] obtain st' where
      "SparseStep ranges cb limit lib st = Some st'" "sparse_inv ranges st'" "sparse_weight (graphs st') < sparse_weight (graphs st)"
      by (auto simp: step_ok_def)
    with less.IH[of st'] False show ?thesis by (subst SparseLoop.simps) simp
  qed
qed

subsection \<open>The whole search\<close>

definition interactions_ok :: "nat \<Rightarrow> ParameterInteractionGraph \<Rightarrow> bool" where
  "interactions_ok n interactions \<longleftrightarrow> (\<forall>p \<in> set interactions. fst p < n \<and> (\<forall>v \<in> set (snd p). v < n))"

definition full_ok :: "nat \<Rightarrow> UndirectedGraph \<times> (nat \<times> nat) set \<Rightarrow> bool" where
  "full_ok n st \<longleftrightarrow> g_parameters (fst st) = [0..<n] \<and>
     (\<forall>e \<in> set (g_edges (fst st)). fst e < n \<and> snd e < n \<and> fst e \<noteq> snd e)"

lemma InteractionEdge_ok:
  "full_ok n st \<Longrightarrow> v < n \<Longrightarrow> w < n \<Longrightarrow> \<exists>st'. InteractionEdge v w st = Some st' \<and> full_ok n st'"
  by (cases "w = v") (auto simp: InteractionEdge_def Let_def full_ok_def add_edge_def min_def max_def)

lemma FullGraph_ok:
  assumes "interactions_ok n interactions" "0 < n"
  shows "\<exists>g. FullGraph n interactions = Some g \<and> graph_ok n g \<and> g_parameters g = [0..<n]"
proof -
  have "fold add_vertex xs g = g\<lparr>g_parameters := g_parameters g @ xs\<rparr>" for xs g
    by (induction xs arbitrary: g) (simp_all add: add_vertex_def)
  then have start: "full_ok n (fold add_vertex [0..<n] \<lparr>g_parameters = [], g_edges = []\<rparr>, {})"
    by (simp add: full_ok_def)
  have "\<exists>st. fold_opt (\<lambda>p. fold_opt (InteractionEdge (fst p)) (snd p)) interactions
      (fold add_vertex [0..<n] \<lparr>g_parameters = [], g_edges = []\<rparr>, {}) = Some st \<and> full_ok n st"
    using assms(1) by (intro fold_opt_total[where I = "full_ok n"] start fold_opt_total InteractionEdge_ok)
      (auto simp: interactions_ok_def)
  then show ?thesis using assms(2) by (auto simp: FullGraph_def full_ok_def graph_ok_def num_vertices_def)
qed

lemma final_vector:
  assumes "ipv_ok ranges v" "fixed_ok ranges m" "\<forall>i < length ranges. map_of m i \<noteq> None" "k \<le> length ranges"
  shows "\<exists>v'. fold_opt (\<lambda>i v. do { value \<leftarrow> SafeLookup m i; SetParameter v i value }) [0..<k] v = Some v' \<and>
    ipv_ok ranges v' \<and> (\<forall>i < k. view v' ! i = map_of m i)"
  using assms(4)
proof (induction k)
  case (Suc k)
  then obtain v' where v': "fold_opt (\<lambda>i v. do { value \<leftarrow> SafeLookup m i; SetParameter v i value }) [0..<k] v = Some v'"
    "ipv_ok ranges v'" "\<forall>i < k. view v' ! i = map_of m i" by auto
  obtain x where x: "map_of m k = Some x" using assms(3) Suc.prems Suc_le_lessD by blast
  then have "x < ranges ! k" using assms(2) by (auto simp: fixed_ok_def dest!: map_of_SomeD)
  then obtain w where w: "SetParameter v' k x = Some w" using SetParameter_total[OF v'(2), of k x] Suc.prems by auto
  note w' = SetParameter_view[OF v'(2) w]
  have "length (view v') = length ranges" using v'(2) by (simp add: ipv_ok_def)
  with v' w w' x show ?case using Suc.prems by (auto simp: SafeLookup_def less_Suc_eq nth_list_update)
qed (use assms(1) in simp)

text \<open>C18: for interactions between existing parameters, ranges that fit a word, bounds that hold and the
  documented behaviour of the graph library, the sparse search neither throws nor runs forever, whatever the
  limit of the work list is; it gives every parameter a value in its range.\<close>

theorem IntegerBranchAndBoundSparse_total:
  assumes "ranges \<noteq> []" "\<forall>r \<in> set ranges. 0 < r \<and> r \<le> 2 ^ 63" "interactions_ok (length ranges) interactions"
    and "sparse_contract ranges boundCallback" "boost_contract (length ranges) lib"
  shows "\<exists>v. IntegerBranchAndBoundSparse lib ranges interactions limit boundCallback = Some v \<and>
    ipv_ok ranges v \<and> (\<forall>i < length ranges. \<exists>x < ranges ! i. view v ! i = Some x)"
proof -
  obtain g where g: "FullGraph (length ranges) interactions = Some g" "graph_ok (length ranges) g" "g_parameters g = [0..<length ranges]"
    using FullGraph_ok[OF assms(3)] assms(1) by auto
  then have "sparse_inv ranges \<lparr>graphs = [g], optimalValues = [], maxSearchSpaceSize = sizeMax\<rparr>"
    by (simp add: sparse_inv_def fixed_ok_def)
  from SparseLoop_ok[OF this assms(2,4,5), of limit] obtain st where st: "SparseLoop ranges boundCallback limit lib
      \<lparr>graphs = [g], optimalValues = [], maxSearchSpaceSize = sizeMax\<rparr> = Some st" "sparse_inv ranges st" "graphs st = []" by blast
  obtain cb where cb: "CreateCodeBook ranges = Some cb" "book_ok ranges cb" using CreateCodeBook_ok[OF assms(2)] by blast
  have vals: "fixed_ok ranges (optimalValues st)" "mset (map fst (optimalValues st)) = mset [0..<length ranges]"
    using st(2,3) by (auto simp: sparse_inv_def)
  from arg_cong[OF vals(2), of set_mset] have all: "\<forall>i < length ranges. map_of (optimalValues st) i \<noteq> None"
    by (auto simp: map_of_eq_None_iff)
  from final_vector[OF new_IntegerParameterVector_ok(1)[OF cb(2)] vals(1) all order_refl] obtain v where
    v: "fold_opt (\<lambda>i v. do { value \<leftarrow> SafeLookup (optimalValues st) i; SetParameter v i value }) [0..<length ranges]
        (new_IntegerParameterVector cb) = Some v" "ipv_ok ranges v" "\<forall>i < length ranges. view v ! i = map_of (optimalValues st) i" by blast
  have "\<exists>x < ranges ! i. view v ! i = Some x" if i: "i < length ranges" for i
  proof -
    obtain x where x: "map_of (optimalValues st) i = Some x" using all i by blast
    then have "x < ranges ! i" using vals(1) by (auto simp: fixed_ok_def dest!: map_of_SomeD)
    with x v(3) i show ?thesis by simp
  qed
  with v assms(1) g(1) st(1) cb(1) show ?thesis by (simp add: IntegerBranchAndBoundSparse_def)
qed

subsection \<open>Example\<close>

definition one_component :: GraphLibrary where
  "one_component = \<lparr>connected_components = \<lambda>g. (replicate (num_vertices g) 0, 1), articulation_points = \<lambda>g. [],
     degree = \<lambda>v g. length (filter (\<lambda>e. fst e = v \<or> snd e = v) (g_edges g))\<rparr>"

definition sum_objective :: "nat option list \<Rightarrow> nat" where
  "sum_objective p = sum_list (map (case_option 0 id) p)"

definition sum_bounds :: BoundObjectiveFunction where
  "sum_bounds v = \<lparr>lowerBound = sum_objective (view v), upperBound = sum_objective (view v)\<rparr>"

lemma sum_objective_mono: "refines q p \<Longrightarrow> sum_objective p \<le> sum_objective q"
  unfolding sum_objective_def refines_def sum_list_sum_nth
  by (auto intro!: sum_mono split: option.splits)

lemma sum_bounds_contract: "sparse_contract [3, 2] sum_bounds"
proof -
  have "bound_contract [3, 2] opts seed sum_bounds sum_objective" if opts: "\<forall>i \<in> set opts. i < 2" for opts seed
  proof -
    have fill: "\<exists>q \<in> points [3, 2] opts seed. refines q p \<and> sum_objective q \<le> sum_objective p"
      if p: "p \<in> regions [3, 2] opts seed" for p
    proof -
      have "\<forall>i \<in> set opts. i < length [3, 2 :: nat]" using opts by (simp add: numeral_2_eq_2)
      from region_fill[OF p _ this] obtain q where q: "q \<in> points [3, 2] opts seed" "refines q p"
        "\<forall>i < length [3, 2 :: nat]. q ! i = p ! i \<or> p ! i = None \<and> q ! i = Some 0" by auto
      have len: "length q = length [3, 2 :: nat]" "length p = length [3, 2 :: nat]"
        using q(1) p by (auto simp: points_def regions_def)
      have "sum_objective q \<le> sum_objective p" unfolding sum_objective_def sum_list_sum_nth length_map len
      proof (rule sum_mono)
        fix i assume "i \<in> {0..<length [3, 2 :: nat]}"
        then have i: "i < length [3, 2 :: nat]" by simp
        with q(3) have "case_option 0 id (q ! i) \<le> case_option 0 id (p ! i)" by fastforce
        with i len show "map (case_option 0 id) q ! i \<le> map (case_option 0 id) p ! i" by simp
      qed
      with q show ?thesis by blast
    qed
    have "sum_objective q < sizeMax" if "q \<in> points [3, 2] opts seed" for q
    proof -
      have "length q = 2" "\<forall>i < 2. \<forall>x. q ! i = Some x \<longrightarrow> x < [3, 2] ! i"
        using that by (auto simp: points_def regions_def)
      then obtain a b where "q = [a, b]" "\<forall>x. a = Some x \<longrightarrow> x < 3" "\<forall>x. b = Some x \<longrightarrow> x < 2"
        by (auto simp: length_Suc_conv numeral_2_eq_2 All_less_Suc)
      then show ?thesis by (cases a; cases b) (auto simp: sum_objective_def sizeMax_def)
    qed
    then show ?thesis using fill sum_objective_mono unfolding bound_contract_def sum_bounds_def by auto
  qed
  moreover have "length [3, 2 :: nat] = 2" by simp
  ultimately show ?thesis unfolding sparse_contract_def search_ok_def by metis
qed

theorem IntegerBranchAndBoundSparse_total_witness:
  "\<exists>v. IntegerBranchAndBoundSparse one_component [3, 2] [(0, [1])] 1 sum_bounds = Some v \<and>
     (\<forall>i < 2. \<exists>x < [3, 2] ! i. view v ! i = Some x)"
proof -
  have "boost_contract 2 one_component"
    by (auto simp: boost_contract_def graph_ok_def num_vertices_def one_component_def)
  moreover have "interactions_ok 2 [(0, [1])]" by (simp add: interactions_ok_def)
  moreover have "length [3, 2 :: nat] = 2" "\<forall>r \<in> set [3, 2 :: nat]. 0 < r \<and> r \<le> 2 ^ 63" by simp_all
  ultimately show ?thesis
    using IntegerBranchAndBoundSparse_total[of "[3, 2]" "[(0, [1])]" sum_bounds
        one_component 1] sum_bounds_contract by (metis list.distinct(1))
qed

end
