(* ===== verification/Basic_Blocks.thy ===== *)
theory Basic_Blocks
  imports Lower_Lut
begin

text \<open>
  Straight-line execution of the operations of a basic block, and the interface of the local
  optimizations of \<^verbatim>\<open>optimize.cpp\<close>: a pass rewrites one operation at a time and reports
  whether it changed anything (\<^verbatim>\<open>didChangeIR\<close>). The locale \<open>op_pass\<close> states what a pass
  promises, that the value of the operation is kept, and derives that a pass over all operations
  of a block keeps what the block computes.
\<close>

subsection \<open>Execution\<close>

definition exec_op :: "RegisterTable \<Rightarrow> Operation \<Rightarrow> (nat \<Rightarrow> int) \<Rightarrow> (nat \<Rightarrow> int) option" where
  "exec_op rt op env = do {
     v \<leftarrow> eval_operation rt env op;
     (case op_dst op of [DstRegister r] \<Rightarrow> Some (env(r := v)) | _ \<Rightarrow> None) }"

definition exec_ops :: "RegisterTable \<Rightarrow> Operation list \<Rightarrow> (nat \<Rightarrow> int) \<Rightarrow> (nat \<Rightarrow> int) option" where
  "exec_ops rt ops env = fold_opt (exec_op rt) ops env"

text \<open>An operation whose operands exist and whose destination is one register of the table.\<close>

definition op_ok :: "RegisterTable \<Rightarrow> Operation \<Rightarrow> bool" where
  "op_ok rt op \<longleftrightarrow> srcs_ok rt op \<and>
     (case op_dst op of [DstRegister r] \<Rightarrow> r < length rt | _ \<Rightarrow> False)"

definition ops_ok :: "RegisterTable \<Rightarrow> Operation list \<Rightarrow> bool" where
  "ops_ok rt ops \<longleftrightarrow> list_all (op_ok rt) ops"

lemma exec_ops_simps [simp]:
  "exec_ops rt [] env = Some env"
  "exec_ops rt (op # ops) env = (exec_op rt op env \<bind> exec_ops rt ops)"
  "exec_ops rt (ops @ ops') env = (exec_ops rt ops env \<bind> exec_ops rt ops')"
  by (simp_all add: exec_ops_def split: Option.bind_splits)

lemma ops_ok_simps [simp]:
  "ops_ok rt []" "ops_ok rt (op # ops) \<longleftrightarrow> op_ok rt op \<and> ops_ok rt ops"
  "ops_ok rt (ops @ ops') \<longleftrightarrow> ops_ok rt ops \<and> ops_ok rt ops'"
  by (simp_all add: ops_ok_def)

lemma op_okE:
  assumes "op_ok rt op"
  obtains r where "srcs_ok rt op" "op_dst op = [DstRegister r]" "r < length rt"
proof (cases "op_dst op")
  case (Cons d ds)
  with assms that show ?thesis
    by (cases d; cases ds) (auto simp: op_ok_def)
qed (use assms in \<open>simp add: op_ok_def\<close>)

lemma exec_op_eq:
  "op_dst op = [DstRegister r] \<Longrightarrow> exec_op rt op env = map_option (\<lambda>v. env(r := v)) (eval_operation rt env op)"
  by (cases "eval_operation rt env op") (simp_all add: exec_op_def)

text \<open>Whatever the opcode, the value written fits the destination.\<close>

lemma Resize_range: "Resize ix l se w = Some v \<Longrightarrow> 0 \<le> v \<and> v < 2 ^ w"
  by (auto simp: Resize_def split: bind_splits)

lemma eval_operation_range:
  assumes "eval_operation rt env op = Some v"
  shows "0 \<le> v \<and> v < 2 ^ DestinationOperand_Width rt (op_dst op ! 0)"
proof -
  have unary: "ImplementUnaryOp ix l se t w = Some v \<Longrightarrow> 0 \<le> v \<and> v < 2 ^ w" for ix l se t w
    by (auto simp: ImplementUnaryOp_def Let_def split: bind_splits)
  have binary: "ImplementBinaryOp ix a b w se0 se1 t = Some v \<Longrightarrow> 0 \<le> v \<and> v < 2 ^ w" for ix a b w se0 se1 t
    by (auto simp: ImplementBinaryOp_def Let_def split: bind_splits)
  have sel: "eval_select ix op w lits = Some v \<Longrightarrow> 0 \<le> v \<and> v < 2 ^ w" for ix op w lits
    by (auto simp: eval_select_def Let_def dest: Resize_range split: bind_splits)
  show ?thesis
    using assms
    by (auto simp: eval_operation_in_def Let_def dest: Resize_range unary binary sel
        split: bind_splits Opcode.splits)
qed

lemma exec_op_env_ok:
  assumes "env_ok rt env" "op_ok rt op" "exec_op rt op env = Some env'"
  shows "env_ok rt env'"
proof -
  obtain r where r: "op_dst op = [DstRegister r]" "r < length rt"
    using assms(2) by (rule op_okE)
  obtain v where v: "eval_operation rt env op = Some v" "env' = env(r := v)"
    using assms(3) r(1) by (auto simp: exec_op_eq)
  have "0 \<le> v \<and> v < 2 ^ rd_width (rt ! r)"
    using eval_operation_range[OF v(1)] r by (simp add: reg_width_def)
  with assms(1) v(2) show ?thesis by (auto simp: env_ok_def)
qed

lemma exec_ops_env_ok:
  assumes "env_ok rt env" "ops_ok rt ops" "exec_ops rt ops env = Some env'"
  shows "env_ok rt env'"
  using assms
proof (induction ops arbitrary: env)
  case (Cons op ops)
  from Cons.prems(3) obtain env1 where "exec_op rt op env = Some env1" "exec_ops rt ops env1 = Some env'"
    by (auto split: bind_splits)
  with Cons.prems Cons.IH[of env1] exec_op_env_ok[of rt env op env1] show ?case by simp
qed simp

subsection \<open>Passes over the operations of a function\<close>

text \<open>\<^verbatim>\<open>for (BasicBlock& basicBlock : function._basicBlocks) ForEachOperationForward(...)\<close> with a
  body that rewrites the operation in place and raises the flag.\<close>

type_synonym op_rewrite = "RegisterTable \<Rightarrow> Operation \<Rightarrow> (Operation \<times> bool) option"

definition rewrite_block :: "op_rewrite \<Rightarrow> RegisterTable \<Rightarrow> Operation list \<Rightarrow> (Operation list \<times> bool) option" where
  "rewrite_block f rt ops = do {
     rs \<leftarrow> map_opt (f rt) ops;
     Some (map fst rs, list_ex snd rs) }"

definition rewrite_function ::
  "op_rewrite \<Rightarrow> RegisterTable \<Rightarrow> Operation list list \<Rightarrow> (Operation list list \<times> bool) option" where
  "rewrite_function f rt blocks = do {
     rs \<leftarrow> map_opt (rewrite_block f rt) blocks;
     Some (map fst rs, list_ex snd rs) }"

lemma rewrite_block_simps:
  "rewrite_block f rt [] = Some ([], False)"
  "rewrite_block f rt (op # ops) = do {
     (op', c) \<leftarrow> f rt op;
     (ops', cs) \<leftarrow> rewrite_block f rt ops;
     Some (op' # ops', c \<or> cs) }"
  by (auto simp: rewrite_block_def split: bind_splits)

text \<open>What a local optimization promises. \<open>ok\<close> says on which operations it promises it.\<close>

locale op_pass =
  fixes pass :: op_rewrite and ok :: "RegisterTable \<Rightarrow> Operation \<Rightarrow> bool"
  assumes pass_value:
      "\<lbrakk>ok rt op; op_ok rt op; env_ok rt env; pass rt op = Some (op', c); eval_operation rt env op = Some v\<rbrakk>
        \<Longrightarrow> eval_operation rt env op' = Some v"
    and pass_dst: "pass rt op = Some (op', c) \<Longrightarrow> op_dst op' = op_dst op"
    and pass_srcs: "\<lbrakk>op_ok rt op; pass rt op = Some (op', c)\<rbrakk> \<Longrightarrow> srcs_ok rt op'"
begin

lemma pass_op_ok: "op_ok rt op \<Longrightarrow> pass rt op = Some (op', c) \<Longrightarrow> op_ok rt op'"
  using pass_dst pass_srcs by (simp add: op_ok_def)

lemma pass_exec:
  assumes "ok rt op" "op_ok rt op" "env_ok rt env" "pass rt op = Some (op', c)"
    and "exec_op rt op env = Some env'"
  shows "exec_op rt op' env = Some env'"
  using assms(5) pass_value[OF assms(1-4)] pass_dst[OF assms(4)]
  by (auto simp: exec_op_def split: bind_splits)

lemma block_exec:
  assumes "list_all (ok rt) ops" "ops_ok rt ops" "env_ok rt env"
    and "rewrite_block pass rt ops = Some (ops', c)" "exec_ops rt ops env = Some env'"
  shows "exec_ops rt ops' env = Some env' \<and> ops_ok rt ops'"
  using assms
proof (induction ops arbitrary: env ops' c)
  case (Cons op ops)
  from Cons.prems(4) obtain op1 c1 ops1 c2 where p: "pass rt op = Some (op1, c1)"
    and ps: "rewrite_block pass rt ops = Some (ops1, c2)" and ops': "ops' = op1 # ops1"
    by (auto simp: rewrite_block_simps split: bind_splits prod.splits)
  from Cons.prems(5) obtain env1 where e: "exec_op rt op env = Some env1"
    and es: "exec_ops rt ops env1 = Some env'"
    by (auto split: bind_splits)
  have "exec_ops rt ops1 env1 = Some env' \<and> ops_ok rt ops1"
    using Cons.prems exec_op_env_ok[OF Cons.prems(3) _ e] by (intro Cons.IH[OF _ _ _ ps es]) auto
  moreover have "exec_op rt op1 env = Some env1"
    using Cons.prems by (intro pass_exec[OF _ _ _ p e]) auto
  ultimately show ?case
    using pass_op_ok[OF _ p] Cons.prems(2) by (simp add: ops')
qed (simp add: rewrite_block_simps)

lemma function_exec:
  assumes "rewrite_function pass rt blocks = Some (blocks', c)" "i < length blocks"
    and "list_all (ok rt) (blocks ! i)" "ops_ok rt (blocks ! i)" "env_ok rt env"
    and "exec_ops rt (blocks ! i) env = Some env'"
  shows "length blocks' = length blocks \<and> exec_ops rt (blocks' ! i) env = Some env' \<and> ops_ok rt (blocks' ! i)"
proof -
  from assms(1) obtain rs where rs: "map_opt (rewrite_block pass rt) blocks = Some rs"
    and blocks': "blocks' = map fst rs"
    by (auto simp: rewrite_function_def split: bind_splits)
  have "rewrite_block pass rt (blocks ! i) = Some (rs ! i)" and len: "length rs = length blocks"
    using map_opt_nth[OF rs assms(2)] map_opt_length[OF rs] by simp_all
  then show ?thesis
    using block_exec[OF assms(3-5) _ assms(6), of "fst (rs ! i)" "snd (rs ! i)"] assms(2)
    by (simp add: blocks')
qed

end

text \<open>Two passes run one after the other.\<close>

definition seq_rewrite :: "op_rewrite \<Rightarrow> op_rewrite \<Rightarrow> op_rewrite" where
  "seq_rewrite p q rt op = do { (op, a) \<leftarrow> p rt op; (op, b) \<leftarrow> q rt op; Some (op, a \<or> b) }"

end
