(* ===== verification/Algebraic_Identities.thy ===== *)
theory Algebraic_Identities
  imports Basic_Blocks
begin

text \<open>
  The rewrites of single operations in \<^verbatim>\<open>optimize.cpp\<close>: \<^verbatim>\<open>BinaryOpAlgebraicIdentities\<close>,
  \<^verbatim>\<open>SelectAlgebraicIdentities\<close> and \<^verbatim>\<open>AlgebraicIdentities\<close>, \<^verbatim>\<open>NarrowLiterals\<close> and
  \<^verbatim>\<open>GatherToMove\<close>. Each keeps the value of the operation on every state of the registers,
  under conditions on the widths that the lemmas spell out; the theory also shows what happens
  outside of these conditions.
\<close>

subsection \<open>Identities of binary operators\<close>

text \<open>\<^verbatim>\<open>PushOperand(const Operation& otherOp, operandIndex)\<close> onto a fresh operation with the
  destination of the original.\<close>

definition newOp_operand :: "Opcode \<Rightarrow> Operation \<Rightarrow> nat \<Rightarrow> Operation" where
  "newOp_operand opcode op operandIndex =
     PushOperand (new_operation opcode (op_locations op) [op_dst op ! 0])
       (op_src op ! operandIndex) (ShouldSignExtend op operandIndex)"

definition newOp_zero :: "Operation \<Rightarrow> Operation" where
  "newOp_zero op =
     (new_operation Mov (op_locations op) [op_dst op ! 0])\<lparr>op_src := [SourceOperand_size 0]\<rparr>"

text \<open>The three flags of the classification loop. A zero literal is never all ones, since the
  all-ones test is in the \<^verbatim>\<open>else\<close> branch.\<close>

definition srcIsZero :: "Operation \<Rightarrow> nat \<Rightarrow> bool" where
  "srcIsZero op i \<longleftrightarrow> (case op_src op ! i of SrcLiteral l \<Rightarrow> l_value l = 0 | _ \<Rightarrow> False)"

definition srcIsOne :: "Operation \<Rightarrow> nat \<Rightarrow> bool" where
  "srcIsOne op i \<longleftrightarrow> (case op_src op ! i of SrcLiteral l \<Rightarrow> l_value l = 1 | _ \<Rightarrow> False)"

definition srcIsAllOnes :: "Operation \<Rightarrow> nat \<Rightarrow> bool" where
  "srcIsAllOnes op i \<longleftrightarrow>
     (case op_src op ! i of
        SrcLiteral l \<Rightarrow> l_value l \<noteq> 0 \<and> l_value l = set_bit (l_width l) 0 - 1
      | _ \<Rightarrow> False)"

definition ZeroOneIdentities :: "Operation \<Rightarrow> ParseTreeBinaryOpType \<Rightarrow> Operation option" where
  "ZeroOneIdentities op type =
     (if srcIsZero op 1 then
        (if type \<in> {Or, Xor, Add, Sub, Shl, Shr} then Some (newOp_operand Mov op 0)
         else if type \<in> {And, LutMul} then Some (newOp_zero op)
         else None)
      else if srcIsZero op 0 then
        (if type \<in> {Or, Xor, Add} then Some (newOp_operand Mov op 1)
         else if type \<in> {And, Shl, Shr, LutMul} then Some (newOp_zero op)
         else None)
      else if srcIsOne op 1 \<and> type = LutMul then Some (newOp_operand Mov op 0)
      else if srcIsOne op 0 \<and> type = LutMul then Some (newOp_operand Mov op 1)
      else None)"

text \<open>Operand \<open>i\<close> is all ones, operand \<open>j\<close> is the other one.\<close>

definition AllOnesRewrite :: "Operation \<Rightarrow> ParseTreeBinaryOpType \<Rightarrow> nat \<Rightarrow> nat \<Rightarrow> Operation option" where
  "AllOnesRewrite op type i j =
     (case type of
        And \<Rightarrow> Some (newOp_operand Mov op j)
      | Or \<Rightarrow> Some (newOp_operand Mov op i)
      | Xor \<Rightarrow> Some (newOp_operand (UnaryOp Invert) op j)
      | _ \<Rightarrow> None)"

definition ones_cover :: "RegisterTable \<Rightarrow> Operation \<Rightarrow> nat \<Rightarrow> nat \<Rightarrow> bool" where
  "ones_cover rt op i j \<longleftrightarrow>
     SourceOperand_Width rt (op_src op ! i) \<ge> DestinationOperand_Width rt (op_dst op ! 0) \<or>
     ShouldSignExtend op i \<or>
     (SourceOperand_Width rt (op_src op ! i) \<ge> SourceOperand_Width rt (op_src op ! j) \<and>
      \<not> ShouldSignExtend op j)"

definition AllOnesIdentities ::
  "RegisterTable \<Rightarrow> Operation \<Rightarrow> ParseTreeBinaryOpType \<Rightarrow> Operation option" where
  "AllOnesIdentities rt op type =
     (if srcIsAllOnes op 1 then
        (if ones_cover rt op 1 0 then AllOnesRewrite op type 1 0 else None)
      else if srcIsAllOnes op 0 then
        (if ones_cover rt op 0 1 then AllOnesRewrite op type 0 1 else None)
      else None)"

definition ShiftIdentities ::
  "RegisterTable \<Rightarrow> Operation \<Rightarrow> ParseTreeBinaryOpType \<Rightarrow> Operation option" where
  "ShiftIdentities rt op type =
     (case op_src op ! 1 of
        SrcLiteral l \<Rightarrow>
          (if type = Shl \<and> l_value l \<ge> int (DestinationOperand_Width rt (op_dst op ! 0))
           then Some (newOp_zero op)
           else if type = Shr \<and> \<not> ShouldSignExtend op 0 \<and>
             l_value l \<ge> int (SourceOperand_Width rt (op_src op ! 0))
           then Some (newOp_zero op)
           else None)
      | _ \<Rightarrow> None)"

definition BinaryOpAlgebraicIdentities :: op_rewrite where
  "BinaryOpAlgebraicIdentities rt op = (case op_opcode op of
     BinaryOp type \<Rightarrow> do {
       _ \<leftarrow> assert_that (length (op_src op) = 2);
       _ \<leftarrow> assert_that (length (op_dst op) = 1);
       _ \<leftarrow> assert_that (type \<notin> {Mul, Div, LogicalAnd, LogicalOr, LogicalXor});
       Some (case ZeroOneIdentities op type of
           Some newOp \<Rightarrow> (newOp, True)
         | None \<Rightarrow> (case AllOnesIdentities rt op type of
               Some newOp \<Rightarrow> (newOp, True)
             | None \<Rightarrow> (case ShiftIdentities rt op type of
                   Some newOp \<Rightarrow> (newOp, True)
                 | None \<Rightarrow> (op, False)))) }
   | _ \<Rightarrow> None)"

subsection \<open>Identities of multiplexers\<close>

text \<open>All choices are literals: \<^verbatim>\<open>allEqual\<close>, \<^verbatim>\<open>choiceEqualSel\<close> and \<^verbatim>\<open>choiceEqualInvSel\<close> of the
  loop over the choices.\<close>

definition choice_literal :: "Operation \<Rightarrow> nat \<Rightarrow> Literal option" where
  "choice_literal op i = (case op_src op ! i of SrcLiteral l \<Rightarrow> Some l | _ \<Rightarrow> None)"

definition ChoiceStep ::
  "RegisterTable \<Rightarrow> Operation \<Rightarrow> int \<Rightarrow> nat \<Rightarrow> bool \<times> bool \<times> bool \<Rightarrow> (bool \<times> bool \<times> bool) option" where
  "ChoiceStep rt op firstValue i = (\<lambda>(allEqual, choiceEqualSel, choiceEqualInvSel). do {
     let dstWidth = DestinationOperand_Width rt (op_dst op ! 0);
     l \<leftarrow> choice_literal op i;
     thisValue \<leftarrow> Resize mp_index l (ShouldSignExtend op i) dstWidth;
     let selLiteral = \<lparr>l_value = int (i - 1), l_width = SourceOperand_Width rt (op_src op ! 0)\<rparr>;
     selValue \<leftarrow> Resize mp_index selLiteral (ShouldSignExtend op 0) dstWidth;
     invSel \<leftarrow> ImplementUnaryOp mp_index selLiteral (ShouldSignExtend op 0) Invert dstWidth;
     Some (allEqual \<and> thisValue = firstValue, choiceEqualSel \<and> thisValue = selValue,
       choiceEqualInvSel \<and> thisValue = invSel) })"

definition LiteralChoices :: "RegisterTable \<Rightarrow> Operation \<Rightarrow> (bool \<times> bool \<times> bool) option" where
  "LiteralChoices rt op = do {
     l \<leftarrow> choice_literal op 1;
     firstValue \<leftarrow> Resize mp_index l (ShouldSignExtend op 1) (DestinationOperand_Width rt (op_dst op ! 0));
     fold_opt (ChoiceStep rt op firstValue) [1..<length (op_src op)] (True, True, True) }"

definition RegisterChoicesEqual :: "Operation \<Rightarrow> bool" where
  "RegisterChoicesEqual op \<longleftrightarrow>
     list_all (\<lambda>i. ShouldSignExtend op i = ShouldSignExtend op 1 \<and>
         GetAccessedRegister (op_src op ! i) = GetAccessedRegister (op_src op ! 1))
       [2..<length (op_src op)]"

definition SelectAlgebraicIdentities :: op_rewrite where
  "SelectAlgebraicIdentities rt op = do {
     _ \<leftarrow> assert_that (op_opcode op = Select);
     _ \<leftarrow> assert_that (3 \<le> length (op_src op));
     _ \<leftarrow> assert_that (length (op_dst op) = 1);
     (case op_src op ! 0 of
        SrcLiteral l \<Rightarrow> do {
          index \<leftarrow> MpToSizeT (l_value l);
          let whichSrcOperand = index + 1;
          _ \<leftarrow> assert_that (whichSrcOperand < length (op_src op));
          Some ((new_operation Mov (op_locations op) [op_dst op ! 0])
                  \<lparr>op_src := [op_src op ! whichSrcOperand],
                   op_signExtendSourceMask := drop_bit whichSrcOperand (op_signExtendSourceMask op) AND 1\<rparr>,
                True) }
      | _ \<Rightarrow> do {
          let choices = tl (op_src op);
          let allLiterals = list_all IsLiteralOperand choices;
          let allRegisters = list_all IsRegisterOperand choices;
          (allEqual, choiceEqualSel, choiceEqualInvSel) \<leftarrow>
            (if allLiterals then LiteralChoices rt op else Some (False, False, False));
          Some (if allEqual then (newOp_operand Mov op 1, True)
                else if choiceEqualSel then (newOp_operand Mov op 0, True)
                else if choiceEqualInvSel then (newOp_operand (UnaryOp Invert) op 0, True)
                else if allRegisters \<and> RegisterChoicesEqual op then (newOp_operand Mov op 1, True)
                else (op, False)) }) }"

definition AlgebraicIdentities_op :: op_rewrite where
  "AlgebraicIdentities_op rt op =
     (case op_opcode op of
        BinaryOp _ \<Rightarrow> BinaryOpAlgebraicIdentities rt op
      | Select \<Rightarrow> SelectAlgebraicIdentities rt op
      | _ \<Rightarrow> Some (op, False))"

definition AlgebraicIdentities ::
  "RegisterTable \<Rightarrow> Operation list list \<Rightarrow> (Operation list list \<times> bool) option" where
  "AlgebraicIdentities = rewrite_function AlgebraicIdentities_op"

subsection \<open>Narrow literals\<close>

text \<open>The \<^verbatim>\<open>while\<close> loop that drops sign bits.\<close>

fun SignedTightWidth :: "int \<Rightarrow> nat \<Rightarrow> nat" where
  "SignedTightWidth v (Suc (Suc n)) =
     (if bit v (Suc n) = bit v n then SignedTightWidth v (Suc n) else Suc (Suc n))"
| "SignedTightWidth v w = w"

definition NarrowLiteral :: "bool \<Rightarrow> Literal \<Rightarrow> (Literal \<times> bool) option" where
  "NarrowLiteral signExtend literal = do {
     width \<leftarrow>
       (if signExtend then Some (SignedTightWidth (l_value literal) (l_width literal))
        else if l_value literal = 0 then Some 1
        else do {
          highestBitSet \<leftarrow> msb (l_value literal);
          let tightWidth = highestBitSet + 1;
          Some (if l_width literal > tightWidth then tightWidth else l_width literal) });
     _ \<leftarrow> assert_that (width \<le> l_width literal);
     Some (if l_width literal \<noteq> width
           then (\<lparr>l_value = l_value literal AND (push_bit width 1 - 1), l_width = width\<rparr>, True)
           else (literal, False)) }"

definition NarrowSource :: "Operation \<Rightarrow> nat \<Rightarrow> (SourceOperand \<times> bool) option" where
  "NarrowSource op i =
     (case op_src op ! i of
        SrcLiteral l \<Rightarrow> do {
          (l', changed) \<leftarrow> NarrowLiteral (ShouldSignExtend op i) l;
          Some (SrcLiteral l', changed) }
      | s \<Rightarrow> Some (s, False))"

definition NarrowLiterals_op :: op_rewrite where
  "NarrowLiterals_op rt op = do {
     rs \<leftarrow> map_opt (NarrowSource op) [0..<length (op_src op)];
     Some (op\<lparr>op_src := map fst rs\<rparr>, list_ex snd rs) }"

definition NarrowLiterals ::
  "RegisterTable \<Rightarrow> Operation list list \<Rightarrow> (Operation list list \<times> bool) option" where
  "NarrowLiterals = rewrite_function NarrowLiterals_op"

subsection \<open>Gathers that are moves\<close>

definition GatherToMove_op :: op_rewrite where
  "GatherToMove_op rt op =
     (case op_opcode op of
        Gather entries \<Rightarrow>
          (if length (op_src op) = 1 then do {
             _ \<leftarrow> assert_that (length (op_dst op) = 1);
             _ \<leftarrow> assert_that (length entries = 1);
             let ge = entries ! 0;
             Some (if ge_sourceOffset ge = 0 \<and> ge_destOffset ge = 0 \<and>
                      ge_numBits ge = SourceOperand_Width rt (op_src op ! 0) \<and>
                      ge_numBits ge = DestinationOperand_Width rt (op_dst op ! 0)
                   then (op\<lparr>op_opcode := Mov\<rparr>, True)
                   else (op, False)) }
           else Some (op, False))
      | _ \<Rightarrow> Some (op, False))"

definition GatherToMove ::
  "RegisterTable \<Rightarrow> Operation list list \<Rightarrow> (Operation list list \<times> bool) option" where
  "GatherToMove = rewrite_function GatherToMove_op"

subsection \<open>The rewritten operations\<close>

abbreviation dst_width :: "RegisterTable \<Rightarrow> Operation \<Rightarrow> nat" where
  "dst_width rt op \<equiv> DestinationOperand_Width rt (op_dst op ! 0)"

abbreviation src_width :: "RegisterTable \<Rightarrow> Operation \<Rightarrow> nat \<Rightarrow> nat" where
  "src_width rt op i \<equiv> SourceOperand_Width rt (op_src op ! i)"

lemma newOp_operand_simps [simp]:
  "op_opcode (newOp_operand oc op i) = oc" "op_dst (newOp_operand oc op i) = [op_dst op ! 0]"
  "op_src (newOp_operand oc op i) = [op_src op ! i]"
  by (simp_all add: newOp_operand_def PushOperand_def new_operation_def)

lemma newOp_operand_sign [simp]:
  "ShouldSignExtend (newOp_operand oc op i) 0 \<longleftrightarrow> ShouldSignExtend op i"
  by (simp add: newOp_operand_def PushOperand_def new_operation_def ShouldSignExtend_def[of "_\<lparr>op_src := _, op_signExtendSourceMask := _\<rparr>"])
    (simp add: ShouldSignExtend_def)

lemma src_int_newOp_operand [simp]: "src_int rt env (newOp_operand oc op i) 0 = src_int rt env op i"
  by (simp add: src_int_def)

lemma newOp_zero_simps [simp]:
  "op_opcode (newOp_zero op) = Mov" "op_dst (newOp_zero op) = [op_dst op ! 0]"
  "op_src (newOp_zero op) = [SourceOperand_size 0]" "op_signExtendSourceMask (newOp_zero op) = 0"
  by (simp_all add: newOp_zero_def new_operation_def)

lemma op_ok_dst: "op_ok rt op \<Longrightarrow> length (op_dst op) = 1" "op_ok rt op \<Longrightarrow> [op_dst op ! 0] = op_dst op"
  by (auto elim!: op_okE)

lemma op_ok_dst_width: "op_ok rt op \<Longrightarrow> env_ok rt env \<Longrightarrow> 0 < dst_width rt op"
  by (auto elim!: op_okE simp: env_ok_def reg_width_def)

lemma op_ok_srcs [simp]: "op_ok rt op \<Longrightarrow> srcs_ok rt op"
  by (simp add: op_ok_def)

lemma srcs_ok_newOp:
  "srcs_ok rt op \<Longrightarrow> i < length (op_src op) \<Longrightarrow> srcs_ok rt (newOp_operand oc op i)"
  "srcs_ok rt (newOp_zero op)"
  by (auto simp: srcs_ok_def SourceOperand_size_def lit_ok_def)

lemma eval_newOp_Mov:
  assumes "op_ok rt op" "env_ok rt env" "i < length (op_src op)"
  shows "eval_operation rt env (newOp_operand Mov op i) = Some (take_bit (dst_width rt op) (src_int rt env op i))"
  using assms by (subst eval_Mov) (auto intro: srcs_ok_newOp)

lemma eval_newOp_Invert:
  assumes "op_ok rt op" "env_ok rt env" "i < length (op_src op)"
  shows "eval_operation rt env (newOp_operand (UnaryOp Invert) op i) =
    Some (take_bit (dst_width rt op) (NOT (src_int rt env op i)))"
  using assms by (subst eval_Invert) (auto intro: srcs_ok_newOp)

lemma eval_newOp_zero: "env_ok rt env \<Longrightarrow> eval_operation rt env (newOp_zero op) = Some 0"
  by (subst eval_Mov)
    (auto simp: srcs_ok_newOp src_int_def SourceOperand_size_def operand_value_def)

subsection \<open>What the classification of literals means\<close>

lemma srcIsZero_int: "srcIsZero op i \<Longrightarrow> src_int rt env op i = 0"
  by (auto simp: srcIsZero_def src_int_def operand_value_def lit_int_def split: SourceOperand.splits)

lemma srcIsOne_int:
  assumes "srcIsOne op i" "\<not> (src_width rt op i = 1 \<and> ShouldSignExtend op i)" "srcs_ok rt op"
    and "i < length (op_src op)"
  shows "src_int rt env op i = 1"
proof -
  from assms(1) obtain l where l: "op_src op ! i = SrcLiteral l" "l_value l = 1"
    by (auto simp: srcIsOne_def split: SourceOperand.splits)
  with srcs_ok_nth[OF assms(3,4)] have ok: "lit_ok l" by simp
  show ?thesis
  proof (cases "ShouldSignExtend op i")
    case True
    with assms(2) l ok obtain n where "l_width l = Suc (Suc n)"
      by (cases "l_width l"; cases "l_width l - 1") (auto simp: lit_ok_def)
    with True l show ?thesis
      by (simp add: src_int_def operand_value_def lit_int_def signed_take_bit_eq_take_bit_minus
          bit_1_iff take_bit_of_1_eq_0_iff)
  qed (simp add: l src_int_def operand_value_def)
qed

lemma srcIsAllOnes_int:
  assumes "srcIsAllOnes op i" "srcs_ok rt op" "i < length (op_src op)"
  shows "src_int rt env op i = (if ShouldSignExtend op i then - 1 else mask (src_width rt op i))"
proof -
  from assms(1) obtain l where l: "op_src op ! i = SrcLiteral l" "l_value l = mask (l_width l)"
    by (auto simp: srcIsAllOnes_def mask_eq_exp_minus_1 set_bit_eq_or push_bit_of_1
        split: SourceOperand.splits)
  with srcs_ok_nth[OF assms(2,3)] obtain n where "l_width l = Suc n"
    by (cases "l_width l") (auto simp: lit_ok_def)
  then have "signed_take_bit (l_width l - 1) (mask (l_width l) :: int) = - 1"
    by (intro bit_eqI) (auto simp: bit_signed_take_bit_iff bit_mask_iff min_def)
  with l show ?thesis
    by (simp add: src_int_def operand_value_def lit_int_def)
qed

lemma src_int_unsigned:
  assumes "srcs_ok rt op" "env_ok rt env" "i < length (op_src op)" "\<not> ShouldSignExtend op i"
  shows "0 \<le> src_int rt env op i" "src_int rt env op i < 2 ^ src_width rt op i"
  using src_lit_ok[OF assms(1-3)] assms(4) by (simp_all add: src_int_def lit_ok_def)

subsection \<open>Correctness of the identities of binary operators\<close>

text \<open>The values of the operators the identities treat, where evaluation does not throw.\<close>

lemma eval_arith:
  assumes "op_ok rt op" "env_ok rt env" "op_opcode op = BinaryOp t" "length (op_src op) = 2"
    and "t \<in> {Add, Sub, LutMul, And, Or, Xor}"
  shows "eval_operation rt env op =
    Some (take_bit (dst_width rt op) (binop_spec t (src_int rt env op 0) (src_int rt env op 1)))"
proof -
  have ok: "lit_ok (src_lit rt env op 0)" "lit_ok (src_lit rt env op 1)"
    using assms(4) by (auto intro!: src_lit_ok[OF op_ok_srcs[OF assms(1)] assms(2)])
  show ?thesis
    using assms(5) ImplementBinaryOp_arith[OF ok op_ok_dst_width[OF assms(1,2)], of t]
    by (subst eval_BinaryOp[OF op_ok_srcs[OF assms(1)] assms(3,4) op_ok_dst(1)[OF assms(1)]])
      (auto simp: src_int_def)
qed

lemma eval_shift:
  assumes "op_ok rt op" "env_ok rt env" "op_opcode op = BinaryOp t" "length (op_src op) = 2"
    and "t \<in> {Shl, Shr}" "eval_operation rt env op = Some v"
  defines "A \<equiv> src_int rt env op 0" and "B \<equiv> src_int rt env op 1" and "w \<equiv> dst_width rt op"
  shows "0 \<le> B \<and> B \<le> int size_t_max \<and> B = operand_value env (op_src op ! 1) \<and> v = take_bit w
    (if t = Shl then push_bit (nat B) (take_bit (max w (src_width rt op 0)) A)
     else drop_bit (nat B) (take_bit (max ((w + nat B) mod 2 ^ 64) (src_width rt op 0)) A))"
proof -
  have ok: "lit_ok (src_lit rt env op 0)" "lit_ok (src_lit rt env op 1)"
    using assms(4) by (auto intro!: src_lit_ok[OF op_ok_srcs[OF assms(1)] assms(2)])
  have w: "0 < w" using op_ok_dst_width[OF assms(1,2)] by (simp add: w_def)
  have A: "A = lit_int (ShouldSignExtend op 0) (src_lit rt env op 0)"
    and B: "B = lit_int (ShouldSignExtend op 1) (src_lit rt env op 1)"
    by (simp_all add: A_def B_def src_int_def)
  have eval: "ImplementBinaryOp any_index (src_lit rt env op 0) (src_lit rt env op 1) w (ShouldSignExtend op 0)
      (ShouldSignExtend op 1) t = Some v"
    using assms(6) unfolding w_def
    by (subst (asm) eval_BinaryOp[OF op_ok_srcs[OF assms(1)] assms(3,4) op_ok_dst(1)[OF assms(1)]])
  then have pos: "0 \<le> B"
    unfolding B ImplementBinaryOp_unfold[OF ok w] using assms(5)
    by (auto simp: BinaryOpResult_def split: bind_splits)
  have val: "B = operand_value env (op_src op ! 1)"
    using lit_int_nonneg_value[OF ok(2)] pos unfolding B by simp
  have wide: "take_bit (max n (src_width rt op 1)) B = B" for n
    using take_bit_lit_nonneg[OF ok(2) pos[unfolded B], of "max n (src_width rt op 1)"]
    by (simp add: B)
  note wide = wide wide[unfolded One_nat_def]
  obtain s where s: "MpToSizeT B = Some s"
    using eval pos assms(5) unfolding ImplementBinaryOp_unfold[OF ok w] A[symmetric] B[symmetric]
    by (cases "MpToSizeT B") (auto simp: BinaryOpResult_def wide split: bind_splits)
  then have nat: "s = nat B" and max: "B \<le> int size_t_max"
    by (simp_all add: MpToSizeT_def split: if_splits)
  have size: "MpToSizeT (operand_value env (op_src op ! 1)) = Some (nat B)"
    using s nat val by simp
  from assms(5) have "v = take_bit w
    (if t = Shl then push_bit (nat B) (take_bit (max w (src_width rt op 0)) A)
     else drop_bit (nat B) (take_bit (max ((w + nat B) mod 2 ^ 64) (src_width rt op 0)) A))"
    using eval pos unfolding ImplementBinaryOp_unfold[OF ok w] A[symmetric] B[symmetric]
    by (elim insertE emptyE)
      (simp_all add: BinaryOpResult_def RequiredSourceWidth_def wide s nat size size[unfolded One_nat_def])
  with pos val max show ?thesis by blast
qed

text \<open>Where the identities hold: a shift by zero needs a destination width below \<open>2^64\<close>, the
  factor one must not be the sign-extended one-bit literal, which denotes -1, and the result of
  an exclusive or must not be wider than both operands.\<close>

definition identity_safe :: "RegisterTable \<Rightarrow> Operation \<Rightarrow> bool" where
  "identity_safe rt op \<longleftrightarrow>
     (case op_opcode op of
        BinaryOp t \<Rightarrow>
          (t = Shr \<longrightarrow> dst_width rt op \<le> size_t_max) \<and>
          (t = LutMul \<longrightarrow>
             \<not> (srcIsOne op 0 \<and> src_width rt op 0 = 1 \<and> ShouldSignExtend op 0) \<and>
             \<not> (srcIsOne op 1 \<and> src_width rt op 1 = 1 \<and> ShouldSignExtend op 1)) \<and>
          (t = Xor \<longrightarrow> dst_width rt op \<le> max (src_width rt op 0) (src_width rt op 1))
      | Select \<Rightarrow>
          (let selWidth = src_width rt op 0; numChoices = length (op_src op) - 1
           in numChoices = 2 ^ selWidth \<or> \<not> ShouldSignExtend op 0 \<and> 2 ^ selWidth \<le> numChoices)
      | _ \<Rightarrow> True)"

lemma take_bit_drop_bit_zero:
  "0 \<le> A \<Longrightarrow> A < 2 ^ k \<Longrightarrow> k \<le> n \<Longrightarrow> drop_bit n (take_bit m (A::int)) = 0"
proof -
  assume "0 \<le> A" "A < 2 ^ k" "k \<le> n"
  have "take_bit m A \<le> A" "0 \<le> take_bit m A"
    using \<open>0 \<le> A\<close> by (simp_all add: take_bit_int_less_eq_self_iff)
  moreover have "(2::int) ^ k \<le> 2 ^ n" using \<open>k \<le> n\<close> by simp
  ultimately show ?thesis
    using \<open>A < 2 ^ k\<close> unfolding drop_bit_eq_div by (intro div_pos_pos_trivial) linarith+
qed

lemma ZeroOneIdentities_value:
  assumes "op_ok rt op" "env_ok rt env" "op_opcode op = BinaryOp t" "length (op_src op) = 2"
    and "identity_safe rt op" "ZeroOneIdentities op t = Some newOp"
    and "eval_operation rt env op = Some v"
  shows "eval_operation rt env newOp = Some v"
proof -
  note ok = op_ok_srcs[OF assms(1)]
  note mov = eval_newOp_Mov[OF assms(1,2)] and zero = eval_newOp_zero[OF assms(2)]
  note arith = eval_arith[OF assms(1-4)] and shift = eval_shift[OF assms(1-4) _ assms(7)]
  consider (z1) "srcIsZero op 1" | (z0) "\<not> srcIsZero op 1" "srcIsZero op 0"
    | (one) i where "t = LutMul" "srcIsOne op i" "i < 2" "newOp = newOp_operand Mov op (1 - i)"
    using assms(6) unfolding ZeroOneIdentities_def
    by (cases "srcIsZero op 1"; cases "srcIsZero op 0"; cases "srcIsOne op 1") (auto split: if_splits)
  then show ?thesis
  proof cases
    case z1
    note B = srcIsZero_int[OF z1, of rt env, unfolded One_nat_def]
    have wrap: "t = Shr \<Longrightarrow> dst_width rt op mod 2 ^ 64 = dst_width rt op"
      using assms(3,5) size_t_max_wrap[of "dst_width rt op"] by (auto simp: identity_safe_def)
    have "t \<in> {Or, Xor, Add, Sub, Shl, Shr} \<and> newOp = newOp_operand Mov op 0 \<or>
        t \<in> {And, LutMul} \<and> newOp = newOp_zero op"
      using z1 assms(6) by (auto simp: ZeroOneIdentities_def split: if_splits)
    then show ?thesis
      using arith shift assms(4,7) wrap
      by (elim disjE conjE insertE emptyE)
        (simp_all add: mov zero B binop_spec_def min_def)
  next
    case z0
    note A = srcIsZero_int[OF z0(2), of rt env]
    have "t \<in> {Or, Xor, Add} \<and> newOp = newOp_operand Mov op 1 \<or>
        t \<in> {And, Shl, Shr, LutMul} \<and> newOp = newOp_zero op"
      using z0 assms(6) by (auto simp: ZeroOneIdentities_def split: if_splits)
    then show ?thesis
      using arith shift assms(4,7)
      by (elim disjE conjE insertE emptyE) (simp_all add: mov zero A binop_spec_def take_bit_minus)
  next
    case one
    have "src_int rt env op i = 1"
      using assms(3-5) one by (intro srcIsOne_int[OF _ _ ok]) (auto simp: identity_safe_def less_2_cases_iff)
    with one arith assms(4,7) show ?thesis
      by (auto simp: mov binop_spec_def less_2_cases_iff)
  qed
qed

lemma take_bit_and_mask_wide: "w \<le> n \<Longrightarrow> take_bit w (a AND mask n) = take_bit w (a::int)"
  by (rule bit_eqI) (auto simp: bit_take_bit_iff bit_and_iff bit_mask_iff)

lemma and_or_mask_absorb:
  assumes "0 \<le> a" "a < 2 ^ k" "k \<le> n"
  shows "a AND mask n = (a::int)" "a OR mask n = (mask n :: int)"
proof -
  have "a < 2 ^ n"
    using assms(2) power_increasing[OF assms(3), of "2::int"] by linarith
  with assms(1) have *: "take_bit n a = a" by (simp add: take_bit_int_eq_self)
  then show "a AND mask n = a" by (simp add: take_bit_eq_mask)
  have "bit a i \<Longrightarrow> i < n" for i
    using * by (metis bit_take_bit_iff)
  then show "a OR mask n = mask n"
    by (intro bit_eqI) (auto simp: bit_or_iff bit_mask_iff)
qed

text \<open>The three rewrites by an all-ones operand, on numbers: operand \<open>m\<close> denotes \<open>-1\<close> or the
  mask of its width.\<close>

lemma all_ones_numbers:
  fixes a m :: int
  assumes "m = (if sm then - 1 else mask n)"
    and "w \<le> n \<or> sm \<or> (k \<le> n \<and> 0 \<le> a \<and> a < 2 ^ k)"
  shows "take_bit w (a AND m) = take_bit w a" "take_bit w (a OR m) = take_bit w m"
    and "w \<le> n \<or> sm \<Longrightarrow> take_bit w (a XOR m) = take_bit w (NOT a)"
proof -
  show "take_bit w (a AND m) = take_bit w a"
    using assms and_or_mask_absorb(1)[of a k n] by (auto simp: take_bit_and_mask_wide simp del: take_bit_and)
  show "take_bit w (a OR m) = take_bit w m"
  proof (cases "w \<le> n \<or> sm")
    case True
    with assms(1) show ?thesis
      by (auto intro!: bit_eqI simp: bit_take_bit_iff bit_or_iff bit_mask_iff)
  next
    case False
    with assms and_or_mask_absorb(2)[of a k n] show ?thesis by (simp del: take_bit_or)
  qed
  show "take_bit w (a XOR m) = take_bit w (NOT a)" if "w \<le> n \<or> sm"
    using assms(1) that by (auto intro!: bit_eqI simp: bit_take_bit_iff bit_xor_iff bit_mask_iff bit_not_iff)
qed

lemma AllOnesRewrite_value:
  assumes "op_ok rt op" "env_ok rt env" "op_opcode op = BinaryOp t" "length (op_src op) = 2"
    and "identity_safe rt op" "AllOnesRewrite op t i j = Some newOp" "(i, j) \<in> {(0, 1), (1, 0)}"
    and "srcIsAllOnes op i" "ones_cover rt op i j"
  shows "eval_operation rt env newOp = eval_operation rt env op"
proof -
  have ij: "i < length (op_src op)" "j < length (op_src op)" using assms(4,7) by auto
  note ones = srcIsAllOnes_int[OF assms(8) op_ok_srcs[OF assms(1)] ij(1), of env]
  have cover: "dst_width rt op \<le> src_width rt op i \<or> ShouldSignExtend op i \<or>
      (src_width rt op j \<le> src_width rt op i \<and> 0 \<le> src_int rt env op j \<and>
       src_int rt env op j < 2 ^ src_width rt op j)"
    using assms(9) src_int_unsigned[OF op_ok_srcs[OF assms(1)] assms(2) ij(2)]
    by (auto simp: ones_cover_def)
  note num = all_ones_numbers[OF ones cover]
  have wide: "t = Xor \<Longrightarrow> dst_width rt op \<le> src_width rt op i \<or> ShouldSignExtend op i"
    using assms(3,5,7,9) by (auto simp: identity_safe_def ones_cover_def max_def split: if_splits)
  have comm: "take_bit w (binop_spec t (src_int rt env op 0) (src_int rt env op 1)) =
      take_bit w (binop_spec t (src_int rt env op j) (src_int rt env op i))"
    if "t \<in> {And, Or, Xor}" for w
    using that assms(7) by (auto simp: binop_spec_def and.commute or.commute xor.commute)
  from assms(6) consider "t = And" "newOp = newOp_operand Mov op j"
    | "t = Or" "newOp = newOp_operand Mov op i" | "t = Xor" "newOp = newOp_operand (UnaryOp Invert) op j"
    by (auto simp: AllOnesRewrite_def split: ParseTreeBinaryOpType.splits)
  then show ?thesis
  proof cases
    case 1
    then show ?thesis
      using eval_arith[OF assms(1-4)] comm num(1) eval_newOp_Mov[OF assms(1,2) ij(2)]
      by (simp add: binop_spec_def del: take_bit_and)
  next
    case 2
    then show ?thesis
      using eval_arith[OF assms(1-4)] comm num(2) eval_newOp_Mov[OF assms(1,2) ij(1)]
      by (simp add: binop_spec_def del: take_bit_or)
  next
    case 3
    then show ?thesis
      using eval_arith[OF assms(1-4)] comm num(3)[OF wide] eval_newOp_Invert[OF assms(1,2) ij(2)]
      by (simp add: binop_spec_def del: take_bit_xor)
  qed
qed

lemma AllOnesIdentities_value:
  assumes "op_ok rt op" "env_ok rt env" "op_opcode op = BinaryOp t" "length (op_src op) = 2"
    and "identity_safe rt op" "AllOnesIdentities rt op t = Some newOp"
  shows "eval_operation rt env newOp = eval_operation rt env op"
  using assms(6) AllOnesRewrite_value[OF assms(1-5)]
  by (auto simp: AllOnesIdentities_def split: if_splits)

lemma ShiftIdentities_value:
  assumes "op_ok rt op" "env_ok rt env" "op_opcode op = BinaryOp t" "length (op_src op) = 2"
    and "ShiftIdentities rt op t = Some newOp" "eval_operation rt env op = Some v"
  shows "eval_operation rt env newOp = Some v"
proof -
  from assms(5) obtain l where l: "op_src op ! 1 = SrcLiteral l" and zero: "newOp = newOp_zero op"
    and t: "t = Shl \<and> int (dst_width rt op) \<le> l_value l \<or>
      t = Shr \<and> \<not> ShouldSignExtend op 0 \<and> int (src_width rt op 0) \<le> l_value l"
    by (auto simp: ShiftIdentities_def split: SourceOperand.splits if_splits)
  have B: "src_int rt env op 1 = l_value l"
    using eval_shift[OF assms(1-4) _ assms(6)] t l by (auto simp: operand_value_def)
  from t have "v = 0"
  proof (elim disjE conjE)
    assume "t = Shl" "int (dst_width rt op) \<le> l_value l"
    then have "dst_width rt op \<le> nat (src_int rt env op 1)" using B by linarith
    with eval_shift[OF assms(1-4) _ assms(6)] \<open>t = Shl\<close> show ?thesis
      by (auto simp: take_bit_push_bit)
  next
    assume shr: "t = Shr" "\<not> ShouldSignExtend op 0" "int (src_width rt op 0) \<le> l_value l"
    then have "src_width rt op 0 \<le> nat (src_int rt env op 1)" using B by linarith
    moreover have "0 \<le> src_int rt env op 0" "src_int rt env op 0 < 2 ^ src_width rt op 0"
      using src_int_unsigned[OF op_ok_srcs[OF assms(1)] assms(2), of 0] assms(4) shr(2) by simp_all
    ultimately show ?thesis
      using eval_shift[OF assms(1-4) _ assms(6)] shr(1) take_bit_drop_bit_zero by simp
  qed
  with zero show ?thesis using eval_newOp_zero[OF assms(2)] by simp
qed

lemma BinaryOpAlgebraicIdentities_value:
  assumes "op_ok rt op" "env_ok rt env" "identity_safe rt op"
    and "BinaryOpAlgebraicIdentities rt op = Some (op', c)" "eval_operation rt env op = Some v"
  shows "eval_operation rt env op' = Some v"
proof -
  from assms(4) obtain t where t: "op_opcode op = BinaryOp t" "length (op_src op) = 2"
    and cases: "ZeroOneIdentities op t = Some op' \<or> AllOnesIdentities rt op t = Some op' \<or>
      ShiftIdentities rt op t = Some op' \<or> op' = op"
    by (auto simp: BinaryOpAlgebraicIdentities_def split: Opcode.splits option.splits)
  then show ?thesis
    using ZeroOneIdentities_value[OF assms(1,2) t assms(3) _ assms(5)]
      AllOnesIdentities_value[OF assms(1,2) t assms(3)] ShiftIdentities_value[OF assms(1,2) t _ assms(5)]
      assms(5) by auto
qed

subsection \<open>Correctness of the identities of multiplexers\<close>

lemma eval_Select_choices:
  assumes "op_opcode op = Select" "eval_operation rt env op = Some v"
  shows "\<exists>n. length (op_src op) = Suc (2 ^ n)"
proof -
  from assms obtain lits k where "map_opt (operand_literal rt env) (op_src op) = Some lits"
    and "lits \<noteq> []" "Log2 (int (length lits - 1)) = Some k"
    by (auto simp: eval_operation_in_def eval_select_def Let_def split: bind_splits)
  moreover from this(3) obtain n where "int (length lits - 1) = 2 ^ n"
    by (auto simp: Log2_def IsPow2_iff split: bind_splits)
  then have "length lits - 1 = 2 ^ n"
    by (metis of_nat_eq_iff of_nat_numeral of_nat_power)
  ultimately show ?thesis
    using map_opt_length[of "operand_literal rt env" "op_src op" lits]
    by (intro exI[of _ n]) (cases lits; simp)
qed

text \<open>A selector no wider than the index it is resized to selects the choice of its own number.\<close>

lemma select_index:
  assumes "op_ok rt op" "env_ok rt env" "op_opcode op = Select" "identity_safe rt op"
    and "length (op_src op) = Suc (2 ^ n)"
  shows "take_bit n (src_int rt env op 0) = operand_value env (op_src op ! 0)"
    and "operand_value env (op_src op ! 0) < 2 ^ n" "0 \<le> operand_value env (op_src op ! 0)"
proof -
  let ?l = "src_lit rt env op 0"
  have ok: "lit_ok ?l"
    using assms(5) by (intro src_lit_ok[OF op_ok_srcs[OF assms(1)] assms(2)]) simp
  consider (eq) "src_width rt op 0 = n" | (le) "\<not> ShouldSignExtend op 0" "src_width rt op 0 \<le> n"
    using assms(3-5) by (auto simp: identity_safe_def Let_def)
  then have "take_bit n (src_int rt env op 0) = l_value ?l \<and> l_value ?l < 2 ^ n"
  proof cases
    case eq
    have "take_bit (l_width ?l) (lit_int (ShouldSignExtend op 0) ?l) = l_value ?l"
      using Widen_eq[OF ok, of "ShouldSignExtend op 0" 0] ok
      by (auto simp: Widen_unfold lit_ok_def split: if_splits)
    with eq ok show ?thesis by (simp add: src_int_def lit_ok_def)
  next
    case le
    have "l_value ?l < 2 ^ n"
      using ok power_increasing[OF le(2), of "2::int"] by (simp add: lit_ok_def del: power_increasing_iff)
    with le(1) ok show ?thesis
      by (simp add: src_int_def lit_ok_def take_bit_int_eq_self)
  qed
  then show "take_bit n (src_int rt env op 0) = operand_value env (op_src op ! 0)"
    "operand_value env (op_src op ! 0) < 2 ^ n" by simp_all
  show "0 \<le> operand_value env (op_src op ! 0)" using ok by (simp add: lit_ok_def)
qed

text \<open>What the loop over literal choices has established when a flag survives it.\<close>

definition choice_value :: "RegisterTable \<Rightarrow> Operation \<Rightarrow> nat \<Rightarrow> int option" where
  "choice_value rt op i = do { l \<leftarrow> choice_literal op i; Resize mp_index l (ShouldSignExtend op i) (dst_width rt op) }"

abbreviation sel_literal :: "RegisterTable \<Rightarrow> Operation \<Rightarrow> nat \<Rightarrow> Literal" where
  "sel_literal rt op i \<equiv> \<lparr>l_value = int (i - 1), l_width = src_width rt op 0\<rparr>"

lemma ChoiceStep_fold:
  assumes "fold_opt (ChoiceStep rt op first) xs (a, b, c) = Some (a', b', c')"
  shows "a' \<Longrightarrow> i \<in> set xs \<Longrightarrow> choice_value rt op i = Some first"
    and "b' \<Longrightarrow> i \<in> set xs \<Longrightarrow>
      \<exists>v. choice_value rt op i = Some v \<and> Resize mp_index (sel_literal rt op i) (ShouldSignExtend op 0) (dst_width rt op) = Some v"
    and "c' \<Longrightarrow> i \<in> set xs \<Longrightarrow>
      \<exists>v. choice_value rt op i = Some v \<and>
        ImplementUnaryOp mp_index (sel_literal rt op i) (ShouldSignExtend op 0) Invert (dst_width rt op) = Some v"
    and "a' \<Longrightarrow> a" "b' \<Longrightarrow> b" "c' \<Longrightarrow> c"
proof -
  have "(a' \<longrightarrow> a \<and> (\<forall>i \<in> set xs. choice_value rt op i = Some first)) \<and>
    (b' \<longrightarrow> b \<and> (\<forall>i \<in> set xs. \<exists>v. choice_value rt op i = Some v \<and> Resize mp_index (sel_literal rt op i) (ShouldSignExtend op 0) (dst_width rt op) = Some v)) \<and>
    (c' \<longrightarrow> c \<and> (\<forall>i \<in> set xs. \<exists>v. choice_value rt op i = Some v \<and>
        ImplementUnaryOp mp_index (sel_literal rt op i) (ShouldSignExtend op 0) Invert (dst_width rt op) = Some v))"
    using assms
  proof (induction xs arbitrary: a b c)
    case (Cons x xs)
    from Cons.prems obtain a1 b1 c1 where
      step: "ChoiceStep rt op first x (a, b, c) = Some (a1, b1, c1)"
      and rest: "fold_opt (ChoiceStep rt op first) xs (a1, b1, c1) = Some (a', b', c')"
      by (auto split: bind_splits)
    then obtain tv sv iv where "choice_value rt op x = Some tv"
      "Resize mp_index (sel_literal rt op x) (ShouldSignExtend op 0) (dst_width rt op) = Some sv"
      "ImplementUnaryOp mp_index (sel_literal rt op x) (ShouldSignExtend op 0) Invert (dst_width rt op) = Some iv"
      "a1 = (a \<and> tv = first)" "b1 = (b \<and> tv = sv)" "c1 = (c \<and> tv = iv)"
      by (auto simp: ChoiceStep_def choice_value_def Let_def split: bind_splits)
    with Cons.IH[OF rest] show ?case by auto
  qed simp
  then show "a' \<Longrightarrow> i \<in> set xs \<Longrightarrow> choice_value rt op i = Some first"
    "b' \<Longrightarrow> i \<in> set xs \<Longrightarrow>
      \<exists>v. choice_value rt op i = Some v \<and> Resize mp_index (sel_literal rt op i) (ShouldSignExtend op 0) (dst_width rt op) = Some v"
    "c' \<Longrightarrow> i \<in> set xs \<Longrightarrow>
      \<exists>v. choice_value rt op i = Some v \<and>
        ImplementUnaryOp mp_index (sel_literal rt op i) (ShouldSignExtend op 0) Invert (dst_width rt op) = Some v"
    "a' \<Longrightarrow> a" "b' \<Longrightarrow> b" "c' \<Longrightarrow> c"
    by simp_all
qed

lemma choice_value_eq:
  assumes "op_ok rt op" "i < length (op_src op)" "choice_value rt op i = Some x"
  shows "x = take_bit (dst_width rt op) (src_int rt env op i)"
proof -
  from assms(3) obtain l where l: "op_src op ! i = SrcLiteral l"
    "Resize mp_index l (ShouldSignExtend op i) (dst_width rt op) = Some x"
    by (auto simp: choice_value_def choice_literal_def split: bind_splits SourceOperand.splits)
  with srcs_ok_nth[OF op_ok_srcs[OF assms(1)] assms(2)] have "lit_ok l" by simp
  from Resize_eq[OF this] Resize_any[OF l(2) this] l show ?thesis
    by (cases l) (simp add: src_int_def operand_value_def)
qed

lemma SelectAlgebraicIdentities_value:
  assumes ok: "op_ok rt op" "env_ok rt env" "identity_safe rt op"
    and pass: "SelectAlgebraicIdentities rt op = Some (op', c)" and v: "eval_operation rt env op = Some v"
  shows "eval_operation rt env op' = Some v"
proof -
  let ?w = "dst_width rt op" and ?s = "operand_value env (op_src op ! 0)"
  have sel: "op_opcode op = Select"
    using pass by (auto simp: SelectAlgebraicIdentities_def split: bind_splits)
  obtain n where n: "length (op_src op) = Suc (2 ^ n)"
    using eval_Select_choices[OF sel v] by blast
  note index = select_index[OF ok(1,2) sel ok(3) n]
  define j where "j = nat ?s"
  have j: "Suc j < length (op_src op)" "?s = int j"
    using index(2,3) by (simp_all add: j_def n nat_less_iff)
  have val: "v = take_bit ?w (src_int rt env op (Suc j))"
    using eval_Select[OF op_ok_srcs[OF ok(1)] ok(2) sel op_ok_dst(1)[OF ok(1)] n] v
    by (simp add: index(1) j_def)
  have lit0: "lit_ok (src_lit rt env op 0)"
    using src_lit_ok[OF op_ok_srcs[OF ok(1)] ok(2), of 0] n by simp
  note self = Resize_eq[OF lit0, unfolded j(2)] ImplementUnaryOp_eq[OF lit0, unfolded j(2)]
  note mov = eval_newOp_Mov[OF ok(1,2)]
  consider (lit) l i where "op_src op ! 0 = SrcLiteral l" "MpToSizeT (l_value l) = Some i"
      "op' = (new_operation Mov (op_locations op) [op_dst op ! 0])
          \<lparr>op_src := [op_src op ! (i + 1)],
           op_signExtendSourceMask := drop_bit (i + 1) (op_signExtendSourceMask op) AND 1\<rparr>"
    | (lits) a b d where "LiteralChoices rt op = Some (a, b, d)"
      "a \<and> op' = newOp_operand Mov op 1 \<or> b \<and> op' = newOp_operand Mov op 0 \<or>
       d \<and> op' = newOp_operand (UnaryOp Invert) op 0"
    | (regs) "list_all IsRegisterOperand (tl (op_src op))" "RegisterChoicesEqual op" "op' = newOp_operand Mov op 1"
    | (same) "op' = op"
    using pass
    by (cases "op_src op ! 0")
      (auto simp: SelectAlgebraicIdentities_def Let_def split: bind_splits if_splits)
  then show ?thesis
  proof cases
    case lit
    then have i: "i = j" by (simp add: j_def MpToSizeT_def operand_value_def split: if_splits)
    have "ShouldSignExtend op' 0 \<longleftrightarrow> ShouldSignExtend op (Suc j)"
    proof (cases "Suc j < 64")
      case True
      then show ?thesis
        by (simp add: ShouldSignExtend_bit lit(3) i bit_and_iff bit_drop_bit_eq)
    next
      case False
      then have "push_bit (Suc j) (1 :: 64 word) = 0" "drop_bit (Suc j) (op_signExtendSourceMask op) = 0"
        by (auto intro!: bit_eqI simp: bit_push_bit_iff bit_drop_bit_eq dest: bit_imp_le_length
            simp del: push_bit_Suc push_bit_of_1)
      then show ?thesis
        by (simp add: ShouldSignExtend_def lit(3) i)
    qed
    then have "src_int rt env op' 0 = src_int rt env op (Suc j)"
      by (simp add: src_int_def lit(3) i)
    moreover have "srcs_ok rt op'"
      using srcs_ok_nth[OF op_ok_srcs[OF ok(1)] j(1)] by (simp add: srcs_ok_def lit(3) i)
    ultimately show ?thesis
      using ok(2) by (subst eval_Mov) (simp_all add: lit(3) new_operation_def val)
  next
    case lits
    then obtain f where f: "choice_value rt op 1 = Some f"
      and fold: "fold_opt (ChoiceStep rt op f) [1..<length (op_src op)] (True, True, True) = Some (a, b, d)"
      by (auto simp: LiteralChoices_def choice_value_def split: bind_splits)
    have mem: "Suc j \<in> set [1..<length (op_src op)]" "1 \<in> set [1..<length (op_src op)]"
      using j(1) n by auto
    note choice = choice_value_eq[OF ok(1), of _ _ env]
    from lits(2) show ?thesis
    proof (elim disjE conjE)
      assume "a" "op' = newOp_operand Mov op 1"
      with ChoiceStep_fold(1)[OF fold _ mem(1)] ChoiceStep_fold(1)[OF fold _ mem(2)] show ?thesis
        using choice[OF j(1)] choice[of 1] n by (simp add: mov val)
    next
      assume "b" "op' = newOp_operand Mov op 0"
      then obtain v' where v': "choice_value rt op (Suc j) = Some v'"
          "Resize mp_index (sel_literal rt op (Suc j)) (ShouldSignExtend op 0) ?w = Some v'"
        using ChoiceStep_fold(2)[OF fold _ mem(1)] by blast
      have "Resize any_index (sel_literal rt op (Suc j)) (ShouldSignExtend op 0) ?w = Some v'"
        using Resize_any[OF v'(2)] lit0 by (simp add: j(2))
      then show ?thesis
        using \<open>op' = _\<close> choice[OF j(1) v'(1)] n by (simp add: mov val self src_int_def j(2))
    next
      assume "d" "op' = newOp_operand (UnaryOp Invert) op 0"
      then obtain v' where v': "choice_value rt op (Suc j) = Some v'"
          "ImplementUnaryOp mp_index (sel_literal rt op (Suc j)) (ShouldSignExtend op 0) Invert ?w = Some v'"
        using ChoiceStep_fold(3)[OF fold _ mem(1)] by blast
      have "ImplementUnaryOp any_index (sel_literal rt op (Suc j)) (ShouldSignExtend op 0) Invert ?w = Some v'"
        using ImplementUnaryOp_any[OF v'(2)] lit0 by (simp add: j(2))
      then show ?thesis
        using \<open>op' = _\<close> choice[OF j(1) v'(1)] n
        by (simp add: eval_newOp_Invert[OF ok(1,2)] val self src_int_def j(2))
    qed
  next
    case regs
    have isreg: "IsRegisterOperand (op_src op ! i)" if "0 < i" "i < length (op_src op)" for i
      using regs(1) that by (auto simp: list_all_length nth_tl dest!: spec[of _ "i - 1"])
    have "ShouldSignExtend op (Suc j) = ShouldSignExtend op 1 \<and>
        GetAccessedRegister (op_src op ! Suc j) = GetAccessedRegister (op_src op ! 1)"
      using regs(2) j(1) by (cases j) (auto simp: RegisterChoicesEqual_def list_all_iff)
    with isreg[of "Suc j"] isreg[of 1] j(1) n have "src_int rt env op (Suc j) = src_int rt env op 1"
      by (auto simp: src_int_def IsRegisterOperand_def GetAccessedRegister_def split: SourceOperand.splits)
    with regs(3) show ?thesis
      using n by (simp add: mov val)
  qed (simp add: v)
qed

subsection \<open>Narrow literals denote the same numbers\<close>

lemma SignedTightWidth_bounds:
  assumes "0 < w"
  shows "0 < SignedTightWidth v w \<and> SignedTightWidth v w \<le> w \<and>
    (\<forall>i. SignedTightWidth v w - 1 \<le> i \<and> i < w \<longrightarrow> bit v i = bit v (SignedTightWidth v w - 1))"
  using assms
proof (induction v w rule: SignedTightWidth.induct)
  case (1 v n)
  then show ?case
    by (cases "bit v (Suc n) = bit v n") (auto simp: less_Suc_eq)
qed (auto simp: less_Suc_eq)

lemma SignedTightWidth_tight: "SignedTightWidth v (SignedTightWidth v w) = SignedTightWidth v w"
  by (induction v w rule: SignedTightWidth.induct) auto

lemma SignedTightWidth_cong:
  "(\<And>i. i < w \<Longrightarrow> bit v i = bit v' i) \<Longrightarrow> SignedTightWidth v w = SignedTightWidth v' w"
  by (induction v w rule: SignedTightWidth.induct) (auto simp: less_Suc_eq)

lemma NarrowLiteral_signed:
  assumes "lit_ok l" "w = SignedTightWidth (l_value l) (l_width l)"
  shows "0 < w \<and> w \<le> l_width l \<and>
    signed_take_bit (w - 1) (take_bit w (l_value l)) = signed_take_bit (l_width l - 1) (l_value l)"
proof -
  have *: "0 < w" "w \<le> l_width l"
    "\<And>i. w - 1 \<le> i \<Longrightarrow> i < l_width l \<Longrightarrow> bit (l_value l) i = bit (l_value l) (w - 1)"
  proof -
    have "0 < l_width l" using assms(1) by (simp add: lit_ok_def)
    note b = SignedTightWidth_bounds[OF this, of "l_value l", folded assms(2)]
    then show "0 < w" "w \<le> l_width l" by blast+
    show "bit (l_value l) i = bit (l_value l) (w - 1)" if "w - 1 \<le> i" "i < l_width l" for i
      using b that by blast
  qed
  have "signed_take_bit (w - 1) (take_bit w (l_value l)) = signed_take_bit (l_width l - 1) (l_value l)"
  proof (rule bit_eqI)
    fix i
    show "bit (signed_take_bit (w - 1) (take_bit w (l_value l))) i =
        bit (signed_take_bit (l_width l - 1) (l_value l)) i"
      using *(1,2) *(3)[of i] *(3)[of "l_width l - 1"]
      by (cases "i < w - 1"; cases "i < l_width l - 1")
        (auto simp: bit_signed_take_bit_iff bit_take_bit_iff min_def not_less)
  qed
  with * show ?thesis by simp
qed

text \<open>A well-formed literal becomes one of the same number and of the least width, and is then
  left alone.\<close>

lemma NarrowLiteral_correct:
  assumes "lit_ok l"
  shows "\<exists>l' c. NarrowLiteral se l = Some (l', c) \<and> lit_ok l' \<and> lit_int se l' = lit_int se l \<and>
    NarrowLiteral se l' = Some (l', False)"
proof (cases se)
  case True
  define w where "w = SignedTightWidth (l_value l) (l_width l)"
  note sgn = NarrowLiteral_signed[OF assms w_def]
  have tight: "SignedTightWidth (take_bit w (l_value l)) w = w"
    using SignedTightWidth_tight[of "l_value l" "l_width l"]
      SignedTightWidth_cong[of w "take_bit w (l_value l)" "l_value l"]
    by (simp add: w_def bit_take_bit_iff)
  show ?thesis
  proof (cases "w = l_width l")
    case eq: True
    then show ?thesis
      using True assms by (intro exI[of _ l] exI[of _ False]) (simp add: NarrowLiteral_def flip: w_def)
  next
    case False
    have "NarrowLiteral se l = Some (\<lparr>l_value = take_bit w (l_value l), l_width = w\<rparr>, True)"
      using True False sgn
      by (simp add: NarrowLiteral_def take_bit_eq_mask mask_eq_exp_minus_1 flip: w_def)
    moreover have "lit_ok \<lparr>l_value = take_bit w (l_value l), l_width = w\<rparr>"
      using sgn by (simp add: lit_ok_def)
    moreover have "NarrowLiteral se \<lparr>l_value = take_bit w (l_value l), l_width = w\<rparr> =
        Some (\<lparr>l_value = take_bit w (l_value l), l_width = w\<rparr>, False)"
      using True tight by (simp add: NarrowLiteral_def)
    ultimately show ?thesis
      using True sgn by (auto simp: lit_int_def)
  qed
next
  case False
  have pos: "0 < l_width l" "0 \<le> l_value l" "l_value l < 2 ^ l_width l"
    using assms by (simp_all add: lit_ok_def)
  show ?thesis
  proof (cases "l_value l = 0")
    case True
    then show ?thesis
      using False pos by (cases "l_width l = 1"; cases l) (auto simp: NarrowLiteral_def lit_ok_def)
  next
    case nz: False
    then obtain k where k: "msb (l_value l) = Some k" "l_value l < 2 ^ Suc k"
      using msb_nat_bounds[of "nat (l_value l)"] pos by (auto simp: msb_def nat_less_iff)
    then have self: "take_bit (Suc k) (l_value l) = l_value l"
      using pos by (simp add: take_bit_int_eq_self)
    then have "l_value l AND (push_bit (Suc k) 1 - 1) = l_value l"
      by (simp only: take_bit_eq_mask mask_eq_exp_minus_1 push_bit_of_1)
    with False nz k pos show ?thesis
      by (cases l; cases "l_width l > Suc k") (auto simp: NarrowLiteral_def lit_ok_def simp del: push_bit_Suc)
  qed
qed

subsection \<open>Operations over operands of the same numbers\<close>

text \<open>Where evaluation depends only on the numbers that the operands denote and not on the widths
  they are written in: divisors are unsigned, equality compares operands of the same signedness,
  shift amounts are below \<open>2^63\<close>, gathers and lookup tables read unsigned operands.\<close>

definition narrow_safe :: "RegisterTable \<Rightarrow> Operation \<Rightarrow> bool" where
  "narrow_safe rt op \<longleftrightarrow>
     (case op_opcode op of
        BinaryOp t \<Rightarrow>
          (t \<in> {Div, Mod} \<longrightarrow> \<not> ShouldSignExtend op 1) \<and>
          (t \<in> {EQ, NE} \<longrightarrow> ShouldSignExtend op 0 = ShouldSignExtend op 1) \<and>
          (t = Shr \<longrightarrow> src_width rt op 1 < 64 \<and> dst_width rt op < 2 ^ 63)
      | Gather _ \<Rightarrow> op_signExtendSourceMask op = 0
      | Lut es \<Rightarrow> op_signExtendSourceMask op = 0 \<and> lut_ok (length (op_src op)) es
      | _ \<Rightarrow> True)"

lemma eval_binop_spec:
  assumes "op_ok rt op" "env_ok rt env" "op_opcode op = BinaryOp t" "length (op_src op) = 2"
    and "binop_pre t (ShouldSignExtend op 0) (ShouldSignExtend op 1) (dst_width rt op)
      (src_int rt env op 0) (src_int rt env op 1)"
  shows "eval_operation rt env op =
    Some (take_bit (dst_width rt op) (binop_spec t (src_int rt env op 0) (src_int rt env op 1)))"
proof -
  have ok: "lit_ok (src_lit rt env op 0)" "lit_ok (src_lit rt env op 1)"
    using assms(4) by (auto intro!: src_lit_ok[OF op_ok_srcs[OF assms(1)] assms(2)])
  show ?thesis
    using assms(5) ImplementBinaryOp_spec[OF ok op_ok_dst_width[OF assms(1,2)], of t]
    by (subst eval_BinaryOp[OF op_ok_srcs[OF assms(1)] assms(3,4) op_ok_dst(1)[OF assms(1)]])
      (simp add: src_int_def)
qed

lemma narrow_safe_pre:
  assumes "op_ok rt op" "env_ok rt env" "op_opcode op = BinaryOp t" "length (op_src op) = 2"
    and "narrow_safe rt op" "eval_operation rt env op = Some v"
  shows "binop_pre t (ShouldSignExtend op 0) (ShouldSignExtend op 1) (dst_width rt op)
    (src_int rt env op 0) (src_int rt env op 1)"
proof -
  let ?B = "src_int rt env op 1"
  have safe: "t \<in> {Div, Mod} \<Longrightarrow> \<not> ShouldSignExtend op 1"
    "t \<in> {EQ, NE} \<Longrightarrow> ShouldSignExtend op 0 = ShouldSignExtend op 1"
    "t = Shr \<Longrightarrow> src_width rt op 1 < 64 \<and> dst_width rt op < 2 ^ 63"
    using assms(3,5) by (auto simp: narrow_safe_def)
  have one: "1 < length (op_src op)" using assms(4) by simp
  have "0 < ?B" if "t \<in> {Div, Mod}"
  proof -
    have "0 \<le> ?B" "?B = operand_value env (op_src op ! 1)"
      using src_int_unsigned(1)[OF op_ok_srcs[OF assms(1)] assms(2) one safe(1)[OF that]] safe(1)[OF that]
      by (simp_all add: src_int_def)
    moreover have "operand_value env (op_src op ! 1) \<noteq> 0"
      using assms(6) that
      by (subst (asm) eval_BinaryOp[OF op_ok_srcs[OF assms(1)] assms(3,4) op_ok_dst(1)[OF assms(1)]])
        (auto simp: ImplementBinaryOp_def BinaryOpResult_def Let_def split: bind_splits)
    ultimately show ?thesis by linarith
  qed
  moreover have "0 \<le> ?B \<and> ?B \<le> int size_t_max" if "t \<in> {Shl, Shr}"
    using eval_shift[OF assms(1-4) that assms(6)] by blast
  moreover have "dst_width rt op + nat ?B \<le> size_t_max" if "t = Shr"
  proof -
    have "?B < 2 ^ src_width rt op 1"
      using lit_int_range(1)[OF src_lit_ok[OF op_ok_srcs[OF assms(1)] assms(2) one]]
      by (simp add: src_int_def)
    also have "(2::int) ^ src_width rt op 1 \<le> 2 ^ 63"
      using safe(3)[OF that] by (intro power_increasing) auto
    finally show ?thesis
      using safe(3)[OF that] unfolding size_t_max_def by (simp add: nat_less_iff) linarith
  qed
  ultimately show ?thesis
    using safe(2) by (auto simp: binop_pre_def)
qed

lemma eval_Unary:
  assumes "srcs_ok rt op" "env_ok rt env" "op_opcode op = UnaryOp t" "length (op_src op) = 1"
    and "length (op_dst op) = 1"
  shows "eval_operation rt env op = Some (take_bit (dst_width rt op)
    (case t of Negate \<Rightarrow> - src_int rt env op 0 | _ \<Rightarrow> NOT (src_int rt env op 0)))"
  using assms map_opt_literals[OF assms(1), of env]
    ImplementUnaryOp_eq[OF operand_lit_ok[OF srcs_ok_nth[OF assms(1), of 0] assms(2)]]
  by (cases t) (simp_all add: eval_operation_in_def src_int_def)

lemma fold_zip_values:
  "fold (\<lambda>(e, l). F e (g l)) (zip es ls) x = fold (\<lambda>(e, v). F e v) (zip es (map g ls)) x"
proof (induction es arbitrary: ls x)
  case (Cons e es)
  then show ?case by (cases ls) simp_all
qed simp

lemma eval_gather_values:
  "map l_value ls = map l_value ls' \<Longrightarrow> eval_gather es ls = eval_gather es ls'"
  unfolding eval_gather_def
  by (subst (1 2) fold_zip_values[where g = l_value and F = "\<lambda>e v combined. combined OR push_bit (ge_destOffset e)
      (Truncate (drop_bit (ge_sourceOffset e) v) (ge_numBits e))"]) (simp only:)

lemma Lut_Evaluate_cong:
  assumes "lut_ok n es" "\<And>i. i < n \<Longrightarrow> ev i = ev' i"
  shows "Lut_Evaluate es ev = Lut_Evaluate es ev'"
proof -
  have "tableRowIndex ev e = tableRowIndex ev' e" if "entry_ok n e" for e
  proof (rule bit_eqI)
    fix k
    have "k < le_numSources e \<Longrightarrow> ev (fst (le_sources e ! k)) = ev' (fst (le_sources e ! k))"
      using that assms(2)[of "fst (le_sources e ! k)"] nth_mem[of k "le_sources e"]
      by (cases "le_sources e ! k") (auto simp: entry_ok_def)
    then show "bit (tableRowIndex ev e) k = bit (tableRowIndex ev' e) k" by auto
  qed
  then have "entry_value ev e = entry_value ev' e" if "e \<in> set es" for e
    using that assms(1) by (simp add: lut_ok_def entry_value_def)
  then have "or_bits (length es) (\<lambda>d. entry_value ev (es ! d)) =
      (or_bits (length es) (\<lambda>d. entry_value ev' (es ! d)) :: int)"
    by (intro bit_eqI) (auto dest: nth_mem)
  then show ?thesis
    using Lut_Evaluate_eq[OF lut_ok_sources[OF assms(1)]] by simp
qed

lemma eval_same_ints:
  assumes ok: "op_ok rt op" "op_ok rt op'" "env_ok rt env" "narrow_safe rt op"
    and eq: "op' = op\<lparr>op_src := ss\<rparr>" "length ss = length (op_src op)"
    and ints: "\<And>i. i < length ss \<Longrightarrow> src_int rt env op' i = src_int rt env op i"
    and v: "eval_operation rt env op = Some v"
  shows "eval_operation rt env op' = Some v"
proof -
  have sign: "ShouldSignExtend op' i = ShouldSignExtend op i" for i
    by (simp add: eq(1) ShouldSignExtend_def)
  have len: "length (op_src op') = length (op_src op)" and dst: "op_dst op' = op_dst op"
    and opc: "op_opcode op' = op_opcode op" and srcs: "op_src op' = ss"
    by (simp_all add: eq)
  note s = op_ok_srcs[OF ok(1)] op_ok_srcs[OF ok(2)]
  note d = op_ok_dst(1)[OF ok(1)] op_ok_dst(1)[OF ok(2)]
  have vals: "operand_value env (ss ! i) = operand_value env (op_src op ! i)"
    if "op_signExtendSourceMask op = 0" "i < length ss" for i
    using ints[OF that(2)] that(1) by (simp add: src_int_def eq(1))
  note lits = map_opt_literals[OF s(1), of env] map_opt_literals[OF s(2), of env]
  consider (mov) "op_opcode op = Mov" "length (op_src op) = 1" | (clear) "op_opcode op = Clear" "op_src op = []"
    | (un) t where "op_opcode op = UnaryOp t" "length (op_src op) = 1"
    | (bin) t where "op_opcode op = BinaryOp t" "length (op_src op) = 2"
    | (gather) es where "op_opcode op = Gather es" | (sel) "op_opcode op = Select"
    | (lut) es where "op_opcode op = Lut es"
    using v lits by (cases "op_opcode op") (auto simp: eval_operation_in_def split: bind_splits)
  then show ?thesis
  proof cases
    case mov
    with v ints[of 0] eval_Mov[OF s(1) ok(3) mov d(1)] show ?thesis
      using eval_Mov[OF s(2) ok(3), unfolded opc len dst, OF mov d(1)] eq(2) by simp
  next
    case clear
    with eq(2) have "op' = op" by (simp add: eq(1))
    with v show ?thesis by simp
  next
    case un
    with v ints[of 0] eval_Unary[OF s(1) ok(3) un d(1)] show ?thesis
      using eval_Unary[OF s(2) ok(3), unfolded opc len dst, OF un d(1)] eq(2) by (cases t) simp_all
  next
    case bin
    have i: "src_int rt env op' 0 = src_int rt env op 0" "src_int rt env op' 1 = src_int rt env op 1"
      using ints[of 0] ints[of 1] eq(2) bin(2) by simp_all
    note pre = narrow_safe_pre[OF ok(1,3) bin ok(4) v]
    show ?thesis
      using eval_binop_spec[OF ok(1,3) bin pre] v
        eval_binop_spec[OF ok(2,3), unfolded opc len dst sign i, OF bin pre] by simp
  next
    case gather
    then have mask: "op_signExtendSourceMask op = 0" using ok(4) by (simp add: narrow_safe_def)
    have "eval_gather es (map (\<lambda>s. \<lparr>l_value = operand_value env s, l_width = SourceOperand_Width rt s\<rparr>) ss) =
        eval_gather es (map (\<lambda>s. \<lparr>l_value = operand_value env s, l_width = SourceOperand_Width rt s\<rparr>) (op_src op))"
      by (rule eval_gather_values) (auto intro!: nth_equalityI simp: eq(2) vals[OF mask])
    with gather v lits show ?thesis by (simp add: eval_operation_in_def opc dst srcs eq(2))
  next
    case sel
    then obtain n where n: "length (op_src op) = Suc (2 ^ n)"
      using eval_Select_choices[OF _ v] by blast
    let ?j = "Suc (nat (take_bit n (src_int rt env op 0)))"
    have "?j < length ss" by (simp add: n eq(2) nat_less_iff)
    with ints[of ?j] ints[of 0] v eval_Select[OF s(1) ok(3) sel d(1) n] show ?thesis
      using eval_Select[OF s(2) ok(3), unfolded opc len dst, OF sel d(1) n] eq(2) n by simp
  next
    case lut
    then have mask: "op_signExtendSourceMask op = 0" and es: "lut_ok (length (op_src op)) es"
      using ok(4) by (simp_all add: narrow_safe_def)
    have "Lut_Evaluate es (src_values env op') = Lut_Evaluate es (src_values env op)"
      using vals[OF mask] by (intro Lut_Evaluate_cong[OF es]) (simp add: srcs eq(2))
    with lut v lits show ?thesis by (simp add: eval_operation_in_def opc dst)
  qed
qed

subsection \<open>The passes\<close>

lemma src_int_literal:
  "op_src op ! i = SrcLiteral l \<Longrightarrow> src_int rt env op i = lit_int (ShouldSignExtend op i) l"
  by (cases l) (simp add: src_int_def operand_value_def)

lemma NarrowLiterals_op_correct:
  assumes "op_ok rt op"
  shows "\<exists>ss c. NarrowLiterals_op rt op = Some (op\<lparr>op_src := ss\<rparr>, c) \<and> length ss = length (op_src op) \<and>
    op_ok rt (op\<lparr>op_src := ss\<rparr>) \<and> (\<forall>i < length ss. src_int rt env (op\<lparr>op_src := ss\<rparr>) i = src_int rt env op i) \<and>
    NarrowLiterals_op rt (op\<lparr>op_src := ss\<rparr>) = Some (op\<lparr>op_src := ss\<rparr>, False)"
proof -
  let ?P = "\<lambda>i r. operand_ok rt (fst r) \<and>
    (\<forall>op' :: Operation. op_signExtendSourceMask op' = op_signExtendSourceMask op \<and> op_src op' ! i = fst r \<longrightarrow>
      src_int rt env op' i = src_int rt env op i \<and> NarrowSource op' i = Some (fst r, False))"
  have sign: "op_signExtendSourceMask op' = op_signExtendSourceMask op \<Longrightarrow>
      ShouldSignExtend op' i = ShouldSignExtend op i" for op' i
    by (simp add: ShouldSignExtend_def)
  have "\<exists>r. NarrowSource op i = Some r \<and> ?P i r" if "i \<in> set [0..<length (op_src op)]" for i
  proof (cases "op_src op ! i")
    case (SrcLiteral l)
    with srcs_ok_nth[OF op_ok_srcs[OF assms], of i] that have "lit_ok l" by simp
    from NarrowLiteral_correct[OF this, of "ShouldSignExtend op i"] obtain l' c where
      l': "NarrowLiteral (ShouldSignExtend op i) l = Some (l', c)" "lit_ok l'"
        "lit_int (ShouldSignExtend op i) l' = lit_int (ShouldSignExtend op i) l"
        "NarrowLiteral (ShouldSignExtend op i) l' = Some (l', False)" by blast
    have "src_int rt env op' i = src_int rt env op i \<and> NarrowSource op' i = Some (SrcLiteral l', False)"
      if h: "op_signExtendSourceMask op' = op_signExtendSourceMask op" "op_src op' ! i = SrcLiteral l'"
      for op' :: Operation
      using l' SrcLiteral h(2) sign[OF h(1), of i] by (simp add: src_int_literal NarrowSource_def)
    then have "?P i (SrcLiteral l', c)" using l'(2) unfolding fst_conv operand_ok.simps by blast
    moreover have "NarrowSource op i = Some (SrcLiteral l', c)"
      by (simp add: NarrowSource_def SrcLiteral l'(1))
    ultimately show ?thesis by blast
  next
    case (SrcRegister r)
    have "src_int rt env op' i = src_int rt env op i \<and> NarrowSource op' i = Some (SrcRegister r, False)"
      if h: "op_signExtendSourceMask op' = op_signExtendSourceMask op" "op_src op' ! i = SrcRegister r"
      for op' :: Operation
      using SrcRegister h(2) sign[OF h(1), of i] by (simp add: src_int_def NarrowSource_def)
    moreover have "operand_ok rt (SrcRegister r)"
      using SrcRegister srcs_ok_nth[OF op_ok_srcs[OF assms], of i] that by simp
    ultimately have "?P i (SrcRegister r, False)" unfolding fst_conv by blast
    moreover have "NarrowSource op i = Some (SrcRegister r, False)"
      by (simp add: NarrowSource_def SrcRegister)
    ultimately show ?thesis by blast
  qed (use srcs_ok_nth[OF op_ok_srcs[OF assms], of i] that in auto)
  from map_opt_exists[where f = "NarrowSource op" and P = ?P, OF this] obtain rs where
    rs: "map_opt (NarrowSource op) [0..<length (op_src op)] = Some rs"
    and all: "list_all2 ?P [0..<length (op_src op)] rs"
    by blast
  have len: "length rs = length (op_src op)"
    using list_all2_lengthD[OF all] by simp
  have each: "?P i (rs ! i)" if "i < length rs" for i
    using list_all2_nthD2[OF all that] that len by simp
  let ?op = "op\<lparr>op_src := map fst rs\<rparr>"
  have "map_opt (NarrowSource ?op) [0..<length rs] = Some (map (\<lambda>i. (map fst rs ! i, False)) [0..<length rs])"
    using each by (intro map_opt_total) auto
  then have again: "NarrowLiterals_op rt ?op = Some (?op, False)"
    by (simp add: NarrowLiterals_op_def comp_def list_ex_iff map_nth[of "map fst rs", unfolded length_map] del: nth_map)
  have "operand_ok rt (fst r)" if "r \<in> set rs" for r
    using each that by (metis in_set_conv_nth)
  then have "srcs_ok rt ?op"
    by (auto simp: srcs_ok_def)
  then have ok: "op_ok rt ?op"
    using assms by (simp add: op_ok_def)
  have "NarrowLiterals_op rt op = Some (?op, list_ex snd rs)"
    by (simp add: NarrowLiterals_op_def rs)
  then show ?thesis
    using len each ok again by (intro exI[of _ "map fst rs"] exI[of _ "list_ex snd rs"]) auto
qed

lemma AlgebraicIdentities_shape:
  assumes "op_ok rt op" "AlgebraicIdentities_op rt op = Some (op', c)"
  shows "srcs_ok rt op'"
proof -
  have two: "srcs_ok rt (newOp_operand oc op i)" if "length (op_src op) \<ge> 2" "i < 2" for oc i
    using that assms(1) by (intro srcs_ok_newOp) auto
  show ?thesis
  proof (cases "op_opcode op")
    case (BinaryOp t)
    with assms two show ?thesis
      by (auto simp: AlgebraicIdentities_op_def BinaryOpAlgebraicIdentities_def ZeroOneIdentities_def
          AllOnesIdentities_def AllOnesRewrite_def ShiftIdentities_def srcs_ok_newOp
          split: option.splits if_splits ParseTreeBinaryOpType.splits SourceOperand.splits)
  next
    case Select
    have single: "srcs_ok rt (newOp\<lparr>op_src := [op_src op ! i], op_signExtendSourceMask := m\<rparr>)"
      if "i < length (op_src op)" for newOp :: Operation and i m
      using srcs_ok_nth[OF op_ok_srcs[OF assms(1)] that] by (simp add: srcs_ok_def)
    from Select assms two single show ?thesis
      by (cases "op_src op ! 0")
        (auto simp: AlgebraicIdentities_op_def SelectAlgebraicIdentities_def Let_def
          split: bind_splits if_splits)
  qed (use assms in \<open>auto simp: AlgebraicIdentities_op_def\<close>)
qed

lemma length_1_dst: "length ds = Suc 0 \<Longrightarrow> [ds ! 0] = ds"
  by (cases ds) auto

lemma AlgebraicIdentities_dst:
  assumes "AlgebraicIdentities_op rt op = Some (op', c)"
  shows "op_dst op' = op_dst op"
proof (cases "op_opcode op")
  case (BinaryOp t)
  with assms show ?thesis
    by (auto simp: AlgebraicIdentities_op_def BinaryOpAlgebraicIdentities_def ZeroOneIdentities_def
        AllOnesIdentities_def AllOnesRewrite_def ShiftIdentities_def length_1_dst
        split: option.splits if_splits ParseTreeBinaryOpType.splits SourceOperand.splits)
next
  case Select
  with assms show ?thesis
    by (cases "op_src op ! 0")
      (auto simp: AlgebraicIdentities_op_def SelectAlgebraicIdentities_def Let_def new_operation_def
        length_1_dst split: bind_splits if_splits)
qed (use assms in \<open>auto simp: AlgebraicIdentities_op_def\<close>)

interpretation identities: op_pass AlgebraicIdentities_op identity_safe
proof
  fix rt op env op' c v
  assume "identity_safe rt op" "op_ok rt op" "env_ok rt env" "AlgebraicIdentities_op rt op = Some (op', c)"
    "eval_operation rt env op = Some v"
  then show "eval_operation rt env op' = Some v"
    using BinaryOpAlgebraicIdentities_value SelectAlgebraicIdentities_value
    by (auto simp: AlgebraicIdentities_op_def split: Opcode.splits)
qed (rule AlgebraicIdentities_dst AlgebraicIdentities_shape, assumption+)+

interpretation narrow: op_pass NarrowLiterals_op narrow_safe
proof
  fix rt op env op' c v
  assume *: "narrow_safe rt op" "op_ok rt op" "env_ok rt env" "NarrowLiterals_op rt op = Some (op', c)"
    "eval_operation rt env op = Some v"
  from NarrowLiterals_op_correct[OF *(2), of env] *(4) obtain ss where
    "op' = op\<lparr>op_src := ss\<rparr>" "length ss = length (op_src op)" "op_ok rt op'"
    "\<And>i. i < length ss \<Longrightarrow> src_int rt env op' i = src_int rt env op i"
    by auto
  from eval_same_ints[OF *(2) this(3) *(3,1) this(1,2,4) *(5)]
  show "eval_operation rt env op' = Some v" .
next
  fix rt op op' c
  assume "NarrowLiterals_op rt op = Some (op', c)"
  then show "op_dst op' = op_dst op"
    by (auto simp: NarrowLiterals_op_def split: bind_splits)
next
  fix rt op op' c
  assume *: "op_ok rt op" "NarrowLiterals_op rt op = Some (op', c)"
  from NarrowLiterals_op_correct[OF *(1), of "\<lambda>_. 0"] *(2) show "srcs_ok rt op'"
    by auto
qed

interpretation gather_move: op_pass GatherToMove_op "\<lambda>_ _. True"
proof
  fix rt op env op' c v
  assume *: "op_ok rt op" "env_ok rt env" "GatherToMove_op rt op = Some (op', c)"
    "eval_operation rt env op = Some v"
  show "eval_operation rt env op' = Some v"
  proof (cases "op' = op")
    case False
    with *(3) obtain ge where ge: "op_opcode op = Gather [ge]" "length (op_src op) = 1" "op' = op\<lparr>op_opcode := Mov\<rparr>"
      "ge_sourceOffset ge = 0" "ge_destOffset ge = 0" "ge_numBits ge = src_width rt op 0"
      "ge_numBits ge = dst_width rt op"
      by (auto simp: GatherToMove_op_def Let_def length_Suc_conv split: Opcode.splits if_splits bind_splits)
    have ok': "srcs_ok rt op'" "length (op_dst op') = 1"
      using *(1) ge(3) op_ok_dst(1) by (auto simp: op_ok_def srcs_ok_def)
    have lit: "lit_ok (src_lit rt env op 0)"
      using ge(2) by (intro src_lit_ok[OF op_ok_srcs[OF *(1)] *(2)]) simp
    have "take_bit (l_width (src_lit rt env op 0)) (lit_int se (src_lit rt env op 0)) = l_value (src_lit rt env op 0)" for se
      using Widen_eq[OF lit, of se 0] lit by (auto simp: Widen_unfold lit_ok_def split: if_splits)
    moreover have "take_bit (l_width (src_lit rt env op 0)) (l_value (src_lit rt env op 0)) = l_value (src_lit rt env op 0)"
      using lit by (simp add: lit_ok_def take_bit_int_eq_self)
    ultimately show ?thesis
      using *(4) ge map_opt_literals[OF op_ok_srcs[OF *(1)], of env] eval_Mov[OF ok'(1) *(2) _ _ ok'(2)]
        op_ok_dst(1)[OF *(1)]
      by (auto simp: eval_operation_in_def[of any_index rt env op] eval_gather_def src_int_def ShouldSignExtend_def length_Suc_conv)
  qed (simp add: *(4))
qed (auto simp: GatherToMove_op_def Let_def op_ok_def srcs_ok_def split: Opcode.splits if_splits bind_splits)

subsection \<open>Properties\<close>

definition demo_regs :: RegisterTable where
  "demo_regs = [\<lparr>rd_type = RT_Local, rd_width = 4\<rparr>, \<lparr>rd_type = RT_Local, rd_width = 16\<rparr>]"

definition demo_env :: "nat \<Rightarrow> int" where
  "demo_env r = [5, 0] ! r"

definition demo_op :: "ParseTreeBinaryOpType \<Rightarrow> 64 word \<Rightarrow> Literal \<Rightarrow> Operation" where
  "demo_op t signs l = \<lparr>op_opcode = BinaryOp t, op_signExtendSourceMask = signs, op_locations = {},
     op_src = [SrcRegister 0, SrcLiteral l], op_dst = [DstRegister 1]\<rparr>"

lemma demo_ok: "env_ok demo_regs demo_env" "lit_ok l \<Longrightarrow> op_ok demo_regs (demo_op t m l)"
  by (simp_all add: env_ok_def demo_regs_def demo_env_def op_ok_def srcs_ok_def demo_op_def
      All_less_Suc numeral_2_eq_2)

definition wide_xor :: Operation where
  "wide_xor = demo_op Xor 0 \<lparr>l_value = 255, l_width = 16\<rparr>"

definition minus_product :: Operation where
  "minus_product = demo_op LutMul 2 \<lparr>l_value = 255, l_width = 8\<rparr>"

text \<open>C19: \<^verbatim>\<open>AlgebraicIdentities\<close> keeps what every basic block computes: on every state of the
  registers from which a block of operations runs without an exception, the rewritten block runs
  and leaves the same state, provided the operations meet the width conditions of
  \<open>identity_safe\<close>.\<close>

theorem AlgebraicIdentities_preserves:
  assumes "AlgebraicIdentities rt blocks = Some (blocks', changed)" and "i < length blocks"
    and "list_all (identity_safe rt) (blocks ! i)" and "ops_ok rt (blocks ! i)" and "env_ok rt env"
    and "exec_ops rt (blocks ! i) env = Some env'"
  shows "length blocks' = length blocks \<and> exec_ops rt (blocks' ! i) env = Some env' \<and> ops_ok rt (blocks' ! i)"
  using assms unfolding AlgebraicIdentities_def by (rule identities.function_exec)

theorem AlgebraicIdentities_preserves_witness:
  "\<exists>blocks'. AlgebraicIdentities demo_regs [[demo_op And 0 \<lparr>l_value = 15, l_width = 4\<rparr>]] = Some (blocks', True) \<and>
     exec_ops demo_regs (blocks' ! 0) demo_env = Some (demo_env(1 := 5))"
proof -
  let ?op = "demo_op And 0 \<lparr>l_value = 15, l_width = 4\<rparr>"
  let ?new = "\<lparr>op_opcode = Mov, op_signExtendSourceMask = 0, op_locations = {}, op_src = [SrcRegister 0],
     op_dst = [DstRegister 1]\<rparr>"
  have "AlgebraicIdentities_op demo_regs ?op = Some (?new, True)"
    by (simp add: AlgebraicIdentities_op_def BinaryOpAlgebraicIdentities_def ZeroOneIdentities_def
        AllOnesIdentities_def AllOnesRewrite_def srcIsZero_def srcIsOne_def srcIsAllOnes_def ones_cover_def
        demo_op_def demo_regs_def reg_width_def newOp_operand_def PushOperand_def new_operation_def
        set_bit_eq_or ShouldSignExtend_def)
  then have pass: "AlgebraicIdentities demo_regs [[?op]] = Some ([[?new]], True)"
    by (simp add: AlgebraicIdentities_def rewrite_function_def rewrite_block_def)
  have "eval_operation demo_regs demo_env ?op = Some 5"
    by code_simp
  then have "exec_ops demo_regs [?op] demo_env = Some (demo_env(1 := 5))"
    by (simp add: exec_op_def demo_op_def)
  moreover have "identity_safe demo_regs ?op" by (simp add: identity_safe_def demo_op_def)
  ultimately show ?thesis
    using AlgebraicIdentities_preserves[OF pass, of 0 demo_env "demo_env(1 := 5)"] pass demo_ok
    by (auto simp: lit_ok_def)
qed

text \<open>C20: \<^verbatim>\<open>NarrowLiterals\<close> keeps what every basic block computes, for operations whose value
  does not depend on the widths of their literals (\<open>narrow_safe\<close>).\<close>

theorem NarrowLiterals_preserves:
  assumes "NarrowLiterals rt blocks = Some (blocks', changed)" and "i < length blocks"
    and "list_all (narrow_safe rt) (blocks ! i)" and "ops_ok rt (blocks ! i)" and "env_ok rt env"
    and "exec_ops rt (blocks ! i) env = Some env'"
  shows "length blocks' = length blocks \<and> exec_ops rt (blocks' ! i) env = Some env' \<and> ops_ok rt (blocks' ! i)"
  using assms unfolding NarrowLiterals_def by (rule narrow.function_exec)

theorem NarrowLiterals_preserves_witness:
  "\<exists>blocks'. NarrowLiterals demo_regs [[demo_op Add 2 \<lparr>l_value = 254, l_width = 8\<rparr>]] = Some (blocks', True) \<and>
     exec_ops demo_regs (blocks' ! 0) demo_env = Some (demo_env(1 := 3))"
proof -
  let ?op = "demo_op Add 2 \<lparr>l_value = 254, l_width = 8\<rparr>"
  have sign: "ShouldSignExtend ?op 1" by (simp add: ShouldSignExtend_def demo_op_def)
  have "NarrowLiteral True \<lparr>l_value = 254, l_width = 8\<rparr> = Some (\<lparr>l_value = 2, l_width = 2\<rparr>, True)"
    by code_simp
  with sign have "NarrowLiterals_op demo_regs ?op = Some (demo_op Add 2 \<lparr>l_value = 2, l_width = 2\<rparr>, True)"
    by (simp add: NarrowLiterals_op_def NarrowSource_def demo_op_def)
  then have pass: "NarrowLiterals demo_regs [[?op]] = Some ([[demo_op Add 2 \<lparr>l_value = 2, l_width = 2\<rparr>]], True)"
    by (simp add: NarrowLiterals_def rewrite_function_def rewrite_block_def)
  have "eval_operation demo_regs demo_env ?op = Some 3"
    by code_simp
  then have "exec_ops demo_regs [?op] demo_env = Some (demo_env(1 := 3))"
    by (simp add: exec_op_def demo_op_def)
  moreover have "narrow_safe demo_regs ?op" by (simp add: narrow_safe_def demo_op_def)
  ultimately show ?thesis
    using NarrowLiterals_preserves[OF pass, of 0 demo_env "demo_env(1 := 3)"] pass demo_ok
    by (auto simp: lit_ok_def)
qed

text \<open>C21: \<^verbatim>\<open>NarrowLiterals\<close> never throws on well-formed operations and reaches its fixed point in
  one run: a second run changes nothing and reports so, as the loop of \<^verbatim>\<open>Optimize\<close> needs to
  end.\<close>

theorem NarrowLiterals_idempotent:
  assumes "list_all (ops_ok rt) blocks"
  shows "\<exists>blocks' changed. NarrowLiterals rt blocks = Some (blocks', changed) \<and>
    NarrowLiterals rt blocks' = Some (blocks', False)"
proof -
  have op: "\<exists>op' c. NarrowLiterals_op rt op = Some (op', c) \<and> NarrowLiterals_op rt op' = Some (op', False)"
    if "op_ok rt op" for op
    using NarrowLiterals_op_correct[OF that] by blast
  have block: "\<exists>ops' c. rewrite_block NarrowLiterals_op rt ops = Some (ops', c) \<and>
      rewrite_block NarrowLiterals_op rt ops' = Some (ops', False)" if "ops_ok rt ops" for ops
    using that
  proof (induction ops)
    case (Cons o1 ops)
    with op[of o1] show ?case by (fastforce simp: rewrite_block_simps)
  qed (auto simp: rewrite_block_simps intro: exI[of _ False])
  show ?thesis
    using assms
  proof (induction blocks)
    case (Cons b blocks)
    then obtain bs c where "NarrowLiterals rt blocks = Some (bs, c)" "NarrowLiterals rt bs = Some (bs, False)"
      by auto
    moreover obtain b' d where "rewrite_block NarrowLiterals_op rt b = Some (b', d)"
      "rewrite_block NarrowLiterals_op rt b' = Some (b', False)"
      using block[of b] Cons.prems by auto
    ultimately show ?case
      by (intro exI[of _ "b' # bs"] exI[of _ "d \<or> c"])
        (auto simp: NarrowLiterals_def rewrite_function_def split: bind_splits)
  qed (auto simp: NarrowLiterals_def rewrite_function_def intro: exI[of _ False])
qed

theorem NarrowLiterals_idempotent_witness:
  "\<exists>blocks' changed. NarrowLiterals demo_regs [[demo_op Add 2 \<lparr>l_value = 254, l_width = 8\<rparr>]] = Some (blocks', changed) \<and>
    NarrowLiterals demo_regs blocks' = Some (blocks', False)"
  using demo_ok(2) by (intro NarrowLiterals_idempotent) (simp add: lit_ok_def)

text \<open>C22: run one after the other, as \<^verbatim>\<open>Optimize\<close> does, the two passes can change a value. The
  exclusive or of a 4-bit register with the 16-bit literal 255 becomes, with the literal narrowed
  to eight ones, the inversion of the register at 16 bits; and the product with a signed -1
  becomes, with the literal narrowed to the single bit 1, the factor itself.\<close>

theorem NarrowLiterals_then_identities_wrong:
  "env_ok demo_regs demo_env \<and>
    (op_ok demo_regs wide_xor \<and> narrow_safe demo_regs wide_xor \<and> identity_safe demo_regs wide_xor \<and>
     eval_operation demo_regs demo_env wide_xor = Some 250 \<and>
     (seq_rewrite NarrowLiterals_op AlgebraicIdentities_op demo_regs wide_xor \<bind>
        (\<lambda>(op, _). eval_operation demo_regs demo_env op)) = Some 65530) \<and>
    (op_ok demo_regs minus_product \<and> narrow_safe demo_regs minus_product \<and> identity_safe demo_regs minus_product \<and>
     eval_operation demo_regs demo_env minus_product = Some 65531 \<and>
     (seq_rewrite NarrowLiterals_op AlgebraicIdentities_op demo_regs minus_product \<bind>
        (\<lambda>(op, _). eval_operation demo_regs demo_env op)) = Some 5)"
proof -
  note simps = AlgebraicIdentities_op_def BinaryOpAlgebraicIdentities_def ZeroOneIdentities_def
        AllOnesIdentities_def AllOnesRewrite_def srcIsZero_def srcIsOne_def srcIsAllOnes_def ones_cover_def
        demo_op_def demo_regs_def reg_width_def newOp_operand_def PushOperand_def new_operation_def
        set_bit_eq_or ShouldSignExtend_def NarrowLiterals_op_def NarrowSource_def
  let ?x = "demo_op Xor 0 \<lparr>l_value = 255, l_width = 16\<rparr>"
  let ?x2 = "\<lparr>op_opcode = UnaryOp Invert, op_signExtendSourceMask = 0, op_locations = {},
     op_src = [SrcRegister 0], op_dst = [DstRegister 1]\<rparr>"
  let ?m = "demo_op LutMul 2 \<lparr>l_value = 255, l_width = 8\<rparr>"
  let ?m2 = "\<lparr>op_opcode = Mov, op_signExtendSourceMask = 0, op_locations = {},
     op_src = [SrcRegister 0], op_dst = [DstRegister 1]\<rparr>"
  have "NarrowLiteral False \<lparr>l_value = 255, l_width = 16\<rparr> = Some (\<lparr>l_value = 255, l_width = 8\<rparr>, True)"
    "NarrowLiteral True \<lparr>l_value = 255, l_width = 8\<rparr> = Some (\<lparr>l_value = 1, l_width = 1\<rparr>, True)"
    by code_simp+
  then have "NarrowLiterals_op demo_regs ?x = Some (demo_op Xor 0 \<lparr>l_value = 255, l_width = 8\<rparr>, True)"
    "NarrowLiterals_op demo_regs ?m = Some (demo_op LutMul 2 \<lparr>l_value = 1, l_width = 1\<rparr>, True)"
    by (simp_all add: simps)
  moreover have "AlgebraicIdentities_op demo_regs (demo_op Xor 0 \<lparr>l_value = 255, l_width = 8\<rparr>) = Some (?x2, True)"
    "AlgebraicIdentities_op demo_regs (demo_op LutMul 2 \<lparr>l_value = 1, l_width = 1\<rparr>) = Some (?m2, True)"
    by (simp_all add: simps)
  moreover have "eval_operation demo_regs demo_env ?x = Some 250"
    "eval_operation demo_regs demo_env ?x2 = Some 65530"
    "eval_operation demo_regs demo_env ?m = Some 65531"
    "eval_operation demo_regs demo_env ?m2 = Some 5"
    by code_simp+
  moreover have "narrow_safe demo_regs ?x" "identity_safe demo_regs ?x"
    "narrow_safe demo_regs ?m" "identity_safe demo_regs ?m"
    by (simp_all add: narrow_safe_def identity_safe_def simps)
  moreover have "op_ok demo_regs ?x" "op_ok demo_regs ?m"
    by (simp_all add: demo_ok lit_ok_def)
  ultimately show ?thesis
    using demo_ok(1) by (simp add: seq_rewrite_def wide_xor_def minus_product_def)
qed

end
