(* ===== verification/Fresh_Registers.thy ===== *)
theory Fresh_Registers
  imports Algebraic_Identities "HOL-Library.Sublist"
begin

text \<open>
  Passes that replace one operation by several allocate registers for the intermediate values.
  A register table only grows, so the code a pass emits is judged under any table that extends
  the one it returns: the emitted operations run, leave the old registers alone and put a given
  value into the result. \<^verbatim>\<open>AllocateRegister\<close> is that of \<^verbatim>\<open>ir.cpp\<close> without the names of
  registers; \<^verbatim>\<open>WidenSourceOperand\<close>, \<^verbatim>\<open>Mux21\<close>, \<^verbatim>\<open>BinaryOp\<close> and \<^verbatim>\<open>Concat\<close> are those of
  \<^verbatim>\<open>optimize.cpp\<close>.
\<close>

subsection \<open>Allocation\<close>

definition AllocateRegister :: "RegisterTable \<Rightarrow> nat \<Rightarrow> RegisterType \<Rightarrow> RegisterTable \<times> nat" where
  "AllocateRegister rt bitWidth type = (rt @ [\<lparr>rd_type = type, rd_width = bitWidth\<rparr>], length rt)"

abbreviation Local :: "nat \<Rightarrow> RegisterDescription" where
  "Local w \<equiv> \<lparr>rd_type = RT_Local, rd_width = w\<rparr>"

lemma AllocateRegister_Local: "AllocateRegister rt w RT_Local = (rt @ [Local w], length rt)"
  by (simp add: AllocateRegister_def)

text \<open>\<open>PushOperand\<close> for each operand in turn.\<close>

definition PushOperands :: "(SourceOperand \<times> bool) list \<Rightarrow> Operation \<Rightarrow> Operation" where
  "PushOperands operands op = fold (\<lambda>(s, signExtend) op. PushOperand op s signExtend) operands op"

definition operation ::
  "Opcode \<Rightarrow> FileAndLineNumber set \<Rightarrow> (SourceOperand \<times> bool) list \<Rightarrow> DestinationOperand \<Rightarrow> Operation" where
  "operation opcode locations operands dst = PushOperands operands (new_operation opcode locations [dst])"

definition Mux21 ::
  "RegisterTable \<Rightarrow> nat \<Rightarrow> SourceOperand \<Rightarrow> SourceOperand \<Rightarrow> bool \<Rightarrow> SourceOperand \<Rightarrow> bool \<Rightarrow>
   RegisterTable \<times> Operation \<times> nat" where
  "Mux21 rt dstWidth selectIndex src0 signExtend0 src1 signExtend1 =
     (let (rt, dstReg) = AllocateRegister rt dstWidth RT_Local
      in (rt, operation Select {} [(selectIndex, False), (src0, signExtend0), (src1, signExtend1)] (DstRegister dstReg),
          dstReg))"

definition BinaryOp_new ::
  "RegisterTable \<Rightarrow> ParseTreeBinaryOpType \<Rightarrow> nat \<Rightarrow> SourceOperand \<Rightarrow> bool \<Rightarrow> SourceOperand \<Rightarrow> bool \<Rightarrow>
   RegisterTable \<times> Operation \<times> nat" where
  "BinaryOp_new rt opType dstWidth src0 signExtend0 src1 signExtend1 =
     (let (rt, dstReg) = AllocateRegister rt dstWidth RT_Local
      in (rt, operation (BinaryOp opType) {} [(src0, signExtend0), (src1, signExtend1)] (DstRegister dstReg), dstReg))"

text \<open>The loop of \<^verbatim>\<open>Concat\<close>: every operand follows the ones before it.\<close>

fun ConcatEntries :: "RegisterTable \<Rightarrow> nat \<Rightarrow> SourceOperand list \<Rightarrow> GatherEntry list \<times> nat" where
  "ConcatEntries rt dstWidth [] = ([], dstWidth)"
| "ConcatEntries rt dstWidth (srcOp # srcOperands) =
     (let srcWidth = SourceOperand_Width rt srcOp;
          (entries, total) = ConcatEntries rt (dstWidth + srcWidth) srcOperands
      in (\<lparr>ge_sourceOffset = 0, ge_destOffset = dstWidth, ge_numBits = srcWidth\<rparr> # entries, total))"

definition Concat :: "RegisterTable \<Rightarrow> SourceOperand list \<Rightarrow> RegisterTable \<times> Operation \<times> nat" where
  "Concat rt srcOperands =
     (let (entries, dstWidth) = ConcatEntries rt 0 srcOperands;
          (rt, dstReg) = AllocateRegister rt dstWidth RT_Local
      in (rt, (new_operation (Gather entries) {} [DstRegister dstReg])\<lparr>op_src := srcOperands\<rparr>, dstReg))"

subsection \<open>Operands of emitted operations\<close>

lemma PushOperands_simps [simp]:
  "op_opcode (PushOperands xs op) = op_opcode op" "op_dst (PushOperands xs op) = op_dst op"
  "op_locations (PushOperands xs op) = op_locations op"
  "op_src (PushOperands xs op) = op_src op @ map fst xs"
  unfolding PushOperands_def
  by (induction xs arbitrary: op) (auto simp: PushOperand_def split: if_splits)

lemma bit_PushOperands:
  "bit (op_signExtendSourceMask (PushOperands xs op)) i \<longleftrightarrow>
     bit (op_signExtendSourceMask op) i \<or>
     i < 64 \<and> length (op_src op) \<le> i \<and> i < length (op_src op) + length xs \<and> snd (xs ! (i - length (op_src op)))"
  unfolding PushOperands_def
proof (induction xs arbitrary: op)
  case (Cons x xs)
  obtain s se where x: "x = (s, se)" by (cases x)
  have push: "bit (op_signExtendSourceMask (PushOperand op s se)) i \<longleftrightarrow>
      bit (op_signExtendSourceMask op) i \<or> i < 64 \<and> i = length (op_src op) \<and> se"
    by (auto simp: PushOperand_def bit_or_iff bit_push_bit_iff bit_1_iff bit_exp_iff)
  have len: "length (op_src (PushOperand op s se)) = Suc (length (op_src op))"
    by (simp add: PushOperand_def)
  show ?case
    using Cons.IH[of "PushOperand op s se"] by (auto simp: x push len nth_Cons')
qed auto

lemma operation_simps [simp]:
  "op_opcode (operation oc ls xs d) = oc" "op_dst (operation oc ls xs d) = [d]"
  "op_src (operation oc ls xs d) = map fst xs" "op_locations (operation oc ls xs d) = ls"
  by (simp_all add: operation_def new_operation_def)

lemma ShouldSignExtend_ge: "64 \<le> i \<Longrightarrow> \<not> ShouldSignExtend op i"
proof -
  assume "64 \<le> i"
  then have "push_bit i (1 :: 64 word) = 0"
    by (auto intro!: bit_eqI simp: bit_push_bit_iff dest: bit_imp_le_length simp del: push_bit_of_1)
  then show ?thesis by (simp add: ShouldSignExtend_def del: push_bit_of_1)
qed

lemma ShouldSignExtend_operation:
  "ShouldSignExtend (operation oc ls xs d) i \<longleftrightarrow> i < 64 \<and> i < length xs \<and> snd (xs ! i)"
proof (cases "i < 64")
  case True
  then show ?thesis
    by (simp add: ShouldSignExtend_bit operation_def bit_PushOperands new_operation_def)
qed (simp add: ShouldSignExtend_ge)

text \<open>The number an operand denotes.\<close>

definition operand_int :: "RegisterTable \<Rightarrow> (nat \<Rightarrow> int) \<Rightarrow> SourceOperand \<Rightarrow> bool \<Rightarrow> int" where
  "operand_int rt env s signExtend =
     lit_int signExtend \<lparr>l_value = operand_value env s, l_width = SourceOperand_Width rt s\<rparr>"

lemma src_int_operand: "src_int rt env op i = operand_int rt env (op_src op ! i) (ShouldSignExtend op i)"
  by (simp add: src_int_def operand_int_def)

lemma src_int_operation:
  "i < length xs \<Longrightarrow> i < 64 \<Longrightarrow> src_int rt env (operation oc ls xs d) i = operand_int rt env (fst (xs ! i)) (snd (xs ! i))"
  by (simp add: src_int_operand ShouldSignExtend_operation)

lemma operand_int_unsigned [simp]: "operand_int rt env s False = operand_value env s"
  by (simp add: operand_int_def)

lemma operand_value_simps [simp]:
  "operand_value env (SrcLiteral l) = l_value l" "operand_value env (SrcRegister r) = env r"
  by (simp_all add: operand_value_def)

lemma SourceOperand_size_simps [simp]:
  "operand_value env (SourceOperand_size n) = int n" "SourceOperand_Width rt (SourceOperand_size n) = 64"
  "operand_ok rt (SourceOperand_size n) \<longleftrightarrow> n < 2 ^ 64"
proof -
  have "operand_ok rt (SourceOperand_size n) \<longleftrightarrow> int n < int (2 ^ 64)"
    unfolding of_nat_power by (simp add: SourceOperand_size_def lit_ok_def)
  then show "operand_ok rt (SourceOperand_size n) \<longleftrightarrow> n < 2 ^ 64"
    by (simp only: of_nat_less_iff)
qed (simp_all add: SourceOperand_size_def operand_value_def)

subsection \<open>Extensions of a table\<close>

lemma prefix_length_less: "prefix rt rtf \<Longrightarrow> r < length rt \<Longrightarrow> r < length rtf"
  using prefix_length_le order.strict_trans2 by blast

lemma reg_width_prefix: "prefix rt rtf \<Longrightarrow> r < length rt \<Longrightarrow> reg_width rtf r = reg_width rt r"
  using prefix_length_less[of rt rtf r] by (auto simp: reg_width_def prefix_def nth_append)

lemma operand_ok_prefix: "operand_ok rt s \<Longrightarrow> prefix rt rtf \<Longrightarrow> operand_ok rtf s"
  using prefix_length_less[of rt rtf] by (cases s) auto

lemma SourceOperand_Width_prefix:
  "operand_ok rt s \<Longrightarrow> prefix rt rtf \<Longrightarrow> SourceOperand_Width rtf s = SourceOperand_Width rt s"
  by (cases s) (auto simp: reg_width_prefix)

lemma new_register:
  assumes "prefix (rt @ [Local w]) rtf"
  shows "length rt < length rtf" "reg_width rtf (length rt) = w" "prefix rt rtf"
  using reg_width_prefix[OF assms, of "length rt"] prefix_length_less[OF assms, of "length rt"]
    prefix_order.trans[OF _ assms, of rt]
  by (simp_all add: reg_width_def)

text \<open>Two states that agree on the first \<open>n\<close> registers.\<close>

definition agree :: "nat \<Rightarrow> (nat \<Rightarrow> int) \<Rightarrow> (nat \<Rightarrow> int) \<Rightarrow> bool" where
  "agree n env env' \<longleftrightarrow> (\<forall>r < n. env r = env' r)"

lemma agree_refl [simp]: "agree n env env"
  by (simp add: agree_def)

lemma agree_trans: "agree n env env1 \<Longrightarrow> agree m env1 env2 \<Longrightarrow> n \<le> m \<Longrightarrow> agree n env env2"
  by (simp add: agree_def)

lemma agree_upd [simp]: "n \<le> r \<Longrightarrow> agree n env (env(r := v))"
  by (simp add: agree_def)

lemma operand_value_agree: "operand_ok rt s \<Longrightarrow> agree (length rt) env env' \<Longrightarrow> operand_value env' s = operand_value env s"
  by (cases s) (auto simp: agree_def)

lemma operand_int_agree:
  assumes "operand_ok rt s" "prefix rt rtf" "agree (length rt) env env'"
  shows "operand_int rtf env' s e = operand_int rt env s e"
  by (simp add: operand_int_def SourceOperand_Width_prefix[OF assms(1,2)] operand_value_agree[OF assms(1,3)])

text \<open>An operation whose operands are registers of the old table computes the same value in the
  new one.\<close>

lemma ShouldSignExtend_locations [simp]: "ShouldSignExtend (op\<lparr>op_locations := ls\<rparr>) i = ShouldSignExtend op i"
  by (simp add: ShouldSignExtend_def)

lemma eval_operation_locations [simp]:
  "eval_operation rt env (op\<lparr>op_locations := ls\<rparr>) = eval_operation rt env op"
proof -
  have "op_dst (op\<lparr>op_locations := ls\<rparr>) = op_dst op" "op_src (op\<lparr>op_locations := ls\<rparr>) = op_src op"
    "op_opcode (op\<lparr>op_locations := ls\<rparr>) = op_opcode op" by simp_all
  then show ?thesis
    by (simp only: eval_operation_in_def eval_select_def ShouldSignExtend_locations)
qed

lemma eval_operation_agree:
  assumes "op_ok rt op" "prefix rt rtf" "agree (length rt) env env'"
    and "\<And>es. op_opcode op = Lut es \<Longrightarrow> lut_ok (length (op_src op)) es"
  shows "eval_operation rtf env' op = eval_operation rt env op"
proof -
  obtain r where r: "op_dst op = [DstRegister r]" "r < length rt"
    using assms(1) by (rule op_okE)
  have w: "DestinationOperand_Width rtf (op_dst op ! 0) = DestinationOperand_Width rt (op_dst op ! 0)"
    using r assms(2) by (simp add: reg_width_prefix)
  have ok: "operand_ok rt s" if "s \<in> set (op_src op)" for s
    using that op_ok_srcs[OF assms(1)] by (simp add: srcs_ok_def)
  have ok': "srcs_ok rtf op"
    using ok operand_ok_prefix[OF _ assms(2)] by (auto simp: srcs_ok_def)
  have lits: "map_opt (operand_literal rtf env') (op_src op) = map_opt (operand_literal rt env) (op_src op)"
    using ok by (auto simp: map_opt_literals[OF ok'] map_opt_literals[OF op_ok_srcs[OF assms(1)]]
        SourceOperand_Width_prefix[OF _ assms(2)] operand_value_agree[OF _ assms(3)])
  show ?thesis
  proof (cases "\<exists>es. op_opcode op = Lut es")
    case True
    then obtain es where es: "op_opcode op = Lut es" by blast
    have "Lut_Evaluate es (src_values env' op) = Lut_Evaluate es (src_values env op)"
      using ok operand_value_agree[OF _ assms(3)]
      by (intro Lut_Evaluate_cong[OF assms(4)[OF es]]) simp
    then show ?thesis
      by (simp add: eval_operation_in_def lits w es)
  next
    case False
    then show ?thesis
      by (auto simp: eval_operation_in_def lits w Let_def split: Opcode.split intro!: Option.bind_cong)
  qed
qed
subsection \<open>Running emitted operations\<close>

lemma op_ok_operation:
  "op_ok rt (operation oc ls xs (DstRegister r)) \<longleftrightarrow> (\<forall>(s, e) \<in> set xs. operand_ok rt s) \<and> r < length rt"
  by (auto simp: op_ok_def srcs_ok_def)

lemma eval_emitted_binary:
  assumes "env_ok rt env" "operand_ok rt s0" "operand_ok rt s1" "r < length rt"
    and "binop_pre t e0 e1 (reg_width rt r) (operand_int rt env s0 e0) (operand_int rt env s1 e1)"
  shows "eval_operation rt env (operation (BinaryOp t) ls [(s0, e0), (s1, e1)] (DstRegister r)) =
    Some (take_bit (reg_width rt r) (binop_spec t (operand_int rt env s0 e0) (operand_int rt env s1 e1)))"
  using eval_binop_spec[of rt "operation (BinaryOp t) ls [(s0, e0), (s1, e1)] (DstRegister r)" env t] assms
  by (simp add: op_ok_operation src_int_operation ShouldSignExtend_operation src_int_operation[of 1, simplified])

lemma eval_emitted_mov:
  assumes "env_ok rt env" "operand_ok rt s" "r < length rt"
  shows "eval_operation rt env (operation Mov ls [(s, e)] (DstRegister r)) =
    Some (take_bit (reg_width rt r) (operand_int rt env s e))"
  using eval_Mov[of rt "operation Mov ls [(s, e)] (DstRegister r)" env] assms
  by (simp add: srcs_ok_def src_int_operation)

lemma eval_emitted_invert:
  assumes "env_ok rt env" "operand_ok rt s" "r < length rt"
  shows "eval_operation rt env (operation (UnaryOp Invert) ls [(s, e)] (DstRegister r)) =
    Some (take_bit (reg_width rt r) (NOT (operand_int rt env s e)))"
  using eval_Invert[of rt "operation (UnaryOp Invert) ls [(s, e)] (DstRegister r)" env] assms
  by (simp add: srcs_ok_def src_int_operation)

lemma eval_emitted_select:
  assumes "env_ok rt env" "\<forall>(s, e) \<in> set xs. operand_ok rt s" "r < length rt" "length xs = Suc (2 ^ n)"
    and "i = nat (take_bit n (operand_int rt env (fst (xs ! 0)) (snd (xs ! 0))))"
  shows "eval_operation rt env (operation Select ls xs (DstRegister r)) =
    Some (take_bit (reg_width rt r)
      (operand_int rt env (fst (xs ! Suc i)) (Suc i < 64 \<and> snd (xs ! Suc i))))"
proof -
  let ?op = "operation Select ls xs (DstRegister r)"
  have ok: "srcs_ok rt ?op" using assms(2) by (auto simp: srcs_ok_def)
  have lt: "i < 2 ^ n" by (simp add: assms(5) nat_less_iff)
  then show ?thesis
    using eval_Select[OF ok assms(1), of n] assms(4)
    by (simp add: src_int_operand ShouldSignExtend_operation flip: assms(5))
qed

lemma eval_emitted_mux:
  assumes "env_ok rt env" "operand_ok rt i" "operand_ok rt s0" "operand_ok rt s1" "r < length rt"
    and "operand_value env i = of_bool b"
  shows "eval_operation rt env (operation Select ls [(i, False), (s0, e0), (s1, e1)] (DstRegister r)) =
    Some (take_bit (reg_width rt r) (if b then operand_int rt env s1 e1 else operand_int rt env s0 e0))"
proof -
  have "nat (take_bit 1 (operand_value env i)) = of_bool b"
    by (simp add: assms(6))
  then show ?thesis
    using eval_emitted_select[of rt env "[(i, False), (s0, e0), (s1, e1)]" r 1 "of_bool b" ls] assms(1-5)
    by (cases b) simp_all
qed

text \<open>An emitted operation writes a register the old table does not have.\<close>

lemma exec_emitted:
  assumes "env_ok rtf env" "op_ok rtf op" "op_dst op = [DstRegister r]"
    and "eval_operation rtf env op = Some v"
  shows "exec_op rtf op env = Some (env(r := v)) \<and> env_ok rtf (env(r := v))"
proof -
  have *: "exec_op rtf op env = Some (env(r := v))"
    using assms(3,4) by (simp add: exec_op_eq)
  with exec_op_env_ok[OF assms(1,2)] show ?thesis by simp
qed

text \<open>Operations \<open>ops\<close> over the extended table \<open>rt'\<close> implement \<open>op\<close>: in every larger table and
  state in which \<open>op\<close> has a value they run and leave the state \<open>op\<close> leaves, as far as the
  registers of the original table are concerned. The new registers have positive widths.\<close>

definition implements ::
  "RegisterTable \<Rightarrow> Operation \<Rightarrow> RegisterTable \<Rightarrow> Operation list \<Rightarrow> bool" where
  "implements rt op rt' ops \<longleftrightarrow>
     prefix rt rt' \<and> (\<forall>d \<in> set (drop (length rt) rt'). 0 < rd_width d) \<and>
     (\<forall>rtf. prefix rt' rtf \<longrightarrow> ops_ok rtf ops \<and>
        (\<forall>env env1. env_ok rtf env \<longrightarrow> exec_op rt op env = Some env1 \<longrightarrow>
           (\<exists>env'. exec_ops rtf ops env = Some env' \<and> agree (length rt) env1 env')))"

lemma implementsI:
  assumes "prefix rt rt'" "\<And>d. d \<in> set (drop (length rt) rt') \<Longrightarrow> 0 < rd_width d"
    and "\<And>rtf. prefix rt' rtf \<Longrightarrow> ops_ok rtf ops"
    and "\<And>rtf env env1. prefix rt' rtf \<Longrightarrow> env_ok rtf env \<Longrightarrow> exec_op rt op env = Some env1 \<Longrightarrow>
      \<exists>env'. exec_ops rtf ops env = Some env' \<and> agree (length rt) env1 env'"
  shows "implements rt op rt' ops"
  using assms unfolding implements_def by blast

lemma env_ok_prefix: "env_ok rtf env \<Longrightarrow> prefix rt rtf \<Longrightarrow> env_ok rt env"
  using prefix_length_less[of rt rtf] by (fastforce simp: env_ok_def prefix_def nth_append)

lemma op_ok_prefix: "op_ok rt op \<Longrightarrow> prefix rt rtf \<Longrightarrow> op_ok rtf op"
  using operand_ok_prefix[of rt _ rtf] prefix_length_less[of rt rtf]
  by (auto simp: op_ok_def srcs_ok_def split: list.splits DestinationOperand.splits)

lemma implements_self:
  assumes "op_ok rt op" "\<And>es. op_opcode op = Lut es \<Longrightarrow> lut_ok (length (op_src op)) es"
  shows "implements rt op rt [op]"
proof (rule implementsI)
  fix rtf assume "prefix rt rtf"
  then show "ops_ok rtf [op]" using op_ok_prefix[OF assms(1)] by simp
next
  fix rtf env env1
  assume "prefix rt rtf" "exec_op rt op env = Some env1"
  moreover have "eval_operation rtf env op = eval_operation rt env op"
    using assms \<open>prefix rt rtf\<close> by (intro eval_operation_agree) auto
  ultimately show "\<exists>env'. exec_ops rtf [op] env = Some env' \<and> agree (length rt) env1 env'"
    by (auto simp: exec_op_def split: bind_splits)
qed simp_all

text \<open>Under the table the pass returns.\<close>

lemma implements_run:
  assumes "implements rt op rt' ops" "env_ok rt' env" "exec_op rt op env = Some env1"
  shows "\<exists>env'. exec_ops rt' ops env = Some env' \<and> (\<forall>r < length rt. env' r = env1 r)"
proof -
  obtain env' where "exec_ops rt' ops env = Some env'" "agree (length rt) env1 env'"
    using assms unfolding implements_def by blast
  then show ?thesis by (auto simp: agree_def)
qed

end
