(* ===== verification/Decompose_Select.thy ===== *)
theory Decompose_Select
  imports Fresh_Registers
begin

text \<open>
  Decomposition of ordered comparisons and of wide multiplexers
  (\<^verbatim>\<open>DecomposeCompareCarryChain\<close> and \<^verbatim>\<open>DecomposeSelect\<close> of \<^verbatim>\<open>optimize.cpp\<close>). A comparison
  becomes a subtraction whose sign bit is moved to the destination; a multiplexer of more than
  \<^verbatim>\<open>threshold\<close> choices becomes two levels of multiplexers, the first indexed by the low bits of
  the index. Both are shown to implement the operation they replace.
\<close>

subsection \<open>Comparisons\<close>

definition GetPromotedWidth :: "nat \<Rightarrow> bool \<Rightarrow> bool \<Rightarrow> nat" where
  "GetPromotedWidth sizeIn operandSigned resultSigned =
     (if resultSigned \<and> \<not> operandSigned then sizeIn + 1 else sizeIn)"

text \<open>\<^verbatim>\<open>DestinationOperand::GetAccessedRegister\<close> asserts that the operand is a register.\<close>

definition IsRegisterDestination :: "DestinationOperand \<Rightarrow> bool" where
  "IsRegisterDestination d \<longleftrightarrow> (case d of DstRegister _ \<Rightarrow> True | DstFifo _ \<Rightarrow> False)"

text \<open>\<^verbatim>\<open>lhsOpIndex\<close>, \<^verbatim>\<open>rhsOpIndex\<close> and \<^verbatim>\<open>invertSignBit\<close>.\<close>

definition CompareOperands :: "ParseTreeBinaryOpType \<Rightarrow> (nat \<times> nat \<times> bool) option" where
  "CompareOperands type =
     (case type of
        GT \<Rightarrow> Some (1, 0, False)
      | GE \<Rightarrow> Some (0, 1, True)
      | LT \<Rightarrow> Some (0, 1, False)
      | LE \<Rightarrow> Some (1, 0, True)
      | _ \<Rightarrow> None)"

definition DecomposeCompareCarryChain ::
  "RegisterTable \<Rightarrow> Operation \<Rightarrow> (RegisterTable \<times> Operation list) option" where
  "DecomposeCompareCarryChain rt op = (case op_opcode op of
     BinaryOp type \<Rightarrow> do {
       _ \<leftarrow> assert_that (length (op_src op) = 2);
       _ \<leftarrow> assert_that (length (op_dst op) = 1);
       _ \<leftarrow> assert_that (IsRegisterDestination (op_dst op ! 0));
       (lhsOpIndex, rhsOpIndex, invertSignBit) \<leftarrow> CompareOperands type;
       let lhs = op_src op ! lhsOpIndex;
       let rhs = op_src op ! rhsOpIndex;
       let lhsSigned = ShouldSignExtend op lhsOpIndex;
       let rhsSigned = ShouldSignExtend op rhsOpIndex;
       let eitherSigned = lhsSigned \<or> rhsSigned;
       let lhsWidth = GetPromotedWidth (SourceOperand_Width rt lhs) lhsSigned eitherSigned;
       let rhsWidth = GetPromotedWidth (SourceOperand_Width rt rhs) rhsSigned eitherSigned;
       let subResultWidth = max lhsWidth rhsWidth + 1;
       let (rt, subResultRegister) = AllocateRegister rt subResultWidth RT_Local;
       let subOp = operation (BinaryOp Sub) (op_locations op) [(lhs, lhsSigned), (rhs, rhsSigned)]
             (DstRegister subResultRegister);
       let (rt, shiftResultRegister) = AllocateRegister rt 1 RT_Local;
       let shiftOp = operation (BinaryOp Shr) (op_locations op)
             [(SrcRegister subResultRegister, False), (SourceOperand_size (subResultWidth - 1), False)]
             (DstRegister shiftResultRegister);
       let finalOp = operation (if invertSignBit then UnaryOp Invert else Mov) (op_locations op)
             [(SrcRegister shiftResultRegister, False)] (op_dst op ! 0);
       Some (rt, [subOp, shiftOp, finalOp]) }
   | _ \<Rightarrow> None)"

subsection \<open>Multiplexers\<close>

definition OperationUsesOnlyLocalSrcReg :: "RegisterTable \<Rightarrow> Operation \<Rightarrow> bool" where
  "OperationUsesOnlyLocalSrcReg rt op \<longleftrightarrow>
     list_all (\<lambda>s. case s of SrcRegister r \<Rightarrow> IsLocalRegisterType (rd_type (rt ! r)) | _ \<Rightarrow> True) (op_src op)"

definition OperationUsesOnlyLocalDstReg :: "RegisterTable \<Rightarrow> Operation \<Rightarrow> bool" where
  "OperationUsesOnlyLocalDstReg rt op \<longleftrightarrow>
     list_all (\<lambda>d. case d of DstRegister r \<Rightarrow> IsLocalRegisterType (rd_type (rt ! r)) | _ \<Rightarrow> True) (op_dst op)"

definition OperationUsesOnlyLocalReg :: "RegisterTable \<Rightarrow> Operation \<Rightarrow> bool" where
  "OperationUsesOnlyLocalReg rt op \<longleftrightarrow>
     OperationUsesOnlyLocalSrcReg rt op \<and> OperationUsesOnlyLocalDstReg rt op"

text \<open>The loop that emits one multiplexer of \<^verbatim>\<open>threshold\<close> choices per intermediate result.\<close>

definition IntermediateOperands :: "Operation \<Rightarrow> nat \<Rightarrow> nat \<Rightarrow> nat \<Rightarrow> (SourceOperand \<times> bool) list" where
  "IntermediateOperands originalOp threshold lowerBitsReg i =
     (SrcRegister lowerBitsReg, False) #
       map (\<lambda>j. (op_src originalOp ! (i * threshold + 1 + j), ShouldSignExtend originalOp (i * threshold + 1 + j)))
         [0..<threshold]"

fun IntermediateSelects ::
  "Operation \<Rightarrow> nat \<Rightarrow> nat \<Rightarrow> nat \<Rightarrow> nat list \<Rightarrow> RegisterTable \<Rightarrow> RegisterTable \<times> Operation list \<times> nat list"
where
  "IntermediateSelects originalOp threshold lowerBitsReg intermediateWidth [] rt = (rt, [], [])"
| "IntermediateSelects originalOp threshold lowerBitsReg intermediateWidth (i # is) rt =
     (let (rt, intermediate) = AllocateRegister rt intermediateWidth RT_Local;
          op = operation Select (op_locations originalOp)
            (IntermediateOperands originalOp threshold lowerBitsReg i) (DstRegister intermediate);
          (rt, ops, intermediateResults) =
            IntermediateSelects originalOp threshold lowerBitsReg intermediateWidth is rt
      in (rt, op # ops, intermediate # intermediateResults))"

text \<open>The result is the new table, the operations that take the place of the original one, and
  whether anything was changed.\<close>

definition DecomposeSelect ::
  "nat \<Rightarrow> RegisterTable \<Rightarrow> Operation \<Rightarrow> (RegisterTable \<times> Operation list \<times> bool) option" where
  "DecomposeSelect threshold rt originalOp = do {
     _ \<leftarrow> assert_that (op_opcode originalOp = Select);
     _ \<leftarrow> assert_that (length (op_dst originalOp) = 1);
     _ \<leftarrow> assert_that (op_src originalOp \<noteq> []);
     if \<not> OperationUsesOnlyLocalReg rt originalOp then Some (rt, [originalOp], False)
     else if \<not> IsRegisterOperand (op_src originalOp ! 0) then Some (rt, [originalOp], False)
     else do {
       let numChoices = length (op_src originalOp) - 1;
       indexWidth \<leftarrow> Log2 (int numChoices);
       _ \<leftarrow> assert_that (threshold \<ge> 2);
       if numChoices \<le> threshold then Some (rt, [originalOp], False)
       else do {
         let numRegisterSources = length (filter IsRegisterOperand (tl (op_src originalOp)));
         if numRegisterSources \<le> threshold then Some (rt, [originalOp], False)
         else do {
           numLowBits \<leftarrow> Log2 (int threshold);
           _ \<leftarrow> assert_that (indexWidth > numLowBits);
           let (rt, lowerBitsReg) = AllocateRegister rt numLowBits RT_Local;
           let (rt, upperBitsReg) = AllocateRegister rt (indexWidth - numLowBits) RT_Local;
           let index = (op_src originalOp ! 0, ShouldSignExtend originalOp 0);
           let lowOp = operation Mov (op_locations originalOp) [index] (DstRegister lowerBitsReg);
           let highOp = operation (BinaryOp Shr) (op_locations originalOp)
                 [index, (SourceOperand_size numLowBits, False)] (DstRegister upperBitsReg);
           _ \<leftarrow> assert_that (numChoices mod threshold = 0);
           _ \<leftarrow> assert_that (IsRegisterDestination (op_dst originalOp ! 0));
           let numIntermediateResults = numChoices div threshold;
           let intermediateWidth = DestinationOperand_Width rt (op_dst originalOp ! 0);
           let (rt, ops, intermediateResults) =
             IntermediateSelects originalOp threshold lowerBitsReg intermediateWidth
               [0..<numIntermediateResults] rt;
           let finalOp = operation Select (op_locations originalOp)
                 ((SrcRegister upperBitsReg, False) # map (\<lambda>r. (SrcRegister r, False)) intermediateResults)
                 (op_dst originalOp ! 0);
           Some (rt, lowOp # highOp # ops @ [finalOp], True) } } } }"

subsection \<open>A comparison is the sign of a difference\<close>

lemma operand_int_signed_range:
  assumes "operand_ok rt s" "env_ok rt env" "e' \<or> \<not> e"
  shows "- (2 ^ (GetPromotedWidth (SourceOperand_Width rt s) e e' - of_bool e')) \<le> operand_int rt env s e"
    and "operand_int rt env s e < 2 ^ (GetPromotedWidth (SourceOperand_Width rt s) e e' - of_bool e')"
proof -
  let ?l = "\<lparr>l_value = operand_value env s, l_width = SourceOperand_Width rt s\<rparr>"
  have ok: "lit_ok ?l" by (rule operand_lit_ok[OF assms(1,2)])
  have "- (2 ^ (l_width ?l - 1)) \<le> lit_int True ?l \<and> lit_int True ?l < 2 ^ (l_width ?l - 1)"
    by (simp add: lit_int_def)
  moreover have "0 \<le> lit_int False ?l \<and> lit_int False ?l < 2 ^ l_width ?l"
    using ok by (simp add: lit_ok_def)
  moreover have "(0::int) \<le> 2 ^ SourceOperand_Width rt s" by simp
  ultimately show "- (2 ^ (GetPromotedWidth (SourceOperand_Width rt s) e e' - of_bool e')) \<le> operand_int rt env s e"
    "operand_int rt env s e < 2 ^ (GetPromotedWidth (SourceOperand_Width rt s) e e' - of_bool e')"
    using assms(3) by (cases e; cases e'; simp add: operand_int_def GetPromotedWidth_def; linarith?)+
qed

text \<open>The difference of two numbers below \<open>2^m\<close> in size has its sign in bit \<open>m\<close>.\<close>

lemma sign_of_difference:
  fixes a b :: int
  assumes "- (2 ^ m) < a - b" "a - b < 2 ^ m"
  shows "drop_bit m (take_bit (Suc m) (a - b)) = of_bool (a < b)"
proof (cases "a < b")
  case True
  then have "take_bit (Suc m) (a - b) = a - b + 2 ^ Suc m"
    using assms take_bit_int_eq_self[of "a - b + 2 ^ Suc m" "Suc m"]
    by (simp add: take_bit_eq_mod)
  moreover have "(a - b + 2 ^ Suc m) div 2 ^ m = 1"
    by (rule int_div_pos_eq[where r = "a - b + 2 ^ m"]) (use assms True in auto)
  ultimately show ?thesis
    using True by (simp add: drop_bit_eq_div)
next
  case False
  then have "take_bit (Suc m) (a - b) = a - b"
    using assms by (intro take_bit_int_eq_self) auto
  with False assms show ?thesis
    by (simp add: drop_bit_eq_div)
qed

lemma difference_range:
  assumes "operand_ok rt s0" "operand_ok rt s1" "env_ok rt env"
    and "m = max (GetPromotedWidth (SourceOperand_Width rt s0) e0 (e0 \<or> e1))
           (GetPromotedWidth (SourceOperand_Width rt s1) e1 (e0 \<or> e1))"
  shows "- (2 ^ m) < operand_int rt env s0 e0 - operand_int rt env s1 e1"
    and "operand_int rt env s0 e0 - operand_int rt env s1 e1 < 2 ^ m"
proof -
  let ?w0 = "GetPromotedWidth (SourceOperand_Width rt s0) e0 (e0 \<or> e1)"
    and ?w1 = "GetPromotedWidth (SourceOperand_Width rt s1) e1 (e0 \<or> e1)"
  have nonneg: "0 \<le> operand_int rt env s e" if "\<not> e" "operand_ok rt s" for s e
    using operand_lit_ok[OF that(2) assms(3)] that(1) by (simp add: operand_int_def lit_ok_def)
  have pos: "0 < ?w0" "0 < ?w1"
    using operand_lit_ok[OF assms(1,3)] operand_lit_ok[OF assms(2,3)]
    by (simp_all add: lit_ok_def GetPromotedWidth_def)
  define d :: nat where "d = of_bool (e0 \<or> e1)"
  have le: "(2::int) ^ (?w0 - d) \<le> 2 ^ (m - d)" "(2::int) ^ (?w1 - d) \<le> 2 ^ (m - d)"
    using assms(4) by (auto intro!: power_increasing)
  have two: "(2::int) ^ m = (if e0 \<or> e1 then 2 else 1) * 2 ^ (m - d)"
  proof -
    have "0 < m" using pos assms(4) by simp
    then show ?thesis by (cases m) (simp_all add: d_def)
  qed
  have prem: "(e0 \<or> e1) \<or> \<not> e0" "(e0 \<or> e1) \<or> \<not> e1" by blast+
  note r0 = operand_int_signed_range[OF assms(1,3) prem(1), folded d_def]
    and r1 = operand_int_signed_range[OF assms(2,3) prem(2), folded d_def]
  have a: "- (2 ^ (m - d)) \<le> operand_int rt env s0 e0" "operand_int rt env s0 e0 < 2 ^ (m - d)"
    using r0 le(1) by linarith+
  have b: "- (2 ^ (m - d)) \<le> operand_int rt env s1 e1" "operand_int rt env s1 e1 < 2 ^ (m - d)"
    using r1 le(2) by linarith+
  show "- (2 ^ m) < operand_int rt env s0 e0 - operand_int rt env s1 e1"
    using a b two nonneg[of e0 s0] nonneg[of e1 s1] assms(1,2) by (cases e0; cases e1) auto
  show "operand_int rt env s0 e0 - operand_int rt env s1 e1 < 2 ^ m"
    using a b two nonneg[of e0 s0] nonneg[of e1 s1] assms(1,2) by (cases e0; cases e1) auto
qed

definition compare_ok :: "RegisterTable \<Rightarrow> Operation \<Rightarrow> bool" where
  "compare_ok rt op \<longleftrightarrow> dst_width rt op = 1 \<and> list_all (\<lambda>s. SourceOperand_Width rt s < 2 ^ 62) (op_src op)"

lemma DecomposeCompareCarryChain_emits:
  assumes "DecomposeCompareCarryChain rt op = Some (rt', ops)" "op_dst op = [DstRegister r]"
  obtains t l h i W where "op_opcode op = BinaryOp t" "length (op_src op) = 2" "CompareOperands t = Some (l, h, i)"
    "W = max (GetPromotedWidth (src_width rt op l) (ShouldSignExtend op l) (ShouldSignExtend op l \<or> ShouldSignExtend op h))
           (GetPromotedWidth (src_width rt op h) (ShouldSignExtend op h) (ShouldSignExtend op l \<or> ShouldSignExtend op h))"
    "rt' = rt @ [Local (Suc W), Local 1]"
    "ops = [operation (BinaryOp Sub) (op_locations op)
          [(op_src op ! l, ShouldSignExtend op l), (op_src op ! h, ShouldSignExtend op h)] (DstRegister (length rt)),
       operation (BinaryOp Shr) (op_locations op)
          [(SrcRegister (length rt), False), (SourceOperand_size W, False)] (DstRegister (Suc (length rt))),
       operation (if i then UnaryOp Invert else Mov) (op_locations op)
          [(SrcRegister (Suc (length rt)), False)] (DstRegister r)]"
  using assms that
  by (fastforce simp: DecomposeCompareCarryChain_def AllocateRegister_Local Let_def
      split: Opcode.splits bind_splits prod.splits)

lemma DecomposeCompareCarryChain_implements:
  assumes "op_ok rt op" "compare_ok rt op" "DecomposeCompareCarryChain rt op = Some (rt', ops)"
  shows "implements rt op rt' ops"
proof -
  obtain r where r: "op_dst op = [DstRegister r]" "r < length rt" using assms(1) by (rule op_okE)
  obtain t l h i W where t: "op_opcode op = BinaryOp t" "length (op_src op) = 2" "CompareOperands t = Some (l, h, i)"
    and W: "W = max (GetPromotedWidth (src_width rt op l) (ShouldSignExtend op l) (ShouldSignExtend op l \<or> ShouldSignExtend op h))
           (GetPromotedWidth (src_width rt op h) (ShouldSignExtend op h) (ShouldSignExtend op l \<or> ShouldSignExtend op h))"
    and rt': "rt' = rt @ [Local (Suc W), Local 1]"
    and ops: "ops = [operation (BinaryOp Sub) (op_locations op)
          [(op_src op ! l, ShouldSignExtend op l), (op_src op ! h, ShouldSignExtend op h)] (DstRegister (length rt)),
       operation (BinaryOp Shr) (op_locations op)
          [(SrcRegister (length rt), False), (SourceOperand_size W, False)] (DstRegister (Suc (length rt))),
       operation (if i then UnaryOp Invert else Mov) (op_locations op)
          [(SrcRegister (Suc (length rt)), False)] (DstRegister r)]"
    using DecomposeCompareCarryChain_emits[OF assms(3) r(1)] by blast
  have lh: "l < 2" "h < 2" and bool: "binop_spec t (src_int rt env op 0) (src_int rt env op 1) =
      of_bool ((src_int rt env op l < src_int rt env op h) \<noteq> i)" for env
    using t(3) by (auto simp: CompareOperands_def binop_spec_def split: ParseTreeBinaryOpType.splits)
  have oks: "operand_ok rt (op_src op ! l)" "operand_ok rt (op_src op ! h)"
    using srcs_ok_nth[OF op_ok_srcs[OF assms(1)]] lh t(2) by simp_all
  have "src_width rt op l < 2 ^ 62" "src_width rt op h < 2 ^ 62" "dst_width rt op = 1"
    using assms(2) lh t(2) by (simp_all add: compare_ok_def list_all_length)
  then have small: "W < 2 ^ 63" and dw: "reg_width rt r = 1"
    using r by (simp_all add: W GetPromotedWidth_def)
  show ?thesis
  proof (rule implementsI)
    show "prefix rt rt'" by (simp add: rt')
    show "0 < rd_width d" if "d \<in> set (drop (length rt) rt')" for d
      using that by (auto simp: rt')
  next
    fix rtf assume p: "prefix rt' rtf"
    have len: "Suc (length rt) < length rtf"
      using prefix_length_less[OF p, of "Suc (length rt)"] by (simp add: rt')
    have "prefix rt rtf" using p by (auto simp: rt' prefix_def)
    then show "ops_ok rtf ops"
      using oks[THEN operand_ok_prefix] len r(2) small prefix_length_less[of rt rtf r]
      by (simp add: ops op_ok_operation)
  next
    fix rtf env env1
    assume p: "prefix rt' rtf" and env: "env_ok rtf env" and ex: "exec_op rt op env = Some env1"
    have pr: "prefix rt rtf" using p by (auto simp: rt' prefix_def)
    have len: "length rt < length rtf" "Suc (length rt) < length rtf" "r < length rtf"
      using prefix_length_less[OF p] prefix_length_less[OF pr r(2)] by (simp_all add: rt')
    have widths: "reg_width rtf (length rt) = Suc W" "reg_width rtf (Suc (length rt)) = 1" "reg_width rtf r = 1"
      using reg_width_prefix[OF p] reg_width_prefix[OF pr r(2)] dw by (simp_all add: rt' reg_width_def nth_append)
    have okf: "operand_ok rtf (op_src op ! l)" "operand_ok rtf (op_src op ! h)"
      using oks operand_ok_prefix[OF _ pr] by simp_all
    let ?a = "src_int rt env op l" and ?b = "src_int rt env op h"
    have ints: "operand_int rtf env (op_src op ! l) (ShouldSignExtend op l) = ?a"
      "operand_int rtf env (op_src op ! h) (ShouldSignExtend op h) = ?b"
      using operand_int_agree[OF oks(1) pr agree_refl] operand_int_agree[OF oks(2) pr agree_refl]
      by (simp_all add: src_int_operand)
    have val: "env1 = env(r := of_bool ((?a < ?b) \<noteq> i))"
    proof -
      have "eval_operation rt env op = Some (take_bit 1 (of_bool ((?a < ?b) \<noteq> i)))"
        using eval_binop_spec[OF assms(1) env_ok_prefix[OF env pr] t(1,2)] t(3) bool r dw
        by (auto simp: binop_pre_def CompareOperands_def split: ParseTreeBinaryOpType.splits)
      with ex r(1) show ?thesis by (simp add: exec_op_eq)
    qed
    define v1 where "v1 = take_bit (Suc W) (?a - ?b)"
    define e1 where "e1 = env(length rt := v1)"
    define e2 where "e2 = e1(Suc (length rt) := of_bool (?a < ?b))"
    have s1: "exec_op rtf (ops ! 0) env = Some e1 \<and> env_ok rtf e1"
      unfolding e1_def
      by (rule exec_emitted[OF env])
        (use okf len eval_emitted_binary[OF env okf len(1), of Sub] in
          \<open>simp_all add: ops op_ok_operation ints widths binop_pre_def binop_spec_def v1_def\<close>)
    have sgn: "drop_bit W v1 = of_bool (?a < ?b)"
      unfolding v1_def using difference_range[OF oks env_ok_prefix[OF env pr] W]
      by (intro sign_of_difference) (simp_all add: src_int_operand)
    have Wok: "operand_ok rtf (SourceOperand_size W)" using small by simp
    have "binop_pre Shr False False 1 v1 (int W)"
      using small by (simp add: binop_pre_def size_t_max_def)
    then have s2: "exec_op rtf (ops ! 1) e1 = Some e2 \<and> env_ok rtf e2"
      unfolding e2_def
      using s1 len sgn eval_emitted_binary[of rtf e1 "SrcRegister (length rt)" "SourceOperand_size W" "Suc (length rt)" Shr False False "op_locations op"] Wok
      by (intro exec_emitted)
        (simp_all add: ops op_ok_operation widths binop_spec_def e1_def del: SourceOperand_size_simps(3))
    have s3: "exec_op rtf (ops ! 2) e2 = Some (e2(r := of_bool ((?a < ?b) \<noteq> i)))"
      using s2 len eval_emitted_invert[of rtf e2 "SrcRegister (Suc (length rt))" r "op_locations op" False]
        eval_emitted_mov[of rtf e2 "SrcRegister (Suc (length rt))" r "op_locations op" False]
      by (cases i; cases "?a < ?b") (simp_all add: ops exec_op_eq widths e2_def)
    have "exec_ops rtf ops env = Some (e2(r := of_bool ((?a < ?b) \<noteq> i)))"
      using s1 s2 s3 by (simp add: ops)
    moreover have "agree (length rt) env1 (e2(r := of_bool ((?a < ?b) \<noteq> i)))"
      using r(2) by (auto simp: val agree_def e2_def e1_def)
    ultimately show "\<exists>env'. exec_ops rtf ops env = Some env' \<and> agree (length rt) env1 env'" by blast
  qed
qed

subsection \<open>Two levels of multiplexers\<close>

lemma IntermediateSelects_eq:
  "IntermediateSelects op thr low w is rt =
     (rt @ replicate (length is) (Local w),
      map (\<lambda>p. operation Select (op_locations op) (IntermediateOperands op thr low (is ! p)) (DstRegister (length rt + p)))
        [0..<length is],
      [length rt..<length rt + length is])"
proof (induction "is" arbitrary: rt)
  case (Cons i "is")
  have "[0..<length (i # is)] = 0 # map Suc [0..<length is]"
    by (simp add: upt_conv_Cons map_Suc_upt del: upt_Suc)
  then show ?case
    by (simp add: Cons.IH AllocateRegister_Local comp_def upt_conv_Cons del: upt_Suc)
qed simp

lemma IntermediateOperands_simps:
  "length (IntermediateOperands op thr low i) = Suc thr"
  "IntermediateOperands op thr low i ! 0 = (SrcRegister low, False)"
  "j < thr \<Longrightarrow> IntermediateOperands op thr low i ! Suc j =
     (op_src op ! (i * thr + 1 + j), ShouldSignExtend op (i * thr + 1 + j))"
  by (simp_all add: IntermediateOperands_def)

lemma IntermediateOperands_ok:
  assumes "\<And>j. j < length (op_src op) \<Longrightarrow> operand_ok rt (op_src op ! j)" "low < length rt"
    and "i * thr + thr < length (op_src op)"
  shows "\<forall>(s, e) \<in> set (IntermediateOperands op thr low i). operand_ok rt s"
  using assms by (auto simp: IntermediateOperands_def)

text \<open>The first level: register \<open>m + p\<close> receives choice \<open>L\<close> of group \<open>p\<close>.\<close>

lemma exec_IntermediateSelects:
  assumes "\<And>j. j < length (op_src op) \<Longrightarrow> operand_ok rt (op_src op ! j)" "prefix rt rtf"
    and "length (op_src op) = Suc (M * 2 ^ k)" "low < m" "length rt \<le> m" "m + n \<le> length rtf" "n \<le> M"
    and "\<And>p. p < n \<Longrightarrow> reg_width rtf (m + p) = w"
    and "env_ok rtf env" "take_bit k (env low) = int L" "low < length rtf"
  shows "\<exists>env'. exec_ops rtf (map (\<lambda>p. operation Select ls (IntermediateOperands op (2 ^ k) low p) (DstRegister (m + p)))
        [0..<n]) env = Some env' \<and> env_ok rtf env' \<and> (\<forall>r. r < m \<longrightarrow> env' r = env r) \<and>
      (\<forall>p < n. env' (m + p) = take_bit w (src_int rt env op (p * 2 ^ k + 1 + L)))"
  using assms(6-8)
proof (induction n)
  case 0
  then show ?case using assms(9) by simp
next
  case (Suc n)
  then obtain e where e: "exec_ops rtf (map (\<lambda>p. operation Select ls (IntermediateOperands op (2 ^ k) low p)
        (DstRegister (m + p))) [0..<n]) env = Some e" "env_ok rtf e" "\<And>r. r < m \<Longrightarrow> e r = env r"
      "\<And>p. p < n \<Longrightarrow> e (m + p) = take_bit w (src_int rt env op (p * 2 ^ k + 1 + L))"
    by auto
  let ?xs = "IntermediateOperands op (2 ^ k) low n"
  let ?op = "operation Select ls ?xs (DstRegister (m + n))"
  let ?c = "n * 2 ^ k + 1 + L"
  have L: "L < 2 ^ k"
    using assms(10) take_bit_int_less_exp[of k "env low"] by (metis of_nat_less_iff of_nat_numeral of_nat_power)
  have "(n + 1) * 2 ^ k \<le> M * 2 ^ k"
    using Suc.prems(2) by (intro mult_right_mono) auto
  then have le: "n * 2 ^ k + 2 ^ k < length (op_src op)" using assms(3) by simp
  have ok: "\<forall>(s, e) \<in> set ?xs. operand_ok rtf s"
    using operand_ok_prefix[OF assms(1,2)] assms(11) le by (intro IntermediateOperands_ok) auto
  have ag: "agree (length rt) env e" using e(3) assms(5) by (simp add: agree_def)
  have sign: "(Suc L < 64 \<and> ShouldSignExtend op ?c) = ShouldSignExtend op ?c"
    using ShouldSignExtend_ge[of ?c op] by (cases "Suc L < 64") (auto simp: not_less)
  have "operand_int rtf e (op_src op ! ?c) (ShouldSignExtend op ?c) = src_int rt env op ?c"
    unfolding src_int_operand using assms(1) le L by (intro operand_int_agree[OF _ assms(2) ag]) simp
  moreover have Lsel: "L = nat (take_bit k (operand_int rtf e (fst (?xs ! 0)) (snd (?xs ! 0))))"
    using e(3)[OF assms(4)] assms(10) by (simp add: IntermediateOperands_simps)
  ultimately have "eval_operation rtf e ?op = Some (take_bit w (src_int rt env op ?c))"
    using eval_emitted_select[OF e(2) ok _ _ Lsel, where ls = ls and r = "m + n"] Suc.prems L sign
    by (simp add: IntermediateOperands_simps)
  moreover have "op_ok rtf ?op" using ok Suc.prems(1) by (simp add: op_ok_operation)
  moreover define e' where "e' = e(m + n := take_bit w (src_int rt env op ?c))"
  ultimately have ex: "exec_op rtf ?op e = Some e'" "env_ok rtf e'"
    using exec_emitted[OF e(2), of ?op "m + n"] by simp_all
  have "e' r = env r" if "r < m" for r
    using that e(3) by (simp add: e'_def)
  moreover have "e' (m + p) = take_bit w (src_int rt env op (p * 2 ^ k + 1 + L))" if "p < Suc n" for p
    using that e(4) by (auto simp: e'_def less_Suc_eq)
  ultimately show ?case
    using e(1) ex by (intro exI[of _ e']) simp
qed

text \<open>The sign-extension mask has 64 bits: \<^verbatim>\<open>ShouldSignExtend\<close> is defined for that many operands.\<close>

definition select_ok :: "Operation \<Rightarrow> bool" where
  "select_ok op \<longleftrightarrow> length (op_src op) \<le> 64"

lemma Log2_inv: "Log2 (int x) = Some n \<Longrightarrow> x = 2 ^ n"
proof -
  assume *: "Log2 (int x) = Some n"
  then obtain k where "int x = 2 ^ k"
    by (auto simp: Log2_def IsPow2_iff split: bind_splits)
  then have k: "x = 2 ^ k" by (metis of_nat_eq_iff of_nat_numeral of_nat_power)
  with * show ?thesis using Log2_pow2[of k] by simp
qed

lemma DecomposeSelect_emits:
  assumes "DecomposeSelect threshold rt op = Some (rt', ops, True)" "op_dst op = [DstRegister r]" "r < length rt"
  obtains n k where "op_opcode op = Select" "length (op_src op) = Suc (2 ^ n)" "threshold = 2 ^ k" "k < n" "0 < k"
    "rt' = rt @ [Local k, Local (n - k)] @ replicate (2 ^ (n - k)) (Local (reg_width rt r))"
    "ops = operation Mov (op_locations op) [(op_src op ! 0, ShouldSignExtend op 0)] (DstRegister (length rt)) #
       operation (BinaryOp Shr) (op_locations op) [(op_src op ! 0, ShouldSignExtend op 0), (SourceOperand_size k, False)]
         (DstRegister (Suc (length rt))) #
       map (\<lambda>p. operation Select (op_locations op) (IntermediateOperands op (2 ^ k) (length rt) p)
           (DstRegister (Suc (Suc (length rt)) + p))) [0..<2 ^ (n - k)] @
       [operation Select (op_locations op) ((SrcRegister (Suc (length rt)), False) #
          map (\<lambda>p. (SrcRegister (Suc (Suc (length rt)) + p), False)) [0..<2 ^ (n - k)]) (DstRegister r)]"
proof -
  from assms(1) obtain n k where sel: "op_opcode op = Select" "op_src op \<noteq> []"
    and logs: "Log2 (int (length (op_src op) - 1)) = Some n" "Log2 (int threshold) = Some k" "k < n" "2 \<le> threshold"
    and res: "let m = (length (op_src op) - 1) div threshold;
        (rt2, sops, rs) = IntermediateSelects op threshold (length rt)
            (DestinationOperand_Width (rt @ [Local k] @ [Local (n - k)]) (op_dst op ! 0))
            [0..<m] (rt @ [Local k] @ [Local (n - k)])
      in rt' = rt2 \<and> ops = operation Mov (op_locations op) [(op_src op ! 0, ShouldSignExtend op 0)] (DstRegister (length rt)) #
       operation (BinaryOp Shr) (op_locations op) [(op_src op ! 0, ShouldSignExtend op 0), (SourceOperand_size k, False)]
         (DstRegister (Suc (length rt))) # sops @
       [operation Select (op_locations op) ((SrcRegister (Suc (length rt)), False) #
          map (\<lambda>r. (SrcRegister r, False)) rs) (op_dst op ! 0)]"
    by (auto simp: DecomposeSelect_def AllocateRegister_Local Let_def split: bind_splits if_splits prod.splits)
  have n: "length (op_src op) = Suc (2 ^ n)" and k: "threshold = 2 ^ k"
    using Log2_inv[OF logs(1)] Log2_inv[OF logs(2)] sel(2) by (cases "op_src op"; simp)+
  have "0 < k" using logs(4) k by (cases k) auto
  have div: "(length (op_src op) - 1) div threshold = 2 ^ (n - k)"
    using logs(3) by (simp add: n k flip: power_diff)
  have w: "DestinationOperand_Width (rt @ [Local k] @ [Local (n - k)]) (op_dst op ! 0) = reg_width rt r"
    using assms(2,3) by (simp add: reg_width_def nth_append)
  have upt: "[Suc (Suc (length rt))..<Suc (Suc (length rt + 2 ^ (n - k)))] =
      map (\<lambda>p. Suc (Suc (length rt + p))) [0..<2 ^ (n - k)]"
    by (rule nth_equalityI) (simp_all del: upt_Suc)
  show ?thesis
    using res unfolding div w IntermediateSelects_eq Let_def
    by (intro that[OF sel(1) n k logs(3) \<open>0 < k\<close>])
      (simp_all add: assms(2) k upt comp_def del: upt_Suc)
qed

lemma split_index:
  fixes x :: int
  assumes "k \<le> n"
  shows "nat (take_bit n x) = nat (take_bit (n - k) (drop_bit k x)) * 2 ^ k + nat (take_bit k x)"
proof -
  have "take_bit n x = push_bit k (take_bit (n - k) (drop_bit k x)) + take_bit k x"
    using assms bits_ident[of k "take_bit n x"] by (simp add: drop_bit_take_bit)
  then show ?thesis
    by (simp add: push_bit_eq_mult nat_add_distrib nat_mult_distrib nat_power_eq)
qed

text \<open>No assertion fails when the numbers of choices and of allowed choices are powers of two.\<close>

lemma DecomposeSelect_returns:
  assumes "op_opcode op = Select" "op_dst op = [DstRegister r]" "length (op_src op) = Suc (2 ^ n)"
    and "threshold = 2 ^ k" "0 < k"
  shows "\<exists>rt' ops. DecomposeSelect threshold rt op = Some (rt, [op], False) \<or>
    DecomposeSelect threshold rt op = Some (rt', ops, True)"
proof -
  have log: "Log2 (int (length (op_src op) - 1)) = Some n" "Log2 (int threshold) = Some k"
    using assms(3,4) by simp_all
  have "k < n \<and> (2::nat) ^ n mod 2 ^ k = 0" if "(2::nat) ^ k < 2 ^ n"
  proof -
    have "k < n" using that by simp
    then show ?thesis by (simp add: le_imp_power_dvd)
  qed
  moreover have "(2::nat) \<le> 2 ^ k" using power_increasing[of 1 k "2::nat"] assms(5) by simp
  ultimately show ?thesis
    using assms log
    by (auto simp: DecomposeSelect_def AllocateRegister_Local Let_def IsRegisterDestination_def
        split: prod.splits)
qed

lemma DecomposeSelect_implements:
  assumes "op_ok rt op" "select_ok op" "DecomposeSelect threshold rt op = Some (rt', ops, True)"
    and pos: "0 < dst_width rt op"
  shows "implements rt op rt' ops"
proof -
  obtain r where r: "op_dst op = [DstRegister r]" "r < length rt" using assms(1) by (rule op_okE)
  obtain n k where sel: "op_opcode op = Select" "length (op_src op) = Suc (2 ^ n)" and k: "threshold = 2 ^ k" "k < n" "0 < k"
    and rt': "rt' = rt @ [Local k, Local (n - k)] @ replicate (2 ^ (n - k)) (Local (reg_width rt r))"
    and ops: "ops = operation Mov (op_locations op) [(op_src op ! 0, ShouldSignExtend op 0)] (DstRegister (length rt)) #
       operation (BinaryOp Shr) (op_locations op) [(op_src op ! 0, ShouldSignExtend op 0), (SourceOperand_size k, False)]
         (DstRegister (Suc (length rt))) #
       map (\<lambda>p. operation Select (op_locations op) (IntermediateOperands op (2 ^ k) (length rt) p)
           (DstRegister (Suc (Suc (length rt)) + p))) [0..<2 ^ (n - k)] @
       [operation Select (op_locations op) ((SrcRegister (Suc (length rt)), False) #
          map (\<lambda>p. (SrcRegister (Suc (Suc (length rt)) + p), False)) [0..<2 ^ (n - k)]) (DstRegister r)]"
    using DecomposeSelect_emits[OF assms(3) r] by blast
  let ?M = "2 ^ (n - k) :: nat" and ?m = "Suc (Suc (length rt))"
  have M: "length (op_src op) = Suc (?M * 2 ^ k)"
    using k(2) by (simp add: sel(2) flip: power_add)
  have srcs: "operand_ok rt (op_src op ! j)" if "j < length (op_src op)" for j
    using srcs_ok_nth[OF op_ok_srcs[OF assms(1)] that] .
  have "n < 2 ^ n" by simp
  then have "n < 64" using assms(2) sel(2) unfolding select_ok_def by linarith
  then have small: "n < size_t_max" by (simp add: size_t_max_def)
  have ext: "prefix rt rtf \<and> length rt < length rtf \<and> Suc (length rt) < length rtf \<and> ?m + ?M \<le> length rtf \<and> r < length rtf \<and>
      reg_width rtf (length rt) = k \<and> reg_width rtf (Suc (length rt)) = n - k \<and>
      (\<forall>p < ?M. reg_width rtf (?m + p) = reg_width rt r) \<and> reg_width rtf r = reg_width rt r"
    if p: "prefix rt' rtf" for rtf
  proof -
    have pr: "prefix rt rtf" using p by (auto simp: rt' prefix_def)
    have at: "reg_width rtf i = rd_width (rt' ! i)" if "i < length rt'" for i
      using reg_width_prefix[OF p that] that by (simp add: reg_width_def)
    show ?thesis
      using pr prefix_length_le[OF p] prefix_length_less[OF pr r(2)] reg_width_prefix[OF pr r(2)] at
      by (auto simp: rt' nth_append nth_Cons')
  qed
  show ?thesis
  proof (rule implementsI)
    show "prefix rt rt'" by (simp add: rt')
    show "0 < rd_width d" if "d \<in> set (drop (length rt) rt')" for d
      using that k pos r by (auto simp: rt')
  next
    fix rtf assume p: "prefix rt' rtf"
    have ksz: "operand_ok rtf (SourceOperand_size k)"
      using small k(2) by (simp add: size_t_max_def)
    have "\<forall>(s, e) \<in> set (IntermediateOperands op (2 ^ k) (length rt) i). operand_ok rtf s" if "i < ?M" for i
    proof (rule IntermediateOperands_ok)
      have "(i + 1) * 2 ^ k \<le> ?M * 2 ^ k" using that by (intro mult_right_mono) auto
      then show "i * 2 ^ k + 2 ^ k < length (op_src op)" by (simp add: M)
    qed (use ext[OF p] operand_ok_prefix[OF srcs] in auto)
    then show "ops_ok rtf ops"
      using ext[OF p] operand_ok_prefix[OF srcs, of 0] ksz M
      by (auto simp: ops op_ok_operation ops_ok_def list_all_iff simp del: SourceOperand_size_simps(3))
  next
    fix rtf env env1
    assume p: "prefix rt' rtf" and env: "env_ok rtf env" and ex: "exec_op rt op env = Some env1"
    note x = ext[OF p]
    have pr: "prefix rt rtf" using x by blast
    have ok0: "operand_ok rtf (op_src op ! 0)" using operand_ok_prefix[OF srcs pr] M by simp
    define I where "I = nat (take_bit n (src_int rt env op 0))"
    define L where "L = nat (take_bit k (src_int rt env op 0))"
    define H where "H = nat (take_bit (n - k) (drop_bit k (src_int rt env op 0)))"
    have split: "I = H * 2 ^ k + L"
      unfolding I_def L_def H_def using k(2) by (intro split_index) simp
    have H: "H < ?M" and I: "I < 2 ^ n" by (simp_all add: H_def I_def nat_less_iff)
    have int0: "operand_int rtf e (op_src op ! 0) (ShouldSignExtend op 0) = src_int rt env op 0"
      if "agree (length rt) env e" for e
      unfolding src_int_operand using that M by (intro operand_int_agree[OF srcs pr]) simp
    have val: "env1 = env(r := take_bit (reg_width rt r) (src_int rt env op (Suc I)))"
      using eval_Select[OF op_ok_srcs[OF assms(1)] env_ok_prefix[OF env pr] sel(1) _ sel(2)] r(1) ex
      by (simp add: exec_op_eq I_def)
    define e1 where "e1 = env(length rt := int L)"
    define e2 where "e2 = e1(Suc (length rt) := int H)"
    have s1: "exec_op rtf (ops ! 0) env = Some e1 \<and> env_ok rtf e1"
      unfolding e1_def
      using x ok0 int0[OF agree_refl] eval_emitted_mov[OF env ok0, of "length rt" "op_locations op" "ShouldSignExtend op 0"]
      by (intro exec_emitted[OF env]) (simp_all add: ops op_ok_operation L_def)
    have ksz: "operand_ok rtf (SourceOperand_size k)"
      using small k(2) by (simp add: size_t_max_def)
    have "binop_pre Shr (ShouldSignExtend op 0) False (n - k) (src_int rt env op 0) (int k)"
      using small k(2) by (simp add: binop_pre_def)
    then have s2: "exec_op rtf (ops ! 1) e1 = Some e2 \<and> env_ok rtf e2"
      unfolding e2_def
      using x s1 ok0 int0[of e1] eval_emitted_binary[of rtf e1 "op_src op ! 0" "SourceOperand_size k" "Suc (length rt)" Shr
          "ShouldSignExtend op 0" False "op_locations op"] ksz
      by (intro exec_emitted)
        (simp_all add: ops op_ok_operation binop_spec_def e1_def H_def del: SourceOperand_size_simps(3))
    have ag2: "agree (length rt) env e2" by (simp add: e2_def e1_def agree_def)
    have "take_bit k (e2 (length rt)) = int L" by (simp add: e2_def e1_def L_def)
    then obtain e3 where e3: "exec_ops rtf (map (\<lambda>p. operation Select (op_locations op)
          (IntermediateOperands op (2 ^ k) (length rt) p) (DstRegister (?m + p))) [0..<?M]) e2 = Some e3"
        "env_ok rtf e3" "\<And>i. i < ?m \<Longrightarrow> e3 i = e2 i"
        "\<And>i. i < ?M \<Longrightarrow> e3 (?m + i) = take_bit (reg_width rt r) (src_int rt e2 op (i * 2 ^ k + 1 + L))"
      using exec_IntermediateSelects[OF srcs pr M, of "length rt" ?m ?M "reg_width rt r" e2 L "op_locations op"] s2 x
      by auto
    let ?f = "(SrcRegister (Suc (length rt)), False) # map (\<lambda>p. (SrcRegister (?m + p), False)) [0..<?M]"
    have fok: "\<forall>(s, e) \<in> set ?f. operand_ok rtf s" using x by auto
    have fsel: "H = nat (take_bit (n - k) (operand_int rtf e3 (fst (?f ! 0)) (snd (?f ! 0))))"
      using e3(3)[of "Suc (length rt)"] by (simp add: e2_def H_def)
    have same: "src_int rt e2 op (Suc I) = src_int rt env op (Suc I)"
      unfolding src_int_operand using srcs[of "Suc I"] I M sel(2)
      by (intro operand_int_agree[OF _ _ ag2]) auto
    have "eval_operation rtf e3 (operation Select (op_locations op) ?f (DstRegister r)) =
        Some (take_bit (reg_width rt r) (src_int rt env op (Suc I)))"
      using eval_emitted_select[OF e3(2) fok _ _ fsel, where r = r and ls = "op_locations op"] x H e3(4)[OF H] same
      by (simp add: split)
    then have "exec_op rtf (operation Select (op_locations op) ?f (DstRegister r)) e3 =
        Some (e3(r := take_bit (reg_width rt r) (src_int rt env op (Suc I))))"
      by (simp add: exec_op_eq)
    then have "exec_ops rtf ops env = Some (e3(r := take_bit (reg_width rt r) (src_int rt env op (Suc I))))"
      using s1 s2 e3(1) by (simp add: ops)
    moreover have "agree (length rt) env1 (e3(r := take_bit (reg_width rt r) (src_int rt env op (Suc I))))"
      using e3(3) ag2 by (auto simp: val agree_def)
    ultimately show "\<exists>env'. exec_ops rtf ops env = Some env' \<and> agree (length rt) env1 env'" by blast
  qed
qed

lemma DecomposeCompareCarryChain_returns:
  assumes "op_opcode op = BinaryOp t" "t \<in> {GT, GE, LT, LE}" "length (op_src op) = 2" "op_dst op = [DstRegister r]"
  shows "\<exists>rt' ops. DecomposeCompareCarryChain rt op = Some (rt', ops)"
  using assms by (auto simp: DecomposeCompareCarryChain_def CompareOperands_def IsRegisterDestination_def
      AllocateRegister_Local Let_def)


subsection \<open>What the decompositions compute\<close>

text \<open>C23: \<^verbatim>\<open>DecomposeCompareCarryChain\<close> replaces an ordered comparison by operations that leave
  in the registers of the original table what the comparison leaves, also for operands of different
  width and signedness.\<close>

theorem DecomposeCompareCarryChain_correct:
  assumes "op_ok rt op" "compare_ok rt op" "op_opcode op = BinaryOp t" "t \<in> {GT, GE, LT, LE}" "length (op_src op) = 2"
  shows "\<exists>rt' ops. DecomposeCompareCarryChain rt op = Some (rt', ops) \<and>
    (\<forall>env env1. env_ok rt' env \<longrightarrow> exec_op rt op env = Some env1 \<longrightarrow>
      (\<exists>env'. exec_ops rt' ops env = Some env' \<and> (\<forall>r < length rt. env' r = env1 r)))"
proof -
  obtain r where "op_dst op = [DstRegister r]" using assms(1) by (rule op_okE)
  from DecomposeCompareCarryChain_returns[OF assms(3-5) this, of rt]
  obtain rt' ops where *: "DecomposeCompareCarryChain rt op = Some (rt', ops)" by blast
  with DecomposeCompareCarryChain_implements[OF assms(1,2) *] show ?thesis by (blast intro: implements_run)
qed

theorem DecomposeCompareCarryChain_correct_witness:
  "let rt = [Local 8, Local 4, Local 1];
       op = operation (BinaryOp LT) {(1, 1)} [(SrcRegister 0, True), (SrcRegister 1, False)] (DstRegister 2)
   in \<exists>rt' ops. DecomposeCompareCarryChain rt op = Some (rt', ops) \<and>
        (\<forall>env env1. env_ok rt' env \<longrightarrow> exec_op rt op env = Some env1 \<longrightarrow>
          (\<exists>env'. exec_ops rt' ops env = Some env' \<and> (\<forall>r < length rt. env' r = env1 r)))"
  unfolding Let_def
  by (rule DecomposeCompareCarryChain_correct[where t = LT]) (simp_all add: op_ok_operation compare_ok_def reg_width_def)

text \<open>C24: \<^verbatim>\<open>DecomposeSelect\<close> on a multiplexer with a power of two of choices fails no assertion and
  returns operations that leave in the registers of the original table what the multiplexer
  leaves. The threshold is a power of two of at least two.\<close>

theorem DecomposeSelect_correct:
  assumes "op_ok rt op" "select_ok op" "op_opcode op = Select" "length (op_src op) = Suc (2 ^ n)" "0 < dst_width rt op"
    and "threshold = 2 ^ k" "0 < k"
  shows "\<exists>rt' ops c. DecomposeSelect threshold rt op = Some (rt', ops, c) \<and>
    (\<forall>env env1. env_ok rt' env \<longrightarrow> exec_op rt op env = Some env1 \<longrightarrow>
      (\<exists>env'. exec_ops rt' ops env = Some env' \<and> (\<forall>r < length rt. env' r = env1 r)))"
proof -
  obtain r where "op_dst op = [DstRegister r]" using assms(1) by (rule op_okE)
  from DecomposeSelect_returns[OF assms(3) this assms(4,6,7), of rt]
  consider "DecomposeSelect threshold rt op = Some (rt, [op], False)"
    | rt' ops where "DecomposeSelect threshold rt op = Some (rt', ops, True)" by blast
  then show ?thesis
  proof cases
    case 1
    then show ?thesis by (fastforce split: bind_splits)
  next
    case (2 rt' ops)
    with DecomposeSelect_implements[OF assms(1,2) 2 assms(5)] show ?thesis by (blast intro: implements_run)
  qed
qed

theorem DecomposeSelect_correct_witness:
  "let rt = [Local 2, Local 8, Local 8, Local 8];
       op = operation Select {(1, 1)} [(SrcRegister 0, False), (SrcRegister 1, False), (SrcRegister 2, False),
         (SrcRegister 1, False), (SrcRegister 2, True)] (DstRegister 3)
   in \<exists>rt' ops c. DecomposeSelect 2 rt op = Some (rt', ops, c) \<and>
        (\<forall>env env1. env_ok rt' env \<longrightarrow> exec_op rt op env = Some env1 \<longrightarrow>
          (\<exists>env'. exec_ops rt' ops env = Some env' \<and> (\<forall>r < length rt. env' r = env1 r)))"
  unfolding Let_def
  by (rule DecomposeSelect_correct[where n = 2 and k = 1])
    (simp_all add: op_ok_operation select_ok_def reg_width_def)

end
