(* ===== verification/Reduction_Trees.thy ===== *)
theory Reduction_Trees
  imports Decompose_Select
begin

text \<open>
  Reduction trees (\<^verbatim>\<open>ReduceBinaryOpLut\<close>, \<^verbatim>\<open>ReduceBinaryOpNoLut\<close> and \<^verbatim>\<open>ReduceBinaryOp\<close> of
  \<^verbatim>\<open>optimize_lut.cpp\<close>), which combine all bits of a register by conjunction or disjunction, and
  \<^verbatim>\<open>DecomposeCompareEQ\<close> of \<^verbatim>\<open>optimize.cpp\<close>, which decides equality with one. Both trees are
  shown to end and to compute the conjunction or disjunction of the bits.
\<close>

subsection \<open>Reduction with lookup tables\<close>

text \<open>The inner loop on one row of a table: it replaces the two lowest bits by their combination.\<close>

fun ReduceRow :: "64 word \<Rightarrow> nat \<Rightarrow> 64 word \<Rightarrow> 64 word" where
  "ReduceRow twoInputLut 0 reducedBits = reducedBits"
| "ReduceRow twoInputLut (Suc n) reducedBits =
     (let indexIntoLut = reducedBits AND 3;
          output = drop_bit (unat indexIntoLut) twoInputLut AND 1
      in ReduceRow twoInputLut n ((drop_bit 1 reducedBits AND NOT 1) OR output))"

text \<open>An entry with more sources than its arrays hold, and a table size of zero below, are undefined
  in the code and have no result here.\<close>

definition ReduceEntry :: "nat \<Rightarrow> 64 word \<Rightarrow> nat \<Rightarrow> nat \<Rightarrow> LutEntry option" where
  "ReduceEntry maxLutSources twoInputLut srcWidth dstBit = do {
     let startSrcBit = dstBit * maxLutSources;
     let endSrcBit = min (startSrcBit + maxLutSources) srcWidth;
     let numSrcBits = endSrcBit - startSrcBit;
     _ \<leftarrow> assert_that (startSrcBit < srcWidth);
     _ \<leftarrow> assert_that (endSrcBit \<le> srcWidth);
     _ \<leftarrow> assert_that (numSrcBits > 0);
     _ \<leftarrow> assert_that (numSrcBits \<le> c_maxLutSources);
     Some \<lparr>le_sources = map (\<lambda>i. (0, startSrcBit + i)) [0..<numSrcBits],
           le_table = fold (\<lambda>tableIndex table.
               table OR push_bit tableIndex (ReduceRow twoInputLut (numSrcBits - 1) (of_nat tableIndex) AND 1))
             [0..<2 ^ numSrcBits] 0\<rparr> }"

text \<open>One level of the tree: the new table, the register it writes, the operation and the width
  of its result. The last level writes the destination.\<close>

definition ReduceLevelLut ::
  "nat \<Rightarrow> 64 word \<Rightarrow> nat \<Rightarrow> RegisterTable \<Rightarrow> nat \<Rightarrow> (RegisterTable \<times> nat \<times> Operation \<times> nat) option" where
  "ReduceLevelLut maxLutSources twoInputLut dstReg rt currSrcReg = do {
     let srcWidth = reg_width rt currSrcReg;
     _ \<leftarrow> assert_that (maxLutSources > 0);
     let dstWidth = (srcWidth + maxLutSources - 1) div maxLutSources;
     _ \<leftarrow> assert_that (dstWidth > 0);
     let (rt, destReg) = (if dstWidth > 1 then AllocateRegister rt dstWidth RT_Local else (rt, dstReg));
     entries \<leftarrow> map_opt (ReduceEntry maxLutSources twoInputLut srcWidth) [0..<dstWidth];
     Some (rt, destReg,
       (new_operation (Lut entries) {} [DstRegister destReg])\<lparr>op_src := [SrcRegister currSrcReg]\<rparr>, dstWidth) }"

partial_function (option) ReduceBinaryOpLut ::
  "nat \<Rightarrow> 64 word \<Rightarrow> nat \<Rightarrow> RegisterTable \<Rightarrow> nat \<Rightarrow> (RegisterTable \<times> Operation list) option" where
  "ReduceBinaryOpLut maxLutSources twoInputLut dstReg rt currSrcReg = do {
     (rt, destReg, reduceOp, dstWidth) \<leftarrow> ReduceLevelLut maxLutSources twoInputLut dstReg rt currSrcReg;
     if dstWidth = 1 then Some (rt, [reduceOp])
     else do {
       (rt, ops) \<leftarrow> ReduceBinaryOpLut maxLutSources twoInputLut dstReg rt destReg;
       Some (rt, reduceOp # ops) } }"

subsection \<open>Reduction with two-input operations\<close>

fun ReductionBits :: "nat \<Rightarrow> nat list \<Rightarrow> RegisterTable \<Rightarrow> RegisterTable \<times> Operation list \<times> nat list" where
  "ReductionBits srcReg [] rt = (rt, [], [])"
| "ReductionBits srcReg (i # is) rt =
     (let (rt, bitReg) = AllocateRegister rt 1 RT_Local;
          op = operation (BinaryOp Shr) {} [(SrcRegister srcReg, False), (SourceOperand_size i, False)] (DstRegister bitReg);
          (rt, ops, regs) = ReductionBits srcReg is rt
      in (rt, op # ops, bitReg # regs))"

text \<open>Combine pairs; a register left over is carried to the next level.\<close>

fun ReducePairs ::
  "ParseTreeBinaryOpType \<Rightarrow> RegisterTable \<Rightarrow> nat list \<Rightarrow> RegisterTable \<times> Operation list \<times> nat list" where
  "ReducePairs reduceOp rt (a # b # srcRegs) =
     (let (rt, dstReg) = AllocateRegister rt 1 RT_Local;
          op = operation (BinaryOp reduceOp) {} [(SrcRegister a, False), (SrcRegister b, False)] (DstRegister dstReg);
          (rt, ops, dstRegs) = ReducePairs reduceOp rt srcRegs
      in (rt, op # ops, dstReg # dstRegs))"
| "ReducePairs reduceOp rt srcRegs = (rt, [], srcRegs)"

lemma ReducePairs_length: "length (snd (snd (ReducePairs reduceOp rt regs))) = (length regs + 1) div 2"
  by (induction reduceOp rt regs rule: ReducePairs.induct) (auto simp: AllocateRegister_Local split: prod.splits)

function ReduceLevels ::
  "ParseTreeBinaryOpType \<Rightarrow> RegisterTable \<Rightarrow> nat list \<Rightarrow> RegisterTable \<times> Operation list \<times> nat list" where
  "ReduceLevels reduceOp rt srcRegs =
     (if length srcRegs > 1
      then (let (rt, ops, dstRegs) = ReducePairs reduceOp rt srcRegs;
                (rt, ops', regs) = ReduceLevels reduceOp rt dstRegs
            in (rt, ops @ ops', regs))
      else (rt, [], srcRegs))"
  by pat_completeness auto
termination
proof (relation "measure (\<lambda>(_, _, regs). length regs)", goal_cases)
  case (2 reduceOp rt srcRegs x xa y xb ya)
  then have "ya = snd (snd (ReducePairs reduceOp rt srcRegs))" by (metis snd_conv)
  with 2 show ?case using ReducePairs_length[of reduceOp rt srcRegs] by auto
qed simp

declare ReduceLevels.simps [simp del]

definition ReduceBinaryOpNoLut ::
  "RegisterTable \<Rightarrow> nat \<Rightarrow> ParseTreeBinaryOpType \<Rightarrow> nat \<Rightarrow> (RegisterTable \<times> Operation list) option" where
  "ReduceBinaryOpNoLut rt srcReg reduceOp dstReg = do {
     let (rt, bitOps, srcRegs) = ReductionBits srcReg [0..<reg_width rt srcReg] rt;
     let (rt, ops, srcRegs) = ReduceLevels reduceOp rt srcRegs;
     _ \<leftarrow> assert_that (srcRegs \<noteq> []);
     Some (rt, bitOps @ ops @ [operation Mov {} [(SrcRegister (srcRegs ! 0), False)] (DstRegister dstReg)]) }"

subsection \<open>Selection of the tree\<close>

record DeviceConfig =
  smallLutSize :: nat
  supportsLuts :: bool

text \<open>\<^verbatim>\<open>SetOperationLocation\<close>: operations without a location receive that of the source.\<close>

definition SetOperationLocation :: "FileAndLineNumber set \<Rightarrow> Operation \<Rightarrow> Operation" where
  "SetOperationLocation locations op =
     (if op_locations op = {} then op\<lparr>op_locations := locations\<rparr> else op)"

definition ReduceBinaryOp ::
  "DeviceConfig \<Rightarrow> RegisterTable \<Rightarrow> nat \<Rightarrow> ParseTreeBinaryOpType \<Rightarrow> nat \<Rightarrow> FileAndLineNumber set \<Rightarrow>
   (RegisterTable \<times> Operation list) option" where
  "ReduceBinaryOp device rt srcReg reduceOp dstReg locations = do {
     _ \<leftarrow> assert_that (locations \<noteq> {});
     (rt, ops) \<leftarrow>
       (if supportsLuts device then do {
          lut \<leftarrow> (if reduceOp = And then Some 8 else do { _ \<leftarrow> assert_that (reduceOp = Or); Some 14 });
          ReduceBinaryOpLut (smallLutSize device) lut dstReg rt srcReg }
        else ReduceBinaryOpNoLut rt srcReg reduceOp dstReg);
     Some (rt, map (SetOperationLocation locations) ops) }"

definition DecomposeCompareEQ ::
  "DeviceConfig \<Rightarrow> RegisterTable \<Rightarrow> Operation \<Rightarrow> (RegisterTable \<times> Operation list) option" where
  "DecomposeCompareEQ device rt op = (case (op_opcode op, op_dst op) of
     (BinaryOp opType, [DstRegister finalDestRegister]) \<Rightarrow> do {
       _ \<leftarrow> assert_that (length (op_src op) = 2);
       let lhsSigned = ShouldSignExtend op 0;
       let rhsSigned = ShouldSignExtend op 1;
       let eitherSigned = lhsSigned \<or> rhsSigned;
       let lhsWidth = GetPromotedWidth (SourceOperand_Width rt (op_src op ! 0)) lhsSigned eitherSigned;
       let rhsWidth = GetPromotedWidth (SourceOperand_Width rt (op_src op ! 1)) rhsSigned eitherSigned;
       let intermediateWidth = max lhsWidth rhsWidth;
       let (rt, xorResultRegister) = AllocateRegister rt intermediateWidth RT_Local;
       let xorOp = op\<lparr>op_opcode := BinaryOp Xor, op_dst := [DstRegister xorResultRegister]\<rparr>;
       (rt, invertOps, reductionTreeInputRegister, reduceOp) \<leftarrow>
         (if opType = EQ then do {
            let (rt, invertResultRegister) = AllocateRegister rt intermediateWidth RT_Local;
            Some (rt, [operation (UnaryOp Invert) (op_locations op) [(SrcRegister xorResultRegister, False)]
                (DstRegister invertResultRegister)], invertResultRegister, And) }
          else do {
            _ \<leftarrow> assert_that (opType = NE);
            Some (rt, [], xorResultRegister, Or) });
       (rt, reductionTree) \<leftarrow>
         ReduceBinaryOp device rt reductionTreeInputRegister reduceOp finalDestRegister (op_locations op);
       Some (rt, xorOp # invertOps @ reductionTree) }
   | _ \<Rightarrow> None)"

subsection \<open>What a reduction computes\<close>

definition reduction :: "ParseTreeBinaryOpType \<Rightarrow> (nat \<Rightarrow> bool) \<Rightarrow> nat \<Rightarrow> bool" where
  "reduction t P n \<longleftrightarrow> (if t = And then \<forall>i < n. P i else \<exists>i < n. P i)"

definition lut_of :: "ParseTreeBinaryOpType \<Rightarrow> 64 word" where
  "lut_of t = (if t = And then 8 else 14)"

lemma reduction_cong: "(\<And>i. i < n \<Longrightarrow> P i = Q i) \<Longrightarrow> reduction t P n = reduction t Q n"
  by (auto simp: reduction_def)

lemma reduction_one [simp]: "reduction t P 1 = P 0" "reduction t P (Suc 0) = P 0"
  by (simp_all add: reduction_def)

text \<open>Reducing groups of \<open>m\<close> bits and then the results reduces all bits.\<close>

lemma reduction_groups:
  assumes "0 < m" "D = (W + m - 1) div m"
  shows "reduction t (\<lambda>d. reduction t (\<lambda>i. P (d * m + i)) (min (d * m + m) W - d * m)) D = reduction t P W"
proof -
  have all: "\<exists>d < D. \<exists>i < min (d * m + m) W - d * m. d * m + i = k" if "k < W" for k
  proof (intro exI conjI)
    have "k div m * m + k mod m = k" by simp
    moreover have "k mod m < m" using assms(1) by simp
    ultimately show "k mod m < min (k div m * m + m) W - k div m * m" "k div m * m + k mod m = k"
      using that by linarith+
    have "k + m \<le> W + m - 1" using that by simp
    then have "(k + m) div m \<le> D" unfolding assms(2) by (rule div_le_mono)
    moreover have "(k + m) div m = Suc (k div m)" using assms(1) by (simp only: div_add_self2 less_not_refl3 Suc_eq_plus1)
    ultimately show "k div m < D" by simp
  qed
  then show ?thesis
    unfolding reduction_def by (auto; metis less_diff_conv add.commute min_less_iff_conj)
qed

lemma unat_low_bits: "unat (x AND 3 :: 64 word) = of_bool (bit x 0) + 2 * of_bool (bit x 1)"
proof -
  have "x AND 3 = take_bit 2 x"
    by (simp add: take_bit_eq_mask mask_eq_exp_minus_1)
  then have "unat (x AND 3) = take_bit 2 (unat x)"
    by (simp add: unsigned_take_bit_eq)
  also have "\<dots> = of_bool (bit (unat x) 0) + 2 * of_bool (bit (unat x) 1)"
    using take_bit_Suc_from_most[of 1 "unat x"] take_bit_Suc_from_most[of 0 "unat x"]
    by (simp add: numeral_2_eq_2)
  finally show ?thesis by (simp add: bit_unsigned_iff)
qed

lemma bit_ReduceRow:
  assumes "n < 64" "t \<in> {And, Or}"
  shows "bit (ReduceRow (lut_of t) n x) 0 = reduction t (bit x) (Suc n)"
  using assms(1)
proof (induction n arbitrary: x)
  case (Suc n)
  define y where "y = (drop_bit 1 x AND NOT 1) OR (drop_bit (unat (x AND 3)) (lut_of t) AND 1)"
  have step: "ReduceRow (lut_of t) (Suc n) x = ReduceRow (lut_of t) n y"
    by (simp only: y_def Let_def ReduceRow.simps)
  have "bit y 0 = bit (lut_of t) (of_bool (bit x 0) + 2 * of_bool (bit x 1))"
    by (simp add: y_def bit_or_iff bit_and_iff bit_not_iff bit_drop_bit_eq unat_low_bits)
  then have y0: "bit y 0 = (if t = And then bit x 0 \<and> bit x 1 else bit x 0 \<or> bit x 1)"
    using assms(2) by (auto simp: lut_of_def bit_pointwise_tables)
  have ySuc: "bit y (Suc i) = bit x (Suc (Suc i))" if "Suc i < 63" for i
    using that by (auto simp: y_def bit_or_iff bit_and_iff bit_not_iff bit_drop_bit_eq bit_1_iff)
  have "reduction t (bit y) (Suc n) = reduction t (bit x) (Suc (Suc n))"
    using Suc.prems ySuc unfolding reduction_def
    by (auto simp: y0 All_less_Suc2 Ex_less_Suc2)
  with Suc.IH[of y] Suc.prems show ?case unfolding step by simp
qed simp

lemma bit_fold_rows:
  "bit (fold (\<lambda>i t. t OR push_bit i (f i AND 1)) xs (t0 :: 64 word)) j \<longleftrightarrow>
     bit t0 j \<or> (j \<in> set xs \<and> j < 64 \<and> bit (f j) 0)"
proof (induction xs arbitrary: t0)
  case (Cons x xs)
  have "bit (push_bit x (f x AND 1)) j \<longleftrightarrow> x \<le> j \<and> j < 64 \<and> j - x = 0 \<and> bit (f x) 0"
    unfolding bit_push_bit_iff bit_and_iff bit_1_iff by auto
  then show ?case
    by (simp only: fold_simps Cons.IH bit_or_iff list.set) auto
qed simp

text \<open>An entry of the table reduces its group of bits.\<close>

lemma ReduceEntry_correct:
  assumes "2 \<le> m" "m \<le> c_maxLutSources" "t \<in> {And, Or}" "d * m < W"
  shows "\<exists>e. ReduceEntry m (lut_of t) W d = Some e \<and> entry_ok 1 e \<and>
    (\<forall>ev. entry_value ev e = reduction t (\<lambda>i. bit (ev 0) (d * m + i)) (min (d * m + m) W - d * m))"
proof -
  define n where "n = min (d * m + m) W - d * m"
  have n: "0 < n" "n \<le> 6" using assms by (auto simp: n_def c_maxLutSources_def)
  define T where "T = fold (\<lambda>i t'. t' OR push_bit i (ReduceRow (lut_of t) (n - 1) (of_nat i) AND 1)) [0..<2 ^ n] 0"
  define e where "e = \<lparr>le_sources = map (\<lambda>i. (0, d * m + i)) [0..<n], le_table = T\<rparr>"
  have e: "ReduceEntry m (lut_of t) W d = Some e"
    unfolding ReduceEntry_def Let_def n_def[symmetric] e_def T_def
    using assms(4) n by (simp add: c_maxLutSources_def)
  have pow: "(2::nat) ^ n \<le> 64"
    using power_increasing[OF n(2), of "2::nat"] by simp
  have T: "bit T j \<longleftrightarrow> j < 2 ^ n \<and> reduction t (bit j) n" for j
  proof -
    have "bit T j \<longleftrightarrow> j < 2 ^ n \<and> reduction t (bit (of_nat j :: 64 word)) n"
      using n pow by (simp only: T_def bit_fold_rows bit_ReduceRow[OF _ assms(3)]) (auto simp: bit_ReduceRow[OF _ assms(3)])
    moreover have "reduction t (bit (of_nat j :: 64 word)) n = reduction t (bit j) n"
      using n by (intro reduction_cong) (simp add: bit_of_nat_iff)
    ultimately show ?thesis by simp
  qed
  have "take_bit (2 ^ n) T = T"
    by (rule bit_eqI) (auto simp: bit_take_bit_iff T)
  then have "entry_ok 1 e"
    using n by (auto simp: entry_ok_def e_def c_maxLutSources_def)
  moreover have "entry_value ev e = reduction t (\<lambda>i. bit (ev 0) (d * m + i)) n" for ev
  proof -
    have "bit (tableRowIndex ev e) i = bit (ev 0) (d * m + i)" if "i < n" for i
      using that by (simp add: e_def)
    then have "reduction t (bit (tableRowIndex ev e)) n = reduction t (\<lambda>i. bit (ev 0) (d * m + i)) n"
      by (intro reduction_cong) simp
    moreover have "tableRowIndex ev e < 2 ^ n"
      using tableRowIndex_less[of ev e] by (simp add: e_def)
    ultimately show ?thesis
      by (simp add: entry_value_def T e_def)
  qed
  ultimately show ?thesis using e by (auto simp: n_def)
qed

text \<open>Operations that put the reduction of the bits of \<open>srcReg\<close> into \<open>dstReg\<close> and leave the other
  registers of the table alone.\<close>

definition reduces ::
  "ParseTreeBinaryOpType \<Rightarrow> RegisterTable \<Rightarrow> nat \<Rightarrow> nat \<Rightarrow> RegisterTable \<Rightarrow> Operation list \<Rightarrow> bool" where
  "reduces t rt srcReg dstReg rt' ops \<longleftrightarrow>
     prefix rt rt' \<and> (\<forall>d \<in> set (drop (length rt) rt'). 0 < rd_width d) \<and>
     (\<forall>rtf. prefix rt' rtf \<longrightarrow> ops_ok rtf ops \<and>
        (\<forall>env. env_ok rtf env \<longrightarrow>
           (\<exists>env'. exec_ops rtf ops env = Some env' \<and>
              (\<forall>r < length rt. r \<noteq> dstReg \<longrightarrow> env' r = env r) \<and>
              env' dstReg = of_bool (reduction t (bit (env srcReg)) (reg_width rt srcReg)))))"

lemma group_start_less: "0 < m \<Longrightarrow> d < (W + m - 1) div m \<Longrightarrow> d * m < (W::nat)"
proof -
  assume "0 < m" "d < (W + m - 1) div m"
  then have "(d + 1) * m \<le> (W + m - 1) div m * m" by (intro mult_right_mono) auto
  also have "\<dots> \<le> W + m - 1" by simp
  finally show ?thesis using \<open>0 < m\<close> by simp
qed

lemma ReduceLevelLut_correct:
  assumes "2 \<le> m" "m \<le> c_maxLutSources" "t \<in> {And, Or}" "0 < reg_width rt cur"
  defines "W \<equiv> reg_width rt cur" and "D \<equiv> (reg_width rt cur + m - 1) div m"
  shows "\<exists>es. ReduceLevelLut m (lut_of t) dst rt cur =
      Some (if 1 < D then rt @ [Local D] else rt, if 1 < D then length rt else dst,
        (new_operation (Lut es) {} [DstRegister (if 1 < D then length rt else dst)])\<lparr>op_src := [SrcRegister cur]\<rparr>, D) \<and>
    length es = D \<and> lut_ok 1 es \<and> 0 < D \<and>
    (\<forall>ev. \<forall>d < D. entry_value ev (es ! d) =
      reduction t (\<lambda>i. bit (ev 0) (d * m + i)) (min (d * m + m) W - d * m))"
proof -
  let ?P = "\<lambda>d e. entry_ok 1 e \<and> (\<forall>ev. entry_value ev e =
      reduction t (\<lambda>i. bit (ev 0) (d * m + i)) (min (d * m + m) W - d * m))"
  have "\<exists>e. ReduceEntry m (lut_of t) W d = Some e \<and> ?P d e" if "d \<in> set [0..<D]" for d
    using that assms(1-3) group_start_less[of m d W] by (intro ReduceEntry_correct) (auto simp: D_def W_def)
  from map_opt_exists[where P = ?P, OF this] obtain es where
    es: "map_opt (ReduceEntry m (lut_of t) W) [0..<D] = Some es" and all: "list_all2 ?P [0..<D] es" by blast
  have len: "length es = D" using list_all2_lengthD[OF all] by simp
  have each: "?P d (es ! d)" if "d < D" for d
    using list_all2_nthD[OF all, of d] that by simp
  have "m \<le> W + m - 1" using assms(4) by (simp add: W_def)
  then have "m div m \<le> D" unfolding D_def W_def by (rule div_le_mono)
  then have "0 < D" using assms(1) by simp
  moreover have "lut_ok 1 es"
    using each len by (auto simp: lut_ok_def in_set_conv_nth)
  moreover have "ReduceLevelLut m (lut_of t) dst rt cur =
      Some (if 1 < D then rt @ [Local D] else rt, if 1 < D then length rt else dst,
        (new_operation (Lut es) {} [DstRegister (if 1 < D then length rt else dst)])\<lparr>op_src := [SrcRegister cur]\<rparr>, D)"
    unfolding ReduceLevelLut_def Let_def W_def[symmetric] D_def[folded W_def, symmetric]
    using es \<open>0 < D\<close> assms(1) by (simp add: AllocateRegister_Local)
  ultimately show ?thesis
    using each len by (intro exI[of _ es]) simp
qed

lemma eval_reduce_level:
  assumes "env_ok rtf env" "cur < length rtf" "lut_ok 1 es" "length es = D" "D \<le> reg_width rtf dest"
    and "\<And>d. d < D \<Longrightarrow> entry_value (\<lambda>_. env cur) (es ! d) = P d"
  shows "eval_operation rtf env ((new_operation (Lut es) {} [DstRegister dest])\<lparr>op_src := [SrcRegister cur]\<rparr>) =
    Some (or_bits D P)"
proof -
  let ?op = "(new_operation (Lut es) {} [DstRegister dest])\<lparr>op_src := [SrcRegister cur]\<rparr>"
  have entry: "entry_value (src_values env ?op) (es ! d) = P d" if "d < D" for d
  proof -
    have "entry_ok 1 (es ! d)" using assms(3,4) that by (simp add: lut_ok_def)
    then have "fst (le_sources (es ! d) ! k) = 0" if "k < le_numSources (es ! d)" for k
      using that nth_mem[OF that] by (cases "le_sources (es ! d) ! k") (auto simp: entry_ok_def)
    then have "tableRowIndex (src_values env ?op) (es ! d) = tableRowIndex (\<lambda>_. env cur) (es ! d)"
      by (intro bit_eqI) auto
    with assms(6)[OF that] show ?thesis by (simp add: entry_value_def)
  qed
  have "or_bits D (\<lambda>d. entry_value (src_values env ?op) (es ! d)) = (or_bits D P :: int)"
    by (rule bit_eqI) (use entry in auto)
  moreover have "take_bit (reg_width rtf dest) (or_bits D P) = (or_bits D P :: int)"
    by (rule bit_eqI) (use assms(5) in \<open>auto simp: bit_take_bit_iff\<close>)
  moreover have "srcs_ok rtf ?op" using assms(2) by (simp add: srcs_ok_def)
  ultimately show ?thesis
    using map_opt_literals[of rtf ?op env] Lut_Evaluate_eq[OF lut_ok_sources[OF assms(3)]] assms(4)
    by (simp add: eval_operation_in_def new_operation_def)
qed

lemma or_bits_all: "reduction t (bit (or_bits D P :: int)) D = reduction t P D"
  by (intro reduction_cong) simp

lemma ceil_less: "2 \<le> m \<Longrightarrow> 1 < (W + m - 1) div m \<Longrightarrow> (W + m - 1) div m < (W::nat)"
proof -
  assume m: "2 \<le> m" and D: "1 < (W + m - 1) div m"
  let ?D = "(W + m - 1) div m"
  have "?D * 2 \<le> ?D * m" using m by (intro mult_left_mono) auto
  also have "\<dots> \<le> W + m - 1" by simp
  finally have a: "?D * 2 \<le> W + m - 1" .
  have "2 * m \<le> ?D * m" using D by (intro mult_right_mono) auto
  also have "\<dots> \<le> W + m - 1" by simp
  finally have "m < W" using m by simp
  show ?thesis
  proof (rule ccontr)
    assume "\<not> ?D < W"
    then have "W * m \<le> ?D * m" by (intro mult_right_mono) auto
    also have "\<dots> \<le> W + m - 1" by simp
    finally have "W * m \<le> W + m - 1" .
    moreover have "W * 2 \<le> W * m" using m by (intro mult_left_mono) auto
    ultimately show False using \<open>m < W\<close> by linarith
  qed
qed

text \<open>The tree of lookup tables ends and is a reduction.\<close>

lemma ReduceBinaryOpLut_correct:
  assumes "2 \<le> m" "m \<le> c_maxLutSources" "t \<in> {And, Or}" "dst < length rt" "0 < reg_width rt dst"
    and "cur < length rt" "0 < reg_width rt cur"
  shows "\<exists>rt' ops. ReduceBinaryOpLut m (lut_of t) dst rt cur = Some (rt', ops) \<and> reduces t rt cur dst rt' ops"
  using assms(4-7)
proof (induction "reg_width rt cur" arbitrary: rt cur rule: less_induct)
  case less
  define W where "W = reg_width rt cur"
  define D where "D = (W + m - 1) div m"
  obtain es where lev: "ReduceLevelLut m (lut_of t) dst rt cur =
      Some (if 1 < D then rt @ [Local D] else rt, if 1 < D then length rt else dst,
        (new_operation (Lut es) {} [DstRegister (if 1 < D then length rt else dst)])\<lparr>op_src := [SrcRegister cur]\<rparr>, D)"
    and es: "length es = D" "lut_ok 1 es" and D0: "0 < D"
    and ent: "\<And>ev d. d < D \<Longrightarrow> entry_value ev (es ! d) =
      reduction t (\<lambda>i. bit (ev 0) (d * m + i)) (min (d * m + m) W - d * m)"
    using ReduceLevelLut_correct[OF assms(1-3) less.prems(4), of dst] unfolding D_def W_def by blast
  define P where "P v d = reduction t (\<lambda>i. bit v (d * m + i)) (min (d * m + m) W - d * m)" for v :: int and d
  have groups: "reduction t (P v) D = reduction t (bit v) W" for v
    unfolding P_def using assms(1) by (intro reduction_groups) (auto simp: D_def)
  let ?op = "\<lambda>dest. (new_operation (Lut es) {} [DstRegister dest])\<lparr>op_src := [SrcRegister cur]\<rparr>"
  have run: "op_ok rtf (?op dest) \<and> exec_op rtf (?op dest) env = Some (env(dest := or_bits D (P (env cur)))) \<and>
      env_ok rtf (env(dest := or_bits D (P (env cur))))"
    if "env_ok rtf env" "cur < length rtf" "dest < length rtf" "D \<le> reg_width rtf dest" for rtf env dest
  proof -
    have ok: "op_ok rtf (?op dest)" using that by (simp add: op_ok_def srcs_ok_def new_operation_def)
    have "eval_operation rtf env (?op dest) = Some (or_bits D (P (env cur)))"
      using that ent[of _ "\<lambda>_. env cur"] es by (intro eval_reduce_level) (auto simp: P_def)
    with exec_emitted[OF that(1) ok] ok show ?thesis by (simp add: new_operation_def)
  qed
  show ?case
  proof (cases "D = 1")
    case True
    have "ReduceBinaryOpLut m (lut_of t) dst rt cur = Some (rt, [?op dst])"
      by (subst ReduceBinaryOpLut.simps) (simp add: lev True)
    moreover have "reduces t rt cur dst rt [?op dst]"
      unfolding reduces_def
    proof (intro conjI allI impI)
      fix rtf assume p: "prefix rt rtf"
      have len: "cur < length rtf" "dst < length rtf"
        using prefix_length_less[OF p] less.prems by blast+
      show "ops_ok rtf [?op dst]" using len by (simp add: op_ok_def srcs_ok_def new_operation_def)
      fix env assume env: "env_ok rtf env"
      have "or_bits 1 (P (env cur)) = (of_bool (reduction t (bit (env cur)) W) :: int)"
        using groups[of "env cur"] True by (intro bit_eqI) (auto simp: bit_of_bool_iff)
      with run[OF env len] reg_width_prefix[OF p less.prems(1)] less.prems(2) True
      show "\<exists>env'. exec_ops rtf [?op dst] env = Some env' \<and> (\<forall>r < length rt. r \<noteq> dst \<longrightarrow> env' r = env r) \<and>
          env' dst = of_bool (reduction t (bit (env cur)) (reg_width rt cur))"
        by (simp add: W_def)
    qed simp_all
    ultimately show ?thesis by blast
  next
    case False
    then have D1: "1 < D" using D0 by simp
    let ?rt = "rt @ [Local D]"
    have w1: "reg_width ?rt (length rt) = D" "reg_width ?rt dst = reg_width rt dst"
      using less.prems(1) by (simp_all add: reg_width_def nth_append)
    have "D < W" using ceil_less[OF assms(1)] D1 by (simp add: D_def)
    then obtain rt' ops where rec: "ReduceBinaryOpLut m (lut_of t) dst ?rt (length rt) = Some (rt', ops)"
      and red: "reduces t ?rt (length rt) dst rt' ops"
      using less.hyps[of ?rt "length rt"] less.prems w1 D1 by (auto simp: W_def)
    have "ReduceBinaryOpLut m (lut_of t) dst rt cur = Some (rt', ?op (length rt) # ops)"
      by (subst ReduceBinaryOpLut.simps) (simp add: lev D1 D1[unfolded One_nat_def] False False[unfolded One_nat_def] rec)
    moreover have "reduces t rt cur dst rt' (?op (length rt) # ops)"
      unfolding reduces_def
    proof (intro conjI allI impI ballI)
      have pp: "prefix ?rt rt'" using red by (simp add: reduces_def)
      then show "prefix rt rt'" by (auto simp: prefix_def)
      show "0 < rd_width d" if "d \<in> set (drop (length rt) rt')" for d
        using that red pp D1 by (auto simp: reduces_def prefix_def)
      fix rtf assume p: "prefix rt' rtf"
      have p1: "prefix ?rt rtf" using pp p by (rule prefix_order.trans)
      note new = new_register[OF p1]
      have len: "cur < length rtf" using prefix_length_less[OF new(3)] less.prems by blast
      show "ops_ok rtf (?op (length rt) # ops)"
        using len new(1) p red by (simp add: reduces_def op_ok_def srcs_ok_def new_operation_def)
      fix env assume env: "env_ok rtf env"
      define e1 where "e1 = env(length rt := or_bits D (P (env cur)))"
      have s1: "exec_op rtf (?op (length rt)) env = Some e1" "env_ok rtf e1"
        using run[OF env len new(1)] new(2) by (simp_all add: e1_def)
      then obtain e2 where e2: "exec_ops rtf ops e1 = Some e2" "\<And>r. r < length ?rt \<Longrightarrow> r \<noteq> dst \<Longrightarrow> e2 r = e1 r"
          "e2 dst = of_bool (reduction t (bit (e1 (length rt))) (reg_width ?rt (length rt)))"
        using red p unfolding reduces_def by blast
      have "reduction t (bit (e1 (length rt))) D = reduction t (bit (env cur)) W"
        by (simp add: e1_def or_bits_all groups)
      with s1 e2 w1(1) show "\<exists>env'. exec_ops rtf (?op (length rt) # ops) env = Some env' \<and>
          (\<forall>r < length rt. r \<noteq> dst \<longrightarrow> env' r = env r) \<and>
          env' dst = of_bool (reduction t (bit (env cur)) (reg_width rt cur))"
        by (intro exI[of _ e2]) (simp add: W_def e1_def)
    qed
    ultimately show ?thesis by blast
  qed
qed

subsection \<open>The tree of two-input operations\<close>

definition bits_reduction :: "ParseTreeBinaryOpType \<Rightarrow> (nat \<Rightarrow> int) \<Rightarrow> nat list \<Rightarrow> bool" where
  "bits_reduction t env regs \<longleftrightarrow> (if t = And then \<forall>r \<in> set regs. env r = 1 else \<exists>r \<in> set regs. env r = 1)"

definition is_bit :: "int \<Rightarrow> bool" where
  "is_bit v \<longleftrightarrow> v = 0 \<or> v = 1"

lemma is_bit_of_bool [simp]: "is_bit (of_bool b)"
  by (simp add: is_bit_def)

text \<open>Operations that replace one-bit registers by fewer ones with the same reduction.\<close>

definition narrows ::
  "ParseTreeBinaryOpType \<Rightarrow> RegisterTable \<Rightarrow> nat list \<Rightarrow> RegisterTable \<Rightarrow> Operation list \<Rightarrow> nat list \<Rightarrow> bool" where
  "narrows t rt regs rt' ops regs' \<longleftrightarrow>
     prefix rt rt' \<and> (\<forall>d \<in> set (drop (length rt) rt'). 0 < rd_width d) \<and> set regs' \<subseteq> {..<length rt'} \<and>
     (\<forall>rtf. prefix rt' rtf \<longrightarrow> ops_ok rtf ops \<and>
        (\<forall>env. env_ok rtf env \<longrightarrow> (\<forall>r \<in> set regs. is_bit (env r)) \<longrightarrow>
           (\<exists>env'. exec_ops rtf ops env = Some env' \<and> env_ok rtf env' \<and> agree (length rt) env env' \<and>
              (\<forall>r \<in> set regs'. is_bit (env' r)) \<and> bits_reduction t env' regs' = bits_reduction t env regs)))"

lemma narrows_refl: "set regs \<subseteq> {..<length rt} \<Longrightarrow> narrows t rt regs rt [] regs"
  by (simp add: narrows_def)

lemma drop_prefix_widths:
  assumes "prefix rt rt1" "prefix rt1 rt2" "\<forall>d \<in> set (drop (length rt) rt1). 0 < rd_width d"
    and "\<forall>d \<in> set (drop (length rt1) rt2). 0 < rd_width d"
  shows "\<forall>d \<in> set (drop (length rt) rt2). 0 < rd_width d"
  using assms by (auto simp: prefix_def)

lemma narrows_trans:
  assumes "narrows t rt regs rt1 ops1 regs1" "narrows t rt1 regs1 rt2 ops2 regs2"
  shows "narrows t rt regs rt2 (ops1 @ ops2) regs2"
proof -
  have p: "prefix rt rt1" "prefix rt1 rt2" using assms by (simp_all add: narrows_def)
  show ?thesis
    unfolding narrows_def
  proof (intro conjI allI impI)
    show "prefix rt rt2" using p by (rule prefix_order.trans)
    show "\<forall>d \<in> set (drop (length rt) rt2). 0 < rd_width d"
      using assms by (intro drop_prefix_widths[OF p]) (simp_all add: narrows_def)
    show "set regs2 \<subseteq> {..<length rt2}" using assms(2) by (simp add: narrows_def)
    fix rtf assume pf: "prefix rt2 rtf"
    have pf1: "prefix rt1 rtf" using p(2) pf by (rule prefix_order.trans)
    show "ops_ok rtf (ops1 @ ops2)" using assms pf pf1 by (simp add: narrows_def)
    fix env assume env: "env_ok rtf env" "\<forall>r \<in> set regs. is_bit (env r)"
    obtain e1 where e1: "exec_ops rtf ops1 env = Some e1" "env_ok rtf e1" "agree (length rt) env e1"
        "\<forall>r \<in> set regs1. is_bit (e1 r)" "bits_reduction t e1 regs1 = bits_reduction t env regs"
      using assms(1) pf1 env unfolding narrows_def by blast
    obtain e2 where e2: "exec_ops rtf ops2 e1 = Some e2" "env_ok rtf e2" "agree (length rt1) e1 e2"
        "\<forall>r \<in> set regs2. is_bit (e2 r)" "bits_reduction t e2 regs2 = bits_reduction t e1 regs1"
      using assms(2) pf e1(2,4) unfolding narrows_def by blast
    show "\<exists>env'. exec_ops rtf (ops1 @ ops2) env = Some env' \<and> env_ok rtf env' \<and> agree (length rt) env env' \<and>
        (\<forall>r \<in> set regs2. is_bit (env' r)) \<and> bits_reduction t env' regs2 = bits_reduction t env regs"
      using e1 e2 agree_trans[OF e1(3) e2(3) prefix_length_le[OF p(1)]] by (intro exI[of _ e2]) simp
  qed
qed

lemma combine_bits:
  assumes "t \<in> {And, Or}" "is_bit a" "is_bit b"
  shows "take_bit 1 (binop_spec t a b) = of_bool (if t = And then a = 1 \<and> b = 1 else a = 1 \<or> b = 1)"
  using assms by (elim insertE emptyE; unfold is_bit_def; elim disjE) (simp_all add: binop_spec_def)

text \<open>One pair: the first two registers are replaced by their combination.\<close>

lemma narrows_pair:
  assumes "t \<in> {And, Or}" "set (a # b # regs) \<subseteq> {..<length rt}"
  shows "narrows t rt (a # b # regs) (rt @ [Local 1])
    [operation (BinaryOp t) {} [(SrcRegister a, False), (SrcRegister b, False)] (DstRegister (length rt))]
    (length rt # regs)"
  unfolding narrows_def
proof (intro conjI allI impI)
  let ?op = "operation (BinaryOp t) {} [(SrcRegister a, False), (SrcRegister b, False)] (DstRegister (length rt))"
  fix rtf assume p: "prefix (rt @ [Local 1]) rtf"
  note new = new_register[OF p]
  have ab: "operand_ok rtf (SrcRegister a)" "operand_ok rtf (SrcRegister b)"
    using assms(2) new(1) by auto
  show ok: "ops_ok rtf [?op]" using ab new(1) by (simp add: op_ok_operation)
  fix env assume env: "env_ok rtf env" "\<forall>r \<in> set (a # b # regs). is_bit (env r)"
  define v :: int where "v = of_bool (if t = And then env a = 1 \<and> env b = 1 else env a = 1 \<or> env b = 1)"
  have "binop_pre t False False 1 (env a) (env b)" using assms(1) by (auto simp: binop_pre_def)
  then have "eval_operation rtf env ?op = Some v"
    using eval_emitted_binary[OF env(1) ab new(1), of t False False] combine_bits[OF assms(1), of "env a" "env b"]
      env(2) new(2) by (simp add: v_def)
  then have ex: "exec_op rtf ?op env = Some (env(length rt := v))" "env_ok rtf (env(length rt := v))"
    using exec_emitted[OF env(1), of ?op "length rt"] ok by simp_all
  have fresh: "\<forall>r \<in> set regs. r \<noteq> length rt" using assms(2) by auto
  have keep: "(env(length rt := v)) r = env r" if "r \<in> set (a # b # regs)" for r
    using assms(2) that by auto
  show "\<exists>env'. exec_ops rtf [?op] env = Some env' \<and> env_ok rtf env' \<and> agree (length rt) env env' \<and>
      (\<forall>r \<in> set (length rt # regs). is_bit (env' r)) \<and>
      bits_reduction t env' (length rt # regs) = bits_reduction t env (a # b # regs)"
  proof (intro exI conjI)
    show "exec_ops rtf [?op] env = Some (env(length rt := v))" using ex(1) by simp
    show "\<forall>r \<in> set (length rt # regs). is_bit ((env(length rt := v)) r)"
      using env(2) keep by (simp add: v_def)
    show "bits_reduction t (env(length rt := v)) (length rt # regs) = bits_reduction t env (a # b # regs)"
      using fresh by (cases "t = And") (auto simp: bits_reduction_def v_def)
  qed (use ex(2) in simp_all)
qed (use assms(2) in auto)

lemma narrows_carry:
  assumes "narrows t rt regs rt' ops regs'" "set xs \<subseteq> {..<length rt}"
  shows "narrows t rt (xs @ regs) rt' ops (xs @ regs')"
  unfolding narrows_def
proof (intro conjI allI impI)
  have p: "prefix rt rt'" using assms(1) by (simp add: narrows_def)
  then show "prefix rt rt'" .
  show "set (xs @ regs') \<subseteq> {..<length rt'}"
    using assms prefix_length_le[OF p] by (auto simp: narrows_def)
  show "\<forall>d \<in> set (drop (length rt) rt'). 0 < rd_width d" using assms(1) by (simp add: narrows_def)
  fix rtf assume pf: "prefix rt' rtf"
  show "ops_ok rtf ops" using assms(1) pf by (simp add: narrows_def)
  fix env assume env: "env_ok rtf env" "\<forall>r \<in> set (xs @ regs). is_bit (env r)"
  then obtain e where e: "exec_ops rtf ops env = Some e" "env_ok rtf e" "agree (length rt) env e"
      "\<forall>r \<in> set regs'. is_bit (e r)" "bits_reduction t e regs' = bits_reduction t env regs"
    using assms(1) pf unfolding narrows_def by force
  have keep: "e r = env r" if "r \<in> set xs" for r
    using e(3) assms(2) that by (auto simp: agree_def)
  have "bits_reduction t e (xs @ regs') = bits_reduction t env (xs @ regs)"
    using e(5) keep by (cases "t = And") (simp_all add: bits_reduction_def ball_Un bex_Un)
  then show "\<exists>env'. exec_ops rtf ops env = Some env' \<and> env_ok rtf env' \<and> agree (length rt) env env' \<and>
      (\<forall>r \<in> set (xs @ regs'). is_bit (env' r)) \<and> bits_reduction t env' (xs @ regs') = bits_reduction t env (xs @ regs)"
    using e env(2) keep by (intro exI[of _ e]) (simp add: ball_Un)
qed

lemma ReducePairs_narrows:
  assumes "t \<in> {And, Or}" "set regs \<subseteq> {..<length rt}" "ReducePairs t rt regs = (rt', ops, regs')"
  shows "narrows t rt regs rt' ops regs'"
  using assms
proof (induction t rt regs arbitrary: rt' ops regs' rule: ReducePairs.induct)
  case (1 t rt a b regs)
  obtain rt2 ops2 regs2 where rec: "ReducePairs t (rt @ [Local 1]) regs = (rt2, ops2, regs2)"
    by (cases "ReducePairs t (rt @ [Local 1]) regs") auto
  let ?op = "operation (BinaryOp t) {} [(SrcRegister a, False), (SrcRegister b, False)] (DstRegister (length rt))"
  have eq: "rt' = rt2" "ops = [?op] @ ops2" "regs' = [length rt] @ regs2"
    using "1.prems"(3) rec by (auto simp: AllocateRegister_Local)
  have sub: "set regs \<subseteq> {..<length (rt @ [Local 1])}" using "1.prems"(2) by auto
  have "narrows t (rt @ [Local 1]) regs rt2 ops2 regs2"
    using "1.IH"[OF refl _ refl "1.prems"(1) sub rec, of "length rt"] by (simp add: AllocateRegister_Local)
  then have "narrows t (rt @ [Local 1]) ([length rt] @ regs) rt2 ops2 ([length rt] @ regs2)"
    by (rule narrows_carry) simp
  with narrows_pair[OF "1.prems"(1,2)] show ?case
    unfolding eq by (intro narrows_trans) simp_all
qed (auto intro: narrows_refl)

lemma ReduceLevels_narrows:
  assumes "t \<in> {And, Or}" "set regs \<subseteq> {..<length rt}" "ReduceLevels t rt regs = (rt', ops, regs')"
  shows "narrows t rt regs rt' ops regs' \<and> length regs' = min 1 (length regs)"
  using assms
proof (induction t rt regs arbitrary: rt' ops regs' rule: ReduceLevels.induct)
  case (1 t rt regs)
  show ?case
  proof (cases "length regs > 1")
    case True
    obtain rt1 ops1 regs1 where p: "ReducePairs t rt regs = (rt1, ops1, regs1)"
      by (cases "ReducePairs t rt regs") auto
    obtain rt2 ops2 regs2 where l: "ReduceLevels t rt1 regs1 = (rt2, ops2, regs2)"
      by (cases "ReduceLevels t rt1 regs1") auto
    have eq: "rt' = rt2" "ops = ops1 @ ops2" "regs' = regs2"
      using "1.prems"(3) True p l by (simp_all add: ReduceLevels.simps[of t rt regs])
    note n1 = ReducePairs_narrows[OF "1.prems"(1,2) p]
    have "narrows t rt1 regs1 rt2 ops2 regs2 \<and> length regs2 = min 1 (length regs1)"
      using "1.IH"[OF True p[symmetric] refl refl "1.prems"(1) _ l] n1 by (simp add: narrows_def)
    moreover have "length regs1 = (length regs + 1) div 2"
      using ReducePairs_length[of t rt regs] p by simp
    ultimately show ?thesis
      using narrows_trans[OF n1] True unfolding eq by (auto simp: min_def)
  next
    case False
    with "1.prems" narrows_refl[of regs rt t] show ?thesis
      by (auto simp: ReduceLevels.simps[of t rt regs])
  qed
qed

lemma ReductionBits_eq:
  "ReductionBits srcReg is rt =
     (rt @ replicate (length is) (Local 1),
      map (\<lambda>p. operation (BinaryOp Shr) {} [(SrcRegister srcReg, False), (SourceOperand_size (is ! p), False)]
          (DstRegister (length rt + p))) [0..<length is],
      [length rt..<length rt + length is])"
proof (induction "is" arbitrary: rt)
  case (Cons i "is")
  have "[0..<length (i # is)] = 0 # map Suc [0..<length is]"
    by (simp add: upt_conv_Cons map_Suc_upt del: upt_Suc)
  then show ?case
    by (simp add: Cons.IH AllocateRegister_Local comp_def upt_conv_Cons del: upt_Suc)
qed simp

text \<open>The bits of the source register, one per new register.\<close>

lemma exec_ReductionBits:
  assumes "srcReg < m" "m + n \<le> length rtf" "\<And>p. p < n \<Longrightarrow> reg_width rtf (m + p) = 1"
    and "n < 2 ^ 63" "env_ok rtf env"
  shows "\<exists>env'. exec_ops rtf (map (\<lambda>p. operation (BinaryOp Shr) {}
        [(SrcRegister srcReg, False), (SourceOperand_size p, False)] (DstRegister (m + p))) [0..<n]) env = Some env' \<and>
      env_ok rtf env' \<and> agree m env env' \<and> (\<forall>p < n. env' (m + p) = of_bool (bit (env srcReg) p))"
  using assms(2-4)
proof (induction n)
  case 0
  then show ?case using assms(5) by simp
next
  case (Suc n)
  then obtain e where e: "exec_ops rtf (map (\<lambda>p. operation (BinaryOp Shr) {}
        [(SrcRegister srcReg, False), (SourceOperand_size p, False)] (DstRegister (m + p))) [0..<n]) env = Some e"
      "env_ok rtf e" "agree m env e" "\<forall>p < n. e (m + p) = of_bool (bit (env srcReg) p)"
    by auto
  let ?op = "operation (BinaryOp Shr) {} [(SrcRegister srcReg, False), (SourceOperand_size n, False)] (DstRegister (m + n))"
  have ok: "operand_ok rtf (SrcRegister srcReg)" "operand_ok rtf (SourceOperand_size n)" "m + n < length rtf"
    using assms(1) Suc.prems by simp_all
  have same: "e srcReg = env srcReg" using e(3) assms(1) by (simp add: agree_def)
  have one: "drop_bit n x mod 2 = of_bool (bit x n)" for x :: int
    by (simp add: bit_iff_odd_drop_bit mod_2_eq_odd)
  have "binop_pre Shr False False 1 (e srcReg) (int n)"
    using Suc.prems by (simp add: binop_pre_def size_t_max_def)
  then have "eval_operation rtf e ?op = Some (of_bool (bit (env srcReg) n))"
    using eval_emitted_binary[OF e(2) ok, of Shr False False] Suc.prems(2)[of n] same
    by (simp add: binop_spec_def one del: SourceOperand_size_simps(3))
  moreover have "op_ok rtf ?op" using ok by (simp add: op_ok_operation del: SourceOperand_size_simps(3))
  moreover define e' where "e' = e(m + n := of_bool (bit (env srcReg) n))"
  ultimately have ex: "exec_op rtf ?op e = Some e'" "env_ok rtf e'"
    using exec_emitted[OF e(2), of ?op "m + n"] by simp_all
  have "agree m env e'" using e(3) by (simp add: agree_def e'_def)
  moreover have "e' (m + p) = of_bool (bit (env srcReg) p)" if "p < Suc n" for p
    using that e(4) by (auto simp: e'_def less_Suc_eq)
  ultimately show ?case
    using e(1) ex by (intro exI[of _ e']) simp
qed

lemma ReduceBinaryOpNoLut_correct:
  assumes "t \<in> {And, Or}" "dst < length rt" "0 < reg_width rt dst"
    and "cur < length rt" "0 < reg_width rt cur" "reg_width rt cur < 2 ^ 63"
  shows "\<exists>rt' ops. ReduceBinaryOpNoLut rt cur t dst = Some (rt', ops) \<and> reduces t rt cur dst rt' ops"
proof -
  define W where "W = reg_width rt cur"
  let ?rt1 = "rt @ replicate W (Local 1)" and ?regs = "[length rt..<length rt + W]"
  let ?bits = "map (\<lambda>p. operation (BinaryOp Shr) {} [(SrcRegister cur, False), (SourceOperand_size p, False)]
      (DstRegister (length rt + p))) [0..<W]"
  obtain rt2 ops regs where lev: "ReduceLevels t ?rt1 ?regs = (rt2, ops, regs)"
    by (cases "ReduceLevels t ?rt1 ?regs") auto
  have nar: "narrows t ?rt1 ?regs rt2 ops regs" and len: "length regs = 1"
  proof -
    have "set ?regs \<subseteq> {..<length ?rt1}" by auto
    from ReduceLevels_narrows[OF assms(1) this lev] assms(5)
    show "narrows t ?rt1 ?regs rt2 ops regs" "length regs = 1" by (simp_all add: W_def)
  qed
  obtain q where q: "regs = [q]" using len by (cases regs) auto
  let ?mov = "operation Mov {} [(SrcRegister q, False)] (DstRegister dst)"
  have eq: "ReduceBinaryOpNoLut rt cur t dst = Some (rt2, ?bits @ ops @ [?mov])"
    unfolding ReduceBinaryOpNoLut_def ReductionBits_eq W_def[symmetric] Let_def
    by (simp add: lev lev[unfolded One_nat_def] q cong: map_cong)
  have p12: "prefix ?rt1 rt2" and q2: "q < length rt2" using nar q unfolding narrows_def by auto
  have "reduces t rt cur dst rt2 (?bits @ ops @ [?mov])"
    unfolding reduces_def
  proof (intro conjI allI impI)
    show "prefix rt rt2" using p12 by (auto simp: prefix_def)
    show "\<forall>d \<in> set (drop (length rt) rt2). 0 < rd_width d"
    proof (rule drop_prefix_widths[OF _ p12])
      show "\<forall>d \<in> set (drop (length ?rt1) rt2). 0 < rd_width d"
        using nar unfolding narrows_def by blast
    qed simp_all
    fix rtf assume p: "prefix rt2 rtf"
    have p1: "prefix ?rt1 rtf" using p12 p by (rule prefix_order.trans)
    have p0: "prefix rt rtf" using p1 by (auto simp: prefix_def)
    have lens: "length rt + W \<le> length rtf" "cur < length rtf" "dst < length rtf" "q < length rtf"
      using prefix_length_le[OF p1] prefix_length_less[OF p0] prefix_length_less[OF p] assms q2 by auto
    have w1: "reg_width rtf (length rt + i) = 1" if "i < W" for i
      using reg_width_prefix[OF p1, of "length rt + i"] that by (simp add: reg_width_def nth_append)
    have sizes: "operand_ok rtf (SourceOperand_size i)" if "i < W" for i
      using that assms(6) by (simp add: W_def)
    show "ops_ok rtf (?bits @ ops @ [?mov])"
    proof -
      have "ops_ok rtf ops" using nar p unfolding narrows_def by blast
      moreover have "ops_ok rtf ?bits"
        using lens sizes by (auto simp: op_ok_operation ops_ok_def list_all_iff simp del: SourceOperand_size_simps(3))
      ultimately show ?thesis using lens by (simp add: op_ok_operation)
    qed
    fix env assume env: "env_ok rtf env"
    obtain e1 where e1: "exec_ops rtf ?bits env = Some e1" "env_ok rtf e1" "agree (length rt) env e1"
        "\<forall>i < W. e1 (length rt + i) = of_bool (bit (env cur) i)"
      using exec_ReductionBits[OF assms(4) lens(1) w1 _ env] assms(6) by (auto simp: W_def)
    have reg: "e1 r = of_bool (bit (env cur) (r - length rt))" if "r \<in> set ?regs" for r
      using e1(4) that by (auto dest: spec[of _ "r - length rt"])
    then have bits: "\<forall>r \<in> set ?regs. is_bit (e1 r)" by simp
    obtain e2 where e2: "exec_ops rtf ops e1 = Some e2" "env_ok rtf e2" "agree (length ?rt1) e1 e2"
        "is_bit (e2 q)" "bits_reduction t e2 [q] = bits_reduction t e1 ?regs"
      using nar p e1(2) bits q unfolding narrows_def by (metis list.set_intros(1))
    have "bits_reduction t e1 ?regs = reduction t (bit (env cur)) W"
    proof -
      have "set ?regs = (\<lambda>i. length rt + i) ` {..<W}" by (auto simp: image_iff dest!: le_Suc_ex)
      then show ?thesis using e1(4) by (auto simp: bits_reduction_def reduction_def)
    qed
    then have e2q: "e2 q = of_bool (reduction t (bit (env cur)) W)"
      using e2(4,5) by (auto simp: bits_reduction_def is_bit_def split: if_splits)
    have "exec_op rtf ?mov e2 = Some (e2(dst := of_bool (reduction t (bit (env cur)) W)))"
      using eval_emitted_mov[OF e2(2), of "SrcRegister q" dst "{}" False] lens e2q
        reg_width_prefix[OF p0 assms(2)] assms(3)
      by (simp add: exec_op_eq)
    with e1 e2 show "\<exists>env'. exec_ops rtf (?bits @ ops @ [?mov]) env = Some env' \<and>
        (\<forall>r < length rt. r \<noteq> dst \<longrightarrow> env' r = env r) \<and>
        env' dst = of_bool (reduction t (bit (env cur)) (reg_width rt cur))"
      by (intro exI[of _ "e2(dst := of_bool (reduction t (bit (env cur)) W))"]) (auto simp: agree_def W_def)
  qed
  with eq show ?thesis by blast
qed

subsection \<open>Either tree\<close>

text \<open>The device either has no lookup tables or small ones with two to six inputs.\<close>

definition device_ok :: "DeviceConfig \<Rightarrow> bool" where
  "device_ok device \<longleftrightarrow>
     (supportsLuts device \<longrightarrow> 2 \<le> smallLutSize device \<and> smallLutSize device \<le> c_maxLutSources)"

lemma SetOperationLocation_simps [simp]:
  "exec_op rt (SetOperationLocation ls op) = exec_op rt op"
  "op_ok rt (SetOperationLocation ls op) = op_ok rt op"
  by (auto simp: SetOperationLocation_def exec_op_def op_ok_def srcs_ok_def fun_eq_iff)

lemma exec_ops_locations [simp]:
  "exec_ops rt (map (SetOperationLocation ls) ops) = exec_ops rt ops"
  "ops_ok rt (map (SetOperationLocation ls) ops) = ops_ok rt ops"
proof -
  show "exec_ops rt (map (SetOperationLocation ls) ops) = exec_ops rt ops"
    by (rule ext, induction ops) (auto split: bind_splits intro!: Option.bind_cong)
  show "ops_ok rt (map (SetOperationLocation ls) ops) = ops_ok rt ops"
    by (induction ops) simp_all
qed

lemma ReduceBinaryOp_correct:
  assumes "device_ok device" "t \<in> {And, Or}" "dst < length rt" "0 < reg_width rt dst"
    and "cur < length rt" "0 < reg_width rt cur" "reg_width rt cur < 2 ^ 63" "ls \<noteq> {}"
  shows "\<exists>rt' ops. ReduceBinaryOp device rt cur t dst ls = Some (rt', ops) \<and> reduces t rt cur dst rt' ops"
proof -
  have "\<exists>rt' ops. (if supportsLuts device then ReduceBinaryOpLut (smallLutSize device) (lut_of t) dst rt cur
      else ReduceBinaryOpNoLut rt cur t dst) = Some (rt', ops) \<and> reduces t rt cur dst rt' ops"
    using ReduceBinaryOpLut_correct[OF _ _ assms(2-6), of "smallLutSize device"]
      ReduceBinaryOpNoLut_correct[OF assms(2-7)] assms(1)
    by (auto simp: device_ok_def)
  then obtain rt' ops where *: "(if supportsLuts device then ReduceBinaryOpLut (smallLutSize device) (lut_of t) dst rt cur
      else ReduceBinaryOpNoLut rt cur t dst) = Some (rt', ops)" "reduces t rt cur dst rt' ops" by blast
  have "ReduceBinaryOp device rt cur t dst ls = Some (rt', map (SetOperationLocation ls) ops)"
    using *(1) assms(2,8) by (auto simp: ReduceBinaryOp_def lut_of_def split: if_splits)
  moreover have "reduces t rt cur dst rt' (map (SetOperationLocation ls) ops)"
    using *(2) by (simp add: reduces_def)
  ultimately show ?thesis by blast
qed

subsection \<open>Equality\<close>

text \<open>At the promoted width two operands are equal if and only if their bit patterns are, whatever
  their signedness.\<close>

lemma promoted_inj:
  assumes "operand_ok rt s0" "operand_ok rt s1" "env_ok rt env"
    and "m = max (GetPromotedWidth (SourceOperand_Width rt s0) e0 (e0 \<or> e1))
           (GetPromotedWidth (SourceOperand_Width rt s1) e1 (e0 \<or> e1))"
  shows "take_bit m (operand_int rt env s0 e0) = take_bit m (operand_int rt env s1 e1) \<longleftrightarrow>
    operand_int rt env s0 e0 = operand_int rt env s1 e1"
proof
  assume eq: "take_bit m (operand_int rt env s0 e0) = take_bit m (operand_int rt env s1 e1)"
  have "2 ^ m dvd operand_int rt env s0 e0 - operand_int rt env s1 e1"
    using eq by (simp add: take_bit_eq_mod mod_eq_dvd_iff)
  moreover note difference_range[OF assms]
  ultimately show "operand_int rt env s0 e0 = operand_int rt env s1 e1"
    using zdvd_imp_le[of "2 ^ m" "operand_int rt env s0 e0 - operand_int rt env s1 e1"]
      zdvd_imp_le[of "2 ^ m" "operand_int rt env s1 e1 - operand_int rt env s0 e0"]
    by (cases "operand_int rt env s0 e0" "operand_int rt env s1 e1" rule: linorder_cases)
      (auto simp: dvd_diff_commute)
qed simp

lemma reduction_xor:
  "reduction Or (bit (take_bit m (a XOR b))) m \<longleftrightarrow> take_bit m a \<noteq> take_bit m (b::int)"
  "reduction And (bit (take_bit m (NOT (take_bit m (a XOR b))))) m \<longleftrightarrow> take_bit m a = take_bit m b"
proof -
  have "take_bit m a = take_bit m b \<longleftrightarrow> (\<forall>i < m. bit a i = bit b i)"
    by (auto simp: bit_eq_iff bit_take_bit_iff)
  then show "reduction Or (bit (take_bit m (a XOR b))) m \<longleftrightarrow> take_bit m a \<noteq> take_bit m b"
    "reduction And (bit (take_bit m (NOT (take_bit m (a XOR b))))) m \<longleftrightarrow> take_bit m a = take_bit m b"
    by (auto simp: reduction_def bit_take_bit_iff bit_xor_iff bit_not_iff)
qed

definition equality_ok :: "RegisterTable \<Rightarrow> Operation \<Rightarrow> bool" where
  "equality_ok rt op \<longleftrightarrow> op_opcode op \<in> {BinaryOp EQ, BinaryOp NE} \<and> length (op_src op) = 2 \<and>
     list_all (\<lambda>s. SourceOperand_Width rt s < 2 ^ 62) (op_src op) \<and> op_locations op \<noteq> {}"

text \<open>Operations that put a truth value into register \<open>r\<close>.\<close>

definition decides ::
  "RegisterTable \<Rightarrow> nat \<Rightarrow> RegisterTable \<Rightarrow> Operation list \<Rightarrow> ((nat \<Rightarrow> int) \<Rightarrow> bool) \<Rightarrow> bool" where
  "decides rt r rt' ops f \<longleftrightarrow>
     prefix rt rt' \<and> (\<forall>d \<in> set (drop (length rt) rt'). 0 < rd_width d) \<and>
     (\<forall>rtf. prefix rt' rtf \<longrightarrow> ops_ok rtf ops \<and> (\<forall>env. env_ok rtf env \<longrightarrow>
        (\<exists>env'. exec_ops rtf ops env = Some env' \<and> agree (length rt) (env(r := of_bool (f env))) env')))"

text \<open>Code that runs in front of a reduction tree and fills the register it reads.\<close>

lemma decides_reduction:
  assumes red: "reduces t rt1 q r rt' tree" and p: "prefix rt rt1" and r: "r < length rt"
    and wid: "\<forall>d \<in> set (drop (length rt) rt1). 0 < rd_width d"
    and pre: "\<And>rtf env. prefix rt1 rtf \<Longrightarrow> ops_ok rtf ops"
    and run: "\<And>rtf env. prefix rt1 rtf \<Longrightarrow> env_ok rtf env \<Longrightarrow>
      \<exists>e. exec_ops rtf ops env = Some e \<and> env_ok rtf e \<and> agree (length rt) env e \<and>
        reduction t (bit (e q)) (reg_width rt1 q) = f env"
  shows "decides rt r rt' (ops @ tree) f"
  unfolding decides_def
proof (intro conjI allI impI)
  have pp: "prefix rt1 rt'" and wid': "\<forall>d \<in> set (drop (length rt1) rt'). 0 < rd_width d"
    using red unfolding reduces_def by blast+
  show "prefix rt rt'" using p pp by (rule prefix_order.trans)
  show "\<forall>d \<in> set (drop (length rt) rt'). 0 < rd_width d"
    by (rule drop_prefix_widths[OF p pp wid wid'])
  fix rtf assume pf: "prefix rt' rtf"
  have p1: "prefix rt1 rtf" using pp pf by (rule prefix_order.trans)
  have "ops_ok rtf tree" using red pf unfolding reduces_def by blast
  with pre[OF p1] show "ops_ok rtf (ops @ tree)" by simp
  fix env assume env: "env_ok rtf env"
  obtain e where e: "exec_ops rtf ops env = Some e" "env_ok rtf e" "agree (length rt) env e"
      "reduction t (bit (e q)) (reg_width rt1 q) = f env"
    using run[OF p1 env] by blast
  obtain e2 where e2: "exec_ops rtf tree e = Some e2" "\<And>i. i < length rt1 \<Longrightarrow> i \<noteq> r \<Longrightarrow> e2 i = e i"
      "e2 r = of_bool (reduction t (bit (e q)) (reg_width rt1 q))"
    using red pf e(2) unfolding reduces_def by blast
  have "agree (length rt) (env(r := of_bool (f env))) e2"
    using e(3,4) e2(2,3) prefix_length_le[OF p] by (auto simp: agree_def)
  with e(1) e2(1) show "\<exists>env'. exec_ops rtf (ops @ tree) env = Some env' \<and>
      agree (length rt) (env(r := of_bool (f env))) env'" by auto
qed

abbreviation xor_op :: "Operation \<Rightarrow> nat \<Rightarrow> Operation" where
  "xor_op op q \<equiv> op\<lparr>op_opcode := BinaryOp Xor, op_dst := [DstRegister q]\<rparr>"

lemma exec_xor_op:
  assumes "op_ok rt op" "length (op_src op) = 2" "prefix (rt @ [Local W]) rtf"
  shows "op_ok rtf (xor_op op (length rt))"
    and "env_ok rtf env \<Longrightarrow> x = take_bit W (src_int rt env op 0 XOR src_int rt env op 1) \<Longrightarrow>
      exec_op rtf (xor_op op (length rt)) env = Some (env(length rt := x)) \<and> env_ok rtf (env(length rt := x))"
proof -
  note new = new_register[OF assms(3)]
  show ok: "op_ok rtf (xor_op op (length rt))"
    using op_ok_prefix[OF assms(1) new(3)] new(1) by (simp add: op_ok_def srcs_ok_def)
  assume env: "env_ok rtf env" and x: "x = take_bit W (src_int rt env op 0 XOR src_int rt env op 1)"
  have oks: "operand_ok rt (op_src op ! 0)" "operand_ok rt (op_src op ! 1)"
    using srcs_ok_nth[OF op_ok_srcs[OF assms(1)]] assms(2) by simp_all
  have sgn: "ShouldSignExtend (xor_op op (length rt)) i = ShouldSignExtend op i" for i
    by (simp add: ShouldSignExtend_def)
  have "src_int rtf env (xor_op op (length rt)) 0 = src_int rt env op 0"
    "src_int rtf env (xor_op op (length rt)) 1 = src_int rt env op 1"
    using operand_int_agree[OF oks(1) new(3) agree_refl] operand_int_agree[OF oks(2) new(3) agree_refl]
    by (simp_all add: src_int_operand sgn)
  then have "eval_operation rtf env (xor_op op (length rt)) = Some x"
    using eval_arith[OF ok env, of Xor] assms(2) new(2) by (simp add: binop_spec_def x del: take_bit_xor)
  with exec_emitted[OF env ok] show "exec_op rtf (xor_op op (length rt)) env = Some (env(length rt := x)) \<and>
      env_ok rtf (env(length rt := x))" by simp
qed

text \<open>The emitted operations decide equality of the two numbers, also for operands of different
  signedness.\<close>

definition numbers_equal :: "RegisterTable \<Rightarrow> Operation \<Rightarrow> (nat \<Rightarrow> int) \<Rightarrow> bool" where
  "numbers_equal rt op env \<longleftrightarrow> src_int rt env op 0 = src_int rt env op 1"

definition equality_width :: "RegisterTable \<Rightarrow> Operation \<Rightarrow> nat" where
  "equality_width rt op =
     max (GetPromotedWidth (src_width rt op 0) (ShouldSignExtend op 0) (ShouldSignExtend op 0 \<or> ShouldSignExtend op 1))
       (GetPromotedWidth (src_width rt op 1) (ShouldSignExtend op 1) (ShouldSignExtend op 0 \<or> ShouldSignExtend op 1))"

lemma equality_width_inj:
  assumes "op_ok rt op" "length (op_src op) = 2" "env_ok rt env"
  shows "take_bit (equality_width rt op) (src_int rt env op 0) = take_bit (equality_width rt op) (src_int rt env op 1) \<longleftrightarrow>
    numbers_equal rt op env"
proof -
  have "operand_ok rt (op_src op ! 0)" "operand_ok rt (op_src op ! 1)"
    using srcs_ok_nth[OF op_ok_srcs[OF assms(1)]] assms(2) by simp_all
  from promoted_inj[OF this assms(3) equality_width_def] show ?thesis
    by (simp add: src_int_operand numbers_equal_def)
qed

lemma equality_width_bounds:
  assumes "equality_ok rt op" "0 < src_width rt op 0"
  shows "0 < equality_width rt op" "equality_width rt op < 2 ^ 63"
proof -
  have "src_width rt op 0 < 2 ^ 62" "src_width rt op 1 < 2 ^ 62"
    using assms(1) by (simp_all add: equality_ok_def list_all_length)
  then show "0 < equality_width rt op" "equality_width rt op < 2 ^ 63"
    using assms(2) by (simp_all add: equality_width_def GetPromotedWidth_def less_max_iff_disj)
qed

lemma DecomposeCompareEQ_NE:
  assumes "device_ok device" "op_ok rt op" "equality_ok rt op" "op_dst op = [DstRegister r]" "0 < reg_width rt r"
    and "0 < src_width rt op 0" "op_opcode op = BinaryOp NE"
  shows "\<exists>rt' ops. DecomposeCompareEQ device rt op = Some (rt', ops) \<and>
    decides rt r rt' ops (\<lambda>env. \<not> numbers_equal rt op env)"
proof -
  define W where "W = equality_width rt op"
  note W = equality_width_bounds[OF assms(3,6), folded W_def]
  have r: "r < length rt" using assms(2,4) by (simp add: op_ok_def)
  have len: "length (op_src op) = 2" and locs: "op_locations op \<noteq> {}"
    using assms(3) by (simp_all add: equality_ok_def)
  let ?rt1 = "rt @ [Local W]"
  have w: "reg_width ?rt1 (length rt) = W" "reg_width ?rt1 r = reg_width rt r"
    using r by (simp_all add: reg_width_def nth_append)
  obtain rt' tree where tree: "ReduceBinaryOp device ?rt1 (length rt) Or r (op_locations op) = Some (rt', tree)"
    and red: "reduces Or ?rt1 (length rt) r rt' tree"
    using ReduceBinaryOp_correct[OF assms(1), of Or r ?rt1 "length rt" "op_locations op"] r assms(5) W w locs
    by (auto simp: less_Suc_eq)
  have "DecomposeCompareEQ device rt op = Some (rt', [xor_op op (length rt)] @ tree)"
    using tree len assms(4,7)
    unfolding DecomposeCompareEQ_def Let_def W_def equality_width_def AllocateRegister_Local by simp
  moreover have "decides rt r rt' ([xor_op op (length rt)] @ tree) (\<lambda>env. \<not> numbers_equal rt op env)"
  proof (rule decides_reduction[OF red _ r])
    fix rtf env assume p: "prefix ?rt1 rtf"
    show "ops_ok rtf [xor_op op (length rt)]" using exec_xor_op(1)[OF assms(2) len p] by simp
    assume env: "env_ok rtf env"
    define x where "x = take_bit W (src_int rt env op 0 XOR src_int rt env op 1)"
    have "reduction Or (bit x) W \<longleftrightarrow> \<not> numbers_equal rt op env"
      unfolding x_def reduction_xor
      using equality_width_inj[OF assms(2) len env_ok_prefix[OF env new_register(3)[OF p]]] by (simp add: W_def)
    then show "\<exists>e. exec_ops rtf [xor_op op (length rt)] env = Some e \<and> env_ok rtf e \<and> agree (length rt) env e \<and>
        reduction Or (bit (e (length rt))) (reg_width ?rt1 (length rt)) = (\<not> numbers_equal rt op env)"
      using exec_xor_op(2)[OF assms(2) len p env x_def] w(1)
      by (intro exI[of _ "env(length rt := x)"]) simp
  qed (use W in simp_all)
  ultimately show ?thesis by blast
qed

lemma DecomposeCompareEQ_EQ:
  assumes "device_ok device" "op_ok rt op" "equality_ok rt op" "op_dst op = [DstRegister r]" "0 < reg_width rt r"
    and "0 < src_width rt op 0" "op_opcode op = BinaryOp EQ"
  shows "\<exists>rt' ops. DecomposeCompareEQ device rt op = Some (rt', ops) \<and> decides rt r rt' ops (numbers_equal rt op)"
proof -
  define W where "W = equality_width rt op"
  note W = equality_width_bounds[OF assms(3,6), folded W_def]
  have r: "r < length rt" using assms(2,4) by (simp add: op_ok_def)
  have len: "length (op_src op) = 2" and locs: "op_locations op \<noteq> {}"
    using assms(3) by (simp_all add: equality_ok_def)
  let ?rt1 = "rt @ [Local W]" and ?rt2 = "rt @ [Local W, Local W]" and ?q = "Suc (length rt)"
  let ?inv = "operation (UnaryOp Invert) (op_locations op) [(SrcRegister (length rt), False)] (DstRegister ?q)"
  have w: "reg_width ?rt2 ?q = W" "reg_width ?rt2 r = reg_width rt r"
    using r by (simp_all add: reg_width_def nth_append)
  obtain rt' tree where tree: "ReduceBinaryOp device ?rt2 ?q And r (op_locations op) = Some (rt', tree)"
    and red: "reduces And ?rt2 ?q r rt' tree"
    using ReduceBinaryOp_correct[OF assms(1), of And r ?rt2 ?q "op_locations op"] r assms(5) W w locs
    by (auto simp: less_Suc_eq)
  have "DecomposeCompareEQ device rt op = Some (rt', [xor_op op (length rt), ?inv] @ tree)"
    using tree len assms(4,7)
    unfolding DecomposeCompareEQ_def Let_def W_def equality_width_def AllocateRegister_Local by simp
  moreover have "decides rt r rt' ([xor_op op (length rt), ?inv] @ tree) (numbers_equal rt op)"
  proof (rule decides_reduction[OF red _ r])
    fix rtf env assume p2: "prefix ?rt2 rtf"
    then have p2': "prefix (?rt1 @ [Local W]) rtf" by simp
    note new2 = new_register[OF p2'] and p1 = new_register(3)[OF p2']
    note new1 = new_register[OF p1]
    have inv_ok: "op_ok rtf ?inv" using new1(1) new2(1) by (simp add: op_ok_operation)
    with exec_xor_op(1)[OF assms(2) len p1] show "ops_ok rtf [xor_op op (length rt), ?inv]" by simp
    assume env: "env_ok rtf env"
    define x where "x = take_bit W (src_int rt env op 0 XOR src_int rt env op 1)"
    define e1 where "e1 = env(length rt := x)"
    have s1: "exec_op rtf (xor_op op (length rt)) env = Some e1" "env_ok rtf e1"
      using exec_xor_op(2)[OF assms(2) len p1 env x_def] by (simp_all add: e1_def)
    have "eval_operation rtf e1 ?inv = Some (take_bit W (NOT x))"
      using eval_emitted_invert[OF s1(2), of "SrcRegister (length rt)" ?q "op_locations op" False] new1(1) new2(1,2)
      by (simp add: e1_def)
    then have s2: "exec_op rtf ?inv e1 = Some (e1(?q := take_bit W (NOT x)))" "env_ok rtf (e1(?q := take_bit W (NOT x)))"
      using exec_emitted[OF s1(2) inv_ok, of ?q] by simp_all
    have "reduction And (bit (take_bit W (NOT x))) W \<longleftrightarrow> numbers_equal rt op env"
      unfolding x_def reduction_xor
      using equality_width_inj[OF assms(2) len env_ok_prefix[OF env new1(3)]] by (simp add: W_def)
    then show "\<exists>e. exec_ops rtf [xor_op op (length rt), ?inv] env = Some e \<and> env_ok rtf e \<and> agree (length rt) env e \<and>
        reduction And (bit (e ?q)) (reg_width ?rt2 ?q) = numbers_equal rt op env"
      using s1(1) s2 w(1)
      by (intro exI[of _ "e1(?q := take_bit W (NOT x))"]) (simp add: agree_def e1_def)
  qed (use W in auto)
  ultimately show ?thesis by blast
qed

lemma DecomposeCompareEQ_decides:
  assumes "device_ok device" "op_ok rt op" "equality_ok rt op" "op_dst op = [DstRegister r]" "0 < reg_width rt r"
    and "0 < src_width rt op 0"
  shows "\<exists>rt' ops. DecomposeCompareEQ device rt op = Some (rt', ops) \<and>
    decides rt r rt' ops (\<lambda>env. (op_opcode op = BinaryOp EQ) = numbers_equal rt op env)"
  using DecomposeCompareEQ_NE[OF assms] DecomposeCompareEQ_EQ[OF assms] assms(3)
  by (auto simp: equality_ok_def)

lemma DecomposeCompareEQ_implements:
  assumes "device_ok device" "op_ok rt op" "equality_ok rt op" "0 < dst_width rt op" "0 < src_width rt op 0"
    and "ShouldSignExtend op 0 = ShouldSignExtend op 1"
  shows "\<exists>rt' ops. DecomposeCompareEQ device rt op = Some (rt', ops) \<and> implements rt op rt' ops"
proof -
  obtain r where r: "op_dst op = [DstRegister r]" "r < length rt" using assms(2) by (rule op_okE)
  obtain rt' ops where eq: "DecomposeCompareEQ device rt op = Some (rt', ops)"
    and dec: "decides rt r rt' ops (\<lambda>env. (op_opcode op = BinaryOp EQ) = numbers_equal rt op env)"
    using DecomposeCompareEQ_decides[OF assms(1-3) r(1) _ assms(5)] assms(4) r by auto
  have p: "prefix rt rt'" and len: "length (op_src op) = 2"
    using dec assms(3) by (simp_all add: decides_def equality_ok_def)
  have "implements rt op rt' ops"
  proof (rule implementsI[OF p])
    fix rtf env env1
    assume pf: "prefix rt' rtf" and env: "env_ok rtf env" and ex: "exec_op rt op env = Some env1"
    have env': "env_ok rt env" using env_ok_prefix[OF env prefix_order.trans[OF p pf]] .
    obtain t where t: "op_opcode op = BinaryOp t" "t \<in> {EQ, NE}"
      using assms(3) by (auto simp: equality_ok_def)
    have bool: "take_bit (dst_width rt op) (of_bool x) = (of_bool x :: int)" for x
      using assms(4) by (cases x) simp_all
    have "eval_operation rt env op = Some (of_bool ((op_opcode op = BinaryOp EQ) = numbers_equal rt op env))"
      using eval_binop_spec[OF assms(2) env' t(1) len] t assms(4,6)
      by (auto simp: binop_pre_def binop_spec_def numbers_equal_def bool)
    then have "env1 = env(r := of_bool ((op_opcode op = BinaryOp EQ) = numbers_equal rt op env))"
      using ex r(1) by (simp add: exec_op_eq)
    then show "\<exists>env'. exec_ops rtf ops env = Some env' \<and> agree (length rt) env1 env'"
      using dec pf env unfolding decides_def by blast
  qed (use dec in \<open>auto simp: decides_def\<close>)
  with eq show ?thesis by blast
qed

subsection \<open>What the trees compute\<close>

text \<open>C25: \<^verbatim>\<open>ReduceBinaryOp\<close> ends, with and without lookup tables, and the operations it returns put
  the conjunction or disjunction of all bits of the source register into the destination and leave
  the other registers of the table alone.\<close>

theorem ReduceBinaryOp_reduces:
  assumes "device_ok device" "t \<in> {And, Or}" "dst < length rt" "0 < reg_width rt dst"
    and "src < length rt" "0 < reg_width rt src" "reg_width rt src < 2 ^ 63" "ls \<noteq> {}"
  shows "\<exists>rt' ops. ReduceBinaryOp device rt src t dst ls = Some (rt', ops) \<and>
    (\<forall>env. env_ok rt' env \<longrightarrow>
      (\<exists>env'. exec_ops rt' ops env = Some env' \<and>
        env' dst = of_bool (if t = And then \<forall>i < reg_width rt src. bit (env src) i
          else \<exists>i < reg_width rt src. bit (env src) i) \<and>
        (\<forall>r < length rt. r \<noteq> dst \<longrightarrow> env' r = env r)))"
  using ReduceBinaryOp_correct[OF assms] unfolding reduces_def reduction_def
  by (meson prefix_order.refl)

theorem ReduceBinaryOp_reduces_witness:
  "\<exists>rt' ops. ReduceBinaryOp \<lparr>smallLutSize = 4, supportsLuts = True\<rparr> [Local 20, Local 1] 0 Or 1 {(1, 1)} = Some (rt', ops) \<and>
    (\<forall>env. env_ok rt' env \<longrightarrow>
      (\<exists>env'. exec_ops rt' ops env = Some env' \<and> env' 1 = of_bool (\<exists>i < 20. bit (env 0) i) \<and> env' 0 = env 0))"
  using ReduceBinaryOp_reduces[of "\<lparr>smallLutSize = 4, supportsLuts = True\<rparr>" Or 1 "[Local 20, Local 1]" 0 "{(1, 1)}"]
  by (fastforce simp: device_ok_def c_maxLutSources_def reg_width_def)

text \<open>C26: \<^verbatim>\<open>DecomposeCompareEQ\<close> returns operations that decide whether the two operands denote the
  same number, also when one is signed and the other is not.\<close>

theorem DecomposeCompareEQ_correct:
  assumes "device_ok device" "op_ok rt op" "equality_ok rt op" "op_dst op = [DstRegister r]" "0 < reg_width rt r"
    and "0 < src_width rt op 0"
  shows "\<exists>rt' ops. DecomposeCompareEQ device rt op = Some (rt', ops) \<and>
    (\<forall>env. env_ok rt' env \<longrightarrow>
      (\<exists>env'. exec_ops rt' ops env = Some env' \<and>
        env' r = of_bool ((op_opcode op = BinaryOp EQ) = (src_int rt env op 0 = src_int rt env op 1)) \<and>
        (\<forall>q < length rt. q \<noteq> r \<longrightarrow> env' q = env q)))"
proof -
  have r: "r < length rt" using assms(2,4) by (simp add: op_ok_def)
  obtain rt' ops where *: "DecomposeCompareEQ device rt op = Some (rt', ops)"
      "decides rt r rt' ops (\<lambda>env. (op_opcode op = BinaryOp EQ) = numbers_equal rt op env)"
    using DecomposeCompareEQ_decides[OF assms] by blast
  have "\<exists>env'. exec_ops rt' ops env = Some env' \<and>
      env' r = of_bool ((op_opcode op = BinaryOp EQ) = (src_int rt env op 0 = src_int rt env op 1)) \<and>
      (\<forall>q < length rt. q \<noteq> r \<longrightarrow> env' q = env q)" if "env_ok rt' env" for env
  proof -
    obtain env' where "exec_ops rt' ops env = Some env'"
        "agree (length rt) (env(r := of_bool ((op_opcode op = BinaryOp EQ) = numbers_equal rt op env))) env'"
      using *(2) \<open>env_ok rt' env\<close> prefix_order.refl unfolding decides_def by blast
    with r show ?thesis by (auto simp: agree_def numbers_equal_def split: if_splits)
  qed
  with *(1) show ?thesis by blast
qed

theorem DecomposeCompareEQ_correct_witness:
  "let rt = [Local 8, Local 4, Local 1];
       op = operation (BinaryOp EQ) {(1, 1)} [(SrcRegister 0, True), (SrcRegister 1, False)] (DstRegister 2)
   in \<exists>rt' ops. DecomposeCompareEQ \<lparr>smallLutSize = 4, supportsLuts = True\<rparr> rt op = Some (rt', ops) \<and>
        (\<forall>env. env_ok rt' env \<longrightarrow>
          (\<exists>env'. exec_ops rt' ops env = Some env' \<and>
            env' 2 = of_bool ((op_opcode op = BinaryOp EQ) = (src_int rt env op 0 = src_int rt env op 1)) \<and>
            (\<forall>q < length rt. q \<noteq> 2 \<longrightarrow> env' q = env q)))"
  unfolding Let_def
  by (rule DecomposeCompareEQ_correct)
    (simp_all add: op_ok_operation equality_ok_def device_ok_def c_maxLutSources_def reg_width_def)

end
