(* ===== verification/Emitted_Code.thy ===== *)
theory Emitted_Code
  imports Reduction_Trees
begin

text \<open>
  A calculus for operations emitted into fresh registers. \<open>emits rt P ops rt' Q\<close> is a triple of
  total correctness: run from a state with \<open>P\<close>, the operations end in a state with \<open>Q\<close>, under
  every register table that extends \<open>rt'\<close>. There is a rule for sequences and one for each
  generator of \<^verbatim>\<open>optimize.cpp\<close> (\<^verbatim>\<open>BinaryOp\<close>, \<^verbatim>\<open>Mux21\<close>, \<^verbatim>\<open>Concat\<close>).
\<close>

subsection \<open>A calculus for emitted operations\<close>

text \<open>A total-correctness triple: under every larger table and from every state with \<open>P\<close> the
  operations run and end in a state with \<open>Q\<close>. The operations have no location yet.\<close>

definition emits ::
  "RegisterTable \<Rightarrow> ((nat \<Rightarrow> int) \<Rightarrow> bool) \<Rightarrow> Operation list \<Rightarrow> RegisterTable \<Rightarrow> ((nat \<Rightarrow> int) \<Rightarrow> bool) \<Rightarrow> bool" where
  "emits rt P ops rt' Q \<longleftrightarrow>
     prefix rt rt' \<and> (\<forall>d \<in> set (drop (length rt) rt'). 0 < rd_width d) \<and>
     list_all (\<lambda>op. op_locations op = {}) ops \<and>
     (\<forall>rtf. prefix rt' rtf \<longrightarrow> ops_ok rtf ops \<and>
        (\<forall>env. env_ok rtf env \<longrightarrow> P env \<longrightarrow>
           (\<exists>env'. exec_ops rtf ops env = Some env' \<and> env_ok rtf env' \<and> Q env')))"

text \<open>An assertion about the first \<open>n\<close> registers.\<close>

definition reads :: "nat \<Rightarrow> ((nat \<Rightarrow> int) \<Rightarrow> bool) \<Rightarrow> bool" where
  "reads n P \<longleftrightarrow> (\<forall>e e'. agree n e e' \<longrightarrow> P e \<longrightarrow> P e')"

lemma reads_conj [intro]: "reads n P \<Longrightarrow> reads n Q \<Longrightarrow> reads n (\<lambda>e. P e \<and> Q e)"
  unfolding reads_def by blast

lemma reads_register [intro]: "r < n \<Longrightarrow> reads n (\<lambda>e. e r = v)"
  by (simp add: reads_def agree_def)

lemma reads_agree [intro]: "m \<le> n \<Longrightarrow> reads n (agree m e0)"
  by (simp add: reads_def agree_def)

lemma reads_mono: "reads m P \<Longrightarrow> m \<le> n \<Longrightarrow> reads n P"
  unfolding reads_def agree_def by (meson order.strict_trans2)

lemma emits_prefix: "emits rt P ops rt' Q \<Longrightarrow> prefix rt rt'"
  by (simp add: emits_def)

lemma emits_length: "emits rt P ops rt' Q \<Longrightarrow> length rt \<le> length rt'"
  by (simp add: emits_def prefix_length_le)

lemma emits_weaken:
  assumes "emits rt P ops rt' Q" "\<And>e. P' e \<Longrightarrow> P e" "\<And>e. Q e \<Longrightarrow> Q' e"
  shows "emits rt P' ops rt' Q'"
  using assms unfolding emits_def by meson

lemma emits_seq:
  assumes "emits rt P ops1 rt1 Q" "emits rt1 Q ops2 rt2 R"
  shows "emits rt P (ops1 @ ops2) rt2 R"
  unfolding emits_def
proof (intro conjI allI impI)
  have p: "prefix rt rt1" "prefix rt1 rt2" using assms by (simp_all add: emits_prefix)
  show "prefix rt rt2" using p by (rule prefix_order.trans)
  show "\<forall>d \<in> set (drop (length rt) rt2). 0 < rd_width d"
    by (rule drop_prefix_widths[OF p]) (use assms in \<open>simp_all add: emits_def\<close>)
  show "list_all (\<lambda>op. op_locations op = {}) (ops1 @ ops2)" using assms by (simp add: emits_def)
  fix rtf assume rtf: "prefix rt2 rtf"
  have rtf1: "prefix rt1 rtf" using p(2) rtf by (rule prefix_order.trans)
  show "ops_ok rtf (ops1 @ ops2)" using assms rtf rtf1 by (simp add: emits_def)
  fix env assume "env_ok rtf env" "P env"
  then obtain e where e: "exec_ops rtf ops1 env = Some e" "env_ok rtf e" "Q e"
    using assms(1) rtf1 unfolding emits_def by blast
  then obtain e' where "exec_ops rtf ops2 e = Some e'" "env_ok rtf e'" "R e'"
    using assms(2) rtf unfolding emits_def by blast
  with e show "\<exists>env'. exec_ops rtf (ops1 @ ops2) env = Some env' \<and> env_ok rtf env' \<and> R env'" by auto
qed

lemma emits_op:
  assumes "op_dst op = [DstRegister (length rt)]" "op_locations op = {}" "0 < w" "reads (length rt) P"
    and "\<forall>s \<in> set (op_src op). operand_ok rt s"
    and "\<And>rtf env. prefix (rt @ [Local w]) rtf \<Longrightarrow> env_ok rtf env \<Longrightarrow> P env \<Longrightarrow> eval_operation rtf env op = Some v"
  shows "emits rt P [op] (rt @ [Local w]) (\<lambda>e. P e \<and> e (length rt) = v)"
  unfolding emits_def
proof (intro conjI allI impI)
  fix rtf assume rtf: "prefix (rt @ [Local w]) rtf"
  note new = new_register[OF rtf]
  have ok: "op_ok rtf op"
    using assms(1,5) operand_ok_prefix[OF _ new(3)] new(1) by (auto simp: op_ok_def srcs_ok_def)
  then show "ops_ok rtf [op]" by simp
  fix env assume env: "env_ok rtf env" and P: "P env"
  have "P (env(length rt := v))"
    using assms(4) P agree_upd[OF order.refl, of "length rt" env v] unfolding reads_def by blast
  then show "\<exists>env'. exec_ops rtf [op] env = Some env' \<and> env_ok rtf env' \<and> P env' \<and> env' (length rt) = v"
    using exec_emitted[OF env ok assms(1) assms(6)[OF rtf env P]] by auto
qed (use assms(2,3) in auto)

lemma BinaryOp_new_eq:
  "BinaryOp_new rt t w s0 e0 s1 e1 =
     (rt @ [Local w], operation (BinaryOp t) {} [(s0, e0), (s1, e1)] (DstRegister (length rt)), length rt)"
  by (simp add: BinaryOp_new_def AllocateRegister_Local)

lemma Mux21_eq:
  "Mux21 rt w i s0 e0 s1 e1 =
     (rt @ [Local w], operation Select {} [(i, False), (s0, e0), (s1, e1)] (DstRegister (length rt)), length rt)"
  by (simp add: Mux21_def AllocateRegister_Local)

text \<open>The number an operand denotes in the states of an assertion.\<close>

definition denotes :: "RegisterTable \<Rightarrow> ((nat \<Rightarrow> int) \<Rightarrow> bool) \<Rightarrow> SourceOperand \<Rightarrow> bool \<Rightarrow> int \<Rightarrow> bool" where
  "denotes rt P s signExtend a \<longleftrightarrow> operand_ok rt s \<and> (\<forall>e. P e \<longrightarrow> operand_int rt e s signExtend = a)"

lemma denotes_prefix:
  assumes "denotes rt P s se a" "prefix rt rtf" "P e"
  shows "operand_ok rtf s" "operand_int rtf e s se = a"
  using assms operand_ok_prefix[OF _ assms(2)] operand_int_agree[OF _ assms(2) agree_refl, of s e se]
  by (auto simp: denotes_def)

lemma emits_binary:
  assumes "denotes rt P s0 e0 a" "denotes rt P s1 e1 b" "0 < w" "reads (length rt) P" "binop_pre t e0 e1 w a b"
  shows "emits rt P [operation (BinaryOp t) {} [(s0, e0), (s1, e1)] (DstRegister (length rt))] (rt @ [Local w])
    (\<lambda>e. P e \<and> e (length rt) = take_bit w (binop_spec t a b))"
proof (rule emits_op)
  fix rtf env assume "prefix (rt @ [Local w]) rtf" and env: "env_ok rtf env" and P: "P env"
  note new = new_register[OF this(1)]
  note d0 = denotes_prefix[OF assms(1) new(3) P] and d1 = denotes_prefix[OF assms(2) new(3) P]
  show "eval_operation rtf env (operation (BinaryOp t) {} [(s0, e0), (s1, e1)] (DstRegister (length rt))) =
      Some (take_bit w (binop_spec t a b))"
    using eval_emitted_binary[OF env d0(1) d1(1) new(1), of t e0 e1 "{}"] assms(5) by (simp add: d0 d1 new)
qed (use assms in \<open>auto simp: denotes_def\<close>)

lemma emits_mux:
  assumes "denotes rt P i False (of_bool c)" "denotes rt P s0 False a" "denotes rt P s1 False b"
    and "0 < w" "reads (length rt) P"
  shows "emits rt P [operation Select {} [(i, False), (s0, False), (s1, False)] (DstRegister (length rt))]
    (rt @ [Local w]) (\<lambda>e. P e \<and> e (length rt) = take_bit w (if c then b else a))"
proof (rule emits_op)
  fix rtf env assume "prefix (rt @ [Local w]) rtf" and env: "env_ok rtf env" and P: "P env"
  note new = new_register[OF this(1)]
  note di = denotes_prefix[OF assms(1) new(3) P] and d0 = denotes_prefix[OF assms(2) new(3) P]
    and d1 = denotes_prefix[OF assms(3) new(3) P]
  show "eval_operation rtf env (operation Select {} [(i, False), (s0, False), (s1, False)] (DstRegister (length rt))) =
      Some (take_bit w (if c then b else a))"
    using eval_emitted_mux[OF env di(1) d0(1) d1(1) new(1), of c "{}" False False] di d0 d1 by (simp add: new)
qed (use assms in \<open>auto simp: denotes_def\<close>)

lemma eval_emitted_gather:
  assumes "op_opcode op = Gather ges" "length ges = length (op_src op)" "op_dst op = [DstRegister r]"
    and "\<forall>s \<in> set (op_src op). operand_ok rt s"
  shows "eval_operation rt env op = Some (take_bit (reg_width rt r)
    (eval_gather ges (map (\<lambda>s. \<lparr>l_value = operand_value env s, l_width = SourceOperand_Width rt s\<rparr>) (op_src op))))"
  using assms map_opt_literals[of rt op env] by (simp add: eval_operation_in_def srcs_ok_def)

lemma Concat_eq:
  assumes "SourceOperand_Width rt lsb = 1"
  shows "Concat rt [lsb, SrcRegister x] =
    (rt @ [Local (Suc (reg_width rt x))],
     (new_operation (Gather [\<lparr>ge_sourceOffset = 0, ge_destOffset = 0, ge_numBits = 1\<rparr>,
        \<lparr>ge_sourceOffset = 0, ge_destOffset = 1, ge_numBits = reg_width rt x\<rparr>]) {} [DstRegister (length rt)])
       \<lparr>op_src := [lsb, SrcRegister x]\<rparr>, length rt)"
  using assms by (simp add: Concat_def AllocateRegister_Local Let_def)

lemma emits_concat:
  assumes "denotes rt P lsb False (of_bool c)" "denotes rt P (SrcRegister x) False v" "SourceOperand_Width rt lsb = 1"
    and "0 \<le> v" "v < 2 ^ reg_width rt x" "reads (length rt) P"
  shows "emits rt P [fst (snd (Concat rt [lsb, SrcRegister x]))] (rt @ [Local (Suc (reg_width rt x))])
    (\<lambda>e. P e \<and> e (length rt) = 2 * v + of_bool c)"
  unfolding Concat_eq[OF assms(3)] fst_conv snd_conv
proof (rule emits_op)
  fix rtf env assume "prefix (rt @ [Local (Suc (reg_width rt x))]) rtf" and env: "env_ok rtf env" and P: "P env"
  note new = new_register[OF this(1)]
  note d0 = denotes_prefix[OF assms(1) new(3) P] and d1 = denotes_prefix[OF assms(2) new(3) P]
  have "2 * v + of_bool c < 2 ^ Suc (reg_width rt x)" using assms(5) by (cases c) auto
  then have "take_bit (Suc (reg_width rt x)) (2 * v + of_bool c) = 2 * v + of_bool c"
    using assms(4) by (intro take_bit_int_eq_self) auto
  moreover have "take_bit 1 (of_bool c :: int) OR push_bit 1 (take_bit (reg_width rt x) v) = 2 * v + of_bool c"
    using assms(4,5) by (cases c) (simp_all add: take_bit_int_eq_self push_bit_eq_mult one_or_eq)
  ultimately show "eval_operation rtf env ((new_operation (Gather [\<lparr>ge_sourceOffset = 0, ge_destOffset = 0, ge_numBits = 1\<rparr>,
        \<lparr>ge_sourceOffset = 0, ge_destOffset = 1, ge_numBits = reg_width rt x\<rparr>]) {} [DstRegister (length rt)])
       \<lparr>op_src := [lsb, SrcRegister x]\<rparr>) = Some (2 * v + of_bool c)"
    using d0 d1 new
    by (subst eval_emitted_gather[where r = "length rt"])
      (auto simp: new_operation_def eval_gather_def mult.commute[of _ 2])
qed (use assms in \<open>auto simp: denotes_def new_operation_def\<close>)

lemma denotes_register: "r < length rt \<Longrightarrow> (\<And>e. P e \<Longrightarrow> e r = v) \<Longrightarrow> denotes rt P (SrcRegister r) False v"
  by (simp add: denotes_def)

lemma denotes_literal: "lit_ok l \<Longrightarrow> l_value l = v \<Longrightarrow> denotes rt P (SrcLiteral l) False v"
  by (simp add: denotes_def)

lemma denotes_size: "n < 2 ^ 64 \<Longrightarrow> denotes rt P (SourceOperand_size n) False (int n)"
  by (simp add: denotes_def)

lemma denotes_mono: "denotes rt P s e a \<Longrightarrow> prefix rt rt' \<Longrightarrow> (\<And>e. Q e \<Longrightarrow> P e) \<Longrightarrow> denotes rt' Q s e a"
  using denotes_prefix[of rt P s e a rt'] operand_ok_prefix[of rt s rt'] unfolding denotes_def by blast

lemma binop_pre_simple [simp]:
  "t \<in> {Add, Sub, And} \<Longrightarrow> binop_pre t e0 e1 w a b"
  "binop_pre Shr e0 e1 w a b \<longleftrightarrow> 0 \<le> b \<and> b \<le> int size_t_max \<and> w + nat b \<le> size_t_max"
  by (auto simp: binop_pre_def)

lemma emits_shr:
  assumes "denotes rt P s e a" "reads (length rt) P" "0 < w" "w + n \<le> size_t_max"
  shows "emits rt P [operation (BinaryOp Shr) {} [(s, e), (SourceOperand_size n, False)] (DstRegister (length rt))]
    (rt @ [Local w]) (\<lambda>e. P e \<and> e (length rt) = take_bit w (drop_bit n a))"
proof -
  have "binop_pre Shr e False w a (int n)" using assms(4) by simp
  from emits_binary[OF assms(1) denotes_size assms(3,2) this] assms(4)
  show ?thesis by (simp add: binop_spec_def size_t_max_def)
qed

lemma op_ok_locations [simp]: "op_ok rt (op\<lparr>op_locations := ls\<rparr>) = op_ok rt op"
  by (simp add: op_ok_def srcs_ok_def)

lemma ops_ok_locations [simp]: "ops_ok rt (map (\<lambda>op. op\<lparr>op_locations := ls\<rparr>) ops) = ops_ok rt ops"
  by (induction ops) simp_all

lemma exec_op_locations [simp]: "exec_op rt (op\<lparr>op_locations := ls\<rparr>) = exec_op rt op"
  by (rule ext) (simp add: exec_op_def)

lemma emits_locations:
  assumes "emits rt P ops rt' Q" "prefix rt' rtf" "env_ok rtf env" "P env"
  shows "\<exists>env'. exec_ops rtf (map (\<lambda>op. op\<lparr>op_locations := ls\<rparr>) ops) env = Some env' \<and> env_ok rtf env' \<and> Q env'"
proof -
  have "exec_ops rtf (map (\<lambda>op. op\<lparr>op_locations := ls\<rparr>) ops) env = exec_ops rtf ops env"
    by (induction ops arbitrary: env) (auto intro!: Option.bind_cong)
  with assms show ?thesis unfolding emits_def by simp
qed

end
