(* ===== verification/Decompose_Add_Sub.thy ===== *)
theory Decompose_Add_Sub
  imports Emitted_Code Complex_Main
begin

text \<open>
  Decomposition of wide additions and subtractions (\<^verbatim>\<open>DecomposeAddSub\<close> of \<^verbatim>\<open>optimize.cpp\<close>
  with \<^verbatim>\<open>ComputeDecomposeAddSubConfig\<close>, and \<^verbatim>\<open>GetMuxPathLength\<close> of \<^verbatim>\<open>ir.cpp\<close>). The
  result is computed in words; a carry or borrow enters a word through an extra least significant
  bit, either directly or, with carry select, by computing both results and choosing one. The
  emitted operations are shown to implement the addition or subtraction.
\<close>

subsection \<open>The width of a word\<close>

record CodeGenConfig =
  cg_carrySelect :: bool
  cg_carryChainWidthPerLogicLevel :: nat
  cg_logicRegisterRatio :: nat
  cg_maxSelectInputs :: nat

record DecomposeAddSubConfig =
  ac_carrySelect :: bool
  ac_internalWordWidth :: nat

text \<open>The loop of \<^verbatim>\<open>GetMuxPathLength\<close>, in which \<^verbatim>\<open>width\<close> wraps around.\<close>

partial_function (option) MuxPathLengthLoop :: "nat \<Rightarrow> nat \<Rightarrow> nat \<Rightarrow> nat option" where
  "MuxPathLengthLoop numChoices result width =
     (if width \<ge> numChoices then Some result
      else MuxPathLengthLoop numChoices (result + 1) (width * 4 mod 2 ^ 64))"

definition GetMuxPathLength :: "nat \<Rightarrow> nat option" where
  "GetMuxPathLength numChoices = MuxPathLengthLoop numChoices 1 4"

text \<open>Arithmetic on \<^verbatim>\<open>double\<close> is that on the reals followed by the rounding \<open>rnd\<close> of the
  machine.\<close>

definition carrySelectPathLength :: "(real \<Rightarrow> real) \<Rightarrow> real \<Rightarrow> real \<Rightarrow> nat \<Rightarrow> nat \<Rightarrow> real" where
  "carrySelectPathLength rnd levelsOfLogicPerBit singleMuxPathLength dstWidth internalWordWidth =
     (let numWords = (dstWidth + internalWordWidth - 1) div internalWordWidth;
          maxWordWidth = internalWordWidth + 2;
          adderPathLength = rnd (rnd (real maxWordWidth) * levelsOfLogicPerBit);
          muxPathLength = rnd (rnd (real (numWords - 1)) * singleMuxPathLength)
      in rnd (adderPathLength + muxPathLength))"

definition BestCarrySelect :: "(nat \<Rightarrow> real) \<Rightarrow> real \<Rightarrow> nat list \<Rightarrow> DecomposeAddSubConfig option" where
  "BestCarrySelect pathLength baselinePathLength internalWordWidths =
     snd (fold (\<lambda>internalWordWidth (best, result).
         if pathLength internalWordWidth < best
         then (pathLength internalWordWidth,
           Some \<lparr>ac_carrySelect = True, ac_internalWordWidth = internalWordWidth\<rparr>)
         else (best, result))
       internalWordWidths (baselinePathLength, None))"

definition ComputeDecomposeAddSubConfig ::
  "(real \<Rightarrow> real) \<Rightarrow> CodeGenConfig \<Rightarrow> nat \<Rightarrow> DecomposeAddSubConfig option option" where
  "ComputeDecomposeAddSubConfig rnd config dstWidth = do {
     let carryChainWidthPerLogicLevel = cg_carryChainWidthPerLogicLevel config;
     let levelsOfLogicPerBit = rnd (1 / rnd (real carryChainWidthPerLogicLevel));
     muxLength \<leftarrow> GetMuxPathLength 2;
     let singleMuxPathLength = rnd (real muxLength);
     let result =
       (if cg_carrySelect config then
          let baselinePathLength = rnd (rnd (real dstWidth) * levelsOfLogicPerBit);
              iwwReal = rnd (sqrt (rnd (rnd (rnd (real dstWidth) * singleMuxPathLength) *
                rnd (real carryChainWidthPerLogicLevel))))
          in if iwwReal \<ge> 1 \<and> iwwReal < rnd (real (2 ^ 32 - 1 :: nat))
             then BestCarrySelect (carrySelectPathLength rnd levelsOfLogicPerBit singleMuxPathLength dstWidth)
               baselinePathLength (map (\<lambda>i. nat \<lfloor>iwwReal\<rfloor> + i) [0..<2])
             else None
        else None);
     Some (case result of
         Some c \<Rightarrow> Some c
       | None \<Rightarrow>
           let maxWordWidth = carryChainWidthPerLogicLevel * cg_logicRegisterRatio config mod 2 ^ 64
           in if dstWidth > maxWordWidth \<and> maxWordWidth > 2
              then Some \<lparr>ac_carrySelect = False, ac_internalWordWidth = maxWordWidth - 2\<rparr>
              else None) }"

subsection \<open>One word\<close>

text \<open>The word of a source operand, with the extra least significant bit unless it is the first
  word.\<close>

definition ExtractWord ::
  "RegisterTable \<Rightarrow> Operation \<Rightarrow> bool \<Rightarrow> nat \<Rightarrow> nat \<Rightarrow> nat \<Rightarrow> SourceOperand option \<Rightarrow>
   (RegisterTable \<times> Operation list \<times> nat) option" where
  "ExtractWord rt op isFirstWord wordStartOffset wordSize srcOperandIndex concatLsb = do {
     let (rt, extractOp, extractReg) =
       BinaryOp_new rt Shr wordSize (op_src op ! srcOperandIndex) (ShouldSignExtend op srcOperandIndex)
         (SourceOperand_size wordStartOffset) False;
     if isFirstWord then Some (rt, [extractOp], extractReg)
     else do {
       lsb \<leftarrow> concatLsb;
       _ \<leftarrow> assert_that (SourceOperand_Width rt lsb = 1);
       let (rt, gatherOp, gatherReg) = Concat rt [lsb, SrcRegister extractReg];
       Some (rt, [extractOp, gatherOp], gatherReg) } }"

text \<open>The two words that are added or subtracted.\<close>

definition AddSubSources ::
  "RegisterTable \<Rightarrow> Operation \<Rightarrow> ParseTreeBinaryOpType \<Rightarrow> bool \<Rightarrow> nat \<Rightarrow> nat \<Rightarrow> SourceOperand option \<Rightarrow>
   (RegisterTable \<times> Operation list \<times> nat \<times> nat) option" where
  "AddSubSources rt op type isFirstWord wordStartOffset wordSize carryLsb = do {
     (rt, ops0, srcWord0) \<leftarrow> ExtractWord rt op isFirstWord wordStartOffset wordSize 0
       (Some (SrcLiteral \<lparr>l_value = (if type = Add then 1 else 0), l_width = 1\<rparr>));
     (rt, ops1, srcWord1) \<leftarrow> ExtractWord rt op isFirstWord wordStartOffset wordSize 1 carryLsb;
     _ \<leftarrow> assert_that (reg_width rt srcWord0 = reg_width rt srcWord1);
     Some (rt, ops0 @ ops1, srcWord0, srcWord1) }"

text \<open>The addition or subtraction; except in the first word its least significant bit is
  discarded.\<close>

definition AddSubOutput ::
  "RegisterTable \<Rightarrow> ParseTreeBinaryOpType \<Rightarrow> bool \<Rightarrow> bool \<Rightarrow> nat \<Rightarrow> nat \<Rightarrow>
   RegisterTable \<times> Operation list \<times> nat" where
  "AddSubOutput rt type isFirstWord isLastWord srcWord0 srcWord1 =
     (let addSubOutputWidth = reg_width rt srcWord0 + (if isLastWord then 0 else 1);
          (rt, addSubOp, addSubOutput) = BinaryOp_new rt type addSubOutputWidth
            (SrcRegister srcWord0) isLastWord (SrcRegister srcWord1) isLastWord
      in if isFirstWord then (rt, [addSubOp], addSubOutput)
         else (let (rt, discardOp, discardReg) = BinaryOp_new rt Shr (addSubOutputWidth - 1)
                 (SrcRegister addSubOutput) False (SourceOperand_size 1) False
               in (rt, [addSubOp, discardOp], discardReg)))"

text \<open>Output word and carry or borrow bit.\<close>

definition SplitOutput ::
  "RegisterTable \<Rightarrow> nat \<Rightarrow> (RegisterTable \<times> Operation list \<times> nat \<times> nat) option" where
  "SplitOutput rt addSubOutput = do {
     let modifiedAddSubOutputWidth = reg_width rt addSubOutput;
     _ \<leftarrow> assert_that (modifiedAddSubOutputWidth > 0);
     mask \<leftarrow> SourceOperand_mp (2 ^ (modifiedAddSubOutputWidth - 1) - 1);
     let (rt, andOp, outputWord) = BinaryOp_new rt And (modifiedAddSubOutputWidth - 1)
       (SrcRegister addSubOutput) False mask False;
     let (rt, extractCarryBorrowOp, carryBorrow) = BinaryOp_new rt Shr 1
       (SrcRegister addSubOutput) False (SourceOperand_size (modifiedAddSubOutputWidth - 1)) False;
     Some (rt, [andOp, extractCarryBorrowOp], outputWord, carryBorrow) }"

definition AddSubIteration ::
  "RegisterTable \<Rightarrow> Operation \<Rightarrow> ParseTreeBinaryOpType \<Rightarrow> bool \<Rightarrow> bool \<Rightarrow> nat \<Rightarrow> nat \<Rightarrow> SourceOperand option \<Rightarrow>
   (RegisterTable \<times> Operation list \<times> nat \<times> nat option) option" where
  "AddSubIteration rt op type isFirstWord isLastWord wordStartOffset wordSize carryLsb = do {
     (rt, sourceOps, srcWord0, srcWord1) \<leftarrow>
       AddSubSources rt op type isFirstWord wordStartOffset wordSize carryLsb;
     let (rt, addOps, addSubOutput) = AddSubOutput rt type isFirstWord isLastWord srcWord0 srcWord1;
     if isLastWord then Some (rt, sourceOps @ addOps, addSubOutput, None)
     else do {
       (rt, splitOps, outputWord, carryBorrow) \<leftarrow> SplitOutput rt addSubOutput;
       Some (rt, sourceOps @ addOps @ splitOps, outputWord, Some carryBorrow) } }"

subsection \<open>All words\<close>

text \<open>The body of the loop over the words: with carry select both values of the carry are tried.\<close>

definition SelectWord ::
  "RegisterTable \<Rightarrow> bool \<Rightarrow> nat option \<Rightarrow> nat \<Rightarrow> nat \<Rightarrow> nat option \<Rightarrow> nat option \<Rightarrow>
   (RegisterTable \<times> Operation list \<times> nat \<times> nat option) option" where
  "SelectWord rt isLastWord carryBorrowBit word0 word1 carry0 carry1 = do {
     _ \<leftarrow> assert_that (reg_width rt word0 = reg_width rt word1);
     carryReg \<leftarrow> carryBorrowBit;
     let (rt, selectWordOp, chosenOutputWord) = Mux21 rt (reg_width rt word0)
       (SrcRegister carryReg) (SrcRegister word0) False (SrcRegister word1) False;
     if isLastWord then Some (rt, [selectWordOp], chosenOutputWord, carryBorrowBit)
     else do {
       c0 \<leftarrow> carry0;
       c1 \<leftarrow> carry1;
       let (rt, selectCarryOp, carry) = Mux21 rt 1
         (SrcRegister carryReg) (SrcRegister c0) False (SrcRegister c1) False;
       Some (rt, [selectWordOp, selectCarryOp], chosenOutputWord, Some carry) } }"

definition AddSubWord ::
  "DecomposeAddSubConfig \<Rightarrow> Operation \<Rightarrow> ParseTreeBinaryOpType \<Rightarrow> nat \<Rightarrow> nat \<Rightarrow> nat \<Rightarrow> RegisterTable \<Rightarrow> nat option \<Rightarrow>
   (RegisterTable \<times> Operation list \<times> nat \<times> nat option) option" where
  "AddSubWord config op type dstWidth numWords wordIndex rt carryBorrowBit = do {
     let wordStartOffset = wordIndex * ac_internalWordWidth config;
     let wordEndOffset = min dstWidth (wordStartOffset + ac_internalWordWidth config);
     let wordSize = wordEndOffset - wordStartOffset;
     let isFirstWord = (wordIndex = 0);
     let isLastWord = (wordIndex = numWords - 1);
     _ \<leftarrow> assert_that (wordSize > 0);
     _ \<leftarrow> assert_that (isLastWord \<longrightarrow> wordEndOffset = dstWidth);
     if ac_carrySelect config \<and> \<not> isFirstWord then do {
       (rt, ops0, word0, carry0) \<leftarrow> AddSubIteration rt op type isFirstWord isLastWord wordStartOffset wordSize
         (Some (SrcLiteral \<lparr>l_value = 0, l_width = 1\<rparr>));
       (rt, ops1, word1, carry1) \<leftarrow> AddSubIteration rt op type isFirstWord isLastWord wordStartOffset wordSize
         (Some (SrcLiteral \<lparr>l_value = 1, l_width = 1\<rparr>));
       (rt, ops2, chosenOutputWord, carry) \<leftarrow> SelectWord rt isLastWord carryBorrowBit word0 word1 carry0 carry1;
       Some (rt, ops0 @ ops1 @ ops2, chosenOutputWord, carry) }
     else
       AddSubIteration rt op type isFirstWord isLastWord wordStartOffset wordSize
         (map_option SrcRegister carryBorrowBit) }"

fun AddSubWords ::
  "DecomposeAddSubConfig \<Rightarrow> Operation \<Rightarrow> ParseTreeBinaryOpType \<Rightarrow> nat \<Rightarrow> nat \<Rightarrow> nat list \<Rightarrow> RegisterTable \<Rightarrow> nat option \<Rightarrow>
   (RegisterTable \<times> Operation list \<times> nat list) option" where
  "AddSubWords config op type dstWidth numWords [] rt carryBorrowBit = Some (rt, [], [])"
| "AddSubWords config op type dstWidth numWords (wordIndex # wordIndices) rt carryBorrowBit = do {
     (rt, ops, word, carryBorrowBit) \<leftarrow> AddSubWord config op type dstWidth numWords wordIndex rt carryBorrowBit;
     (rt, ops', words) \<leftarrow> AddSubWords config op type dstWidth numWords wordIndices rt carryBorrowBit;
     Some (rt, ops @ ops', word # words) }"

definition FinalGather :: "nat \<Rightarrow> nat \<Rightarrow> nat list \<Rightarrow> DestinationOperand \<Rightarrow> Operation" where
  "FinalGather dstWidth internalWordWidth words dst =
     (new_operation (Gather (map (\<lambda>wordIndex. \<lparr>ge_sourceOffset = 0, ge_destOffset = wordIndex * internalWordWidth,
          ge_numBits = min dstWidth (wordIndex * internalWordWidth + internalWordWidth) - wordIndex * internalWordWidth\<rparr>)
        [0..<length words])) {} [dst])\<lparr>op_src := map SrcRegister words\<rparr>"

text \<open>The result is the new table, the operations that take the place of the original one, and
  whether anything was changed.\<close>

definition DecomposeAddSub ::
  "(real \<Rightarrow> real) \<Rightarrow> CodeGenConfig \<Rightarrow> RegisterTable \<Rightarrow> Operation \<Rightarrow> (RegisterTable \<times> Operation list \<times> bool) option" where
  "DecomposeAddSub rnd codeGenConfig rt op = (case op_opcode op of
     BinaryOp type \<Rightarrow> do {
       _ \<leftarrow> assert_that (type = Add \<or> type = Sub);
       _ \<leftarrow> assert_that (length (op_src op) = 2);
       _ \<leftarrow> assert_that (length (op_dst op) = 1);
       _ \<leftarrow> assert_that (IsRegisterDestination (op_dst op ! 0));
       let dstWidth = DestinationOperand_Width rt (op_dst op ! 0);
       config \<leftarrow> ComputeDecomposeAddSubConfig rnd codeGenConfig dstWidth;
       (case config of
          None \<Rightarrow> Some (rt, [op], False)
        | Some config \<Rightarrow> do {
            let internalWordWidth = ac_internalWordWidth config;
            let numWords = (dstWidth + internalWordWidth - 1) div internalWordWidth;
            _ \<leftarrow> assert_that (numWords > 1);
            (rt, ops, words) \<leftarrow> AddSubWords config op type dstWidth numWords [0..<numWords] rt None;
            let operationList = ops @ [FinalGather dstWidth internalWordWidth words (op_dst op ! 0)];
            _ \<leftarrow> assert_that (list_all (\<lambda>otherOp. op_locations otherOp = {}) operationList \<and> op_locations op \<noteq> {});
            Some (rt, map (\<lambda>otherOp. otherOp\<lparr>op_locations := op_locations op\<rparr>) operationList, True) }) }
   | _ \<Rightarrow> None)"

subsection \<open>Arithmetic of carries\<close>

text \<open>\<open>sg\<close> is \<open>1\<close> for additions and \<open>-1\<close> for subtractions. \<open>carry sg A B p\<close> is the carry or
  borrow out of the \<open>p\<close> lowest bits.\<close>

definition carry :: "int \<Rightarrow> int \<Rightarrow> int \<Rightarrow> nat \<Rightarrow> bool" where
  "carry sg A B p \<longleftrightarrow> (take_bit p A + sg * take_bit p B) div 2 ^ p \<noteq> 0"

lemma div_sum_of_parts:
  assumes "0 \<le> a" "a < m" "0 \<le> b" "b < (m::int)"
  shows "(a + b) div m \<in> {0, 1}" "(a - b) div m \<in> {0, -1}"
proof -
  have "(a + b) div m = 1" if "m \<le> a + b"
    by (rule int_div_pos_eq[where r = "a + b - m"]) (use that assms in linarith)+
  then show "(a + b) div m \<in> {0, 1}" using assms by (cases "m \<le> a + b") simp_all
  have "(a - b) div m = -1" if "a < b"
    by (rule int_div_pos_eq[where r = "a - b + m"]) (use that assms in linarith)+
  then show "(a - b) div m \<in> {0, -1}" using assms by (cases "a < b") simp_all
qed

lemma carry_div:
  assumes "sg \<in> {1, -1}"
  shows "(take_bit p A + sg * take_bit p B) div 2 ^ p = sg * of_bool (carry sg A B p)"
  using assms div_sum_of_parts[of "take_bit p A" "2 ^ p" "take_bit p B"] by (auto simp: carry_def)

lemma carry_0 [simp]: "\<not> carry sg A B 0"
  by (simp add: carry_def)

lemma split_low: "(A::int) = take_bit p A + 2 ^ p * drop_bit p A"
  by (simp add: take_bit_eq_mod drop_bit_eq_div)

text \<open>The bits above position \<open>p\<close> of the sum.\<close>

lemma drop_bit_sum:
  assumes "sg \<in> {1, -1}"
  shows "drop_bit p (A + sg * B) = drop_bit p A + sg * drop_bit p B + sg * of_bool (carry sg A B p)"
proof -
  have "A + sg * B = (take_bit p A + sg * take_bit p B) + 2 ^ p * (drop_bit p A + sg * drop_bit p B)"
    using split_low[of A p] split_low[of B p] by (metis (no_types) add.assoc add.commute distrib_left mult.left_commute)
  then show ?thesis
    using carry_div[OF assms] by (simp add: drop_bit_eq_div)
qed

lemma carry_step:
  assumes "sg \<in> {1, -1}"
  shows "drop_bit n (take_bit n (drop_bit p A) + sg * take_bit n (drop_bit p B) + sg * of_bool (carry sg A B p)) =
    sg * of_bool (carry sg A B (p + n))"
proof -
  have low: "take_bit (p + n) X = take_bit p X + 2 ^ p * take_bit n (drop_bit p X)" for X :: int
    using split_low[of "take_bit (p + n) X" p] by (simp add: drop_bit_take_bit)
  have "take_bit (p + n) A + sg * take_bit (p + n) B =
      (take_bit p A + sg * take_bit p B) + 2 ^ p * (take_bit n (drop_bit p A) + sg * take_bit n (drop_bit p B))"
    unfolding low by (simp add: algebra_simps)
  then have "(take_bit (p + n) A + sg * take_bit (p + n) B) div 2 ^ p =
      take_bit n (drop_bit p A) + sg * take_bit n (drop_bit p B) + sg * of_bool (carry sg A B p)"
    using carry_div[OF assms, of p A B] by simp
  then have "(take_bit (p + n) A + sg * take_bit (p + n) B) div 2 ^ p div 2 ^ n =
      drop_bit n (take_bit n (drop_bit p A) + sg * take_bit n (drop_bit p B) + sg * of_bool (carry sg A B p))"
    by (simp add: drop_bit_eq_div)
  then show ?thesis
    using carry_div[OF assms, of "p + n" A B] by (simp add: power_add zdiv_zmult2_eq)
qed

subsection \<open>One word\<close>

abbreviation sg_of :: "ParseTreeBinaryOpType \<Rightarrow> int" where
  "sg_of t \<equiv> (if t = Add then 1 else -1)"

text \<open>A word of a source, with the bit through which the carry enters.\<close>

definition src_word :: "bool \<Rightarrow> bool \<Rightarrow> int \<Rightarrow> int" where
  "src_word isFirst lsb a = (if isFirst then a else 2 * a + of_bool lsb)"

definition lsb_denotes ::
  "RegisterTable \<Rightarrow> ((nat \<Rightarrow> int) \<Rightarrow> bool) \<Rightarrow> bool \<Rightarrow> SourceOperand option \<Rightarrow> bool \<Rightarrow> bool" where
  "lsb_denotes rt P isFirst lsb c \<longleftrightarrow>
     isFirst \<or> (\<exists>l. lsb = Some l \<and> denotes rt P l False (of_bool c) \<and> SourceOperand_Width rt l = 1)"

lemma lsb_denotes_mono:
  assumes "lsb_denotes rt P isFirst lsb c" "prefix rt rt'" "\<And>e. Q e \<Longrightarrow> P e"
  shows "lsb_denotes rt' Q isFirst lsb c"
proof (cases isFirst)
  case False
  then obtain l where l: "lsb = Some l" "denotes rt P l False (of_bool c)" "SourceOperand_Width rt l = 1"
    using assms(1) by (auto simp: lsb_denotes_def)
  then have "SourceOperand_Width rt' l = 1"
    using SourceOperand_Width_prefix[OF _ assms(2)] by (simp add: denotes_def)
  with l(1) denotes_mono[OF l(2) assms(2,3)] show ?thesis by (simp add: lsb_denotes_def)
qed (simp add: lsb_denotes_def)

lemma ExtractWord_emits:
  assumes "denotes rt P (op_src op ! k) (ShouldSignExtend op k) A" "reads (length rt) P" "0 < n" "n + off \<le> size_t_max"
    and "lsb_denotes rt P isFirst lsb c"
  shows "\<exists>rt' ops x. ExtractWord rt op isFirst off n k lsb = Some (rt', ops, x) \<and>
    emits rt P ops rt' (\<lambda>e. P e \<and> e x = src_word isFirst c (take_bit n (drop_bit off A))) \<and>
    x < length rt' \<and> reg_width rt' x = (if isFirst then n else Suc n)"
proof -
  let ?rt1 = "rt @ [Local n]" and ?v = "take_bit n (drop_bit off A)"
  let ?P1 = "\<lambda>e. P e \<and> e (length rt) = ?v"
  let ?ex = "operation (BinaryOp Shr) {} [(op_src op ! k, ShouldSignExtend op k), (SourceOperand_size off, False)]
    (DstRegister (length rt))"
  have w1: "reg_width ?rt1 (length rt) = n" by (simp add: reg_width_def)
  note s1 = emits_shr[OF assms(1-4)]
  show ?thesis
  proof (cases isFirst)
    case True
    with s1 w1 show ?thesis by (auto simp: ExtractWord_def BinaryOp_new_eq src_word_def)
  next
    case False
    with assms(5) obtain l where l: "lsb = Some l" "denotes rt P l False (of_bool c)" "SourceOperand_Width rt l = 1"
      by (auto simp: lsb_denotes_def)
    then have lw: "SourceOperand_Width ?rt1 l = 1"
      using SourceOperand_Width_prefix[of rt l ?rt1] by (simp add: denotes_def)
    have d1: "denotes ?rt1 ?P1 l False (of_bool c)" by (rule denotes_mono[OF l(2)]) auto
    have dx: "denotes ?rt1 ?P1 (SrcRegister (length rt)) False ?v" by (rule denotes_register) auto
    have rd: "reads (length ?rt1) ?P1" by (intro reads_conj reads_register reads_mono[OF assms(2)]) auto
    have s2: "emits ?rt1 ?P1 [fst (snd (Concat ?rt1 [l, SrcRegister (length rt)]))] (?rt1 @ [Local (Suc n)])
        (\<lambda>e. ?P1 e \<and> e (length ?rt1) = 2 * ?v + of_bool c)"
      using emits_concat[OF d1 dx lw _ _ rd] unfolding w1 by simp
    have s: "emits rt P [?ex, fst (snd (Concat ?rt1 [l, SrcRegister (length rt)]))] (?rt1 @ [Local (Suc n)])
        (\<lambda>e. P e \<and> e (length ?rt1) = 2 * ?v + of_bool c)"
      using emits_weaken[OF emits_seq[OF s1 s2]] by simp
    have "ExtractWord rt op isFirst off n k lsb = Some (?rt1 @ [Local (Suc n)],
        [?ex, fst (snd (Concat ?rt1 [l, SrcRegister (length rt)]))], length ?rt1)"
      using False l(1) lw by (simp add: ExtractWord_def BinaryOp_new_eq Concat_eq[OF lw] w1)
    moreover have "reg_width (?rt1 @ [Local (Suc n)]) (length ?rt1) = Suc n" by (simp add: reg_width_def nth_append)
    ultimately show ?thesis using s False by (intro exI[of _ "?rt1 @ [Local (Suc n)]"]) (auto simp: src_word_def)
  qed
qed

text \<open>The sum or difference of two words and an incoming carry.\<close>

definition word_sum :: "int \<Rightarrow> int \<Rightarrow> int \<Rightarrow> nat \<Rightarrow> nat \<Rightarrow> bool \<Rightarrow> int" where
  "word_sum sg A B off n c =
     take_bit n (drop_bit off A) + sg * take_bit n (drop_bit off B) + sg * of_bool c"

definition sources_denote ::
  "RegisterTable \<Rightarrow> ((nat \<Rightarrow> int) \<Rightarrow> bool) \<Rightarrow> Operation \<Rightarrow> int \<Rightarrow> int \<Rightarrow> bool" where
  "sources_denote rt P op A B \<longleftrightarrow>
     denotes rt P (op_src op ! 0) (ShouldSignExtend op 0) A \<and> denotes rt P (op_src op ! 1) (ShouldSignExtend op 1) B \<and>
     reads (length rt) P"

lemma sources_denote_mono:
  assumes "sources_denote rt P op A B" "prefix rt rt'" "\<And>e. Q e \<Longrightarrow> P e" "reads (length rt') Q"
  shows "sources_denote rt' Q op A B"
  using assms denotes_mono unfolding sources_denote_def by blast

lemma AddSubSources_emits:
  assumes "sources_denote rt P op A B" "0 < n" "n + off \<le> size_t_max" "lsb_denotes rt P isFirst lsb c"
  shows "\<exists>rt' ops x y. AddSubSources rt op t isFirst off n lsb = Some (rt', ops, x, y) \<and>
    emits rt P ops rt' (\<lambda>e. (P e \<and> e x = src_word isFirst (t = Add) (take_bit n (drop_bit off A))) \<and>
      e y = src_word isFirst c (take_bit n (drop_bit off B))) \<and>
    x < length rt' \<and> y < length rt' \<and> reg_width rt' x = (if isFirst then n else Suc n) \<and> reg_width rt' y = reg_width rt' x"
proof -
  have dA: "denotes rt P (op_src op ! 0) (ShouldSignExtend op 0) A" and rd: "reads (length rt) P"
    using assms(1) by (simp_all add: sources_denote_def)
  let ?one = "SrcLiteral \<lparr>l_value = if t = Add then 1 else 0, l_width = 1\<rparr>"
  have "denotes rt P ?one False (of_bool (t = Add))" by (rule denotes_literal) (simp_all add: lit_ok_def)
  then have "lsb_denotes rt P isFirst (Some ?one) (t = Add)" by (simp add: lsb_denotes_def)
  from ExtractWord_emits[OF dA rd assms(2,3) this]
  obtain rt1 ops0 x where x: "ExtractWord rt op isFirst off n 0 (Some ?one) = Some (rt1, ops0, x)"
      "emits rt P ops0 rt1 (\<lambda>e. P e \<and> e x = src_word isFirst (t = Add) (take_bit n (drop_bit off A)))"
      "x < length rt1" "reg_width rt1 x = (if isFirst then n else Suc n)"
    by blast
  let ?P1 = "\<lambda>e. P e \<and> e x = src_word isFirst (t = Add) (take_bit n (drop_bit off A))"
  note p1 = emits_prefix[OF x(2)]
  have rd1: "reads (length rt1) ?P1"
    using x(3) by (intro reads_conj reads_register reads_mono[OF rd prefix_length_le[OF p1]])
  have sd1: "sources_denote rt1 ?P1 op A B" by (rule sources_denote_mono[OF assms(1) p1 _ rd1]) blast
  have dB: "denotes rt1 ?P1 (op_src op ! 1) (ShouldSignExtend op 1) B" using sd1 by (simp add: sources_denote_def)
  have "lsb_denotes rt1 ?P1 isFirst lsb c" by (rule lsb_denotes_mono[OF assms(4) p1]) blast
  from ExtractWord_emits[OF dB rd1 assms(2,3) this]
  obtain rt2 ops1 y where y: "ExtractWord rt1 op isFirst off n 1 lsb = Some (rt2, ops1, y)"
      "emits rt1 ?P1 ops1 rt2 (\<lambda>e. ?P1 e \<and> e y = src_word isFirst c (take_bit n (drop_bit off B)))"
      "y < length rt2" "reg_width rt2 y = (if isFirst then n else Suc n)"
    by blast
  note p2 = emits_prefix[OF y(2)]
  have "reg_width rt2 x = (if isFirst then n else Suc n)" "x < length rt2"
    using reg_width_prefix[OF p2 x(3)] prefix_length_less[OF p2 x(3)] x(4) by simp_all
  with emits_seq[OF x(2) y(2)] x(1) y show ?thesis by (auto simp: AddSubSources_def)
qed

text \<open>In the last word the sources are sign extended to their own width, which changes nothing.\<close>

lemma denotes_register_signed:
  "r < length rt \<Longrightarrow> (\<And>e. P e \<Longrightarrow> e r = v) \<Longrightarrow>
    denotes rt P (SrcRegister r) se (lit_int se \<lparr>l_value = v, l_width = reg_width rt r\<rparr>)"
  by (simp add: denotes_def operand_int_def)

lemma take_bit_sum_cong:
  assumes "take_bit w a = take_bit w a'" "take_bit w b = take_bit w (b'::int)" "sg \<in> {1, -1}"
  shows "take_bit w (a + sg * b) = take_bit w (a' + sg * b')"
proof -
  have "take_bit w (a + b) = take_bit w (a' + b')" "take_bit w (a - b) = take_bit w (a' - b')"
    using assms(1,2) take_bit_add[of w a b] take_bit_add[of w a' b'] take_bit_diff[of w a b] take_bit_diff[of w a' b']
    by simp_all
  with assms(3) show ?thesis by auto
qed

lemma binop_spec_sum: "t \<in> {Add, Sub} \<Longrightarrow> binop_spec t a b = a + sg_of t * b"
  by (auto simp: binop_spec_def)

lemma emits_sum:
  assumes "t \<in> {Add, Sub}" "x < length rt" "y < length rt" "\<And>e. P e \<Longrightarrow> e x = X" "\<And>e. P e \<Longrightarrow> e y = Y"
    and "reads (length rt) P" "reg_width rt y = reg_width rt x" "0 < reg_width rt x"
    and "W = reg_width rt x + (if isLast then 0 else 1)"
  shows "emits rt P [operation (BinaryOp t) {} [(SrcRegister x, isLast), (SrcRegister y, isLast)] (DstRegister (length rt))]
    (rt @ [Local W]) (\<lambda>e. P e \<and> e (length rt) = take_bit W (X + sg_of t * Y))"
proof -
  let ?i = "\<lambda>v. lit_int isLast \<lparr>l_value = v, l_width = reg_width rt x\<rparr>"
  have "take_bit W (?i v) = take_bit W v" for v
    using assms(8,9) by (simp add: lit_int_def take_bit_signed_take_bit)
  then have eq: "take_bit W (binop_spec t (?i X) (?i Y)) = take_bit W (X + sg_of t * Y)"
    unfolding binop_spec_sum[OF assms(1)] by (intro take_bit_sum_cong) auto
  have "denotes rt P (SrcRegister x) isLast (?i X)" "denotes rt P (SrcRegister y) isLast (?i Y)"
    using denotes_register_signed[of x rt P X isLast] denotes_register_signed[of y rt P Y isLast] assms by simp_all
  from emits_binary[OF this _ assms(6), of W t] show ?thesis
    using assms(1,8,9) unfolding eq by auto
qed

lemma AddSubOutput_emits:
  assumes "t \<in> {Add, Sub}" "x < length rt" "y < length rt" "\<And>e. P e \<Longrightarrow> e x = X" "\<And>e. P e \<Longrightarrow> e y = Y"
    and "reads (length rt) P" "reg_width rt y = reg_width rt x" "reg_width rt x = (if isFirst then n else Suc n)" "0 < n"
    and "n \<le> 2 ^ 63" "m = n + (if isLast then 0 else 1)"
  shows "\<exists>rt' ops r. AddSubOutput rt t isFirst isLast x y = (rt', ops, r) \<and>
    emits rt P ops rt' (\<lambda>e. P e \<and>
      e r = take_bit m (if isFirst then X + sg_of t * Y else drop_bit 1 (X + sg_of t * Y))) \<and>
    r < length rt' \<and> reg_width rt' r = m"
proof -
  define W where "W = reg_width rt x + (if isLast then 0 else 1)"
  have s1: "emits rt P [operation (BinaryOp t) {} [(SrcRegister x, isLast), (SrcRegister y, isLast)] (DstRegister (length rt))]
      (rt @ [Local W]) (\<lambda>e. P e \<and> e (length rt) = take_bit W (X + sg_of t * Y))"
    by (rule emits_sum) (use assms(1-9) in \<open>simp_all add: W_def\<close>)
  let ?rt1 = "rt @ [Local W]"
  let ?P1 = "\<lambda>e. P e \<and> e (length rt) = take_bit W (X + sg_of t * Y)"
  have new: "reg_width ?rt1 (length rt) = W" by (simp add: reg_width_def)
  show ?thesis
  proof (cases isFirst)
    case True
    then have "W = m" using assms(8,11) by (simp add: W_def)
    with True s1 new show ?thesis
      by (auto simp: AddSubOutput_def BinaryOp_new_eq Let_def simp flip: W_def)
  next
    case False
    then have W: "W - 1 = m" "W = Suc m" using assms(8,11) by (simp_all add: W_def)
    have d: "denotes ?rt1 ?P1 (SrcRegister (length rt)) False (take_bit W (X + sg_of t * Y))"
      by (rule denotes_register) auto
    have rd: "reads (length ?rt1) ?P1" by (intro reads_conj reads_register reads_mono[OF assms(6)]) auto
    have m: "0 < m" "m + 1 \<le> size_t_max" using assms(9,10,11) by (auto simp: size_t_max_def)
    have half: "take_bit m (drop_bit 1 (take_bit W z)) = take_bit m (drop_bit 1 z)" for z :: int
      by (simp add: W drop_bit_take_bit)
    have s2: "emits rt P ([operation (BinaryOp t) {} [(SrcRegister x, isLast), (SrcRegister y, isLast)] (DstRegister (length rt))] @
          [operation (BinaryOp Shr) {} [(SrcRegister (length rt), False), (SourceOperand_size 1, False)] (DstRegister (length ?rt1))])
        (?rt1 @ [Local m]) (\<lambda>e. P e \<and> e (length ?rt1) = take_bit m (drop_bit 1 (X + sg_of t * Y)))"
      by (rule emits_weaken[OF emits_seq[OF s1 emits_shr[OF d rd m]]]) (auto simp: half[unfolded One_nat_def])
    have "AddSubOutput rt t isFirst isLast x y = (?rt1 @ [Local m],
        [operation (BinaryOp t) {} [(SrcRegister x, isLast), (SrcRegister y, isLast)] (DstRegister (length rt))] @
          [operation (BinaryOp Shr) {} [(SrcRegister (length rt), False), (SourceOperand_size 1, False)] (DstRegister (length ?rt1))],
        length ?rt1)"
      using False by (simp add: AddSubOutput_def BinaryOp_new_eq Let_def W flip: W_def)
    moreover have "reg_width (?rt1 @ [Local m]) (length ?rt1) = m" "length ?rt1 < length (?rt1 @ [Local m])"
      by (simp_all add: reg_width_def nth_append)
    ultimately show ?thesis using s2 False by (intro exI[of _ "?rt1 @ [Local m]"]) auto
  qed
qed

lemma mask_operand:
  "\<exists>s. SourceOperand_mp (2 ^ n - 1) = Some s \<and> denotes rt P s False (2 ^ n - 1)"
proof -
  obtain w where "GetMpWidth (2 ^ n - 1) = Some w" "0 < w" "2 ^ n - 1 < (2::int) ^ w"
    using GetMpWidth_bounds[of "2 ^ n - 1"] by auto
  then show ?thesis
    by (intro exI[of _ "SrcLiteral \<lparr>l_value = 2 ^ n - 1, l_width = w\<rparr>"])
      (auto simp: SourceOperand_mp_def denotes_def lit_ok_def)
qed

lemma SplitOutput_emits:
  assumes "r < length rt" "\<And>e. P e \<Longrightarrow> e r = take_bit (Suc n) Z" "reads (length rt) P" "reg_width rt r = Suc n"
    and "0 < n" "n \<le> 2 ^ 63"
  shows "\<exists>rt' ops w c. SplitOutput rt r = Some (rt', ops, w, c) \<and>
    emits rt P ops rt' (\<lambda>e. (P e \<and> e w = take_bit n Z) \<and> e c = take_bit 1 (drop_bit n Z)) \<and>
    w < length rt' \<and> c < length rt' \<and> reg_width rt' w = n \<and> reg_width rt' c = 1"
proof -
  obtain mask where mask: "SourceOperand_mp (2 ^ n - 1) = Some mask" "denotes rt P mask False (2 ^ n - 1)"
    using mask_operand by blast
  let ?rt1 = "rt @ [Local n]" and ?rt2 = "rt @ [Local n, Local 1]"
  let ?and = "operation (BinaryOp And) {} [(SrcRegister r, False), (mask, False)] (DstRegister (length rt))"
  let ?shr = "operation (BinaryOp Shr) {} [(SrcRegister r, False), (SourceOperand_size n, False)] (DstRegister (length ?rt1))"
  have d: "denotes rt P (SrcRegister r) False (take_bit (Suc n) Z)" using assms(1,2) by (rule denotes_register)
  have "take_bit n (take_bit (Suc n) Z AND (2 ^ n - 1)) = take_bit n Z"
    by (simp add: bit_eq_iff bit_take_bit_iff bit_and_iff bit_mask_iff flip: mask_eq_exp_minus_1) blast
  then have s1: "emits rt P [?and] ?rt1 (\<lambda>e. P e \<and> e (length rt) = take_bit n Z)"
    using emits_binary[OF d mask(2) assms(5,3), of And] by (simp add: binop_spec_def)
  let ?P1 = "\<lambda>e. P e \<and> e (length rt) = take_bit n Z"
  have d1: "denotes ?rt1 ?P1 (SrcRegister r) False (take_bit (Suc n) Z)"
    by (rule denotes_mono[OF d]) auto
  have rd1: "reads (length ?rt1) ?P1" by (intro reads_conj reads_register reads_mono[OF assms(3)]) auto
  have "1 + n \<le> size_t_max" using assms(6) by (simp add: size_t_max_def)
  from emits_shr[OF d1 rd1 _ this]
  have "emits ?rt1 ?P1 [?shr] (?rt1 @ [Local 1]) (\<lambda>e. ?P1 e \<and> e (length ?rt1) = take_bit 1 (drop_bit n Z))"
    by (simp add: drop_bit_take_bit)
  from emits_seq[OF s1 this]
  have "emits rt P [?and, ?shr] ?rt2 (\<lambda>e. ?P1 e \<and> e (length ?rt1) = take_bit 1 (drop_bit n Z))" by simp
  moreover have "SplitOutput rt r = Some (?rt2, [?and, ?shr], length rt, length ?rt1)"
    using mask(1) assms(4) by (simp add: SplitOutput_def BinaryOp_new_eq)
  moreover have "length rt < length ?rt2" "length ?rt1 < length ?rt2"
    "reg_width ?rt2 (length rt) = n" "reg_width ?rt2 (length ?rt1) = 1"
    by (simp_all add: reg_width_def nth_append)
  ultimately show ?thesis by (intro exI conjI)
qed

text \<open>The bits that carry the carry disappear when the least significant bit is discarded.\<close>

lemma src_words_sum:
  assumes "sg = sg_of t" "isFirst \<longrightarrow> \<not> c"
  shows "(if isFirst then src_word isFirst (t = Add) a + sg * src_word isFirst c b
      else drop_bit 1 (src_word isFirst (t = Add) a + sg * src_word isFirst c b)) = a + sg * b + sg * of_bool c"
proof (cases isFirst)
  case False
  have "2 * a + 1 + (2 * b + of_bool c) = 2 * (a + b + of_bool c) + of_bool (\<not> c)"
    "2 * a - (2 * b + of_bool c) = 2 * (a - b - of_bool c) + of_bool c" by (cases c; simp)+
  then have "(2 * a + 1 + (2 * b + of_bool c)) div 2 = a + b + of_bool c"
    "(2 * a - (2 * b + of_bool c)) div 2 = a - b - of_bool c" by (simp_all only: of_bool_def) (auto split: if_splits)
  with False assms(1) show ?thesis
    by (cases "t = Add") (simp_all add: src_word_def drop_bit_eq_div algebra_simps)
qed (use assms(2) in \<open>simp add: src_word_def\<close>)

lemma AddSubIteration_emits:
  assumes "t \<in> {Add, Sub}" "sources_denote rt P op A B" "0 < n" "n + off \<le> 2 ^ 63"
    and "lsb_denotes rt P isFirst lsb c" "isFirst \<longrightarrow> \<not> c"
  defines "Z \<equiv> word_sum (sg_of t) A B off n c"
  shows "\<exists>rt' ops w k. AddSubIteration rt op t isFirst isLast off n lsb = Some (rt', ops, w, k) \<and>
    emits rt P ops rt' (\<lambda>e. (P e \<and> e w = take_bit n Z) \<and> (\<forall>r. k = Some r \<longrightarrow> e r = take_bit 1 (drop_bit n Z))) \<and>
    w < length rt' \<and> reg_width rt' w = n \<and>
    (if isLast then k = None else \<exists>r. k = Some r \<and> r < length rt' \<and> reg_width rt' r = 1)"
proof -
  define x where "x = src_word isFirst (t = Add) (take_bit n (drop_bit off A))"
  define y where "y = src_word isFirst c (take_bit n (drop_bit off B))"
  have "n + off \<le> size_t_max" using assms(4) by (simp add: size_t_max_def)
  from AddSubSources_emits[OF assms(2,3) this assms(5), of t]
  obtain rt1 ops0 rx ry where src: "AddSubSources rt op t isFirst off n lsb = Some (rt1, ops0, rx, ry)"
    and s1: "emits rt P ops0 rt1 (\<lambda>e. (P e \<and> e rx = x) \<and> e ry = y)"
    and b1: "rx < length rt1" "ry < length rt1" "reg_width rt1 rx = (if isFirst then n else Suc n)"
      "reg_width rt1 ry = reg_width rt1 rx"
    unfolding x_def y_def by blast
  let ?P1 = "\<lambda>e. (P e \<and> e rx = x) \<and> e ry = y" and ?m = "n + (if isLast then 0 else 1)"
  have rd1: "reads (length rt1) ?P1"
    using assms(2) b1 emits_length[OF s1]
    by (intro reads_conj reads_register) (auto simp: sources_denote_def intro: reads_mono)
  have "n \<le> 2 ^ 63" using assms(4) by simp
  from AddSubOutput_emits[where P = ?P1 and X = x and Y = y, OF assms(1) b1(1,2) _ _ rd1 b1(4,3) assms(3) this refl, of isLast]
  obtain rt2 ops1 r where out: "AddSubOutput rt1 t isFirst isLast rx ry = (rt2, ops1, r)"
    and s2: "emits rt1 ?P1 ops1 rt2 (\<lambda>e. ?P1 e \<and>
      e r = take_bit ?m (if isFirst then x + sg_of t * y else drop_bit 1 (x + sg_of t * y)))"
    and b2: "r < length rt2" "reg_width rt2 r = ?m"
    by blast
  have Z: "(if isFirst then x + sg_of t * y else drop_bit 1 (x + sg_of t * y)) = Z"
    unfolding x_def y_def Z_def word_sum_def using assms(6) by (intro src_words_sum) auto
  have s12: "emits rt P (ops0 @ ops1) rt2 (\<lambda>e. P e \<and> e r = take_bit ?m Z)"
    using emits_seq[OF s1 s2] unfolding Z by (rule emits_weaken) auto
  show ?thesis
  proof (cases isLast)
    case True
    with src out b2 s12 show ?thesis by (auto simp: AddSubIteration_def)
  next
    case False
    let ?P2 = "\<lambda>e. P e \<and> e r = take_bit (Suc n) Z"
    have rd2: "reads (length rt2) ?P2"
      using assms(2) b2 emits_length[OF s12]
      by (intro reads_conj reads_register) (auto simp: sources_denote_def intro: reads_mono)
    from SplitOutput_emits[where P = ?P2 and Z = Z, OF b2(1) _ rd2 _ assms(3) \<open>n \<le> 2 ^ 63\<close>]
    obtain rt3 ops2 w k where sp: "SplitOutput rt2 r = Some (rt3, ops2, w, k)"
      and s3: "emits rt2 ?P2 ops2 rt3 (\<lambda>e. (?P2 e \<and> e w = take_bit n Z) \<and> e k = take_bit 1 (drop_bit n Z))"
      and b3: "w < length rt3" "k < length rt3" "reg_width rt3 w = n" "reg_width rt3 k = 1"
      using b2 False by auto
    have s12': "emits rt P (ops0 @ ops1) rt2 ?P2" using s12 False by simp
    have "emits rt P (ops0 @ ops1 @ ops2) rt3
        (\<lambda>e. (P e \<and> e w = take_bit n Z) \<and> (\<forall>r. Some k = Some r \<longrightarrow> e r = take_bit 1 (drop_bit n Z)))"
      using emits_weaken[OF emits_seq[OF s12' s3]] by simp
    with src out sp False b3 show ?thesis by (auto simp: AddSubIteration_def)
  qed
qed

subsection \<open>All words\<close>

lemma take_bit_one_bool: "sg \<in> {1, -1} \<Longrightarrow> take_bit 1 (sg * of_bool c) = (of_bool c :: int)"
  by (cases c) auto

lemma word_sum_carry:
  assumes "sg \<in> {1, -1}"
  shows "take_bit n (word_sum sg A B off n (carry sg A B off)) = take_bit n (drop_bit off (A + sg * B))"
    and "take_bit 1 (drop_bit n (word_sum sg A B off n (carry sg A B off))) = of_bool (carry sg A B (off + n))"
proof -
  have "take_bit n (take_bit n a + sg * take_bit n b + sg * of_bool c) = take_bit n (a + sg * b + sg * of_bool c)" for a b :: int and c
  proof -
    have "take_bit n (take_bit n b + of_bool c) = take_bit n (b + of_bool c)"
      using take_bit_add[of n "take_bit n b" "of_bool c"] take_bit_add[of n b "of_bool c"] by simp
    from take_bit_sum_cong[OF _ this assms, of "take_bit n a" a] show ?thesis by (simp add: algebra_simps)
  qed
  then show "take_bit n (word_sum sg A B off n (carry sg A B off)) = take_bit n (drop_bit off (A + sg * B))"
    unfolding word_sum_def drop_bit_sum[OF assms] .
  show "take_bit 1 (drop_bit n (word_sum sg A B off n (carry sg A B off))) = of_bool (carry sg A B (off + n))"
    unfolding word_sum_def carry_step[OF assms] by (rule take_bit_one_bool[OF assms])
qed

text \<open>The carry register before a word, and the registers after it.\<close>

definition carry_known ::
  "RegisterTable \<Rightarrow> ((nat \<Rightarrow> int) \<Rightarrow> bool) \<Rightarrow> bool \<Rightarrow> nat option \<Rightarrow> bool \<Rightarrow> bool" where
  "carry_known rt P isFirst k c \<longleftrightarrow>
     (if isFirst then \<not> c
      else \<exists>r. k = Some r \<and> r < length rt \<and> reg_width rt r = 1 \<and> (\<forall>e. P e \<longrightarrow> e r = of_bool c))"

definition word_done ::
  "RegisterTable \<Rightarrow> ((nat \<Rightarrow> int) \<Rightarrow> bool) \<Rightarrow> bool \<Rightarrow> nat \<Rightarrow> int \<Rightarrow> bool \<Rightarrow>
   RegisterTable \<Rightarrow> Operation list \<Rightarrow> nat \<Rightarrow> nat option \<Rightarrow> bool" where
  "word_done rt P isLast n v c' rt' ops w k \<longleftrightarrow>
     w < length rt' \<and> reg_width rt' w = n \<and>
     (\<exists>Q. emits rt P ops rt' (\<lambda>e. P e \<and> e w = v \<and> Q e) \<and> reads (length rt') Q \<and>
        (\<not> isLast \<longrightarrow> carry_known rt' Q False k c'))"

lemma SelectWord_emits:
  assumes "carry_known rt P False k c" "reads (length rt) P"
    and "w0 < length rt" "w1 < length rt" "reg_width rt w0 = n" "reg_width rt w1 = n" "0 < n"
    and "\<And>e. P e \<Longrightarrow> e w0 = v0" "\<And>e. P e \<Longrightarrow> e w1 = v1" "v = take_bit n (if c then v1 else v0)"
    and "isLast \<or> (\<exists>r0 r1. k0 = Some r0 \<and> k1 = Some r1 \<and> r0 < length rt \<and> r1 < length rt \<and>
      (\<forall>e. P e \<longrightarrow> e r0 = u0 \<and> e r1 = u1) \<and> of_bool c' = take_bit 1 (if c then u1 else u0))"
  shows "\<exists>rt' ops w k'. SelectWord rt isLast k w0 w1 k0 k1 = Some (rt', ops, w, k') \<and>
    word_done rt P isLast n v c' rt' ops w k'"
proof -
  obtain kr where kr: "k = Some kr" "kr < length rt" "\<And>e. P e \<Longrightarrow> e kr = of_bool c"
    using assms(1) by (auto simp: carry_known_def)
  let ?rt1 = "rt @ [Local n]" and ?P1 = "\<lambda>e. P e \<and> e (length rt) = v"
  let ?mux = "\<lambda>d a b. operation Select {} [(SrcRegister kr, False), (SrcRegister a, False), (SrcRegister b, False)] (DstRegister d)"
  have dk: "denotes rt P (SrcRegister kr) False (of_bool c)" using kr(2,3) by (rule denotes_register)
  have d: "denotes rt P (SrcRegister w0) False v0" "denotes rt P (SrcRegister w1) False v1"
    using assms(3,4,8,9) by (simp_all add: denotes_def)
  have s1: "emits rt P [?mux (length rt) w0 w1] ?rt1 ?P1"
    using emits_mux[OF dk d assms(7,2)] by (simp add: assms(10))
  have w1: "reg_width ?rt1 (length rt) = n" by (simp add: reg_width_def)
  show ?thesis
  proof (cases isLast)
    case True
    then have "SelectWord rt isLast k w0 w1 k0 k1 = Some (?rt1, [?mux (length rt) w0 w1], length rt, k)"
      using kr(1) assms(5,6) by (simp add: SelectWord_def Mux21_eq)
    moreover have "word_done rt P isLast n v c' ?rt1 [?mux (length rt) w0 w1] (length rt) k"
      using s1 w1 True unfolding word_done_def by (auto intro!: exI[of _ "\<lambda>_. True"] simp: reads_def)
    ultimately show ?thesis by blast
  next
    case False
    then obtain r0 r1 where r: "k0 = Some r0" "k1 = Some r1" "r0 < length rt" "r1 < length rt"
        "\<And>e. P e \<Longrightarrow> e r0 = u0" "\<And>e. P e \<Longrightarrow> e r1 = u1" "of_bool c' = take_bit 1 (if c then u1 else u0)"
      using assms(11) by blast
    let ?rt2 = "?rt1 @ [Local 1]" and ?k = "length ?rt1"
    have d1: "denotes ?rt1 ?P1 (SrcRegister kr) False (of_bool c)" "denotes ?rt1 ?P1 (SrcRegister r0) False u0"
        "denotes ?rt1 ?P1 (SrcRegister r1) False u1"
      using kr(2,3) r by (simp_all add: denotes_def)
    have rd1: "reads (length ?rt1) ?P1" by (intro reads_conj reads_register reads_mono[OF assms(2)]) auto
    have "emits ?rt1 ?P1 [?mux ?k r0 r1] ?rt2 (\<lambda>e. ?P1 e \<and> e ?k = of_bool c')"
      using emits_mux[OF d1 _ rd1, of 1] unfolding r(7) by simp
    from emits_weaken[OF emits_seq[OF s1 this]]
    have s2: "emits rt P [?mux (length rt) w0 w1, ?mux ?k r0 r1] ?rt2 (\<lambda>e. P e \<and> e (length rt) = v \<and> e ?k = of_bool c')"
      by simp
    have w2: "reg_width ?rt2 (length rt) = n" "reg_width ?rt2 ?k = 1" by (simp_all add: reg_width_def nth_append)
    have "SelectWord rt isLast k w0 w1 k0 k1 = Some (?rt2, [?mux (length rt) w0 w1, ?mux ?k r0 r1], length rt, Some ?k)"
      using kr(1) assms(5,6) False r(1,2) by (simp add: SelectWord_def Mux21_eq)
    moreover have "word_done rt P isLast n v c' ?rt2 [?mux (length rt) w0 w1, ?mux ?k r0 r1] (length rt) (Some ?k)"
      unfolding word_done_def
    proof (intro conjI exI)
      show "emits rt P [?mux (length rt) w0 w1, ?mux ?k r0 r1] ?rt2 (\<lambda>e. P e \<and> e (length rt) = v \<and> e ?k = of_bool c')" by (rule s2)
    qed (use w2 in \<open>auto simp: carry_known_def\<close>)
    ultimately show ?thesis by blast
  qed
qed

abbreviation word_size :: "nat \<Rightarrow> nat \<Rightarrow> nat \<Rightarrow> nat" where
  "word_size D W i \<equiv> min D (i * W + W) - i * W"

lemma carry_known_lsb: "carry_known rt P isFirst k c \<Longrightarrow> lsb_denotes rt P isFirst (map_option SrcRegister k) c"
  by (auto simp: carry_known_def lsb_denotes_def denotes_def split: if_splits)

lemma lsb_denotes_literal:
  "lsb_denotes rt P isFirst (Some (SrcLiteral \<lparr>l_value = of_bool c, l_width = 1\<rparr>)) c"
  by (simp add: lsb_denotes_def denotes_def lit_ok_def)

lemma carry_known_mono:
  assumes "carry_known rt P isFirst k c" "prefix rt rt'" "\<And>e. Q e \<Longrightarrow> P e"
  shows "carry_known rt' Q isFirst k c"
  using assms(1,3) reg_width_prefix[OF assms(2)] prefix_length_less[OF assms(2)]
  by (auto simp: carry_known_def split: if_splits)

text \<open>A word computed directly.\<close>

lemma AddSubIteration_done:
  assumes "t \<in> {Add, Sub}" "sources_denote rt P op A B" "0 < n" "n + off \<le> 2 ^ 63"
    and "carry_known rt P isFirst k (carry (sg_of t) A B off)"
  shows "\<exists>rt' ops w k'. AddSubIteration rt op t isFirst isLast off n (map_option SrcRegister k) = Some (rt', ops, w, k') \<and>
    word_done rt P isLast n (take_bit n (drop_bit off (A + sg_of t * B))) (carry (sg_of t) A B (off + n)) rt' ops w k'"
proof -
  have sg: "sg_of t \<in> {1, -1}" by simp
  have "isFirst \<longrightarrow> \<not> carry (sg_of t) A B off" using assms(5) by (simp add: carry_known_def)
  from AddSubIteration_emits[OF assms(1-4) carry_known_lsb[OF assms(5)] this, of isLast, unfolded word_sum_carry[OF sg]]
  obtain rt' ops w k' where *: "AddSubIteration rt op t isFirst isLast off n (map_option SrcRegister k) = Some (rt', ops, w, k')"
      "emits rt P ops rt' (\<lambda>e. (P e \<and> e w = take_bit n (drop_bit off (A + sg_of t * B))) \<and>
        (\<forall>r. k' = Some r \<longrightarrow> e r = of_bool (carry (sg_of t) A B (off + n))))"
      "w < length rt'" "reg_width rt' w = n"
      "if isLast then k' = None else \<exists>r. k' = Some r \<and> r < length rt' \<and> reg_width rt' r = 1"
    by blast
  have "reads (length rt') (\<lambda>e. \<forall>r. k' = Some r \<longrightarrow> e r = of_bool (carry (sg_of t) A B (off + n)))"
    using *(5) by (auto simp: reads_def agree_def split: if_splits)
  then have "word_done rt P isLast n (take_bit n (drop_bit off (A + sg_of t * B))) (carry (sg_of t) A B (off + n)) rt' ops w k'"
    unfolding word_done_def using *(2-5)
    by (intro conjI exI[of _ "\<lambda>e. \<forall>r. k' = Some r \<longrightarrow> e r = of_bool (carry (sg_of t) A B (off + n))"])
      (auto simp: carry_known_def)
  with *(1) show ?thesis by blast
qed

text \<open>A word computed for both values of the carry.\<close>

lemma sources_denote_reads: "sources_denote rt P op A B \<Longrightarrow> reads (length rt) P"
  by (simp add: sources_denote_def)

lemma reads_iteration:
  assumes "reads (length rt) P" "emits rt P ops rt' R" "w < length rt'"
    and "if isLast then k = None else \<exists>r. k = Some r \<and> r < length rt' \<and> reg_width rt' r = 1"
  shows "reads (length rt') (\<lambda>e. (P e \<and> e w = v) \<and> (\<forall>r. k = Some r \<longrightarrow> e r = u))"
proof (intro reads_conj reads_register assms(3) reads_mono[OF assms(1) emits_length[OF assms(2)]])
  show "reads (length rt') (\<lambda>e. \<forall>r. k = Some r \<longrightarrow> e r = u)"
    using assms(4) by (auto simp: reads_def agree_def split: if_splits)
qed

lemma word_done_seq:
  assumes "emits rt P ops rt1 P1" "\<And>e. P1 e \<Longrightarrow> P e" "word_done rt1 P1 isLast n v c rt2 ops2 w k"
  shows "word_done rt P isLast n v c rt2 (ops @ ops2) w k"
proof -
  obtain Q where Q: "emits rt1 P1 ops2 rt2 (\<lambda>e. P1 e \<and> e w = v \<and> Q e)" "reads (length rt2) Q"
      "\<not> isLast \<longrightarrow> carry_known rt2 Q False k c" "w < length rt2" "reg_width rt2 w = n"
    using assms(3) unfolding word_done_def by blast
  have "emits rt P (ops @ ops2) rt2 (\<lambda>e. P e \<and> e w = v \<and> Q e)"
    by (rule emits_weaken[OF emits_seq[OF assms(1) Q(1)]]) (use assms(2) in auto)
  with Q show ?thesis unfolding word_done_def by blast
qed

lemma SelectIterations_done:
  assumes "t \<in> {Add, Sub}" "sources_denote rt P op A B" "0 < n" "n + off \<le> 2 ^ 63"
    and "carry_known rt P False k (carry (sg_of t) A B off)"
  defines "c \<equiv> carry (sg_of t) A B off" and "Z \<equiv> word_sum (sg_of t) A B off n"
  shows "\<exists>rt1 ops0 w0 k0 rt2 ops1 w1 k1 rt3 ops2 w k'.
    AddSubIteration rt op t False isLast off n (Some (SrcLiteral \<lparr>l_value = 0, l_width = 1\<rparr>)) = Some (rt1, ops0, w0, k0) \<and>
    AddSubIteration rt1 op t False isLast off n (Some (SrcLiteral \<lparr>l_value = 1, l_width = 1\<rparr>)) = Some (rt2, ops1, w1, k1) \<and>
    SelectWord rt2 isLast k w0 w1 k0 k1 = Some (rt3, ops2, w, k') \<and>
    word_done rt P isLast n (take_bit n (drop_bit off (A + sg_of t * B))) (carry (sg_of t) A B (off + n)) rt3
      (ops0 @ ops1 @ ops2) w k'"
proof -
  let ?post = "\<lambda>P w k c e. (P e \<and> e w = take_bit n (Z c)) \<and> (\<forall>r. k = Some r \<longrightarrow> e r = take_bit 1 (drop_bit n (Z c)))"
  have sg: "sg_of t \<in> {1, -1}" by simp
  obtain rt1 ops0 w0 k0 where 0: "AddSubIteration rt op t False isLast off n (Some (SrcLiteral \<lparr>l_value = 0, l_width = 1\<rparr>)) = Some (rt1, ops0, w0, k0)"
      "emits rt P ops0 rt1 (?post P w0 k0 False)" "w0 < length rt1" "reg_width rt1 w0 = n"
      "if isLast then k0 = None else \<exists>r. k0 = Some r \<and> r < length rt1 \<and> reg_width rt1 r = 1"
    using AddSubIteration_emits[OF assms(1-4) lsb_denotes_literal[of rt P False False], of isLast] unfolding Z_def by auto
  let ?P1 = "?post P w0 k0 False"
  note p1 = emits_prefix[OF 0(2)]
  have rd1: "reads (length rt1) ?P1" by (rule reads_iteration[OF sources_denote_reads[OF assms(2)] 0(2,3,5)])
  have sd1: "sources_denote rt1 ?P1 op A B" by (rule sources_denote_mono[OF assms(2) p1 _ rd1]) blast
  obtain rt2 ops1 w1 k1 where 1: "AddSubIteration rt1 op t False isLast off n (Some (SrcLiteral \<lparr>l_value = 1, l_width = 1\<rparr>)) = Some (rt2, ops1, w1, k1)"
      "emits rt1 ?P1 ops1 rt2 (?post ?P1 w1 k1 True)" "w1 < length rt2" "reg_width rt2 w1 = n"
      "if isLast then k1 = None else \<exists>r. k1 = Some r \<and> r < length rt2 \<and> reg_width rt2 r = 1"
    using AddSubIteration_emits[OF assms(1) sd1 assms(3,4) lsb_denotes_literal[of rt1 ?P1 False True], of isLast] unfolding Z_def by auto
  let ?P2 = "?post ?P1 w1 k1 True"
  note p2 = emits_prefix[OF 1(2)]
  have rd2: "reads (length rt2) ?P2" by (rule reads_iteration[OF rd1 1(2,3,5)])
  have ck: "carry_known rt2 ?P2 False k c"
    unfolding c_def by (rule carry_known_mono[OF assms(5) prefix_order.trans[OF p1 p2]]) blast
  have w0: "w0 < length rt2" "reg_width rt2 w0 = n"
    using prefix_length_less[OF p2 0(3)] reg_width_prefix[OF p2 0(3)] 0(4) by simp_all
  have word: "take_bit n (drop_bit off (A + sg_of t * B)) = take_bit n (if c then take_bit n (Z True) else take_bit n (Z False))"
    unfolding word_sum_carry(1)[OF sg, of n A B off, symmetric] c_def[symmetric] Z_def[symmetric] by (cases c) simp_all
  have cr: "of_bool (carry (sg_of t) A B (off + n)) =
      take_bit 1 (if c then take_bit 1 (drop_bit n (Z True)) else take_bit 1 (drop_bit n (Z False)))"
    unfolding word_sum_carry(2)[OF sg, of n A B off, symmetric] c_def[symmetric] Z_def[symmetric] by (cases c) simp_all
  have "isLast \<or> (\<exists>r0 r1. k0 = Some r0 \<and> k1 = Some r1 \<and> r0 < length rt2 \<and> r1 < length rt2 \<and>
      (\<forall>e. ?P2 e \<longrightarrow> e r0 = take_bit 1 (drop_bit n (Z False)) \<and> e r1 = take_bit 1 (drop_bit n (Z True))) \<and>
      of_bool (carry (sg_of t) A B (off + n)) =
        take_bit 1 (if c then take_bit 1 (drop_bit n (Z True)) else take_bit 1 (drop_bit n (Z False))))"
    using 0(5) 1(5) prefix_length_less[OF p2] cr by (cases isLast) auto
  from SelectWord_emits[OF ck rd2 w0(1) 1(3) w0(2) 1(4) assms(3) _ _ word this]
  obtain rt3 ops2 w k' where 2: "SelectWord rt2 isLast k w0 w1 k0 k1 = Some (rt3, ops2, w, k')"
      "word_done rt2 ?P2 isLast n (take_bit n (drop_bit off (A + sg_of t * B))) (carry (sg_of t) A B (off + n)) rt3 ops2 w k'"
    by blast
  have "word_done rt P isLast n (take_bit n (drop_bit off (A + sg_of t * B))) (carry (sg_of t) A B (off + n)) rt3
      (ops0 @ ops1 @ ops2) w k'"
    by (rule word_done_seq[OF 0(2) _ word_done_seq[OF 1(2) _ 2(2)]]) blast+
  with 0(1) 1(1) 2(1) show ?thesis by blast
qed

lemma AddSubWord_done:
  assumes "t \<in> {Add, Sub}" "sources_denote rt P op A B" "0 < W" "i * W < D" "D \<le> 2 ^ 63"
    and "W = ac_internalWordWidth config" "i = N - 1 \<longrightarrow> D \<le> i * W + W"
    and "carry_known rt P (i = 0) k (carry (sg_of t) A B (i * W))"
  shows "\<exists>rt' ops w k'. AddSubWord config op t D N i rt k = Some (rt', ops, w, k') \<and>
    word_done rt P (i = N - 1) (word_size D W i) (take_bit (word_size D W i) (drop_bit (i * W) (A + sg_of t * B)))
      (carry (sg_of t) A B (i * W + word_size D W i)) rt' ops w k'"
proof -
  have n: "0 < word_size D W i" "word_size D W i + i * W \<le> 2 ^ 63" using assms(3-5) by auto
  note * = AddSubIteration_done[OF assms(1,2) n assms(8), of "i = N - 1"]
  show ?thesis
  proof (cases "ac_carrySelect config \<and> i \<noteq> 0")
    case True
    then have "carry_known rt P False k (carry (sg_of t) A B (i * W))" using assms(8) by simp
    from SelectIterations_done[OF assms(1,2) n this, of "i = N - 1"] show ?thesis
      using True n(1) assms(6,7) by (fastforce simp: AddSubWord_def Let_def)
  next
    case False
    then have "AddSubWord config op t D N i rt k =
        AddSubIteration rt op t (i = 0) (i = N - 1) (i * W) (word_size D W i) (map_option SrcRegister k)"
      using n(1) assms(6,7) by (auto simp: AddSubWord_def Let_def)
    with * show ?thesis by simp
  qed
qed

text \<open>The words from \<open>i\<close> on.\<close>

definition words_known :: "nat \<Rightarrow> nat \<Rightarrow> int \<Rightarrow> nat list \<Rightarrow> nat list \<Rightarrow> (nat \<Rightarrow> int) \<Rightarrow> bool" where
  "words_known D W S is ws e \<longleftrightarrow>
     list_all2 (\<lambda>i w. e w = take_bit (word_size D W i) (drop_bit (i * W) S)) is ws"

lemma reads_words_known:
  assumes "\<forall>w \<in> set ws. w < n"
  shows "reads n (words_known D W S is ws)"
  unfolding reads_def words_known_def
proof (intro allI impI)
  fix e e' assume "agree n e e'" "list_all2 (\<lambda>i w. e w = take_bit (word_size D W i) (drop_bit (i * W) S)) is ws"
  then show "list_all2 (\<lambda>i w. e' w = take_bit (word_size D W i) (drop_bit (i * W) S)) is ws"
    using assms by (auto simp: list_all2_conv_all_nth agree_def)
qed

lemma word_count: "0 < W \<Longrightarrow> N = (D + W - 1) div W \<Longrightarrow> D \<le> N * (W::nat)"
proof -
  assume W: "0 < W" and N: "N = (D + W - 1) div W"
  have "D + W - 1 = (D + W - 1) div W * W + (D + W - 1) mod W" by simp
  moreover have "(D + W - 1) mod W < W" using W by simp
  ultimately show ?thesis unfolding N[symmetric] using W by linarith
qed

lemma word_bounds:
  assumes "0 < W" "N = (D + W - 1) div W" "i < N"
  shows "i * W < D" "i = N - 1 \<longrightarrow> D \<le> i * W + W" "i \<noteq> N - 1 \<longrightarrow> i * W + word_size D W i = Suc i * W"
proof -
  show lt: "i * W < D" using group_start_less[OF assms(1)] assms(2,3) by simp
  note N = word_count[OF assms(1,2)]
  show "i = N - 1 \<longrightarrow> D \<le> i * W + W"
  proof
    assume "i = N - 1"
    with assms(3) have "N = Suc i" by simp
    with N show "D \<le> i * W + W" by simp
  qed
  show "i \<noteq> N - 1 \<longrightarrow> i * W + word_size D W i = Suc i * W"
  proof
    assume "i \<noteq> N - 1"
    then have "Suc i < N" using assms(3) by simp
    then have "Suc i * W < D" using group_start_less[OF assms(1), of "Suc i" D] assms(2) by simp
    then show "i * W + word_size D W i = Suc i * W" by simp
  qed
qed

lemma AddSubWords_emits:
  assumes "t \<in> {Add, Sub}" "0 < W" "D \<le> 2 ^ 63" "W = ac_internalWordWidth config" "N = (D + W - 1) div W"
    and "sources_denote rt P op A B" "i \<le> N"
    and "i < N \<Longrightarrow> carry_known rt P (i = 0) k (carry (sg_of t) A B (i * W))"
  shows "\<exists>rt' ops ws. AddSubWords config op t D N [i..<N] rt k = Some (rt', ops, ws) \<and>
    (\<forall>w \<in> set ws. w < length rt') \<and>
    emits rt P ops rt' (\<lambda>e. P e \<and> words_known D W (A + sg_of t * B) [i..<N] ws e)"
  using assms(6-)
proof (induction "N - i" arbitrary: i rt P k)
  case 0
  moreover have "emits rt P [] rt (\<lambda>e. P e \<and> words_known D W (A + sg_of t * B) [] [] e)"
    by (simp add: emits_def words_known_def)
  ultimately show ?case by simp
next
  case (Suc d)
  then have i: "i < N" by simp
  note wb = word_bounds[OF assms(2,5) i]
  from AddSubWord_done[OF assms(1) Suc.prems(1) assms(2) wb(1) assms(3,4) wb(2) Suc.prems(3)[OF i]]
  obtain rt1 ops1 w k1 Q where 1: "AddSubWord config op t D N i rt k = Some (rt1, ops1, w, k1)" "w < length rt1"
      "emits rt P ops1 rt1 (\<lambda>e. P e \<and> e w = take_bit (word_size D W i) (drop_bit (i * W) (A + sg_of t * B)) \<and> Q e)"
      "reads (length rt1) Q"
      "i \<noteq> N - 1 \<longrightarrow> carry_known rt1 Q False k1 (carry (sg_of t) A B (i * W + word_size D W i))"
    unfolding word_done_def by blast
  let ?P1 = "\<lambda>e. P e \<and> e w = take_bit (word_size D W i) (drop_bit (i * W) (A + sg_of t * B)) \<and> Q e"
  have rd1: "reads (length rt1) ?P1"
    by (intro reads_conj reads_register 1(2,4) reads_mono[OF sources_denote_reads[OF Suc.prems(1)] emits_length[OF 1(3)]])
  have sd1: "sources_denote rt1 ?P1 op A B"
    by (rule sources_denote_mono[OF Suc.prems(1) emits_prefix[OF 1(3)] _ rd1]) blast
  have ck1: "carry_known rt1 ?P1 (Suc i = 0) k1 (carry (sg_of t) A B (Suc i * W))" if "Suc i < N"
  proof -
    have last: "i \<noteq> N - 1" using that by simp
    then have "carry_known rt1 Q False k1 (carry (sg_of t) A B (Suc i * W))"
      using 1(5) wb(3) by simp
    then have "carry_known rt1 ?P1 False k1 (carry (sg_of t) A B (Suc i * W))"
      by (rule carry_known_mono) auto
    then show ?thesis by simp
  qed
  have "d = N - Suc i" "Suc i \<le> N" using Suc.hyps(2) i by simp_all
  from Suc.hyps(1)[OF this(1) sd1 this(2) ck1]
  obtain rt2 ops2 ws where 2: "AddSubWords config op t D N [Suc i..<N] rt1 k1 = Some (rt2, ops2, ws)"
      "\<forall>w \<in> set ws. w < length rt2"
      "emits rt1 ?P1 ops2 rt2 (\<lambda>e. ?P1 e \<and> words_known D W (A + sg_of t * B) [Suc i..<N] ws e)"
    by blast
  have upt: "[i..<N] = i # [Suc i..<N]" using i by (rule upt_conv_Cons)
  have "emits rt P (ops1 @ ops2) rt2 (\<lambda>e. P e \<and> words_known D W (A + sg_of t * B) [i..<N] (w # ws) e)"
    by (rule emits_weaken[OF emits_seq[OF 1(3) 2(3)]]) (auto simp: upt words_known_def simp del: upt_Suc)
  moreover have "AddSubWords config op t D N [i..<N] rt k = Some (rt2, ops1 @ ops2, w # ws)"
    using 1(1) 2(1) by (simp add: upt del: upt_Suc)
  moreover have "\<forall>w' \<in> set (w # ws). w' < length rt2"
    using 2(2) 1(2) emits_length[OF 2(3)] by auto
  ultimately show ?case by blast
qed

subsection \<open>The final gather\<close>

lemma FinalGather_simps [simp]:
  "op_dst (FinalGather D W ws dst) = [dst]" "op_src (FinalGather D W ws dst) = map SrcRegister ws"
  "op_locations (FinalGather D W ws dst) = {}"
  by (simp_all add: FinalGather_def new_operation_def)

lemma eval_FinalGather:
  assumes "\<forall>w \<in> set ws. w < length rt" "reg_width rt r = D" "words_known D W S [0..<N] ws env"
    and "0 < W" "N = (D + W - 1) div W"
  shows "eval_operation rt env (FinalGather D W ws (DstRegister r)) = Some (take_bit D S)"
proof -
  let ?ges = "map (\<lambda>i. \<lparr>ge_sourceOffset = 0, ge_destOffset = i * W, ge_numBits = word_size D W i\<rparr>) [0..<length ws]"
  let ?lits = "map (\<lambda>s. \<lparr>l_value = operand_value env s, l_width = SourceOperand_Width rt s\<rparr>) (map SrcRegister ws)"
  have len: "length ws = N" and word: "\<And>i. i < N \<Longrightarrow> env (ws ! i) = take_bit (word_size D W i) (drop_bit (i * W) S)"
    using assms(3) by (auto simp: words_known_def list_all2_conv_all_nth)
  have "bit (eval_gather ?ges ?lits) d = bit S d" if d: "d < D" for d
  proof -
    define i where "i = d div W"
    have i: "i * W \<le> d" "d < i * W + W"
      using assms(4) dividend_less_div_times[of W d] unfolding i_def by (simp_all add: add.commute)
    have iN: "i < N"
    proof (rule ccontr)
      assume "\<not> i < N"
      then have "N * W \<le> i * W" by (intro mult_right_mono) simp_all
      moreover have "D \<le> N * W" by (rule word_count[OF assms(4,5)])
      ultimately show False using i d by linarith
    qed
    have "bit (eval_gather ?ges ?lits) d \<longleftrightarrow> (\<exists>j < N. j * W \<le> d \<and> d < j * W + word_size D W j \<and> bit (env (ws ! j)) (d - j * W))"
      by (subst bit_eval_gather) (simp_all add: len gather_bit_def cong: conj_cong)
    also have "\<dots> \<longleftrightarrow> (\<exists>j < N. j * W \<le> d \<and> d < j * W + word_size D W j \<and> bit S d)"
      by (auto simp: word bit_take_bit_iff bit_drop_bit_eq)
    also have "\<dots> \<longleftrightarrow> bit S d"
      using i iN d by (auto intro!: exI[of _ i])
    finally show ?thesis .
  qed
  then have "take_bit D (eval_gather ?ges ?lits) = take_bit D S"
    by (auto simp: bit_eq_iff bit_take_bit_iff)
  then show ?thesis
    using assms(1,2) eval_emitted_gather[of "FinalGather D W ws (DstRegister r)" ?ges r rt env]
    by (simp add: FinalGather_def new_operation_def)
qed

subsection \<open>The width of a word is smaller than the destination\<close>

text \<open>What the choice needs of the rounding of \<^verbatim>\<open>double\<close>: it is monotone, keeps zero
  and changes nothing the second time.\<close>

definition rounding :: "(real \<Rightarrow> real) \<Rightarrow> bool" where
  "rounding rnd \<longleftrightarrow> mono rnd \<and> rnd 0 = 0 \<and> (\<forall>x. rnd (rnd x) = rnd x)"

lemma rounding_nonneg: "rounding rnd \<Longrightarrow> 0 \<le> x \<Longrightarrow> 0 \<le> rnd x"
  using monoD[of rnd 0 x] by (simp add: rounding_def)

lemma rounding_mono: "rounding rnd \<Longrightarrow> x \<le> y \<Longrightarrow> rnd x \<le> rnd y"
  by (auto simp: rounding_def dest: monoD)

lemma carrySelectPathLength_ge:
  assumes "rounding rnd" "0 \<le> l" "0 \<le> m" "D \<le> W + 2"
  shows "rnd (rnd (rnd (real D) * l)) \<le> carrySelectPathLength rnd l m D W"
proof -
  let ?N = "(D + W - 1) div W"
  have "rnd (real D) * l \<le> rnd (real (W + 2)) * l"
    using assms(2,4) by (intro mult_right_mono rounding_mono[OF assms(1)]) simp_all
  then have "rnd (rnd (real D) * l) \<le> rnd (rnd (real (W + 2)) * l)" by (rule rounding_mono[OF assms(1)])
  moreover have "0 \<le> rnd (rnd (real (?N - 1)) * m)"
    using assms(3) by (intro rounding_nonneg[OF assms(1)] mult_nonneg_nonneg) simp_all
  ultimately show ?thesis
    unfolding carrySelectPathLength_def Let_def by (intro rounding_mono[OF assms(1)]) linarith
qed

lemma BestCarrySelect_less:
  assumes "BestCarrySelect f b Ws = Some c"
  shows "ac_carrySelect c \<and> ac_internalWordWidth c \<in> set Ws \<and> f (ac_internalWordWidth c) < b"
proof -
  have "case fold (\<lambda>W (best, result). if f W < best
        then (f W, Some \<lparr>ac_carrySelect = True, ac_internalWordWidth = W\<rparr>) else (best, result)) Ws (b', r') of
      (best, None) \<Rightarrow> best \<le> b \<and> r' = None
    | (best, Some c) \<Rightarrow> best \<le> b \<and> (r' = Some c \<or> ac_carrySelect c \<and> ac_internalWordWidth c \<in> set Ws \<and> f (ac_internalWordWidth c) < b)"
    if "b' \<le> b" for b' r'
    using that
  proof (induction Ws arbitrary: b' r')
    case (Cons W Ws)
    show ?case
      using Cons.IH[of "f W" "Some \<lparr>ac_carrySelect = True, ac_internalWordWidth = W\<rparr>"] Cons.IH[of b' r'] Cons.prems
      by (cases "f W < b'") (fastforce split: prod.splits option.splits)+
  qed (auto split: option.splits)
  from this[of b None] assms show ?thesis
    by (auto simp: BestCarrySelect_def split: prod.splits option.splits)
qed

lemma GetMuxPathLength_2: "GetMuxPathLength 2 = Some 1"
  by (simp add: GetMuxPathLength_def MuxPathLengthLoop.simps)

lemma ComputeDecomposeAddSubConfig_bounds:
  assumes "rounding rnd" "ComputeDecomposeAddSubConfig rnd cg D = Some (Some c)"
  shows "0 < ac_internalWordWidth c \<and> ac_internalWordWidth c + 2 < D"
proof -
  define l where "l = rnd (1 / rnd (real (cg_carryChainWidthPerLogicLevel cg)))"
  define m where "m = rnd (real 1)"
  define W0 where "W0 = rnd (sqrt (rnd (rnd (rnd (real D) * m) * rnd (real (cg_carryChainWidthPerLogicLevel cg)))))"
  define M where "M = cg_carryChainWidthPerLogicLevel cg * cg_logicRegisterRatio cg mod 2 ^ 64"
  have lm: "0 \<le> l" "0 \<le> m" unfolding l_def m_def by (intro rounding_nonneg[OF assms(1)] divide_nonneg_nonneg; simp)+
  consider (select) "1 \<le> W0" "BestCarrySelect (carrySelectPathLength rnd l m D) (rnd (rnd (real D) * l)) (map (\<lambda>i. nat \<lfloor>W0\<rfloor> + i) [0..<2]) = Some c"
    | (ratio) "M < D" "2 < M" "ac_internalWordWidth c = M - 2"
    using assms(2) unfolding W0_def l_def m_def M_def
    by (auto simp: ComputeDecomposeAddSubConfig_def GetMuxPathLength_2 Let_def split: option.splits if_splits)
  then show ?thesis
  proof cases
    case select
    note best = BestCarrySelect_less[OF select(2)]
    have "1 \<le> nat \<lfloor>W0\<rfloor>" using select(1) by (simp add: le_nat_iff)
    then have "0 < ac_internalWordWidth c" using best by auto
    moreover have "\<not> D \<le> ac_internalWordWidth c + 2"
      using best carrySelectPathLength_ge[OF assms(1) lm, of D "ac_internalWordWidth c"] assms(1) by (auto simp: rounding_def)
    ultimately show ?thesis by simp
  qed auto
qed

subsection \<open>Correctness\<close>

definition add_sub_ok :: "RegisterTable \<Rightarrow> Operation \<Rightarrow> bool" where
  "add_sub_ok rt op \<longleftrightarrow> op_opcode op \<in> {BinaryOp Add, BinaryOp Sub} \<and> length (op_src op) = 2 \<and>
     dst_width rt op \<le> 2 ^ 63 \<and> op_locations op \<noteq> {}"


lemma ComputeDecomposeAddSubConfig_returns: "\<exists>r. ComputeDecomposeAddSubConfig rnd cg D = Some r"
  by (simp add: ComputeDecomposeAddSubConfig_def GetMuxPathLength_2 Let_def)

text \<open>The emission for one choice of the word width; the state in which the operation runs is
  arbitrary.\<close>

lemma AddSubWords_at:
  assumes "op_ok rt op" "op_opcode op = BinaryOp t" "t \<in> {Add, Sub}" "length (op_src op) = 2"
    and "0 < W" "D \<le> 2 ^ 63" "W = ac_internalWordWidth config" "N = (D + W - 1) div W"
  obtains rt' ops ws where "AddSubWords config op t D N [0..<N] rt None = Some (rt', ops, ws)"
    "\<forall>w \<in> set ws. w < length rt'"
    "\<And>env. emits rt (agree (length rt) env) ops rt' (\<lambda>e. agree (length rt) env e \<and>
      words_known D W (src_int rt env op 0 + sg_of t * src_int rt env op 1) [0..<N] ws e)"
proof -
  have den: "sources_denote rt (agree (length rt) env) op (src_int rt env op 0) (src_int rt env op 1)" for env
    using srcs_ok_nth[OF op_ok_srcs[OF assms(1)]] assms(4) operand_int_agree[OF _ prefix_order.refl, of rt]
    by (auto simp: sources_denote_def denotes_def src_int_operand)
  have ck: "carry_known rt P (0 = (0::nat)) None (carry sg A B (0 * W))" for P sg A B
    by (simp add: carry_known_def)
  note * = AddSubWords_emits[OF assms(3,5-8) den _ ck]
  obtain rt' ops ws where 1: "AddSubWords config op t D N [0..<N] rt None = Some (rt', ops, ws)" "\<forall>w \<in> set ws. w < length rt'"
    using *[of undefined] by blast
  with that[OF 1] * show thesis by fastforce
qed

lemma DecomposeAddSub_implements:
  assumes "rounding rnd" "op_ok rt op" "add_sub_ok rt op"
  shows "\<exists>rt' ops b. DecomposeAddSub rnd cg rt op = Some (rt', ops, b) \<and> implements rt op rt' ops"
proof -
  obtain r where r: "op_dst op = [DstRegister r]" "r < length rt" using assms(2) by (rule op_okE)
  obtain t where t: "op_opcode op = BinaryOp t" "t \<in> {Add, Sub}" and len: "length (op_src op) = 2"
    and D: "reg_width rt r \<le> 2 ^ 63" and locs: "op_locations op \<noteq> {}"
    using assms(3) r by (auto simp: add_sub_ok_def)
  define D where "D = reg_width rt r"
  obtain config where cf: "ComputeDecomposeAddSubConfig rnd cg D = Some config"
    using ComputeDecomposeAddSubConfig_returns by blast
  show ?thesis
  proof (cases config)
    case None
    then have "DecomposeAddSub rnd cg rt op = Some (rt, [op], False)"
      using t r len cf by (auto simp: DecomposeAddSub_def IsRegisterDestination_def D_def)
    moreover have "implements rt op rt [op]" using assms(2) t by (intro implements_self) auto
    ultimately show ?thesis by blast
  next
    case (Some c)
    define W where "W = ac_internalWordWidth c"
    define N where "N = (D + W - 1) div W"
    have W: "0 < W" "W + 2 < D"
      using ComputeDecomposeAddSubConfig_bounds[OF assms(1), of cg D c] cf Some by (simp_all add: W_def)
    then have "2 * W \<le> D + W - 1" by simp
    then have "2 * W div W \<le> N" unfolding N_def by (rule div_le_mono)
    then have N: "1 < N" using W(1) by simp
    have D63: "D \<le> 2 ^ 63" using D by (simp add: D_def)
    from AddSubWords_at[OF assms(2) t len W(1) D63 W_def N_def]
    obtain rt' ops ws where ws: "AddSubWords c op t D N [0..<N] rt None = Some (rt', ops, ws)" "\<forall>w \<in> set ws. w < length rt'"
      and em: "\<And>env. emits rt (agree (length rt) env) ops rt' (\<lambda>e. agree (length rt) env e \<and>
        words_known D W (src_int rt env op 0 + sg_of t * src_int rt env op 1) [0..<N] ws e)" by blast
    let ?g = "FinalGather D W ws (DstRegister r)"
    let ?ops = "map (\<lambda>o'. o'\<lparr>op_locations := op_locations op\<rparr>) (ops @ [?g])"
    have p: "prefix rt rt'" and noloc: "list_all (\<lambda>op. op_locations op = {}) ops"
      using em unfolding emits_def by blast+
    have "DecomposeAddSub rnd cg rt op = Some (rt', ?ops, True)"
      using t r len cf Some N ws(1) noloc locs
      by (auto simp: DecomposeAddSub_def IsRegisterDestination_def Let_def W_def[symmetric]
          N_def[unfolded One_nat_def, symmetric] simp flip: D_def)
    moreover have "implements rt op rt' ?ops"
    proof (rule implementsI[OF p])
      show "0 < rd_width d" if "d \<in> set (drop (length rt) rt')" for d
        using that em by (simp add: emits_def)
      fix rtf assume rtf: "prefix rt' rtf"
      have wsf: "\<forall>w \<in> set ws. w < length rtf" using ws(2) prefix_length_less[OF rtf] by blast
      have pf: "prefix rt rtf" using p rtf by (rule prefix_order.trans)
      have gok: "op_ok rtf ?g"
        using wsf prefix_length_less[OF pf r(2)] by (auto simp: op_ok_def srcs_ok_def)
      moreover have "ops_ok rtf ops" using em rtf unfolding emits_def by blast
      ultimately show "ops_ok rtf ?ops" by (simp del: map_append)
      fix env env1 assume env: "env_ok rtf env" and ex: "exec_op rt op env = Some env1"
      let ?S = "src_int rt env op 0 + sg_of t * src_int rt env op 1"
      obtain e where e: "exec_ops rtf (map (\<lambda>o'. o'\<lparr>op_locations := op_locations op\<rparr>) ops) env = Some e"
          "agree (length rt) env e" "words_known D W ?S [0..<N] ws e"
        using emits_locations[OF em rtf env agree_refl] by blast
      have "eval_operation rtf e ?g = Some (take_bit D ?S)"
        by (rule eval_FinalGather[OF wsf _ e(3) W(1) N_def]) (simp add: D_def reg_width_prefix[OF pf r(2)])
      then have "exec_op rtf ?g e = Some (e(r := take_bit D ?S))" by (simp add: exec_op_eq)
      moreover have "env1 = env(r := take_bit D ?S)"
        using eval_binop_spec[OF assms(2) env_ok_prefix[OF env pf] t(1) len] t(2) ex r
        by (auto simp: exec_op_eq D_def binop_spec_def)
      ultimately show "\<exists>env'. exec_ops rtf ?ops env = Some env' \<and> agree (length rt) env1 env'"
        using e by (auto simp: agree_def)
    qed
    ultimately show ?thesis by blast
  qed
qed

subsection \<open>What the decomposition computes\<close>

text \<open>C27: \<^verbatim>\<open>DecomposeAddSub\<close>, whatever the configuration of the code generator, fails no assertion
  and returns operations that leave in the registers of the original table what the addition or
  subtraction leaves, with and without carry select and for operands of any width and
  signedness.\<close>

theorem DecomposeAddSub_correct:
  assumes "rounding rnd" "op_ok rt op" "add_sub_ok rt op"
  shows "\<exists>rt' ops c. DecomposeAddSub rnd config rt op = Some (rt', ops, c) \<and>
    (\<forall>env env1. env_ok rt' env \<longrightarrow> exec_op rt op env = Some env1 \<longrightarrow>
      (\<exists>env'. exec_ops rt' ops env = Some env' \<and> (\<forall>r < length rt. env' r = env1 r)))"
  using DecomposeAddSub_implements[OF assms, of config] by (blast intro: implements_run)

theorem DecomposeAddSub_correct_witness:
  "let rt = [Local 64, Local 48, Local 65];
       op = operation (BinaryOp Sub) {(1, 1)} [(SrcRegister 0, True), (SrcRegister 1, False)] (DstRegister 2);
       config = \<lparr>cg_carrySelect = True, cg_carryChainWidthPerLogicLevel = 8, cg_logicRegisterRatio = 1, cg_maxSelectInputs = 4\<rparr>
   in \<exists>rt' ops c. DecomposeAddSub id config rt op = Some (rt', ops, c) \<and>
        (\<forall>env env1. env_ok rt' env \<longrightarrow> exec_op rt op env = Some env1 \<longrightarrow>
          (\<exists>env'. exec_ops rt' ops env = Some env' \<and> (\<forall>r < length rt. env' r = env1 r)))"
  unfolding Let_def
  by (rule DecomposeAddSub_correct)
    (simp_all add: rounding_def mono_def op_ok_operation add_sub_ok_def reg_width_def)

text \<open>C30: the word width \<^verbatim>\<open>ComputeDecomposeAddSubConfig\<close> chooses is positive and leaves room for the
  two extra bits below the width of the destination, so the result has at least two words. The
  arithmetic on \<^verbatim>\<open>double\<close> may round in any monotone way.\<close>

theorem ComputeDecomposeAddSubConfig_range:
  assumes "rounding rnd" "ComputeDecomposeAddSubConfig rnd config dstWidth = Some (Some c)"
  shows "0 < ac_internalWordWidth c \<and> ac_internalWordWidth c + 2 < dstWidth \<and>
    1 < (dstWidth + ac_internalWordWidth c - 1) div ac_internalWordWidth c"
proof -
  let ?W = "ac_internalWordWidth c"
  have W: "0 < ?W" "?W + 2 < dstWidth" using ComputeDecomposeAddSubConfig_bounds[OF assms] by simp_all
  then have "2 * ?W div ?W \<le> (dstWidth + ?W - 1) div ?W" by (intro div_le_mono) simp
  with W show ?thesis by simp
qed

theorem ComputeDecomposeAddSubConfig_range_witness:
  "let config = \<lparr>cg_carrySelect = False, cg_carryChainWidthPerLogicLevel = 8, cg_logicRegisterRatio = 2, cg_maxSelectInputs = 4\<rparr>
   in ComputeDecomposeAddSubConfig id config 64 = Some (Some \<lparr>ac_carrySelect = False, ac_internalWordWidth = 14\<rparr>) \<and>
      1 < (64 + 14 - 1) div (14::nat)"
proof -
  let ?c = "\<lparr>cg_carrySelect = False, cg_carryChainWidthPerLogicLevel = 8, cg_logicRegisterRatio = 2, cg_maxSelectInputs = 4\<rparr>"
  have "ComputeDecomposeAddSubConfig id ?c 64 = Some (Some \<lparr>ac_carrySelect = False, ac_internalWordWidth = 14\<rparr>)"
    by (simp add: ComputeDecomposeAddSubConfig_def GetMuxPathLength_2)
  moreover have "rounding id" by (simp add: rounding_def mono_def)
  ultimately show ?thesis using ComputeDecomposeAddSubConfig_range by fastforce
qed

end
