(* ===== verification/Decompose_Wide_Ops.thy ===== *)
theory Decompose_Wide_Ops
  imports Decompose_Add_Sub
begin

text \<open>
  \<^verbatim>\<open>DecomposeWideOps\<close> of \<^verbatim>\<open>optimize.cpp\<close>: the pass over the blocks of a function that applies the
  decompositions of comparisons, equality tests, multiplexers, additions and subtractions outside
  atomic blocks. The locale \<open>op_expansion\<close> is what a replacement of one operation by several
  promises; it gives that the blocks compute what they computed before.
\<close>

subsection \<open>The pass\<close>

definition DecomposeOp ::
  "(real \<Rightarrow> real) \<Rightarrow> CodeGenConfig \<Rightarrow> DeviceConfig \<Rightarrow> RegisterTable \<Rightarrow> Operation \<Rightarrow>
   (RegisterTable \<times> Operation list \<times> bool) option" where
  "DecomposeOp rnd config device rt op = (case op_opcode op of
     BinaryOp type \<Rightarrow> do {
       _ \<leftarrow> assert_that (length (op_src op) = 2);
       _ \<leftarrow> assert_that (length (op_dst op) = 1);
       if type \<in> {GT, GE, LT, LE} then do {
         (rt, ops) \<leftarrow> DecomposeCompareCarryChain rt op;
         Some (rt, ops, True) }
       else if type \<in> {EQ, NE} then do {
         (rt, ops) \<leftarrow> DecomposeCompareEQ device rt op;
         Some (rt, ops, True) }
       else if type \<in> {Add, Sub} then DecomposeAddSub rnd config rt op
       else Some (rt, [op], False) }
   | Select \<Rightarrow> DecomposeSelect (cg_maxSelectInputs config) rt op
   | _ \<Rightarrow> Some (rt, [op], False))"

text \<open>\<^verbatim>\<open>atomicBlockDepth\<close> after an operation.\<close>

definition AtomicStep :: "Operation \<Rightarrow> nat \<Rightarrow> nat option" where
  "AtomicStep op atomicBlockDepth = (case op_opcode op of
     BeginAtomic \<Rightarrow> Some (atomicBlockDepth + 1)
   | EndAtomic \<Rightarrow> do { _ \<leftarrow> assert_that (atomicBlockDepth > 0); Some (atomicBlockDepth - 1) }
   | _ \<Rightarrow> Some atomicBlockDepth)"

text \<open>The loop over the operations of a block; \<^verbatim>\<open>nextIt\<close> skips what is inserted. The
  decomposition of one operation is the parameter \<open>decompose\<close>.\<close>

type_synonym expander = "RegisterTable \<Rightarrow> Operation \<Rightarrow> (RegisterTable \<times> Operation list \<times> bool) option"

fun DecomposeBlock ::
  "expander \<Rightarrow> RegisterTable \<Rightarrow> nat \<Rightarrow> Operation list \<Rightarrow> (RegisterTable \<times> Operation list \<times> bool) option" where
  "DecomposeBlock decompose rt atomicBlockDepth [] = do {
     _ \<leftarrow> assert_that (atomicBlockDepth = 0);
     Some (rt, [], False) }"
| "DecomposeBlock decompose rt atomicBlockDepth (op # ops) = do {
     atomicBlockDepth \<leftarrow> AtomicStep op atomicBlockDepth;
     (rt, newOps, changed) \<leftarrow> (if atomicBlockDepth = 0 then decompose rt op else Some (rt, [op], False));
     (rt, ops, didChangeIR) \<leftarrow> DecomposeBlock decompose rt atomicBlockDepth ops;
     Some (rt, newOps @ ops, changed \<or> didChangeIR) }"

fun DecomposeBlocks ::
  "expander \<Rightarrow> RegisterTable \<Rightarrow> Operation list list \<Rightarrow> (RegisterTable \<times> Operation list list \<times> bool) option" where
  "DecomposeBlocks decompose rt [] = Some (rt, [], False)"
| "DecomposeBlocks decompose rt (block # blocks) = do {
     (rt, block, changed) \<leftarrow> DecomposeBlock decompose rt 0 block;
     (rt, blocks, didChangeIR) \<leftarrow> DecomposeBlocks decompose rt blocks;
     Some (rt, block # blocks, changed \<or> didChangeIR) }"

definition DecomposeWideOps ::
  "(real \<Rightarrow> real) \<Rightarrow> CodeGenConfig \<Rightarrow> DeviceConfig \<Rightarrow> RegisterTable \<Rightarrow> Operation list list \<Rightarrow>
   (RegisterTable \<times> Operation list list \<times> bool) option" where
  "DecomposeWideOps rnd config device rt blocks = DecomposeBlocks (DecomposeOp rnd config device) rt blocks"

subsection \<open>Blocks with atomic regions\<close>

text \<open>The markers of an atomic region do not change registers.\<close>

definition is_marker :: "Operation \<Rightarrow> bool" where
  "is_marker op \<longleftrightarrow> op_opcode op = BeginAtomic \<or> op_opcode op = EndAtomic"

definition exec_block :: "RegisterTable \<Rightarrow> Operation list \<Rightarrow> (nat \<Rightarrow> int) \<Rightarrow> (nat \<Rightarrow> int) option" where
  "exec_block rt ops env = exec_ops rt (filter (\<lambda>op. \<not> is_marker op) ops) env"

definition balanced :: "nat \<Rightarrow> Operation list \<Rightarrow> bool" where
  "balanced d ops \<longleftrightarrow> fold_opt AtomicStep ops d = Some 0"

lemma balanced_simps [simp]:
  "balanced d [] \<longleftrightarrow> d = 0"
  "balanced d (op # ops) \<longleftrightarrow> (\<exists>d'. AtomicStep op d = Some d' \<and> balanced d' ops)"
  by (auto simp: balanced_def split: bind_splits)

lemma AtomicStep_plain: "\<not> is_marker op \<Longrightarrow> AtomicStep op d = Some d"
  by (auto simp: AtomicStep_def is_marker_def split: Opcode.splits)

lemma exec_op_plain: "exec_op rt op env = Some env' \<Longrightarrow> \<not> is_marker op"
  by (auto simp: exec_op_def eval_operation_in_def is_marker_def split: bind_splits)

lemma exec_block_simps [simp]:
  "exec_block rt [] env = Some env"
  "exec_block rt (op # ops) env = (if is_marker op then exec_block rt ops env else exec_op rt op env \<bind> exec_block rt ops)"
  "exec_block rt (ops @ ops') env = (exec_block rt ops env \<bind> exec_block rt ops')"
  by (simp_all add: exec_block_def[abs_def])

lemma exec_block_plain: "exec_ops rt ops env = Some env' \<Longrightarrow> exec_block rt ops env = Some env'"
  by (induction ops arbitrary: env) (auto dest: exec_op_plain split: bind_splits)

text \<open>Running \<open>ops'\<close> over a table that extends \<open>rt'\<close> does to the registers of \<open>rt\<close> what running \<open>ops\<close>
  over \<open>rt\<close> does.\<close>

definition simulates :: "RegisterTable \<Rightarrow> Operation list \<Rightarrow> RegisterTable \<Rightarrow> Operation list \<Rightarrow> bool" where
  "simulates rt ops rt' ops' \<longleftrightarrow>
     (\<forall>rtf env env1 e. prefix rt' rtf \<longrightarrow> env_ok rtf e \<longrightarrow> agree (length rt) env e \<longrightarrow>
        exec_block rt ops env = Some env1 \<longrightarrow>
        (\<exists>e'. exec_block rtf ops' e = Some e' \<and> env_ok rtf e' \<and> agree (length rt) env1 e'))"

lemma simulates_nil: "simulates rt [] rt' []"
  by (simp add: simulates_def)

lemma simulates_prefix: "simulates rt ops rt' ops' \<Longrightarrow> prefix rt' rt'' \<Longrightarrow> simulates rt ops rt'' ops'"
  unfolding simulates_def by (meson prefix_order.trans)

lemma simulates_append:
  assumes "simulates rt ops1 rt' ops1'" "simulates rt ops2 rt' ops2'"
  shows "simulates rt (ops1 @ ops2) rt' (ops1' @ ops2')"
  unfolding simulates_def
proof (intro allI impI)
  fix rtf env env1 e
  assume p: "prefix rt' rtf" and e: "env_ok rtf e" and ag: "agree (length rt) env e"
    and ex: "exec_block rt (ops1 @ ops2) env = Some env1"
  obtain env2 where ex1: "exec_block rt ops1 env = Some env2" and ex2: "exec_block rt ops2 env2 = Some env1"
    using ex by (auto split: bind_splits)
  obtain e2 where e2: "exec_block rtf ops1' e = Some e2" "env_ok rtf e2" "agree (length rt) env2 e2"
    using assms(1) p e ag ex1 unfolding simulates_def by blast
  obtain e3 where "exec_block rtf ops2' e2 = Some e3" "env_ok rtf e3" "agree (length rt) env1 e3"
    using assms(2) p e2(2,3) ex2 unfolding simulates_def by blast
  with e2(1) show "\<exists>e'. exec_block rtf (ops1' @ ops2') e = Some e' \<and> env_ok rtf e' \<and> agree (length rt) env1 e'"
    by auto
qed

lemma simulates_marker: "is_marker op \<Longrightarrow> simulates rt [op] rt' [op]"
  by (simp add: simulates_def)

lemma implements_simulates:
  assumes "implements rt op rt' ops" "prefix rt0 rt" "op_ok rt0 op" "\<not> is_marker op"
    and "\<And>es. op_opcode op = Lut es \<Longrightarrow> lut_ok (length (op_src op)) es"
  shows "simulates rt0 [op] rt' ops"
  unfolding simulates_def
proof (intro allI impI)
  fix rtf env env1 e
  assume p: "prefix rt' rtf" and e: "env_ok rtf e" and ag: "agree (length rt0) env e"
    and ex: "exec_block rt0 [op] env = Some env1"
  obtain r where r: "op_dst op = [DstRegister r]" "r < length rt0" using assms(3) by (rule op_okE)
  have "exec_op rt0 op env = Some env1" using ex assms(4) by (auto split: bind_splits)
  then obtain v where v: "eval_operation rt0 env op = Some v" "env1 = env(r := v)"
    using r by (auto simp: exec_op_eq)
  have "eval_operation rt e op = Some v"
    using eval_operation_agree[OF assms(3,2) ag assms(5)] v(1) by simp
  then have "exec_op rt op e = Some (e(r := v))" using r by (simp add: exec_op_eq)
  then obtain e' where e': "exec_ops rtf ops e = Some e'" "agree (length rt) (e(r := v)) e'"
    using assms(1) p e unfolding implements_def by blast
  moreover have "ops_ok rtf ops" using assms(1) p unfolding implements_def by blast
  moreover have "agree (length rt0) env1 e'"
    using ag prefix_length_le[OF assms(2)]
    by (intro agree_trans[OF _ e'(2)]) (simp_all add: agree_def v(2))
  ultimately show "\<exists>e'. exec_block rtf ops e = Some e' \<and> env_ok rtf e' \<and> agree (length rt0) env1 e'"
    using exec_block_plain exec_ops_env_ok[OF e] by blast
qed

subsection \<open>Expansion of single operations\<close>

definition widths_ok :: "RegisterTable \<Rightarrow> bool" where
  "widths_ok rt \<longleftrightarrow> (\<forall>d \<in> set rt. 0 < rd_width d)"

definition ops_wf :: "RegisterTable \<Rightarrow> Operation list \<Rightarrow> bool" where
  "ops_wf rt ops \<longleftrightarrow> list_all (\<lambda>op. is_marker op \<or> op_ok rt op) ops"

lemma ops_wf_prefix: "ops_wf rt ops \<Longrightarrow> prefix rt rt' \<Longrightarrow> ops_wf rt' ops"
  unfolding ops_wf_def by (auto simp: list_all_iff intro: op_ok_prefix)

lemma ops_wf_append [simp]: "ops_wf rt (ops @ ops') \<longleftrightarrow> ops_wf rt ops \<and> ops_wf rt ops'"
  by (simp add: ops_wf_def)

lemma ops_wf_plain: "ops_ok rt ops \<Longrightarrow> ops_wf rt ops"
  by (auto simp: ops_wf_def ops_ok_def list_all_iff)

definition op_fine :: "(RegisterTable \<Rightarrow> Operation \<Rightarrow> bool) \<Rightarrow> RegisterTable \<Rightarrow> Operation \<Rightarrow> bool" where
  "op_fine ok rt op \<longleftrightarrow> is_marker op \<or> op_ok rt op \<and> ok rt op"

text \<open>What the expansion of an operation promises: on operations with \<open>ok\<close> it returns operations
  that implement it.\<close>

locale op_expansion =
  fixes expand :: expander and ok :: "RegisterTable \<Rightarrow> Operation \<Rightarrow> bool"
  assumes expand_implements:
      "\<lbrakk>op_ok rt op; ok rt op\<rbrakk> \<Longrightarrow> \<exists>rt' ops c. expand rt op = Some (rt', ops, c) \<and> implements rt op rt' ops"
    and expand_marker: "is_marker op \<Longrightarrow> expand rt op = Some (rt, [op], False)"
    and ok_prefix: "\<lbrakk>op_ok rt op; ok rt op; prefix rt rt'\<rbrakk> \<Longrightarrow> ok rt' op"
    and ok_lut: "\<lbrakk>ok rt op; op_opcode op = Lut es\<rbrakk> \<Longrightarrow> lut_ok (length (op_src op)) es"
begin

lemma step:
  assumes "op_fine ok rt0 op" "prefix rt0 rt"
  shows "\<exists>rt' ops c. (if d = 0 then expand rt op else Some (rt, [op], False)) = Some (rt', ops, c) \<and>
    prefix rt rt' \<and> widths_ok (drop (length rt) rt') \<and> ops_wf rt' ops \<and> simulates rt0 [op] rt' ops"
proof (cases "is_marker op")
  case True
  then show ?thesis
    using expand_marker[OF True] by (auto simp: widths_ok_def ops_wf_def simulates_marker)
next
  case False
  then have ok: "op_ok rt0 op" "ok rt0 op" using assms(1) by (simp_all add: op_fine_def)
  have okt: "op_ok rt op" "ok rt op" using op_ok_prefix[OF ok(1) assms(2)] ok_prefix[OF ok assms(2)] .
  have "\<exists>rt' ops c. (if d = 0 then expand rt op else Some (rt, [op], False)) = Some (rt', ops, c) \<and> implements rt op rt' ops"
    using expand_implements[OF okt] implements_self[OF okt(1) ok_lut[OF okt(2)]] by (cases "d = 0") auto
  then obtain rt' ops c where *: "(if d = 0 then expand rt op else Some (rt, [op], False)) = Some (rt', ops, c)"
      "implements rt op rt' ops" by blast
  then show ?thesis
    using implements_simulates[OF *(2) assms(2) ok(1) False ok_lut[OF ok(2)]]
    unfolding implements_def widths_ok_def by (blast intro: ops_wf_plain)
qed

lemma widths_ok_drop:
  "prefix rt rt1 \<Longrightarrow> prefix rt1 rt2 \<Longrightarrow> widths_ok (drop (length rt) rt1) \<Longrightarrow> widths_ok (drop (length rt1) rt2) \<Longrightarrow>
    widths_ok (drop (length rt) rt2)"
  unfolding widths_ok_def by (rule drop_prefix_widths)

lemma block:
  assumes "list_all (op_fine ok rt0) ops" "balanced d ops" "prefix rt0 rt"
  shows "\<exists>rt' ops' c. DecomposeBlock expand rt d ops = Some (rt', ops', c) \<and> prefix rt rt' \<and>
    widths_ok (drop (length rt) rt') \<and> ops_wf rt' ops' \<and> simulates rt0 ops rt' ops'"
  using assms
proof (induction ops arbitrary: d rt)
  case Nil
  then show ?case by (auto simp: widths_ok_def ops_wf_def simulates_nil)
next
  case (Cons op ops)
  obtain d' where d': "AtomicStep op d = Some d'" "balanced d' ops" using Cons.prems(2) by auto
  obtain rt1 new c1 where 1: "(if d' = 0 then expand rt op else Some (rt, [op], False)) = Some (rt1, new, c1)"
      "prefix rt rt1" "widths_ok (drop (length rt) rt1)" "ops_wf rt1 new" "simulates rt0 [op] rt1 new"
    using step[of rt0 op rt d'] Cons.prems by auto
  have p: "prefix rt0 rt1" using Cons.prems(3) 1(2) by (rule prefix_order.trans)
  obtain rt2 ops2 c2 where 2: "DecomposeBlock expand rt1 d' ops = Some (rt2, ops2, c2)" "prefix rt1 rt2"
      "widths_ok (drop (length rt1) rt2)" "ops_wf rt2 ops2" "simulates rt0 ops rt2 ops2"
    using Cons.IH[of d' rt1] Cons.prems(1) d'(2) p by auto
  have "DecomposeBlock expand rt d (op # ops) = Some (rt2, new @ ops2, c1 \<or> c2)"
    using d'(1) 1(1) 2(1) by simp
  moreover have "prefix rt rt2" using 1(2) 2(2) by (rule prefix_order.trans)
  moreover have "simulates rt0 (op # ops) rt2 (new @ ops2)"
    using simulates_append[OF simulates_prefix[OF 1(5) 2(2)] 2(5)] by simp
  moreover have "ops_wf rt2 (new @ ops2)" using ops_wf_prefix[OF 1(4) 2(2)] 2(4) by simp
  ultimately show ?case using widths_ok_drop[OF 1(2) 2(2) 1(3) 2(3)] by blast
qed

lemma blocks:
  assumes "\<forall>ops \<in> set bs. list_all (op_fine ok rt0) ops \<and> balanced 0 ops" "prefix rt0 rt"
  shows "\<exists>rt' bs' c. DecomposeBlocks expand rt bs = Some (rt', bs', c) \<and> prefix rt rt' \<and>
    widths_ok (drop (length rt) rt') \<and> list_all2 (\<lambda>ops ops'. ops_wf rt' ops' \<and> simulates rt0 ops rt' ops') bs bs'"
  using assms
proof (induction bs arbitrary: rt)
  case Nil
  then show ?case by (auto simp: widths_ok_def)
next
  case (Cons b bs)
  have "list_all (op_fine ok rt0) b" "balanced 0 b" using Cons.prems(1) by simp_all
  then obtain rt1 b' c1 where 1: "DecomposeBlock expand rt 0 b = Some (rt1, b', c1)" "prefix rt rt1"
      "widths_ok (drop (length rt) rt1)" "ops_wf rt1 b'" "simulates rt0 b rt1 b'"
    using block[OF _ _ Cons.prems(2)] by blast
  have p: "prefix rt0 rt1" using Cons.prems(2) 1(2) by (rule prefix_order.trans)
  obtain rt2 bs' c2 where 2: "DecomposeBlocks expand rt1 bs = Some (rt2, bs', c2)" "prefix rt1 rt2"
      "widths_ok (drop (length rt1) rt2)" "list_all2 (\<lambda>ops ops'. ops_wf rt2 ops' \<and> simulates rt0 ops rt2 ops') bs bs'"
    using Cons.IH[OF _ p] Cons.prems(1) by auto
  have "DecomposeBlocks expand rt (b # bs) = Some (rt2, b' # bs', c1 \<or> c2)" using 1(1) 2(1) by simp
  moreover have "prefix rt rt2" using 1(2) 2(2) by (rule prefix_order.trans)
  ultimately show ?case
    using widths_ok_drop[OF 1(2) 2(2) 1(3) 2(3)] 2(4) ops_wf_prefix[OF 1(4) 2(2)] simulates_prefix[OF 1(5) 2(2)]
    by auto
qed

end

subsection \<open>The decompositions are an expansion\<close>

text \<open>What the decompositions rely on: widths far below the range of \<^verbatim>\<open>size_t\<close>, a one-bit destination
  of comparisons, equality tests between operands of the same signedness, at most 64 operands of a
  multiplexer, and a location.\<close>

definition wide_ok :: "RegisterTable \<Rightarrow> Operation \<Rightarrow> bool" where
  "wide_ok rt op \<longleftrightarrow> 0 < dst_width rt op \<and> (case op_opcode op of
     BinaryOp t \<Rightarrow> length (op_src op) = 2 \<and>
       (if t \<in> {GT, GE, LT, LE} then compare_ok rt op
        else if t \<in> {EQ, NE} then
          equality_ok rt op \<and> 0 < src_width rt op 0 \<and> ShouldSignExtend op 0 = ShouldSignExtend op 1
        else if t \<in> {Add, Sub} then add_sub_ok rt op
        else True)
   | Select \<Rightarrow> select_ok op \<and> op_src op \<noteq> [] \<and> IsPow2 (int (length (op_src op) - 1))
   | Lut es \<Rightarrow> lut_ok (length (op_src op)) es
   | _ \<Rightarrow> True)"

text \<open>The conditions \<^verbatim>\<open>SetupCodeGenConfig\<close> checks of \<^verbatim>\<open>_maxSelectInputs\<close>.\<close>

definition config_ok :: "CodeGenConfig \<Rightarrow> bool" where
  "config_ok config \<longleftrightarrow> 2 \<le> cg_maxSelectInputs config \<and> IsPow2 (int (cg_maxSelectInputs config))"

lemma IsPow2_nat: "IsPow2 (int n) \<Longrightarrow> \<exists>k. n = 2 ^ k"
  unfolding IsPow2_iff by (metis of_nat_eq_iff of_nat_numeral of_nat_power)

lemma dst_width_prefix: "op_ok rt op \<Longrightarrow> prefix rt rt' \<Longrightarrow> dst_width rt' op = dst_width rt op"
  by (erule op_okE) (simp add: reg_width_prefix)

lemma src_width_prefix:
  "op_ok rt op \<Longrightarrow> prefix rt rt' \<Longrightarrow> i < length (op_src op) \<Longrightarrow> src_width rt' op i = src_width rt op i"
  using srcs_ok_nth[OF op_ok_srcs] by (simp add: SourceOperand_Width_prefix)

lemma list_all_widths_prefix:
  assumes "op_ok rt op" "prefix rt rt'"
  shows "list_all (\<lambda>s. SourceOperand_Width rt' s < n) (op_src op) = list_all (\<lambda>s. SourceOperand_Width rt s < n) (op_src op)"
  using SourceOperand_Width_prefix[OF _ assms(2)] op_ok_srcs[OF assms(1)]
  by (auto simp: list_all_iff srcs_ok_def)

lemma wide_ok_prefix:
  assumes "op_ok rt op" "prefix rt rt'" "wide_ok rt op"
  shows "wide_ok rt' op"
  using assms(3) unfolding wide_ok_def compare_ok_def equality_ok_def add_sub_ok_def
    dst_width_prefix[OF assms(1,2)] list_all_widths_prefix[OF assms(1,2)]
  by (auto simp: src_width_prefix[OF assms(1,2)] split: Opcode.splits if_splits)

lemma DecomposeOp_binary:
  assumes "rounding rnd" "device_ok device" "op_ok rt op" "wide_ok rt op" "op_opcode op = BinaryOp t"
  shows "\<exists>rt' ops c. DecomposeOp rnd config device rt op = Some (rt', ops, c) \<and> implements rt op rt' ops"
proof -
  obtain r where r: "op_dst op = [DstRegister r]" using assms(3) by (rule op_okE)
  have len: "length (op_src op) = 2" using assms(4,5) by (simp add: wide_ok_def)
  consider (cmp) "t \<in> {GT, GE, LT, LE}" | (eq) "t \<in> {EQ, NE}" | (add) "t \<in> {Add, Sub}"
    | (other) "t \<notin> {GT, GE, LT, LE}" "t \<notin> {EQ, NE}" "t \<notin> {Add, Sub}" by blast
  then show ?thesis
  proof cases
    case cmp
    obtain rt' ops where res: "DecomposeCompareCarryChain rt op = Some (rt', ops)"
      using DecomposeCompareCarryChain_returns[OF assms(5) cmp len r] by blast
    have "compare_ok rt op" using assms(4,5) cmp by (simp add: wide_ok_def)
    from DecomposeCompareCarryChain_implements[OF assms(3) this res] show ?thesis
      using res cmp len r assms(5) by (auto simp: DecomposeOp_def)
  next
    case eq
    have ok: "equality_ok rt op" "0 < dst_width rt op" "0 < src_width rt op 0" "ShouldSignExtend op 0 = ShouldSignExtend op 1"
      using assms(4,5) eq by (auto simp: wide_ok_def)
    from DecomposeCompareEQ_implements[OF assms(2,3) ok] show ?thesis
      using eq len r assms(5) by (auto simp: DecomposeOp_def)
  next
    case add
    have "add_sub_ok rt op" using assms(4,5) add by (auto simp: wide_ok_def)
    from DecomposeAddSub_implements[OF assms(1,3) this] show ?thesis
      using add len r assms(5) by (auto simp: DecomposeOp_def)
  next
    case other
    then show ?thesis
      using len r assms(5) implements_self[OF assms(3)] by (auto simp: DecomposeOp_def)
  qed
qed

lemma DecomposeOp_select:
  assumes "config_ok config" "op_ok rt op" "wide_ok rt op" "op_opcode op = Select"
  shows "\<exists>rt' ops c. DecomposeOp rnd config device rt op = Some (rt', ops, c) \<and> implements rt op rt' ops"
proof -
  obtain r where r: "op_dst op = [DstRegister r]" using assms(2) by (rule op_okE)
  have ok: "select_ok op" "0 < dst_width rt op" "op_src op \<noteq> []" "IsPow2 (int (length (op_src op) - 1))"
    using assms(3,4) by (simp_all add: wide_ok_def)
  obtain n where "length (op_src op) - 1 = 2 ^ n" using IsPow2_nat[OF ok(4)] by blast
  then have n: "length (op_src op) = Suc (2 ^ n)" using ok(3) by (cases "op_src op") simp_all
  obtain k where k: "cg_maxSelectInputs config = 2 ^ k"
    using IsPow2_nat[of "cg_maxSelectInputs config"] assms(1) by (auto simp: config_ok_def)
  have "0 < k" using assms(1) k by (cases k) (simp_all add: config_ok_def)
  have DS: "DecomposeOp rnd config device rt op = DecomposeSelect (cg_maxSelectInputs config) rt op"
    using assms(4) by (simp add: DecomposeOp_def)
  from DecomposeSelect_returns[OF assms(4) r n k \<open>0 < k\<close>]
  consider "DecomposeSelect (cg_maxSelectInputs config) rt op = Some (rt, [op], False)"
    | rt' ops where "DecomposeSelect (cg_maxSelectInputs config) rt op = Some (rt', ops, True)" by blast
  then show ?thesis
  proof cases
    case 1
    with implements_self[OF assms(2)] assms(4) show ?thesis by (auto simp: DS)
  next
    case (2 rt' ops)
    with DecomposeSelect_implements[OF assms(2) ok(1) 2 ok(2)] show ?thesis by (auto simp: DS)
  qed
qed

interpretation wide: op_expansion "DecomposeOp rnd config device"
  "\<lambda>rt op. rounding rnd \<and> config_ok config \<and> device_ok device \<and> wide_ok rt op" for rnd config device
proof
  fix rt op assume ok: "op_ok rt op" "rounding rnd \<and> config_ok config \<and> device_ok device \<and> wide_ok rt op"
  show "\<exists>rt' ops c. DecomposeOp rnd config device rt op = Some (rt', ops, c) \<and> implements rt op rt' ops"
  proof (cases "\<exists>t. op_opcode op = BinaryOp t \<or> op_opcode op = Select")
    case True
    then show ?thesis using ok DecomposeOp_binary DecomposeOp_select by blast
  next
    case False
    then have "DecomposeOp rnd config device rt op = Some (rt, [op], False)"
      by (auto simp: DecomposeOp_def split: Opcode.splits)
    moreover have "implements rt op rt [op]"
      using ok by (intro implements_self) (auto simp: wide_ok_def)
    ultimately show ?thesis by blast
  qed
next
  fix op rt assume "is_marker op"
  then show "DecomposeOp rnd config device rt op = Some (rt, [op], False)"
    by (auto simp: is_marker_def DecomposeOp_def)
next
  fix rt op rt' assume "op_ok rt op" "rounding rnd \<and> config_ok config \<and> device_ok device \<and> wide_ok rt op" "prefix rt rt'"
  then show "rounding rnd \<and> config_ok config \<and> device_ok device \<and> wide_ok rt' op" using wide_ok_prefix by blast
next
  fix rt op es assume "rounding rnd \<and> config_ok config \<and> device_ok device \<and> wide_ok rt op" "op_opcode op = Lut es"
  then show "lut_ok (length (op_src op)) es" by (simp add: wide_ok_def)
qed

subsection \<open>The pass keeps what the blocks compute\<close>

abbreviation wide_blocks_ok ::
  "(real \<Rightarrow> real) \<Rightarrow> CodeGenConfig \<Rightarrow> DeviceConfig \<Rightarrow> RegisterTable \<Rightarrow> Operation list list \<Rightarrow> bool" where
  "wide_blocks_ok rnd config device rt blocks \<equiv>
     rounding rnd \<and> config_ok config \<and> device_ok device \<and>
     list_all (\<lambda>ops. list_all (op_fine wide_ok rt) ops \<and> balanced 0 ops) blocks"

lemma DecomposeWideOps_simulates:
  assumes "wide_blocks_ok rnd config device rt blocks"
  shows "\<exists>rt' blocks' c. DecomposeWideOps rnd config device rt blocks = Some (rt', blocks', c) \<and> prefix rt rt' \<and>
    widths_ok (drop (length rt) rt') \<and>
    list_all2 (\<lambda>ops ops'. ops_wf rt' ops' \<and> simulates rt ops rt' ops') blocks blocks'"
proof -
  have "\<forall>ops \<in> set blocks. list_all (op_fine (\<lambda>rt op. rounding rnd \<and> config_ok config \<and> device_ok device \<and> wide_ok rt op) rt) ops \<and>
      balanced 0 ops"
    using assms by (auto simp: list_all_iff op_fine_def)
  from wide.blocks[OF this prefix_order.refl] show ?thesis unfolding DecomposeWideOps_def .
qed

text \<open>A block with an addition, a comparison and a multiplexer, and an equality test in an atomic
  region and outside.\<close>

definition wide_example_rt :: RegisterTable where
  "wide_example_rt = [Local 8, Local 8, Local 8, Local 1, Local 1]"

definition wide_example :: "Operation list" where
  "wide_example =
     (let bin = (\<lambda>t d. operation (BinaryOp t) {(1, 1)} [(SrcRegister 0, False), (SrcRegister 1, False)] (DstRegister d))
      in [bin Add 2, bin LT 3, operation BeginAtomic {(1, 1)} [] (DstRegister 0), bin EQ 4,
          operation EndAtomic {(1, 1)} [] (DstRegister 0), bin NE 4,
          operation Select {(1, 1)} [(SrcRegister 3, False), (SrcRegister 0, False), (SrcRegister 1, False)] (DstRegister 2)])"

abbreviation wide_example_config :: CodeGenConfig where
  "wide_example_config \<equiv> \<lparr>cg_carrySelect = False, cg_carryChainWidthPerLogicLevel = 1, cg_logicRegisterRatio = 4,
     cg_maxSelectInputs = 2\<rparr>"

abbreviation wide_example_device :: DeviceConfig where
  "wide_example_device \<equiv> \<lparr>smallLutSize = 4, supportsLuts = True\<rparr>"

lemma rounding_id: "rounding id"
  by (simp add: rounding_def mono_def)

lemma IsPow2_2: "IsPow2 2"
  unfolding IsPow2_iff by (rule exI[of _ 1]) simp

lemma wide_example_ok:
  "rounding id" "config_ok wide_example_config" "device_ok wide_example_device" "widths_ok wide_example_rt"
  "list_all (\<lambda>ops. list_all (op_fine wide_ok wide_example_rt) ops \<and> balanced 0 ops) [wide_example]"
proof -
  show "rounding id" by (rule rounding_id)
  show "config_ok wide_example_config" using IsPow2_2 by (simp add: config_ok_def)
  show "device_ok wide_example_device" by (simp add: device_ok_def c_maxLutSources_def)
  show "widths_ok wide_example_rt" by (simp add: widths_ok_def wide_example_rt_def)
  have "list_all (op_fine wide_ok wide_example_rt) wide_example"
    using IsPow2_2
    by (simp add: wide_example_def Let_def op_fine_def is_marker_def op_ok_operation wide_ok_def wide_example_rt_def
        compare_ok_def equality_ok_def add_sub_ok_def select_ok_def reg_width_def ShouldSignExtend_operation)
  moreover have "balanced 0 wide_example"
    by (simp add: wide_example_def Let_def AtomicStep_def)
  ultimately show "list_all (\<lambda>ops. list_all (op_fine wide_ok wide_example_rt) ops \<and> balanced 0 ops) [wide_example]" by simp
qed

text \<open>C28: \<^verbatim>\<open>DecomposeWideOps\<close> on the blocks of a function fails no assertion, and every block
  it rewrites leaves in the registers of the original table what the original block leaves. The
  operations meet the conditions of the decompositions and every block closes the atomic regions it
  opens.\<close>

theorem DecomposeWideOps_preserves:
  assumes "rounding rnd" "config_ok config" "device_ok device"
    and "list_all (\<lambda>ops. list_all (op_fine wide_ok rt) ops \<and> balanced 0 ops) blocks"
  shows "\<exists>rt' blocks' c. DecomposeWideOps rnd config device rt blocks = Some (rt', blocks', c) \<and>
    length blocks' = length blocks \<and>
    (\<forall>i env env1. i < length blocks \<longrightarrow> env_ok rt' env \<longrightarrow> exec_block rt (blocks ! i) env = Some env1 \<longrightarrow>
      (\<exists>env'. exec_block rt' (blocks' ! i) env = Some env' \<and> (\<forall>r < length rt. env' r = env1 r)))"
proof -
  obtain rt' blocks' c where *: "DecomposeWideOps rnd config device rt blocks = Some (rt', blocks', c)"
      "list_all2 (\<lambda>ops ops'. ops_wf rt' ops' \<and> simulates rt ops rt' ops') blocks blocks'"
    using DecomposeWideOps_simulates assms by blast
  have "\<exists>env'. exec_block rt' (blocks' ! i) env = Some env' \<and> (\<forall>r < length rt. env' r = env1 r)"
    if run: "i < length blocks" "env_ok rt' env" "exec_block rt (blocks ! i) env = Some env1" for i env env1
  proof -
    have "simulates rt (blocks ! i) rt' (blocks' ! i)" using list_all2_nthD[OF *(2) run(1)] by blast
    then obtain env' where "exec_block rt' (blocks' ! i) env = Some env'" "agree (length rt) env1 env'"
      using run agree_refl prefix_order.refl unfolding simulates_def by blast
    then show ?thesis by (auto simp: agree_def)
  qed
  with * list_all2_lengthD[OF *(2)] show ?thesis by auto
qed

theorem DecomposeWideOps_preserves_witness:
  "\<exists>rt' blocks' c. DecomposeWideOps id wide_example_config wide_example_device wide_example_rt [wide_example] =
      Some (rt', blocks', c) \<and> length blocks' = 1 \<and>
    (\<forall>env env1. env_ok rt' env \<longrightarrow> exec_block wide_example_rt wide_example env = Some env1 \<longrightarrow>
      (\<exists>env'. exec_block rt' (blocks' ! 0) env = Some env' \<and> (\<forall>r < length wide_example_rt. env' r = env1 r)))"
  using DecomposeWideOps_preserves[OF wide_example_ok(1-3,5)] by fastforce

text \<open>C29: \<^verbatim>\<open>DecomposeWideOps\<close> only appends to the register table; if every register has a positive
  width before, every register has afterwards, and every operation of the result is well formed in
  the new table.\<close>

theorem DecomposeWideOps_well_formed:
  assumes "rounding rnd" "config_ok config" "device_ok device"
    and "list_all (\<lambda>ops. list_all (op_fine wide_ok rt) ops \<and> balanced 0 ops) blocks"
    and "widths_ok rt" "DecomposeWideOps rnd config device rt blocks = Some (rt', blocks', c)"
  shows "prefix rt rt' \<and> widths_ok rt' \<and> list_all (ops_wf rt') blocks'"
proof -
  have *: "prefix rt rt'" "widths_ok (drop (length rt) rt')"
      "list_all2 (\<lambda>ops ops'. ops_wf rt' ops' \<and> simulates rt ops rt' ops') blocks blocks'"
    using DecomposeWideOps_simulates[of rnd config device rt blocks] assms by auto
  have "list_all (ops_wf rt') blocks'" using *(3) by (auto simp: list_all2_conv_all_nth list_all_length)
  moreover have "widths_ok rt'"
    using *(1,2) assms(5) by (auto simp: widths_ok_def prefix_def)
  ultimately show ?thesis using *(1) by simp
qed

theorem DecomposeWideOps_well_formed_witness:
  "\<exists>rt' blocks' c. DecomposeWideOps id wide_example_config wide_example_device wide_example_rt [wide_example] =
      Some (rt', blocks', c) \<and> prefix wide_example_rt rt' \<and> widths_ok rt' \<and> list_all (ops_wf rt') blocks'"
proof -
  obtain rt' blocks' c where *: "DecomposeWideOps id wide_example_config wide_example_device wide_example_rt [wide_example] =
      Some (rt', blocks', c)"
    using DecomposeWideOps_simulates[of id wide_example_config wide_example_device wide_example_rt "[wide_example]"]
      wide_example_ok by blast
  with DecomposeWideOps_well_formed[OF wide_example_ok(1-3,5,4) *] show ?thesis by blast
qed

end
