(* ===== verification/Constant_Folding.thy ===== *)
theory Constant_Folding
  imports Fresh_Registers Lut_Fixup
begin

text \<open>
  Rewriting of one operation by constant propagation (\<^verbatim>\<open>optimize.cpp\<close>): register operands with a
  known value become literals, and an operation with known sources a move of its value. The
  operations are those of a control flow graph, whose runs are defined here; the locals a block
  passes to a successor at an \<^verbatim>\<open>Enqueue\<close> are renamed back to their original index.
\<close>

subsection \<open>Operations of a control flow graph\<close>

text \<open>\<open>fo_successor\<close> is the block of the same function an \<^verbatim>\<open>Enqueue\<close> starts
  (\<^verbatim>\<open>_getSuccessorBlock\<close>), by its index; the renaming tables are \<^verbatim>\<open>_renamingTable\<close> (original to
  renamed register) and \<^verbatim>\<open>_reverseRenamingTable\<close>.\<close>

text \<open>\<^verbatim>\<open>Operation::Flags::Enqueue\<close>: when \<open>enq_isPredicated\<close>, the successor is started only if the truth
  of the predicate is \<open>enq_predicateExecutionValue\<close>. \<open>no_enqueue\<close> are the flags of \<^verbatim>\<open>Operation op = {}\<close>.\<close>

record EnqueueFlags =
  enq_isPredicated :: bool
  enq_predicateExecutionValue :: bool

record FlowOperation =
  fo_op :: Operation
  fo_successor :: "nat option"
  fo_enqueue :: EnqueueFlags
  fo_renamingTable :: "(nat, nat) smap"
  fo_reverseRenamingTable :: "(nat, nat) smap"

type_synonym FlowBlock = "FlowOperation list"

abbreviation fo_isPredicated :: "FlowOperation \<Rightarrow> bool" where
  "fo_isPredicated fo \<equiv> enq_isPredicated (fo_enqueue fo)"

abbreviation no_enqueue :: EnqueueFlags where
  "no_enqueue \<equiv> \<lparr>enq_isPredicated = False, enq_predicateExecutionValue = False\<rparr>"

text \<open>\<^verbatim>\<open>RegisterDescription::GlobalDesc\<close>.\<close>

record GlobalDesc =
  gd_hasInitialValue :: bool
  gd_isConstant :: bool
  gd_initialValue :: int

record FlowProgram =
  fp_registerTable :: RegisterTable
  fp_Global :: "nat \<Rightarrow> GlobalDesc"

type_synonym RegisterValueMap = "(nat, Literal) smap"

definition AllowLiteralSourceOperand :: "FlowOperation \<Rightarrow> nat \<Rightarrow> bool option" where
  "AllowLiteralSourceOperand fo sourceOperandIndex = do {
     _ \<leftarrow> assert_that (sourceOperandIndex < length (op_src (fo_op fo)));
     Some (case op_opcode (fo_op fo) of
         StartCondition \<Rightarrow> False
       | MovCrossFunction \<Rightarrow> False
       | Enqueue \<Rightarrow> fo_isPredicated fo \<and> sourceOperandIndex = 0
       | _ \<Rightarrow> True) }"

definition OptionallyMapIndex :: "nat \<Rightarrow> (nat, nat) smap \<Rightarrow> nat" where
  "OptionallyMapIndex originalIndex table = (case map_of table originalIndex of None \<Rightarrow> originalIndex | Some i \<Rightarrow> i)"

definition MapRenamedToOriginalRegisterIndex :: "FlowOperation \<Rightarrow> nat \<Rightarrow> nat option" where
  "MapRenamedToOriginalRegisterIndex fo originalIndex = do {
     _ \<leftarrow> assert_that (op_opcode (fo_op fo) = Enqueue);
     Some (OptionallyMapIndex originalIndex (fo_reverseRenamingTable fo)) }"

definition IsGlobalReg :: "RegisterTable \<Rightarrow> nat \<Rightarrow> bool" where
  "IsGlobalReg rt reg \<longleftrightarrow> rd_type (rt ! reg) = RT_Global"

subsection \<open>Known values\<close>

definition Equal :: "RegisterValueMap \<Rightarrow> RegisterValueMap \<Rightarrow> bool" where
  "Equal src1 src2 \<longleftrightarrow> length src1 = length src2 \<and>
     list_all (\<lambda>(regIndex, val). map_of src2 regIndex = Some val) src1"

definition IsSuperSet :: "RegisterValueMap \<Rightarrow> RegisterValueMap \<Rightarrow> bool" where
  "IsSuperSet larger smaller \<longleftrightarrow> list_all (\<lambda>(regIndex, val). map_of larger regIndex = Some val) smaller"

definition GetInitialValueLiteral :: "FlowProgram \<Rightarrow> nat \<Rightarrow> Literal" where
  "GetInitialValueLiteral p r = \<lparr>l_value = gd_initialValue (fp_Global p r), l_width = reg_width (fp_registerTable p) r\<rparr>"

definition ConstantGlobal :: "FlowProgram \<Rightarrow> nat \<Rightarrow> Literal option" where
  "ConstantGlobal p r =
     (if rd_type (fp_registerTable p ! r) = RT_Global \<and> gd_isConstant (fp_Global p r) \<and> gd_hasInitialValue (fp_Global p r)
      then Some (GetInitialValueLiteral p r) else None)"

definition ComputeConstantGlobals :: "FlowProgram \<Rightarrow> RegisterValueMap" where
  "ComputeConstantGlobals p =
     fold (\<lambda>r result. case ConstantGlobal p r of Some v \<Rightarrow> map_insert r v result | None \<Rightarrow> result)
       [0..<length (fp_registerTable p)] []"

definition SubstituteLiteral :: "RegisterValueMap \<Rightarrow> SourceOperand \<Rightarrow> SourceOperand" where
  "SubstituteLiteral globalConstants srcOp = (case srcOp of
     SrcRegister index \<Rightarrow> (case map_of globalConstants index of Some v \<Rightarrow> SrcLiteral v | None \<Rightarrow> srcOp)
   | _ \<Rightarrow> srcOp)"

definition SubstituteLiterals :: "FlowProgram \<Rightarrow> FlowBlock list list \<Rightarrow> FlowBlock list list \<times> bool" where
  "SubstituteLiterals p functions =
     (let globalConstants = ComputeConstantGlobals p;
          substitute = (\<lambda>fo. fo\<lparr>fo_op := (fo_op fo)\<lparr>op_src := map (SubstituteLiteral globalConstants) (op_src (fo_op fo))\<rparr>\<rparr>);
          changes = (\<lambda>fo. list_ex (\<lambda>s. case s of SrcRegister r \<Rightarrow> map_of globalConstants r \<noteq> None | _ \<Rightarrow> False)
            (op_src (fo_op fo)))
      in (map (map (map substitute)) functions, list_ex (list_ex (list_ex changes)) functions))"

subsection \<open>One operation\<close>

definition SourceValue :: "FlowProgram \<Rightarrow> RegisterValueMap \<Rightarrow> nat \<Rightarrow> Literal option" where
  "SourceValue p registerValues r =
     (case map_of registerValues r of Some v \<Rightarrow> Some v | None \<Rightarrow> ConstantGlobal p r)"

text \<open>The body of the loop over the source operands; the state is the operation,
  \<^verbatim>\<open>allSourcesKnown\<close> and \<^verbatim>\<open>didChangeIR\<close>.\<close>

definition SubstituteSource ::
  "FlowProgram \<Rightarrow> RegisterValueMap \<Rightarrow> nat \<Rightarrow> FlowOperation \<times> bool \<times> bool \<Rightarrow> (FlowOperation \<times> bool \<times> bool) option" where
  "SubstituteSource p registerValues sourceOperandIndex = (\<lambda>(fo, allSourcesKnown, didChangeIR).
     case op_src (fo_op fo) ! sourceOperandIndex of
       SrcFifo _ \<Rightarrow> Some (fo, False, didChangeIR)
     | SrcStringLiteral _ \<Rightarrow> Some (fo, False, didChangeIR)
     | SrcLiteral _ \<Rightarrow> Some (fo, allSourcesKnown, didChangeIR)
     | SrcRegister srcReg \<Rightarrow> (case SourceValue p registerValues srcReg of
         None \<Rightarrow> Some (fo, False, didChangeIR)
       | Some srcValue \<Rightarrow> do {
           allow \<leftarrow> AllowLiteralSourceOperand fo sourceOperandIndex;
           if allow then do {
             let op = (fo_op fo)\<lparr>op_src := (op_src (fo_op fo))[sourceOperandIndex := SrcLiteral srcValue]\<rparr>;
             op \<leftarrow> (if IsLut op then map_option fst (FixupLutOp op) else Some op);
             Some (fo\<lparr>fo_op := op\<rparr>, allSourcesKnown, True) }
           else Some (fo, allSourcesKnown, didChangeIR) }))"

text \<open>\<^verbatim>\<open>op._src[i].GetLiteral()\<close>.\<close>

definition GetLiteral :: "Operation \<Rightarrow> nat \<Rightarrow> Literal option" where
  "GetLiteral op i =
     (if i < length (op_src op) then (case op_src op ! i of SrcLiteral l \<Rightarrow> Some l | _ \<Rightarrow> None) else None)"

text \<open>The value of an operation with known sources, if its opcode is one the pass evaluates.\<close>

definition DestinationValue :: "Operation \<Rightarrow> nat \<Rightarrow> Literal option option" where
  "DestinationValue op dstWidth = (case op_opcode op of
     Mov \<Rightarrow> do {
       src \<leftarrow> GetLiteral op 0;
       v \<leftarrow> Resize mp_index src (ShouldSignExtend op 0) dstWidth;
       Some (Some \<lparr>l_value = v, l_width = dstWidth\<rparr>) }
   | Clear \<Rightarrow> Some (Some \<lparr>l_value = 0, l_width = dstWidth\<rparr>)
   | UnaryOp t \<Rightarrow> do {
       src \<leftarrow> GetLiteral op 0;
       v \<leftarrow> ImplementUnaryOp mp_index src (ShouldSignExtend op 0) t dstWidth;
       Some (Some \<lparr>l_value = v, l_width = dstWidth\<rparr>) }
   | BinaryOp t \<Rightarrow> do {
       src0 \<leftarrow> GetLiteral op 0;
       src1 \<leftarrow> GetLiteral op 1;
       v \<leftarrow> ImplementBinaryOp mp_index src0 src1 dstWidth (ShouldSignExtend op 0) (ShouldSignExtend op 1) t;
       Some (Some \<lparr>l_value = v, l_width = dstWidth\<rparr>) }
   | Gather entries \<Rightarrow> do {
       _ \<leftarrow> assert_that (list_all (\<lambda>i. \<not> ShouldSignExtend op i) [0..<length (op_src op)]);
       _ \<leftarrow> assert_that (length (op_src op) \<le> length entries);
       lits \<leftarrow> map_opt (GetLiteral op) [0..<length (op_src op)];
       Some (Some \<lparr>l_value = Truncate (eval_gather entries lits) dstWidth, l_width = dstWidth\<rparr>) }
   | _ \<Rightarrow> Some None)"

definition FoldConstant ::
  "RegisterTable \<Rightarrow> FlowOperation \<Rightarrow> RegisterValueMap \<Rightarrow> (FlowOperation \<times> RegisterValueMap \<times> bool) option" where
  "FoldConstant rt fo registerValues = (case op_dst (fo_op fo) of
     [DstRegister dstReg] \<Rightarrow>
       if IsGlobalReg rt dstReg then Some (fo, registerValues, False)
       else do {
         destinationValue \<leftarrow> DestinationValue (fo_op fo) (reg_width rt dstReg);
         (case destinationValue of
            None \<Rightarrow> Some (fo, registerValues, False)
          | Some newValue \<Rightarrow> do {
              let doUpdateIR = \<not> (op_opcode (fo_op fo) = Mov \<and> IsLiteralOperand (op_src (fo_op fo) ! 0));
              let newOperation = \<lparr>fo_op = operation Mov (op_locations (fo_op fo)) [(SrcLiteral newValue, False)]
                    (DstRegister dstReg), fo_successor = None, fo_enqueue = no_enqueue,
                  fo_renamingTable = [], fo_reverseRenamingTable = []\<rparr>;
              Some (if doUpdateIR then newOperation else fo, map_insert dstReg newValue registerValues, doUpdateIR) }) }
   | _ \<Rightarrow> Some (fo, registerValues, False))"

subsection \<open>Runs of a function\<close>

text \<open>Register values that fit and in which constant globals have their initial value.\<close>

definition flow_env :: "FlowProgram \<Rightarrow> (nat \<Rightarrow> int) \<Rightarrow> bool" where
  "flow_env p env \<longleftrightarrow> env_ok (fp_registerTable p) env \<and>
     (\<forall>r < length (fp_registerTable p). \<forall>l. ConstantGlobal p r = Some l \<longrightarrow> env r = l_value l)"

definition is_local :: "FlowProgram \<Rightarrow> nat \<Rightarrow> bool" where
  "is_local p r \<longleftrightarrow> r < length (fp_registerTable p) \<and> IsLocalRegisterType (rd_type (fp_registerTable p ! r))"

text \<open>A step changes local registers only at the destinations of the operation; an operation with a
  value writes it, the others write anything. Registers that are not local may change at any time.\<close>

definition flow_step :: "FlowProgram \<Rightarrow> FlowOperation \<Rightarrow> (nat \<Rightarrow> int) \<Rightarrow> (nat \<Rightarrow> int) \<Rightarrow> bool" where
  "flow_step p fo env env' \<longleftrightarrow> flow_env p env' \<and>
     (\<forall>r. is_local p r \<longrightarrow> DstRegister r \<notin> set (op_dst (fo_op fo)) \<longrightarrow> env' r = env r) \<and>
     (\<forall>r v. op_dst (fo_op fo) = [DstRegister r] \<longrightarrow> is_local p r \<longrightarrow>
        eval_operation (fp_registerTable p) env (fo_op fo) = Some v \<longrightarrow> env' r = v)"

fun after :: "FlowProgram \<Rightarrow> FlowBlock \<Rightarrow> nat \<Rightarrow> (nat \<Rightarrow> int) \<Rightarrow> (nat \<Rightarrow> int) \<Rightarrow> bool" where
  "after p block 0 env env' \<longleftrightarrow> env' = env"
| "after p block (Suc k) env env' \<longleftrightarrow> (\<exists>e. after p block k env e \<and> flow_step p (block ! k) e env')"

text \<open>A conditional jump is a pair of predicated \<^verbatim>\<open>Enqueue\<close>s of the same register, one for each
  execution value.\<close>

definition enabled :: "FlowOperation \<Rightarrow> (nat \<Rightarrow> int) \<Rightarrow> bool" where
  "enabled fo env \<longleftrightarrow>
     (enq_isPredicated (fo_enqueue fo) \<longrightarrow>
       (operand_value env (op_src (fo_op fo) ! 0) \<noteq> 0) = enq_predicateExecutionValue (fo_enqueue fo))"

text \<open>The successor reads a register under its original index.\<close>

definition passes :: "FlowProgram \<Rightarrow> FlowOperation \<Rightarrow> (nat \<Rightarrow> int) \<Rightarrow> (nat \<Rightarrow> int) \<Rightarrow> bool" where
  "passes p fo env env' \<longleftrightarrow> flow_env p env' \<and>
     (\<forall>r. is_local p r \<longrightarrow> env' r = env (OptionallyMapIndex r (fo_renamingTable fo)))"

inductive reach :: "FlowProgram \<Rightarrow> nat \<Rightarrow> FlowBlock list \<Rightarrow> nat \<Rightarrow> (nat \<Rightarrow> int) \<Rightarrow> bool"
  for p start blocks
where
  reach_start: "flow_env p env \<Longrightarrow> reach p start blocks start env"
| reach_enqueue: "\<lbrakk>reach p start blocks b env; b < length blocks; k < length (blocks ! b); after p (blocks ! b) k env e;
    fo_successor (blocks ! b ! k) = Some s; enabled (blocks ! b ! k) e; passes p (blocks ! b ! k) e env'\<rbrakk>
    \<Longrightarrow> reach p start blocks s env'"

subsection \<open>Well-formed functions\<close>

lemma ShouldSignExtend_src [simp]: "ShouldSignExtend (op\<lparr>op_src := ss\<rparr>) i = ShouldSignExtend op i"
  by (simp add: ShouldSignExtend_def)

definition source_ok :: "FlowProgram \<Rightarrow> SourceOperand \<Rightarrow> bool" where
  "source_ok p s \<longleftrightarrow> (case s of SrcLiteral l \<Rightarrow> lit_ok l | SrcRegister r \<Rightarrow> r < length (fp_registerTable p) | _ \<Rightarrow> True)"

text \<open>The opcodes the pass evaluates have their number of operands and write a local or a global
  register; gathers do not sign extend; lookup tables are well formed; an operation with a successor is an \<^verbatim>\<open>Enqueue\<close>.\<close>

definition flow_op_ok :: "FlowProgram \<Rightarrow> FlowOperation \<Rightarrow> bool" where
  "flow_op_ok p fo \<longleftrightarrow> list_all (source_ok p) (op_src (fo_op fo)) \<and>
     (case op_opcode (fo_op fo) of
        Mov \<Rightarrow> length (op_src (fo_op fo)) = 1
      | Clear \<Rightarrow> op_src (fo_op fo) = []
      | UnaryOp _ \<Rightarrow> length (op_src (fo_op fo)) = 1
      | BinaryOp _ \<Rightarrow> length (op_src (fo_op fo)) = 2
      | Gather es \<Rightarrow> length (op_src (fo_op fo)) = length es \<and>
          (\<forall>i < length es. \<not> ShouldSignExtend (fo_op fo) i)
      | Lut es \<Rightarrow> lut_op_ok (fp_registerTable p) (fo_op fo)
      | _ \<Rightarrow> True) \<and>
     (case op_dst (fo_op fo) of
        [DstRegister r] \<Rightarrow> r < length (fp_registerTable p) \<and> (is_local p r \<or> IsGlobalReg (fp_registerTable p) r)
      | _ \<Rightarrow> True) \<and>
     (fo_successor fo \<noteq> None \<longrightarrow> op_opcode (fo_op fo) = Enqueue) \<and>
     (fo_isPredicated fo \<longrightarrow> op_src (fo_op fo) \<noteq> [])"

text \<open>Each renamed register is that of the original it maps back to, with the same width.\<close>

definition renaming_ok :: "FlowProgram \<Rightarrow> FlowOperation \<Rightarrow> bool" where
  "renaming_ok p fo \<longleftrightarrow>
     (\<forall>(x, y) \<in> set (fo_reverseRenamingTable fo).
        map_of (fo_renamingTable fo) y = Some x \<and> is_local p y \<and>
        reg_width (fp_registerTable p) y = reg_width (fp_registerTable p) x)"

definition registers_ok :: "FlowProgram \<Rightarrow> bool" where
  "registers_ok p \<longleftrightarrow> (\<forall>r < length (fp_registerTable p). 0 < reg_width (fp_registerTable p) r) \<and>
     (\<forall>r < length (fp_registerTable p). \<forall>l. ConstantGlobal p r = Some l \<longrightarrow> lit_ok l)"

definition flow_ok :: "FlowProgram \<Rightarrow> nat \<Rightarrow> FlowBlock list \<Rightarrow> bool" where
  "flow_ok p start blocks \<longleftrightarrow> registers_ok p \<and> start < length blocks \<and>
     list_all (list_all (\<lambda>fo. flow_op_ok p fo \<and> renaming_ok p fo \<and>
       (\<forall>s. fo_successor fo = Some s \<longrightarrow> s < length blocks))) blocks"

subsection \<open>Known values are values\<close>

definition typed :: "FlowProgram \<Rightarrow> RegisterValueMap \<Rightarrow> bool" where
  "typed p values \<longleftrightarrow> smap_ok values \<and>
     (\<forall>r l. map_of values r = Some l \<longrightarrow> is_local p r \<and> lit_ok l \<and> l_width l = reg_width (fp_registerTable p) r)"

definition holds :: "RegisterValueMap \<Rightarrow> (nat \<Rightarrow> int) \<Rightarrow> bool" where
  "holds values env \<longleftrightarrow> (\<forall>r l. map_of values r = Some l \<longrightarrow> env r = l_value l)"

lemma SourceValue_sound:
  assumes "typed p values" "registers_ok p" "r < length (fp_registerTable p)" "SourceValue p values r = Some l"
  shows "lit_ok l" "l_width l = reg_width (fp_registerTable p) r"
    and "holds values env \<Longrightarrow> flow_env p env \<Longrightarrow> env r = l_value l"
  using assms
  by (auto simp: SourceValue_def typed_def registers_ok_def holds_def flow_env_def ConstantGlobal_def GetInitialValueLiteral_def
      split: option.splits if_splits)

text \<open>The bits of a lookup table need no index.\<close>

lemma eval_operation_lut: "IsLut op \<Longrightarrow> eval_operation_in ix rt env op = eval_operation rt env op"
  by (auto simp: eval_operation_in_def IsLut_def Let_def split: Opcode.splits)

text \<open>Operands that read the same literal.\<close>

definition same_sources :: "FlowProgram \<Rightarrow> (nat \<Rightarrow> int) \<Rightarrow> Operation \<Rightarrow> Operation \<Rightarrow> bool" where
  "same_sources p env op op' \<longleftrightarrow>
     list_all2 (\<lambda>s s'. operand_literal (fp_registerTable p) env s' = operand_literal (fp_registerTable p) env s \<and>
       operand_value env s' = operand_value env s) (op_src op) (op_src op')"

lemma map_opt_same: "list_all2 (\<lambda>x y. f y = f x) xs ys \<Longrightarrow> map_opt f ys = map_opt f xs"
  by (induction rule: list_all2_induct) simp_all

lemma eval_same_sources:
  assumes "same_sources p env op (op\<lparr>op_src := ss\<rparr>)"
    and "\<And>es. op_opcode op = Lut es \<Longrightarrow> lut_ok (length ss) es"
  shows "eval_operation_in ix (fp_registerTable p) env (op\<lparr>op_src := ss\<rparr>) = eval_operation_in ix (fp_registerTable p) env op"
proof -
  let ?rt = "fp_registerTable p"
  have lits: "map_opt (operand_literal ?rt env) ss = map_opt (operand_literal ?rt env) (op_src op)"
    using assms(1) by (intro map_opt_same) (auto simp: same_sources_def elim!: list_all2_mono)
  have vals: "operand_value env (ss ! i) = operand_value env (op_src op ! i)" if "i < length ss" for i
    using assms(1) that by (auto simp: same_sources_def list_all2_conv_all_nth)
  show ?thesis
  proof (cases "\<exists>es. op_opcode op = Lut es")
    case True
    then obtain es where es: "op_opcode op = Lut es" by blast
    have "Lut_Evaluate es (\<lambda>i. operand_value env (ss ! i)) = Lut_Evaluate es (src_values env op)"
      by (rule Lut_Evaluate_cong[OF assms(2)[OF es] vals])
    then show ?thesis by (simp add: eval_operation_in_def lits es)
  next
    case False
    then show ?thesis
      by (auto simp: eval_operation_in_def lits Let_def eval_select_def split: Opcode.split intro!: Option.bind_cong)
  qed
qed

subsection \<open>Substitution of sources\<close>

definition known_value :: "FlowProgram \<Rightarrow> RegisterValueMap \<Rightarrow> SourceOperand \<Rightarrow> Literal option" where
  "known_value p values s =
     (case s of SrcLiteral l \<Rightarrow> Some l | SrcRegister r \<Rightarrow> SourceValue p values r | _ \<Rightarrow> None)"

definition subst_operand :: "FlowProgram \<Rightarrow> RegisterValueMap \<Rightarrow> SourceOperand \<Rightarrow> SourceOperand" where
  "subst_operand p values s = (case known_value p values s of Some l \<Rightarrow> SrcLiteral l | None \<Rightarrow> s)"

definition allowed :: "FlowOperation \<Rightarrow> nat \<Rightarrow> bool" where
  "allowed fo i \<longleftrightarrow> AllowLiteralSourceOperand fo i = Some True"

lemma allowed_cong:
  "op_opcode (fo_op fo') = op_opcode (fo_op fo) \<or> IsLut (fo_op fo) \<and> IsLut (fo_op fo') \<Longrightarrow>
   fo_enqueue fo' = fo_enqueue fo \<Longrightarrow> length (op_src (fo_op fo')) = length (op_src (fo_op fo)) \<Longrightarrow>
   AllowLiteralSourceOperand fo' i = AllowLiteralSourceOperand fo i"
  by (auto simp: AllowLiteralSourceOperand_def IsLut_def split: Opcode.splits)

lemma subst_operand_sound:
  assumes "typed p values" "registers_ok p" "source_ok p s"
  shows "source_ok p (subst_operand p values s)"
    and "operand_ok (fp_registerTable p) s \<Longrightarrow> operand_ok (fp_registerTable p) (subst_operand p values s)"
    and "flow_env p env \<Longrightarrow> holds values env \<Longrightarrow>
      operand_literal (fp_registerTable p) env (subst_operand p values s) = operand_literal (fp_registerTable p) env s \<and>
      operand_value env (subst_operand p values s) = operand_value env s"
  using assms SourceValue_sound[OF assms(1,2)]
  by (auto simp: subst_operand_def known_value_def source_ok_def operand_literal_def split: SourceOperand.splits option.splits)

text \<open>The first \<open>i\<close> operands have been visited.\<close>

definition substituted ::
  "FlowProgram \<Rightarrow> RegisterValueMap \<Rightarrow> nat \<Rightarrow> FlowOperation \<Rightarrow> FlowOperation \<Rightarrow> bool \<Rightarrow> bool" where
  "substituted p values i fo fo' known \<longleftrightarrow>
     flow_op_ok p fo' \<and> fo' = fo\<lparr>fo_op := fo_op fo'\<rparr> \<and>
     op_dst (fo_op fo') = op_dst (fo_op fo) \<and> op_locations (fo_op fo') = op_locations (fo_op fo) \<and>
     op_signExtendSourceMask (fo_op fo') = op_signExtendSourceMask (fo_op fo) \<and>
     (op_opcode (fo_op fo') = op_opcode (fo_op fo) \<or> IsLut (fo_op fo) \<and> IsLut (fo_op fo')) \<and>
     op_src (fo_op fo') = map (\<lambda>j. let s = op_src (fo_op fo) ! j in if j < i \<and> allowed fo j then subst_operand p values s else s)
       [0..<length (op_src (fo_op fo))] \<and>
     (known \<longleftrightarrow> (\<forall>j < i. known_value p values (op_src (fo_op fo) ! j) \<noteq> None)) \<and>
     (\<forall>ix env. flow_env p env \<longrightarrow> holds values env \<longrightarrow>
        eval_operation_in ix (fp_registerTable p) env (fo_op fo') = eval_operation_in ix (fp_registerTable p) env (fo_op fo))"

lemma FixupLutOp_shape:
  assumes "FixupLutOp op = Some (op', c)"
  shows "\<exists>es. op' = op\<lparr>op_opcode := Lut es\<rparr>"
  using assms by (auto simp: FixupLutOp_def map_entries_def split: bind_splits)

text \<open>Writing a literal into operand \<open>i\<close>.\<close>

definition replace_source :: "Operation \<Rightarrow> nat \<Rightarrow> Literal \<Rightarrow> Operation option" where
  "replace_source op i l =
     (let op = op\<lparr>op_src := (op_src op)[i := SrcLiteral l]\<rparr>
      in if IsLut op then map_option fst (FixupLutOp op) else Some op)"

lemma replace_source:
  assumes "typed p values" "registers_ok p" "flow_op_ok p fo" "i < length (op_src (fo_op fo))"
    and "known_value p values (op_src (fo_op fo) ! i) = Some l"
  shows "\<exists>op'. replace_source (fo_op fo) i l = Some op' \<and> flow_op_ok p (fo\<lparr>fo_op := op'\<rparr>) \<and>
    op_dst op' = op_dst (fo_op fo) \<and> op_locations op' = op_locations (fo_op fo) \<and>
    op_signExtendSourceMask op' = op_signExtendSourceMask (fo_op fo) \<and>
    (op_opcode op' = op_opcode (fo_op fo) \<or> IsLut (fo_op fo) \<and> IsLut op') \<and>
    op_src op' = (op_src (fo_op fo))[i := SrcLiteral l] \<and>
    (\<forall>ix env. flow_env p env \<longrightarrow> holds values env \<longrightarrow>
      eval_operation_in ix (fp_registerTable p) env op' = eval_operation_in ix (fp_registerTable p) env (fo_op fo))"
proof -
  let ?op = "fo_op fo" and ?rt = "fp_registerTable p"
  let ?ss = "(op_src ?op)[i := SrcLiteral l]"
  let ?op1 = "?op\<lparr>op_src := ?ss\<rparr>"
  have lit: "SrcLiteral l = subst_operand p values (op_src ?op ! i)" using assms(5) by (simp add: subst_operand_def)
  have so: "source_ok p (op_src ?op ! i)" using assms(3,4) by (simp add: flow_op_ok_def list_all_length)
  note sub = subst_operand_sound[OF assms(1,2) so, folded lit]
  have same: "same_sources p env ?op ?op1" if "flow_env p env" "holds values env" for env
    using sub(3)[OF that] assms(4) by (auto simp: same_sources_def list_all2_conv_all_nth nth_list_update)
  have srcs: "list_all (source_ok p) ?ss"
    using assms(3,4) sub(1) by (auto simp: flow_op_ok_def list_all_length nth_list_update)
  show ?thesis
  proof (cases "IsLut ?op")
    case False
    then have op1: "replace_source ?op i l = Some ?op1" by (simp add: replace_source_def IsLut_def)
    have nolut: "op_opcode ?op \<noteq> Lut es" for es using False by (auto simp: IsLut_def)
    have "eval_operation_in ix ?rt env ?op1 = eval_operation_in ix ?rt env ?op" if "flow_env p env" "holds values env" for ix env
      by (rule eval_same_sources[OF same[OF that]]) (simp add: nolut)
    moreover have "flow_op_ok p (fo\<lparr>fo_op := ?op1\<rparr>)"
      using assms(3) srcs False assms(4) by (auto simp: flow_op_ok_def IsLut_def split: Opcode.splits)
    ultimately show ?thesis using op1 by auto
  next
    case True
    then obtain es where es: "op_opcode ?op = Lut es" by (auto simp: IsLut_def split: Opcode.splits)
    have lok: "lut_op_ok ?rt ?op" using assms(3) es by (simp add: flow_op_ok_def)
    then have ok1: "lut_op_ok ?rt ?op1"
      using es sub(2) assms(4) by (auto simp: lut_op_ok_def srcs_ok_def dest!: set_update_subset_insert[THEN subsetD])
    obtain op' c where fixed: "FixupLutOp ?op1 = Some (op', c)" "IsLut op'" using FixupLutOp_total[OF ok1] by blast
    have op': "lut_op_ok ?rt op'" by (rule fixup.pass_ok[OF ok1 fixed])
    obtain es' where shape: "op' = ?op1\<lparr>op_opcode := Lut es'\<rparr>" using FixupLutOp_shape[OF fixed(1)] by blast
    have "eval_operation_in ix ?rt env op' = eval_operation_in ix ?rt env ?op" if "flow_env p env" "holds values env" for ix env
    proof -
      have "eval_operation_in ix ?rt env op' = eval_operation_in ix ?rt env ?op1"
        using fixup.pass_value[OF ok1 fixed(1), of env] eval_operation_lut[of _ ix] es fixed(2) by (simp add: IsLut_def)
      also have "\<dots> = eval_operation_in ix ?rt env ?op"
        using lok es by (intro eval_same_sources[OF same[OF that]]) (auto simp: lut_op_ok_def)
      finally show ?thesis .
    qed
    moreover have "flow_op_ok p (fo\<lparr>fo_op := op'\<rparr>)"
      using assms(3) srcs op' shape es by (auto simp: flow_op_ok_def)
    moreover have "replace_source ?op i l = Some op'" using True fixed by (simp add: replace_source_def IsLut_def)
    ultimately show ?thesis using True fixed(2) shape by auto
  qed
qed

lemma SubstituteSource_eq:
  "SubstituteSource p values i (fo, known, c) =
    (case known_value p values (op_src (fo_op fo) ! i) of
       None \<Rightarrow> Some (fo, False, c)
     | Some l \<Rightarrow> if IsLiteralOperand (op_src (fo_op fo) ! i) then Some (fo, known, c)
         else do {
           allow \<leftarrow> AllowLiteralSourceOperand fo i;
           if allow then do { op \<leftarrow> replace_source (fo_op fo) i l; Some (fo\<lparr>fo_op := op\<rparr>, known, True) }
           else Some (fo, known, c) })"
  by (auto simp: SubstituteSource_def known_value_def IsLiteralOperand_def replace_source_def Let_def
      split: SourceOperand.splits option.splits cong: if_cong)

lemma SubstituteSource_step:
  assumes "typed p values" "registers_ok p" "substituted p values i fo fo1 known1" "i < length (op_src (fo_op fo))"
  shows "\<exists>fo2 known2 c'. SubstituteSource p values i (fo1, known1, c) = Some (fo2, known2, c') \<and>
    substituted p values (Suc i) fo fo2 known2"
proof -
  let ?s = "op_src (fo_op fo) ! i"
  have fo1: "flow_op_ok p fo1" "length (op_src (fo_op fo1)) = length (op_src (fo_op fo))" "op_src (fo_op fo1) ! i = ?s"
    using assms(3,4) by (simp_all add: substituted_def)
  have pred: "fo_enqueue fo1 = fo_enqueue fo"
    using assms(3) unfolding substituted_def by (metis FlowOperation.ext_inject FlowOperation.surjective FlowOperation.update_convs(1))
  then have allow: "AllowLiteralSourceOperand fo1 i = AllowLiteralSourceOperand fo i"
    using assms(3) fo1(2) by (intro allowed_cong) (auto simp: substituted_def)
  have all: "known2 = (known1 \<and> known_value p values ?s \<noteq> None) \<Longrightarrow>
      known2 \<longleftrightarrow> (\<forall>j < Suc i. known_value p values (op_src (fo_op fo) ! j) \<noteq> None)" for known2
    using assms(3) by (auto simp: substituted_def less_Suc_eq)
  have keep: "substituted p values (Suc i) fo fo1 known2"
    if k2: "known2 = (known1 \<and> known_value p values ?s \<noteq> None)" and s: "\<not> allowed fo i \<or> subst_operand p values ?s = ?s" for known2
  proof -
    have "map (\<lambda>j. let s = op_src (fo_op fo) ! j in if j < i \<and> allowed fo j then subst_operand p values s else s) [0..<length (op_src (fo_op fo))] =
        map (\<lambda>j. let s = op_src (fo_op fo) ! j in if j < Suc i \<and> allowed fo j then subst_operand p values s else s) [0..<length (op_src (fo_op fo))]"
      using s by (intro map_cong) (auto simp: Let_def less_Suc_eq)
    with assms(3) all[OF k2] show ?thesis unfolding substituted_def by auto
  qed
  show ?thesis
  proof (cases "known_value p values ?s")
    case None
    then show ?thesis using keep[of False] by (auto simp: SubstituteSource_eq fo1 subst_operand_def)
  next
    case (Some l)
    show ?thesis
    proof (cases "IsLiteralOperand ?s \<or> \<not> allowed fo i")
      case True
      moreover have "subst_operand p values ?s = ?s" if "IsLiteralOperand ?s"
        using that by (auto simp: subst_operand_def known_value_def IsLiteralOperand_def split: SourceOperand.splits)
      moreover have "\<exists>a. AllowLiteralSourceOperand fo i = Some a" using assms(4) by (simp add: AllowLiteralSourceOperand_def)
      ultimately show ?thesis
        using keep[of known1] Some allow by (auto simp: SubstituteSource_eq fo1 allowed_def)
    next
      case False
      obtain op' where op': "replace_source (fo_op fo1) i l = Some op'" "flow_op_ok p (fo1\<lparr>fo_op := op'\<rparr>)"
          "op_dst op' = op_dst (fo_op fo1)" "op_locations op' = op_locations (fo_op fo1)"
          "op_signExtendSourceMask op' = op_signExtendSourceMask (fo_op fo1)"
          "op_opcode op' = op_opcode (fo_op fo1) \<or> IsLut (fo_op fo1) \<and> IsLut op'"
          "op_src op' = (op_src (fo_op fo1))[i := SrcLiteral l]"
          "\<forall>ix env. flow_env p env \<longrightarrow> holds values env \<longrightarrow>
            eval_operation_in ix (fp_registerTable p) env op' = eval_operation_in ix (fp_registerTable p) env (fo_op fo1)"
        using replace_source[OF assms(1,2) fo1(1), of i l] fo1(2,3) assms(4) Some by auto
      have src: "op_src op' = map (\<lambda>j. let s = op_src (fo_op fo) ! j in if j < Suc i \<and> allowed fo j then subst_operand p values s else s)
          [0..<length (op_src (fo_op fo))]"
      proof (rule nth_equalityI)
        fix j assume j: "j < length (op_src op')"
        have "op_src (fo_op fo1) = map (\<lambda>j. let s = op_src (fo_op fo) ! j in if j < i \<and> allowed fo j then subst_operand p values s else s)
            [0..<length (op_src (fo_op fo))]"
          using assms(3) unfolding substituted_def by blast
        then show "op_src op' ! j = map (\<lambda>j. let s = op_src (fo_op fo) ! j in if j < Suc i \<and> allowed fo j then subst_operand p values s else s)
            [0..<length (op_src (fo_op fo))] ! j"
          using j False Some assms(4) fo1(2) unfolding op'(7)
          by (auto simp: nth_list_update Let_def less_Suc_eq subst_operand_def)
      qed (simp add: op'(7) fo1(2))
      have lut: "IsLut (fo_op fo1) = IsLut (fo_op fo)"
        using assms(3) by (auto simp: substituted_def IsLut_def)
      have opc: "op_opcode op' = op_opcode (fo_op fo) \<or> IsLut (fo_op fo) \<and> IsLut op'"
        using op'(6) assms(3) lut unfolding substituted_def by (auto simp: IsLut_def)
      have "fo1\<lparr>fo_op := op'\<rparr> = fo\<lparr>fo_op := op'\<rparr>"
        using assms(3) unfolding substituted_def by (metis FlowOperation.fold_congs(1) FlowOperation.surjective FlowOperation.update_convs(1))
      moreover have "op_dst (fo_op fo1) = op_dst (fo_op fo)" "op_locations (fo_op fo1) = op_locations (fo_op fo)"
          "op_signExtendSourceMask (fo_op fo1) = op_signExtendSourceMask (fo_op fo)"
          "op_opcode (fo_op fo1) = op_opcode (fo_op fo) \<or> IsLut (fo_op fo) \<and> IsLut (fo_op fo1)"
          "\<forall>ix env. flow_env p env \<longrightarrow> holds values env \<longrightarrow>
            eval_operation_in ix (fp_registerTable p) env (fo_op fo1) = eval_operation_in ix (fp_registerTable p) env (fo_op fo)"
        using assms(3) unfolding substituted_def by blast+
      moreover have "known1 \<longleftrightarrow> (\<forall>j < Suc i. known_value p values (op_src (fo_op fo) ! j) \<noteq> None)"
        by (rule all) (simp add: Some)
      ultimately have "substituted p values (Suc i) fo (fo1\<lparr>fo_op := op'\<rparr>) known1"
        using op'(2-5,8) src opc by (simp add: substituted_def)
      moreover have "SubstituteSource p values i (fo1, known1, c) = Some (fo1\<lparr>fo_op := op'\<rparr>, known1, True)"
        using False Some allow op'(1) by (simp add: SubstituteSource_eq fo1 allowed_def)
      ultimately show ?thesis by blast
    qed
  qed
qed

definition all_known :: "FlowProgram \<Rightarrow> RegisterValueMap \<Rightarrow> Operation \<Rightarrow> bool" where
  "all_known p values op \<longleftrightarrow> list_all (\<lambda>s. known_value p values s \<noteq> None) (op_src op)"

lemma SubstituteSources:
  assumes "typed p values" "registers_ok p" "flow_op_ok p fo"
  defines "n \<equiv> length (op_src (fo_op fo))"
  shows "\<exists>fo' c. fold_opt (SubstituteSource p values) [0..<n] (fo, True, False) =
      Some (fo', all_known p values (fo_op fo), c) \<and>
    substituted p values n fo fo' (all_known p values (fo_op fo))"
proof -
  have "\<exists>fo' known c. fold_opt (SubstituteSource p values) [0..<m] (fo, True, False) = Some (fo', known, c) \<and>
    substituted p values m fo fo' known" if "m \<le> n" for m
    using that
  proof (induction m)
    case 0
    show ?case using assms(3)
      by (intro exI[of _ fo] exI[of _ True] exI[of _ False]) (simp add: substituted_def map_nth)
  next
    case (Suc m)
    then obtain fo1 known1 c where "fold_opt (SubstituteSource p values) [0..<m] (fo, True, False) = Some (fo1, known1, c)"
        "substituted p values m fo fo1 known1" by auto
    with SubstituteSource_step[OF assms(1,2) this(2), of c] Suc.prems show ?case by (auto simp: n_def)
  qed
  then obtain fo' known c where res: "fold_opt (SubstituteSource p values) [0..<n] (fo, True, False) = Some (fo', known, c)"
      "substituted p values n fo fo' known" by blast
  then have "known = all_known p values (fo_op fo)"
    unfolding substituted_def n_def list_all_length all_known_def by blast
  with res show ?thesis by blast
qed

subsection \<open>Folding an operation\<close>

definition evaluated :: "Opcode \<Rightarrow> bool" where
  "evaluated opcode \<longleftrightarrow> (case opcode of Mov \<Rightarrow> True | Clear \<Rightarrow> True | UnaryOp _ \<Rightarrow> True | BinaryOp _ \<Rightarrow> True | Gather _ \<Rightarrow> True | _ \<Rightarrow> False)"

text \<open>The literal an operation with known sources evaluates to.\<close>

definition fold_value :: "FlowProgram \<Rightarrow> RegisterValueMap \<Rightarrow> Operation \<Rightarrow> Literal option" where
  "fold_value p values op =
     (if all_known p values op
      then (case op_dst op of
          [DstRegister r] \<Rightarrow> if IsGlobalReg (fp_registerTable p) r then None
            else Option.bind (DestinationValue (op\<lparr>op_src := map (subst_operand p values) (op_src op)\<rparr>)
              (reg_width (fp_registerTable p) r)) id
        | _ \<Rightarrow> None)
      else None)"

definition op_values :: "FlowProgram \<Rightarrow> RegisterValueMap \<Rightarrow> FlowOperation \<Rightarrow> RegisterValueMap" where
  "op_values p values fo = (case fold_value p values (fo_op fo) of
     Some l \<Rightarrow> (case op_dst (fo_op fo) of [DstRegister r] \<Rightarrow> map_insert r l values | _ \<Rightarrow> values)
   | None \<Rightarrow> values)"

lemma DestinationValue_not_evaluated: "\<not> evaluated (op_opcode op) \<Longrightarrow> DestinationValue op w = Some None"
  by (auto simp: DestinationValue_def evaluated_def split: Opcode.splits)

text \<open>With literal sources the value does not depend on the registers.\<close>

lemma DestinationValue_eval:
  assumes "flow_op_ok p fo" "op_dst (fo_op fo) = [DstRegister r]" "list_all IsLiteralOperand (op_src (fo_op fo))"
    and "evaluated (op_opcode (fo_op fo))"
  shows "DestinationValue (fo_op fo) (reg_width (fp_registerTable p) r) =
    map_option (\<lambda>v. Some \<lparr>l_value = v, l_width = reg_width (fp_registerTable p) r\<rparr>)
      (eval_operation_in mp_index (fp_registerTable p) env (fo_op fo))"
proof -
  let ?op = "fo_op fo" and ?rt = "fp_registerTable p"
  define lits where "lits = map (\<lambda>s. case s of SrcLiteral l \<Rightarrow> l | _ \<Rightarrow> undefined) (op_src ?op)"
  have lit: "op_src ?op ! i = SrcLiteral (lits ! i)" if "i < length (op_src ?op)" for i
    using assms(3) that by (auto simp: list_all_length IsLiteralOperand_def lits_def split: SourceOperand.splits)
  have src: "op_src ?op = map SrcLiteral lits" using lit by (intro nth_equalityI) (auto simp: lits_def)
  have ops: "map_opt (operand_literal ?rt env) (op_src ?op) = Some lits"
    unfolding src by (induction lits) (simp_all add: operand_literal_def)
  have get: "GetLiteral ?op i = Some (lits ! i)" if "i < length lits" for i
    using that by (simp add: GetLiteral_def src)
  have gets: "map_opt (GetLiteral ?op) [0..<n] = Some lits" if "length lits = n" for n
    using map_opt_total[of "[0..<n]" "GetLiteral ?op" "\<lambda>i. lits ! i"] get that[symmetric] by (simp add: map_nth)
  have [simp]: "length (op_src ?op) = length lits" by (simp add: src)
  show ?thesis
    using assms(1,4)
    by (cases "op_opcode ?op")
      (auto simp: DestinationValue_def eval_operation_in_def ops get gets Let_def assms(2) evaluated_def flow_op_ok_def
        list_all_length option.map_comp comp_def split: option.splits Option.bind_splits)
qed

text \<open>A value the compiler computes is the value.\<close>

lemma eval_operation_mp_any:
  assumes "flow_op_ok p fo" "list_all IsLiteralOperand (op_src (fo_op fo))" "evaluated (op_opcode (fo_op fo))"
    and "eval_operation_in mp_index (fp_registerTable p) env (fo_op fo) = Some v"
  shows "eval_operation (fp_registerTable p) env (fo_op fo) = Some v"
proof -
  obtain lits where lits: "map_opt (operand_literal (fp_registerTable p) env) (op_src (fo_op fo)) = Some lits"
    using assms(4) by (cases "map_opt (operand_literal (fp_registerTable p) env) (op_src (fo_op fo))")
      (auto simp: eval_operation_in_def Let_def)
  have ok: "lit_ok (lits ! i)" if "i < length lits" for i
  proof -
    note nth = map_opt_nth[OF lits] and len = map_opt_length[OF lits]
    have "source_ok p (op_src (fo_op fo) ! i)" "IsLiteralOperand (op_src (fo_op fo) ! i)"
      using assms(1,2) len that by (simp_all add: flow_op_ok_def list_all_length)
    then show ?thesis using nth[of i] len that by (auto simp: source_ok_def IsLiteralOperand_def operand_literal_def split: SourceOperand.splits)
  qed
  show ?thesis
    using assms(3,4) ok
    by (cases "op_opcode (fo_op fo)")
      (auto simp: eval_operation_in_def lits Let_def evaluated_def split: if_splits
        intro: Resize_any ImplementUnaryOp_any ImplementBinaryOp_any)
qed

lemma known_literals: "list_all IsLiteralOperand (op_src op) \<Longrightarrow> all_known p values op"
  by (auto simp: all_known_def list_all_iff IsLiteralOperand_def known_value_def split: SourceOperand.splits)

lemma subst_literals: "list_all IsLiteralOperand ss \<Longrightarrow> map (subst_operand p values) ss = ss"
  by (induction ss) (auto simp: IsLiteralOperand_def subst_operand_def known_value_def split: SourceOperand.splits)

lemma fold_value_literals:
  assumes "list_all IsLiteralOperand (op_src op)" "op_dst op = [DstRegister r]" "\<not> IsGlobalReg (fp_registerTable p) r"
  shows "fold_value p values op = Option.bind (DestinationValue op (reg_width (fp_registerTable p) r)) id"
  using assms by (simp add: fold_value_def known_literals subst_literals)

lemma literals_substituted:
  "all_known p values op \<Longrightarrow> list_all IsLiteralOperand (map (subst_operand p values) (op_src op))"
  by (auto simp: all_known_def list_all_iff subst_operand_def IsLiteralOperand_def)

lemma typed_global:
  assumes "typed p values" "ConstantGlobal p r = Some l"
  shows "map_of values r = None"
proof (rule ccontr)
  assume "map_of values r \<noteq> None"
  then have "is_local p r" using assms(1) by (auto simp: typed_def)
  then show False using assms(2) by (auto simp: is_local_def ConstantGlobal_def IsLocalRegisterType_def split: if_splits)
qed

text \<open>The facts that hold of some registers at all.\<close>

lemma facts_satisfiable:
  assumes "typed p values" "registers_ok p"
  shows "\<exists>env. flow_env p env \<and> holds values env"
proof -
  let ?env = "\<lambda>r. case SourceValue p values r of Some l \<Rightarrow> l_value l | None \<Rightarrow> 0"
  have "0 < reg_width (fp_registerTable p) r \<and> 0 \<le> ?env r \<and> ?env r < 2 ^ reg_width (fp_registerTable p) r"
    if "r < length (fp_registerTable p)" for r
    using SourceValue_sound(1,2)[OF assms that] assms(2) that
    by (auto simp: registers_ok_def lit_ok_def split: option.splits)
  moreover have "?env r = l_value l" if "ConstantGlobal p r = Some l" for r l
    using typed_global[OF assms(1) that] that by (simp add: SourceValue_def)
  ultimately have "flow_env p ?env" by (simp add: flow_env_def env_ok_def reg_width_def)
  moreover have "holds values ?env" by (simp add: holds_def SourceValue_def)
  ultimately show ?thesis by blast
qed

text \<open>Operations the pass evaluates have a value it can compute.\<close>

definition evaluable :: "FlowProgram \<Rightarrow> RegisterValueMap \<Rightarrow> FlowOperation \<Rightarrow> bool" where
  "evaluable p values fo \<longleftrightarrow> (\<forall>env. flow_env p env \<longrightarrow> holds values env \<longrightarrow> evaluated (op_opcode (fo_op fo)) \<longrightarrow>
     length (op_dst (fo_op fo)) = 1 \<longrightarrow> eval_operation_in mp_index (fp_registerTable p) env (fo_op fo) \<noteq> None)"

definition rewritten :: "FlowProgram \<Rightarrow> RegisterValueMap \<Rightarrow> FlowOperation \<Rightarrow> FlowOperation \<Rightarrow> bool" where
  "rewritten p values fo fo' \<longleftrightarrow>
     flow_op_ok p fo' \<and> renaming_ok p fo' \<and> op_dst (fo_op fo') = op_dst (fo_op fo) \<and> fo_successor fo' = fo_successor fo \<and>
     (evaluated (op_opcode (fo_op fo')) \<longrightarrow> evaluated (op_opcode (fo_op fo))) \<and>
     (fo_successor fo \<noteq> None \<longrightarrow> fo' = fo\<lparr>fo_op := fo_op fo'\<rparr>) \<and>
     (\<forall>env. flow_env p env \<longrightarrow> holds values env \<longrightarrow>
        eval_operation (fp_registerTable p) env (fo_op fo') = eval_operation (fp_registerTable p) env (fo_op fo) \<and>
        eval_operation_in mp_index (fp_registerTable p) env (fo_op fo') = eval_operation_in mp_index (fp_registerTable p) env (fo_op fo) \<and>
        (fo_successor fo \<noteq> None \<longrightarrow> enabled fo' env = enabled fo env)) \<and>
     (\<forall>l values'. fold_value p values (fo_op fo) = Some l \<longrightarrow> fold_value p values' (fo_op fo') = Some l)"

lemma evaluated_allowed:
  "evaluated (op_opcode (fo_op fo)) \<Longrightarrow> j < length (op_src (fo_op fo)) \<Longrightarrow> allowed fo j"
  by (auto simp: evaluated_def allowed_def AllowLiteralSourceOperand_def split: Opcode.splits)

lemma IsLut_not_evaluated: "IsLut op \<Longrightarrow> \<not> evaluated (op_opcode op)"
  by (auto simp: IsLut_def evaluated_def split: Opcode.splits)

lemma substituted_opcode:
  assumes "substituted p values i fo fo' known"
  shows "evaluated (op_opcode (fo_op fo')) = evaluated (op_opcode (fo_op fo))"
    and "evaluated (op_opcode (fo_op fo)) \<Longrightarrow> op_opcode (fo_op fo') = op_opcode (fo_op fo)"
proof -
  have "op_opcode (fo_op fo') = op_opcode (fo_op fo) \<or> IsLut (fo_op fo) \<and> IsLut (fo_op fo')"
    using assms unfolding substituted_def by blast
  then show "evaluated (op_opcode (fo_op fo')) = evaluated (op_opcode (fo_op fo))"
    "evaluated (op_opcode (fo_op fo)) \<Longrightarrow> op_opcode (fo_op fo') = op_opcode (fo_op fo)"
    using IsLut_not_evaluated by metis+
qed

lemma substituted_evaluated:
  assumes "substituted p values (length (op_src (fo_op fo))) fo fo' known" "evaluated (op_opcode (fo_op fo))"
  shows "fo_op fo' = (fo_op fo)\<lparr>op_src := map (subst_operand p values) (op_src (fo_op fo))\<rparr>"
proof -
  have "op_src (fo_op fo') = map (subst_operand p values) (op_src (fo_op fo))"
    using assms evaluated_allowed[OF assms(2)] unfolding substituted_def
    by (intro nth_equalityI) (auto simp: Let_def)
  moreover note substituted_opcode(2)[OF assms]
  moreover have "op_dst (fo_op fo') = op_dst (fo_op fo)" "op_locations (fo_op fo') = op_locations (fo_op fo)"
      "op_signExtendSourceMask (fo_op fo') = op_signExtendSourceMask (fo_op fo)"
    using assms(1) unfolding substituted_def by blast+
  ultimately show ?thesis by (simp add: Operation.equality)
qed

lemma evaluated_fold_value: "fold_value p values op = Some l \<Longrightarrow> evaluated (op_opcode op)"
  by (rule ccontr) (auto simp: fold_value_def DestinationValue_not_evaluated split: if_splits list.splits DestinationOperand.splits)

lemma substituted_rewritten:
  assumes "substituted p values (length (op_src (fo_op fo))) fo fo' known" "typed p values" "registers_ok p"
    and "flow_op_ok p fo" "renaming_ok p fo"
  shows "rewritten p values fo fo'"
proof -
  let ?n = "length (op_src (fo_op fo))"
  have shape: "fo' = fo\<lparr>fo_op := fo_op fo'\<rparr>" using assms(1) unfolding substituted_def by blast
  have same: "fo_successor fo' = fo_successor fo" "fo_enqueue fo' = fo_enqueue fo"
      "fo_renamingTable fo' = fo_renamingTable fo" "fo_reverseRenamingTable fo' = fo_reverseRenamingTable fo"
    by (subst shape, simp)+
  note ev = substituted_opcode(1)[OF assms(1)]
  have "enabled fo' env = enabled fo env" if "flow_env p env" "holds values env" for env
  proof (cases "fo_isPredicated fo")
    case True
    then have "op_src (fo_op fo) \<noteq> []" using assms(4) by (simp add: flow_op_ok_def)
    then have n: "0 < ?n" and ok: "source_ok p (op_src (fo_op fo) ! 0)"
      using assms(4) by (auto simp: flow_op_ok_def list_all_length)
    have "op_src (fo_op fo') ! 0 \<in> {op_src (fo_op fo) ! 0, subst_operand p values (op_src (fo_op fo) ! 0)}"
      using assms(1) n unfolding substituted_def by (auto simp: Let_def)
    then show ?thesis
      using subst_operand_sound(3)[OF assms(2,3) ok that] same(2) by (auto simp: enabled_def)
  qed (simp add: enabled_def same)
  moreover have "fold_value p values' (fo_op fo') = Some l" if l: "fold_value p values (fo_op fo) = Some l" for l values'
  proof -
    note src = substituted_evaluated[OF assms(1) evaluated_fold_value[OF l]]
    have known: "all_known p values (fo_op fo)"
      using l by (simp add: fold_value_def split: if_splits)
    obtain r where "op_dst (fo_op fo) = [DstRegister r]" "\<not> IsGlobalReg (fp_registerTable p) r"
      using l by (auto simp: fold_value_def split: if_splits list.splits DestinationOperand.splits)
    with fold_value_literals[of "fo_op fo'" r p values'] literals_substituted[OF known] l known show ?thesis
      by (simp add: src fold_value_def)
  qed
  ultimately show ?thesis
    using assms(1,5) same shape ev unfolding rewritten_def substituted_def renaming_ok_def by simp
qed

text \<open>The literal fits the register it is written to.\<close>

lemma fold_value_sound:
  assumes "typed p values" "registers_ok p" "flow_op_ok p fo" "fold_value p values (fo_op fo) = Some l"
  shows "\<exists>r. op_dst (fo_op fo) = [DstRegister r] \<and> is_local p r \<and> lit_ok l \<and> l_width l = reg_width (fp_registerTable p) r \<and>
    (\<forall>env. flow_env p env \<longrightarrow> holds values env \<longrightarrow> eval_operation_in mp_index (fp_registerTable p) env (fo_op fo) = Some (l_value l) \<and>
      eval_operation (fp_registerTable p) env (fo_op fo) = Some (l_value l))"
proof -
  obtain r where r: "op_dst (fo_op fo) = [DstRegister r]" "\<not> IsGlobalReg (fp_registerTable p) r"
    using assms(4) by (auto simp: fold_value_def split: if_splits list.splits DestinationOperand.splits)
  have loc: "is_local p r" "r < length (fp_registerTable p)" using assms(3) r by (auto simp: flow_op_ok_def)
  note ev = evaluated_fold_value[OF assms(4)]
  have known: "all_known p values (fo_op fo)" using assms(4) by (simp add: fold_value_def split: if_splits)
  obtain fo' where sub: "substituted p values (length (op_src (fo_op fo))) fo fo' (all_known p values (fo_op fo))"
    using SubstituteSources[OF assms(1-3)] by blast
  note op' = substituted_evaluated[OF sub ev]
  have "DestinationValue (fo_op fo') (reg_width (fp_registerTable p) r) = Some (Some l)"
    using assms(4) r known by (auto simp: fold_value_def op' bind_eq_Some_conv)
  moreover have "flow_op_ok p fo'" using sub by (simp add: substituted_def)
  moreover have lits: "list_all IsLiteralOperand (op_src (fo_op fo'))" using known by (simp add: op' literals_substituted)
  ultimately have "l_width l = reg_width (fp_registerTable p) r \<and>
      eval_operation_in mp_index (fp_registerTable p) env (fo_op fo') = Some (l_value l)" for env
    using DestinationValue_eval[of p fo' r env] r ev
    by (cases "eval_operation_in mp_index (fp_registerTable p) env (fo_op fo')") (auto simp: op')
  then have l: "l_width l = reg_width (fp_registerTable p) r"
      "\<And>env. eval_operation_in mp_index (fp_registerTable p) env (fo_op fo') = Some (l_value l)" by blast+
  have any: "eval_operation (fp_registerTable p) env (fo_op fo') = Some (l_value l)" for env
    using eval_operation_mp_any[OF \<open>flow_op_ok p fo'\<close> lits _ l(2)] ev by (simp add: op')
  have "lit_ok l"
    using eval_operation_range[OF any] r assms(2) loc by (auto simp: lit_ok_def l(1) op' registers_ok_def)
  moreover have "\<forall>env. flow_env p env \<longrightarrow> holds values env \<longrightarrow> eval_operation_in mp_index (fp_registerTable p) env (fo_op fo) = Some (l_value l) \<and>
      eval_operation (fp_registerTable p) env (fo_op fo) = Some (l_value l)"
    using sub l(2) any unfolding substituted_def by metis
  ultimately show ?thesis using r loc l(1) by blast
qed

lemma op_values_typed:
  assumes "typed p values" "registers_ok p" "flow_op_ok p fo"
  shows "typed p (op_values p values fo)"
  using assms(1) fold_value_sound[OF assms]
  by (auto simp: op_values_def typed_def split: option.splits if_splits)

text \<open>No known register is a destination.\<close>

definition fresh_dst :: "RegisterValueMap \<Rightarrow> FlowOperation \<Rightarrow> bool" where
  "fresh_dst values fo \<longleftrightarrow> list_all (\<lambda>d. case d of DstRegister r \<Rightarrow> map_of values r = None | _ \<Rightarrow> True) (op_dst (fo_op fo))"

lemma op_values_hold:
  assumes "typed p values" "registers_ok p" "flow_op_ok p fo" "fresh_dst values fo"
    and "flow_env p env" "holds values env" "flow_step p fo env env'"
  shows "holds (op_values p values fo) env'"
proof -
  have keep: "env' r = l_value l" if "map_of values r = Some l" for r l
  proof -
    have "DstRegister r \<notin> set (op_dst (fo_op fo))" using assms(4) that by (auto simp: fresh_dst_def list_all_iff)
    moreover have "is_local p r" using assms(1) that by (auto simp: typed_def)
    ultimately show ?thesis using assms(6,7) that by (auto simp: flow_step_def holds_def)
  qed
  show ?thesis
  proof (cases "fold_value p values (fo_op fo)")
    case None
    then show ?thesis using keep by (simp add: op_values_def holds_def)
  next
    case (Some l)
    from fold_value_sound[OF assms(1-3) this] assms(5,6) obtain r where
      r: "op_dst (fo_op fo) = [DstRegister r]" "is_local p r" "eval_operation (fp_registerTable p) env (fo_op fo) = Some (l_value l)"
      by blast
    then have "env' r = l_value l" using assms(7) by (auto simp: flow_step_def)
    then show ?thesis using keep r(1) Some by (auto simp: op_values_def holds_def)
  qed
qed

text \<open>What follows the propagation and the assertion in the body of the loop.\<close>

definition rewrite_operation ::
  "FlowProgram \<Rightarrow> RegisterValueMap \<Rightarrow> FlowOperation \<Rightarrow> (FlowOperation \<times> RegisterValueMap \<times> bool) option" where
  "rewrite_operation p values fo = do {
     (fo, allSourcesKnown, didChange) \<leftarrow> fold_opt (SubstituteSource p values) [0..<length (op_src (fo_op fo))] (fo, True, False);
     (fo, values, didFold) \<leftarrow> (if allSourcesKnown then FoldConstant (fp_registerTable p) fo values else Some (fo, values, False));
     Some (fo, values, didChange \<or> didFold) }"

lemma folded_rewritten:
  assumes "fold_value p values (fo_op fo) = Some l" "op_dst (fo_op fo) = [DstRegister r]" "is_local p r" "lit_ok l"
    and "l_width l = reg_width (fp_registerTable p) r" "flow_op_ok p fo"
    and "\<forall>env. flow_env p env \<longrightarrow> holds values env \<longrightarrow> eval_operation_in mp_index (fp_registerTable p) env (fo_op fo) = Some (l_value l) \<and>
      eval_operation (fp_registerTable p) env (fo_op fo) = Some (l_value l)"
    and "typed p values" "registers_ok p"
  shows "rewritten p values fo \<lparr>fo_op = operation Mov locs [(SrcLiteral l, False)] (DstRegister r), fo_successor = None,
    fo_enqueue = no_enqueue, fo_renamingTable = [], fo_reverseRenamingTable = []\<rparr>" (is "rewritten p values fo ?fo'")
proof -
  have r: "r < length (fp_registerTable p)" "\<not> IsGlobalReg (fp_registerTable p) r"
    using assms(3) by (auto simp: is_local_def IsGlobalReg_def IsLocalRegisterType_def)
  have ok: "flow_op_ok p ?fo'" using assms(3,4) r by (simp add: flow_op_ok_def source_ok_def)
  have none: "fo_successor fo = None"
    using assms(6) evaluated_fold_value[OF assms(1)] by (auto simp: flow_op_ok_def evaluated_def)
  have mov: "eval_operation_in mp_index (fp_registerTable p) env (fo_op ?fo') = eval_operation (fp_registerTable p) env (fo_op ?fo')" for env
    by (simp add: eval_operation_in_def Resize_def Widen_unfold Let_def operand_literal_def ShouldSignExtend_operation)
  have ev: "eval_operation (fp_registerTable p) env (fo_op ?fo') = Some (l_value l)" if "flow_env p env" for env
    using eval_emitted_mov[of "fp_registerTable p" env "SrcLiteral l" r locs False] that r assms(4,5)
    by (simp add: flow_env_def operand_int_unsigned take_bit_int_eq_self lit_ok_def)
  obtain env where "flow_env p env" using facts_satisfiable[OF assms(8,9)] by blast
  have "DestinationValue (fo_op ?fo') (reg_width (fp_registerTable p) r) = Some (Some l)"
    using DestinationValue_eval[OF ok, of r env] ev[OF \<open>flow_env p env\<close>] mov[of env] assms(5)
    by (simp add: IsLiteralOperand_def evaluated_def)
  then have "fold_value p values' (fo_op ?fo') = Some l" for values'
    using fold_value_literals[of "fo_op ?fo'" r p values'] r(2) by (simp add: IsLiteralOperand_def)
  then show ?thesis
    unfolding rewritten_def using ok none ev mov assms(1,2,7) evaluated_fold_value[OF assms(1)] by (simp add: renaming_ok_def)
qed

lemma rewrite_operation_correct:
  assumes "typed p values" "registers_ok p" "flow_op_ok p fo" "renaming_ok p fo" "evaluable p values fo"
  shows "\<exists>fo' c. rewrite_operation p values fo = Some (fo', op_values p values fo, c) \<and> rewritten p values fo fo'"
proof -
  let ?known = "all_known p values (fo_op fo)" and ?rt = "fp_registerTable p"
  obtain fo1 c1 where sub: "fold_opt (SubstituteSource p values) [0..<length (op_src (fo_op fo))] (fo, True, False) = Some (fo1, ?known, c1)"
      "substituted p values (length (op_src (fo_op fo))) fo fo1 ?known"
    using SubstituteSources[OF assms(1-3)] by blast
  note rw = substituted_rewritten[OF sub(2) assms(1-4)]
  have dst: "op_dst (fo_op fo1) = op_dst (fo_op fo)" using sub(2) by (simp add: substituted_def)
  show ?thesis
  proof (cases "?known \<and> (\<exists>r. op_dst (fo_op fo) = [DstRegister r] \<and> \<not> IsGlobalReg ?rt r) \<and> evaluated (op_opcode (fo_op fo))")
    case False
    then consider (unknown) "\<not> ?known" | (no_dst) "\<not> (\<exists>r. op_dst (fo_op fo) = [DstRegister r] \<and> \<not> IsGlobalReg ?rt r)"
      | (opcode) "\<not> evaluated (op_opcode (fo_op fo))" by blast
    then have "op_values p values fo = values \<and>
        (if ?known then FoldConstant ?rt fo1 values else Some (fo1, values, False)) = Some (fo1, values, False)"
    proof cases
      case unknown
      then show ?thesis by (simp add: op_values_def fold_value_def)
    next
      case no_dst
      then show ?thesis
        by (auto simp: op_values_def fold_value_def FoldConstant_def dst split: list.splits DestinationOperand.splits)
    next
      case opcode
      have "\<not> evaluated (op_opcode (fo_op fo1))"
        using substituted_opcode(1)[OF sub(2)] opcode by simp
      with opcode evaluated_fold_value show ?thesis
        by (auto simp: op_values_def FoldConstant_def DestinationValue_not_evaluated dst split: list.splits DestinationOperand.splits option.splits)
    qed
    then show ?thesis using sub(1) rw by (auto simp: rewrite_operation_def)
  next
    case True
    then obtain r where r: "op_dst (fo_op fo) = [DstRegister r]" "\<not> IsGlobalReg ?rt r"
      and known: ?known and ev: "evaluated (op_opcode (fo_op fo))" by blast
    note op1 = substituted_evaluated[OF sub(2) ev]
    obtain env where env: "flow_env p env" "holds values env" using facts_satisfiable[OF assms(1,2)] by blast
    then obtain v where "eval_operation_in mp_index ?rt env (fo_op fo1) = Some v"
      using assms(5) ev r(1) sub(2) by (auto simp: evaluable_def substituted_def)
    then obtain l where dv: "DestinationValue (fo_op fo1) (reg_width ?rt r) = Some (Some l)"
      using DestinationValue_eval[of p fo1 r env] sub(2) r ev known
      by (auto simp: op1 literals_substituted substituted_def)
    then have l: "fold_value p values (fo_op fo) = Some l" using r known by (simp add: fold_value_def op1)
    have ov: "op_values p values fo = map_insert r l values" by (simp add: op_values_def l r)
    show ?thesis
    proof (cases "op_opcode (fo_op fo1) = Mov \<and> IsLiteralOperand (op_src (fo_op fo1) ! 0)")
      case True
      then have "FoldConstant ?rt fo1 values = Some (fo1, map_insert r l values, False)"
        using r dst dv by (simp add: FoldConstant_def)
      then show ?thesis using sub(1) rw known ov by (auto simp: rewrite_operation_def)
    next
      case False
      let ?fo' = "\<lparr>fo_op = operation Mov (op_locations (fo_op fo1)) [(SrcLiteral l, False)] (DstRegister r), fo_successor = None,
        fo_enqueue = no_enqueue, fo_renamingTable = [], fo_reverseRenamingTable = []\<rparr>"
      have "FoldConstant ?rt fo1 values = Some (?fo', map_insert r l values, True)"
        using r dst dv False by (auto simp: FoldConstant_def Let_def)
      moreover have "rewritten p values fo ?fo'"
        using fold_value_sound[OF assms(1-3) l] r by (intro folded_rewritten[OF l r(1)] assms) auto
      ultimately show ?thesis using sub(1) known ov by (auto simp: rewrite_operation_def)
    qed
  qed
qed

subsection \<open>Literals for constant globals\<close>

lemma map_of_ComputeConstantGlobals:
  "map_of (ComputeConstantGlobals p) r = (if r < length (fp_registerTable p) then ConstantGlobal p r else None)"
proof -
  have "map_of (fold (\<lambda>r result. case ConstantGlobal p r of Some v \<Rightarrow> map_insert r v result | None \<Rightarrow> result) [0..<n] []) r =
    (if r < n then ConstantGlobal p r else None)" for n
    by (induction n) (auto simp: less_Suc_eq split: option.splits)
  then show ?thesis by (simp add: ComputeConstantGlobals_def)
qed

lemma SubstituteLiteral_same:
  assumes "flow_env p env"
  shows "operand_literal (fp_registerTable p) env (SubstituteLiteral (ComputeConstantGlobals p) s) = operand_literal (fp_registerTable p) env s \<and>
    operand_value env (SubstituteLiteral (ComputeConstantGlobals p) s) = operand_value env s"
proof (cases s)
  case (SrcRegister r)
  show ?thesis
  proof (cases "map_of (ComputeConstantGlobals p) r")
    case (Some l)
    then have r: "r < length (fp_registerTable p)" "ConstantGlobal p r = Some l"
      by (simp_all add: map_of_ComputeConstantGlobals split: if_splits)
    then have "env r = l_value l" using assms by (simp add: flow_env_def)
    moreover have "l_width l = reg_width (fp_registerTable p) r"
      using r(2) by (auto simp: ConstantGlobal_def GetInitialValueLiteral_def split: if_splits)
    ultimately show ?thesis using Some SrcRegister by (simp add: SubstituteLiteral_def operand_literal_def)
  qed (simp add: SrcRegister SubstituteLiteral_def)
qed (simp_all add: SubstituteLiteral_def)

definition substitute_globals :: "FlowProgram \<Rightarrow> Operation \<Rightarrow> Operation" where
  "substitute_globals p op = op\<lparr>op_src := map (SubstituteLiteral (ComputeConstantGlobals p)) (op_src op)\<rparr>"

lemma SubstituteLiterals_ops:
  assumes "SubstituteLiterals p functions = (functions', c)"
  shows "functions' = map (map (map (\<lambda>fo. fo\<lparr>fo_op := substitute_globals p (fo_op fo)\<rparr>))) functions"
    and "\<not> c \<Longrightarrow> functions' = functions"
proof -
  show ops: "functions' = map (map (map (\<lambda>fo. fo\<lparr>fo_op := substitute_globals p (fo_op fo)\<rparr>))) functions"
    using assms by (simp add: SubstituteLiterals_def Let_def substitute_globals_def)
  show "functions' = functions" if "\<not> c"
  proof -
    have "SubstituteLiteral (ComputeConstantGlobals p) s = s"
      if "fs \<in> set functions" "b \<in> set fs" "fo \<in> set b" "s \<in> set (op_src (fo_op fo))" for fs b fo s
      using assms \<open>\<not> c\<close> that
      by (fastforce simp: SubstituteLiterals_def Let_def list_ex_iff SubstituteLiteral_def split: SourceOperand.splits)
    then have "fo\<lparr>fo_op := substitute_globals p (fo_op fo)\<rparr> = fo" if "fs \<in> set functions" "b \<in> set fs" "fo \<in> set b" for fs b fo
      using that by (simp add: substitute_globals_def map_idI)
    then show ?thesis unfolding ops by (intro map_idI) blast
  qed
qed

text \<open>C34: Replacing references to constant globals by literals keeps the value of every operation
  with the values these globals have, leaves no reference to such a global, and changes nothing when it
  reports no substitution.\<close>

theorem SubstituteLiterals_correct:
  assumes "SubstituteLiterals p functions = (functions', c)" "flow_env p env"
    and "f < length functions" "b < length (functions ! f)" "k < length (functions ! f ! b)"
    and "\<And>es. op_opcode (fo_op (functions ! f ! b ! k)) = Lut es \<Longrightarrow> lut_ok (length (op_src (fo_op (functions ! f ! b ! k)))) es"
  shows "eval_operation (fp_registerTable p) env (fo_op (functions' ! f ! b ! k)) =
      eval_operation (fp_registerTable p) env (fo_op (functions ! f ! b ! k)) \<and>
    (\<forall>r < length (fp_registerTable p). SrcRegister r \<in> set (op_src (fo_op (functions' ! f ! b ! k))) \<longrightarrow> ConstantGlobal p r = None) \<and>
    (\<not> c \<longrightarrow> functions' = functions)"
proof -
  let ?op = "fo_op (functions ! f ! b ! k)"
  have op': "fo_op (functions' ! f ! b ! k) = substitute_globals p ?op"
    using SubstituteLiterals_ops(1)[OF assms(1)] assms(3-5) by simp
  have "eval_operation (fp_registerTable p) env (substitute_globals p ?op) = eval_operation (fp_registerTable p) env ?op"
    unfolding substitute_globals_def
  proof (rule eval_same_sources)
    show "same_sources p env ?op (?op\<lparr>op_src := map (SubstituteLiteral (ComputeConstantGlobals p)) (op_src ?op)\<rparr>)"
      by (simp add: same_sources_def list_all2_conv_all_nth SubstituteLiteral_same[OF assms(2)])
  qed (simp add: assms(6))
  moreover have "ConstantGlobal p r = None"
    if "r < length (fp_registerTable p)" "SrcRegister r \<in> set (op_src (substitute_globals p ?op))" for r
    using that by (auto simp: substitute_globals_def SubstituteLiteral_def map_of_ComputeConstantGlobals
        split: SourceOperand.splits option.splits if_splits)
  ultimately show ?thesis using SubstituteLiterals_ops(2)[OF assms(1)] op' by simp
qed

text \<open>A constant global of value 7 added to a local register.\<close>

definition global_program :: FlowProgram where
  "global_program = \<lparr>fp_registerTable = [\<lparr>rd_type = RT_Global, rd_width = 8\<rparr>, \<lparr>rd_type = RT_Local, rd_width = 8\<rparr>],
     fp_Global = (\<lambda>_. \<lparr>gd_hasInitialValue = True, gd_isConstant = True, gd_initialValue = 7\<rparr>)\<rparr>"

definition global_function :: "FlowBlock list" where
  "global_function = [[\<lparr>fo_op = operation (BinaryOp Add) {} [(SrcRegister 0, False), (SrcRegister 1, False)] (DstRegister 1),
     fo_successor = None, fo_enqueue = no_enqueue, fo_renamingTable = [], fo_reverseRenamingTable = []\<rparr>]]"

lemma global_run: "\<exists>fs. SubstituteLiterals global_program [global_function] = (fs, True) \<and>
    op_src (fo_op (fs ! 0 ! 0 ! 0)) = [SrcLiteral \<lparr>l_value = 7, l_width = 8\<rparr>, SrcRegister 1]"
  by (simp add: SubstituteLiterals_def Let_def global_program_def global_function_def ComputeConstantGlobals_def ConstantGlobal_def
      GetInitialValueLiteral_def reg_width_def SubstituteLiteral_def upt_rec)

lemma global_env: "flow_env global_program (\<lambda>_. 7)"
  by (auto simp: flow_env_def env_ok_def global_program_def ConstantGlobal_def GetInitialValueLiteral_def less_Suc_eq split: if_splits)

theorem SubstituteLiterals_correct_witness:
  "\<exists>fs. SubstituteLiterals global_program [global_function] = (fs, True) \<and>
     eval_operation (fp_registerTable global_program) (\<lambda>_. 7) (fo_op (fs ! 0 ! 0 ! 0)) =
     eval_operation (fp_registerTable global_program) (\<lambda>_. 7) (fo_op (global_function ! 0 ! 0))"
proof -
  obtain fs where fs: "SubstituteLiterals global_program [global_function] = (fs, True)" using global_run by blast
  from SubstituteLiterals_correct[OF this global_env, of 0 0 0] fs show ?thesis by (simp add: global_function_def)
qed

end
