(* ===== verification/Constant_Propagation.thy ===== *)
theory Constant_Propagation
  imports Constant_Folding
begin

text \<open>
  Constant propagation over the control flow graph of a function (\<^verbatim>\<open>ConstantPropagation\<close> of
  \<^verbatim>\<open>optimize.cpp\<close>, the work list of \<^verbatim>\<open>data_flow_work_list.cpp\<close>). Blocks pass the values of local
  registers to their successors at \<^verbatim>\<open>Enqueue\<close> operations, and the pass rewrites operations while
  the facts it collects still grow. The work list empties, no assertion fails, and the function
  runs as before.
\<close>

subsection \<open>Propagation to the successors\<close>

text \<open>\<open>cp_input\<close> is \<^verbatim>\<open>inputValueMap\<close>: for each block, the known values at every \<^verbatim>\<open>Enqueue\<close> that starts
  it, which is named by its block and position. \<open>cp_work\<close> is the working set.\<close>

type_synonym PredecessorMap = "(nat \<times> nat, RegisterValueMap) smap"

record CPState =
  cp_input :: "(nat, PredecessorMap) smap"
  cp_work :: "nat set"

definition ValuesForSuccessor :: "FlowOperation \<Rightarrow> RegisterValueMap \<Rightarrow> RegisterValueMap option" where
  "ValuesForSuccessor fo registerValues =
     fold_opt (\<lambda>(r, v) valuesForSuccessor.
         if map_of (fo_renamingTable fo) r \<noteq> None then Some valuesForSuccessor
         else do {
           registerIndex \<leftarrow> MapRenamedToOriginalRegisterIndex fo r;
           Some (map_insert registerIndex v valuesForSuccessor) })
       registerValues []"

definition PropagateToSuccessor ::
  "nat \<times> nat \<Rightarrow> FlowOperation \<Rightarrow> RegisterValueMap \<Rightarrow> CPState \<Rightarrow> CPState option" where
  "PropagateToSuccessor enq fo registerValues st = (case fo_successor fo of
     None \<Rightarrow> Some st
   | Some successor \<Rightarrow> do {
       valuesForSuccessor \<leftarrow> ValuesForSuccessor fo registerValues;
       predecessorMap \<leftarrow> SafeLookup (cp_input st) successor;
       previousValues \<leftarrow> SafeLookup predecessorMap enq;
       if \<not> Equal valuesForSuccessor previousValues then do {
         _ \<leftarrow> assert_that (IsSuperSet valuesForSuccessor previousValues);
         Some (st\<lparr>cp_input := map_insert successor (map_insert enq valuesForSuccessor predecessorMap) (cp_input st),
                  cp_work := insert successor (cp_work st)\<rparr>) }
       else Some st })"

definition ProcessOperation ::
  "FlowProgram \<Rightarrow> nat \<times> nat \<Rightarrow> FlowOperation \<Rightarrow> RegisterValueMap \<Rightarrow> CPState \<Rightarrow>
   (FlowOperation \<times> RegisterValueMap \<times> CPState \<times> bool) option" where
  "ProcessOperation p position fo registerValues st = do {
     st \<leftarrow> PropagateToSuccessor position fo registerValues st;
     _ \<leftarrow> assert_that (list_all (\<lambda>d. case d of DstRegister r \<Rightarrow> map_of registerValues r = None | _ \<Rightarrow> True)
       (op_dst (fo_op fo)));
     (fo, allSourcesKnown, didChange) \<leftarrow>
       fold_opt (SubstituteSource p registerValues) [0..<length (op_src (fo_op fo))] (fo, True, False);
     (fo, registerValues, didFold) \<leftarrow>
       (if allSourcesKnown then FoldConstant (fp_registerTable p) fo registerValues
        else Some (fo, registerValues, False));
     Some (fo, registerValues, st, didChange \<or> didFold) }"

fun ProcessOperations ::
  "FlowProgram \<Rightarrow> nat \<Rightarrow> nat \<Rightarrow> FlowBlock \<Rightarrow> RegisterValueMap \<Rightarrow> CPState \<Rightarrow> (FlowBlock \<times> CPState \<times> bool) option" where
  "ProcessOperations p b k [] registerValues st = Some ([], st, False)"
| "ProcessOperations p b k (fo # fos) registerValues st = do {
     (fo, registerValues, st, c) \<leftarrow> ProcessOperation p (b, k) fo registerValues st;
     (fos, st, cs) \<leftarrow> ProcessOperations p b (Suc k) fos registerValues st;
     Some (fo # fos, st, c \<or> cs) }"

text \<open>The values all predecessors agree on.\<close>

definition EntryValues :: "bool \<Rightarrow> PredecessorMap \<Rightarrow> RegisterValueMap" where
  "EntryValues isFunctionStart predecessorMap =
     (if predecessorMap = [] \<or> isFunctionStart then []
      else filter (\<lambda>(regIndex, value). list_all (\<lambda>(_, values). map_of values regIndex = Some value) predecessorMap)
        (snd (hd predecessorMap)))"

subsection \<open>The work list\<close>

text \<open>\<^verbatim>\<open>Pop\<close> takes the first block of the set in the order of the addresses of the blocks, which is
  the parameter \<open>first\<close>.\<close>

partial_function (option) PropagateLoop ::
  "(nat set \<Rightarrow> nat) \<Rightarrow> FlowProgram \<Rightarrow> nat \<Rightarrow> FlowBlock list \<Rightarrow> CPState \<Rightarrow> bool \<Rightarrow> (FlowBlock list \<times> bool) option" where
  "PropagateLoop first p start blocks st didChangeIR =
     (if cp_work st = {} then Some (blocks, didChangeIR)
      else do {
        let b = first (cp_work st);
        let st = st\<lparr>cp_work := cp_work st - {b}\<rparr>;
        let registerValues = EntryValues (b = start) (LookupWithDefault (cp_input st) b []);
        (block, st, c) \<leftarrow> ProcessOperations p b 0 (blocks ! b) registerValues st;
        PropagateLoop first p start (blocks[b := block]) st (didChangeIR \<or> c) })"

definition InitialInput :: "FlowBlock list \<Rightarrow> (nat, PredecessorMap) smap" where
  "InitialInput blocks =
     fold (\<lambda>b. fold (\<lambda>k inputs. case fo_successor (blocks ! b ! k) of
           None \<Rightarrow> inputs
         | Some s \<Rightarrow> map_insert s (map_insert (b, k) [] (LookupWithDefault inputs s [])) inputs)
         [0..<length (blocks ! b)])
       [0..<length blocks] []"

definition ConstantPropagation ::
  "(nat set \<Rightarrow> nat) \<Rightarrow> FlowProgram \<Rightarrow> nat \<Rightarrow> FlowBlock list \<Rightarrow> (FlowBlock list \<times> bool) option" where
  "ConstantPropagation first p start blocks =
     PropagateLoop first p start blocks \<lparr>cp_input = InitialInput blocks, cp_work = {..<length blocks}\<rparr> False"

lemma ProcessOperation_eq:
  "ProcessOperation p position fo values st = do {
     st \<leftarrow> PropagateToSuccessor position fo values st;
     _ \<leftarrow> assert_that (fresh_dst values fo);
     (fo, values, c) \<leftarrow> rewrite_operation p values fo;
     Some (fo, values, st, c) }"
  unfolding ProcessOperation_def rewrite_operation_def fresh_dst_def
  by (auto simp: case_prod_unfold intro!: Option.bind_cong)

subsection \<open>Sets of facts\<close>

definition facts_le :: "RegisterValueMap \<Rightarrow> RegisterValueMap \<Rightarrow> bool" where
  "facts_le a b \<longleftrightarrow> (\<forall>r l. map_of a r = Some l \<longrightarrow> map_of b r = Some l)"

lemma facts_le_refl [simp]: "facts_le a a" and facts_le_Nil [simp]: "facts_le [] a"
  by (simp_all add: facts_le_def)

lemma facts_le_trans: "facts_le a b \<Longrightarrow> facts_le b c \<Longrightarrow> facts_le a c"
  by (simp add: facts_le_def)

lemma holds_le: "facts_le a b \<Longrightarrow> holds b env \<Longrightarrow> holds a env"
  by (simp add: facts_le_def holds_def)

lemma smap_map_of_iff: "smap_ok m \<Longrightarrow> map_of m k = Some v \<longleftrightarrow> (k, v) \<in> set m"
  by (simp add: smap_ok_distinct)

lemma smap_eqI:
  assumes "smap_ok a" "smap_ok b" "set a = set b"
  shows "a = b"
proof -
  have keys: "map fst a = map fst b"
    using assms by (intro strict_sorted_equal) (auto simp: smap_ok_def)
  have vals: "map snd m = map (\<lambda>k. the (map_of m k)) (map fst m)" if "smap_ok m" for m :: "('a, 'b) smap"
    using smap_ok_distinct[OF that] by auto
  have "map_of a = map_of b"
    using assms smap_map_of_iff[OF assms(1)] smap_map_of_iff[OF assms(2)] by (intro map_of_eqI) (auto, metis)
  then have "map snd a = map snd b" using vals[OF assms(1)] vals[OF assms(2)] keys by simp
  with keys show ?thesis by (simp add: pair_list_eqI)
qed

lemma facts_le_set: "smap_ok a \<Longrightarrow> smap_ok b \<Longrightarrow> facts_le a b \<longleftrightarrow> set a \<subseteq> set b"
  by (auto simp: facts_le_def smap_map_of_iff)

lemma facts_le_length:
  assumes "smap_ok a" "smap_ok b" "facts_le a b"
  shows "a = b \<or> length a < length b"
proof -
  have sub: "set a \<subseteq> set b" using assms by (simp add: facts_le_set)
  have card: "card (set m) = length m" if "smap_ok m" for m :: RegisterValueMap
    using smap_ok_distinct[OF that] by (simp add: distinct_card distinct_map)
  show ?thesis
    using card_mono[OF finite_set sub] card_subset_eq[OF finite_set sub] card[OF assms(1)] card[OF assms(2)]
      smap_eqI[OF assms(1,2)] by linarith
qed

lemma Equal_iff: "smap_ok a \<Longrightarrow> smap_ok b \<Longrightarrow> Equal a b \<longleftrightarrow> a = b"
  using facts_le_length[of a b] by (auto simp: Equal_def list_all_iff facts_le_def smap_map_of_iff)

lemma IsSuperSet_iff: "smap_ok b \<Longrightarrow> IsSuperSet a b \<longleftrightarrow> facts_le b a"
  by (auto simp: IsSuperSet_def list_all_iff facts_le_def smap_map_of_iff)

subsection \<open>Facts passed to a successor\<close>

definition passed_facts :: "FlowOperation \<Rightarrow> RegisterValueMap \<Rightarrow> RegisterValueMap" where
  "passed_facts fo values =
     fold (\<lambda>(r, v). map_insert (OptionallyMapIndex r (fo_reverseRenamingTable fo)) v)
       (filter (\<lambda>(r, v). map_of (fo_renamingTable fo) r = None) values) []"

lemma ValuesForSuccessor_eq:
  assumes "op_opcode (fo_op fo) = Enqueue"
  shows "ValuesForSuccessor fo values = Some (passed_facts fo values)"
proof -
  have "fold_opt (\<lambda>(r, v) valuesForSuccessor.
         if map_of (fo_renamingTable fo) r \<noteq> None then Some valuesForSuccessor
         else do {
           registerIndex \<leftarrow> MapRenamedToOriginalRegisterIndex fo r;
           Some (map_insert registerIndex v valuesForSuccessor) }) values acc =
    Some (fold (\<lambda>(r, v). map_insert (OptionallyMapIndex r (fo_reverseRenamingTable fo)) v)
       (filter (\<lambda>(r, v). map_of (fo_renamingTable fo) r = None) values) acc)" for acc
    by (induction "values" arbitrary: acc) (auto simp: MapRenamedToOriginalRegisterIndex_def assms)
  then show ?thesis by (simp add: ValuesForSuccessor_def passed_facts_def)
qed

lemma fold_map_insert:
  assumes "inj_on f (fst ` set ys)" "distinct (map fst ys)" "fst ` set acc \<inter> f ` fst ` set ys = {}"
  shows "map_of (fold (\<lambda>(r, v). map_insert (f r) v) ys acc) k = Some v \<longleftrightarrow>
    map_of acc k = Some v \<or> (\<exists>r. map_of ys r = Some v \<and> k = f r)"
  using assms
proof (induction ys arbitrary: acc)
  case (Cons y ys)
  obtain r v' where y: "y = (r, v')" by (cases y)
  have new: "f r \<notin> f ` fst ` set ys"
    using Cons.prems(1,2) y by (auto simp: inj_on_def)
  have acc: "map_of acc (f r) = None"
    using Cons.prems(3) y by (auto simp: map_of_eq_None_iff)
  have "map_of (fold (\<lambda>(r, v). map_insert (f r) v) ys (map_insert (f r) v' acc)) k = Some v \<longleftrightarrow>
    map_of (map_insert (f r) v' acc) k = Some v \<or> (\<exists>r. map_of ys r = Some v \<and> k = f r)"
    using Cons.prems new y by (intro Cons.IH) auto
  moreover have "map_of ys r = None" using Cons.prems(2) y by (simp add: map_of_eq_None_iff)
  then have "(\<exists>r'. map_of (y # ys) r' = Some v \<and> k = f r') \<longleftrightarrow> k = f r \<and> v = v' \<or> (\<exists>r'. map_of ys r' = Some v \<and> k = f r')"
    using y by (auto, metis option.discI)
  ultimately show ?case using acc y by auto
qed simp

text \<open>The successor finds a passed register where it was.\<close>

lemma renamed_back:
  assumes "renaming_ok p fo" "map_of (fo_renamingTable fo) r = None"
  defines "k \<equiv> OptionallyMapIndex r (fo_reverseRenamingTable fo)"
  shows "OptionallyMapIndex k (fo_renamingTable fo) = r \<and>
    (k = r \<or> is_local p k \<and> reg_width (fp_registerTable p) k = reg_width (fp_registerTable p) r)"
proof (cases "map_of (fo_reverseRenamingTable fo) r")
  case None
  then show ?thesis using assms(2) by (simp add: k_def OptionallyMapIndex_def)
next
  case (Some x)
  with assms(1) map_of_SomeD[OF this] show ?thesis by (auto simp: k_def OptionallyMapIndex_def renaming_ok_def)
qed

lemma passed_facts_iff:
  assumes "renaming_ok p fo" "smap_ok values"
  shows "map_of (passed_facts fo values) k = Some v \<longleftrightarrow>
    (\<exists>r. map_of values r = Some v \<and> map_of (fo_renamingTable fo) r = None \<and> k = OptionallyMapIndex r (fo_reverseRenamingTable fo))"
proof -
  let ?ys = "filter (\<lambda>(r, v). map_of (fo_renamingTable fo) r = None) values"
  have d: "distinct (map fst ?ys)" using smap_ok_distinct[OF assms(2)] by (rule distinct_map_filter)
  have "map_of ?ys r = Some v \<longleftrightarrow> map_of values r = Some v \<and> map_of (fo_renamingTable fo) r = None" for r
    using d smap_ok_distinct[OF assms(2)] by auto
  moreover have "inj_on (\<lambda>r. OptionallyMapIndex r (fo_reverseRenamingTable fo)) (fst ` set ?ys)"
    by (rule inj_on_inverseI[where g = "\<lambda>k. OptionallyMapIndex k (fo_renamingTable fo)"]) (use renamed_back[OF assms(1)] in auto)
  ultimately show ?thesis
    using fold_map_insert[of "\<lambda>r. OptionallyMapIndex r (fo_reverseRenamingTable fo)" ?ys "[]" k v] d
    unfolding passed_facts_def by auto
qed

lemma smap_ok_passed_facts [simp]: "smap_ok (passed_facts fo values)"
proof -
  have "smap_ok acc \<Longrightarrow> smap_ok (fold (\<lambda>(r, v). map_insert (f r) v) ys acc)" for f :: "nat \<Rightarrow> nat" and ys and acc :: RegisterValueMap
    by (induction ys arbitrary: acc) auto
  then show ?thesis by (simp add: passed_facts_def)
qed

lemma passed_facts_mono:
  "renaming_ok p fo \<Longrightarrow> smap_ok a \<Longrightarrow> smap_ok b \<Longrightarrow> facts_le a b \<Longrightarrow> facts_le (passed_facts fo a) (passed_facts fo b)"
  by (auto simp: facts_le_def passed_facts_iff)

lemma passed_facts_typed:
  assumes "typed p values" "renaming_ok p fo"
  shows "typed p (passed_facts fo values)"
proof -
  have ok: "smap_ok values" using assms(1) by (simp add: typed_def)
  have "is_local p k \<and> lit_ok l \<and> l_width l = reg_width (fp_registerTable p) k"
    if fact: "map_of (passed_facts fo values) k = Some l" for k l
  proof -
    obtain r where r: "map_of values r = Some l" "map_of (fo_renamingTable fo) r = None"
        "k = OptionallyMapIndex r (fo_reverseRenamingTable fo)"
      using fact passed_facts_iff[OF assms(2) ok] by blast
    with renamed_back[OF assms(2) r(2)] assms(1) show ?thesis by (auto simp: typed_def)
  qed
  then show ?thesis by (simp add: typed_def)
qed

lemma passed_facts_hold:
  assumes "typed p values" "renaming_ok p fo" "holds values env" "passes p fo env env'"
  shows "holds (passed_facts fo values) env'"
  unfolding holds_def
proof (intro allI impI)
  fix k l assume fact: "map_of (passed_facts fo values) k = Some l"
  have ok: "smap_ok values" using assms(1) by (simp add: typed_def)
  obtain r where r: "map_of values r = Some l" "map_of (fo_renamingTable fo) r = None"
      "k = OptionallyMapIndex r (fo_reverseRenamingTable fo)"
    using fact passed_facts_iff[OF assms(2) ok] by blast
  have "is_local p k" using fact passed_facts_typed[OF assms(1,2)] by (auto simp: typed_def)
  then have "env' k = env (OptionallyMapIndex k (fo_renamingTable fo))" using assms(4) by (simp add: passes_def)
  with renamed_back[OF assms(2) r(2)] r assms(3) show "env' k = l_value l" by (simp add: holds_def)
qed

subsection \<open>One block\<close>

definition preds :: "CPState \<Rightarrow> nat \<Rightarrow> PredecessorMap" where
  "preds st s = LookupWithDefault (cp_input st) s []"

text \<open>The facts stored for block \<open>s\<close> at the \<^verbatim>\<open>Enqueue\<close> at position \<open>q\<close>.\<close>

definition facts_at :: "CPState \<Rightarrow> nat \<Rightarrow> nat \<times> nat \<Rightarrow> RegisterValueMap option" where
  "facts_at st s q = map_of (preds st s) q"

definition preds_ok :: "CPState \<Rightarrow> bool" where
  "preds_ok st \<longleftrightarrow> (\<forall>s. smap_ok (preds st s))"

text \<open>The facts known before each operation of a block.\<close>

definition vals_at :: "FlowProgram \<Rightarrow> RegisterValueMap \<Rightarrow> FlowBlock \<Rightarrow> nat \<Rightarrow> RegisterValueMap" where
  "vals_at p values block k = foldl (op_values p) values (take k block)"

lemma vals_at_simps [simp]:
  "vals_at p values block 0 = values"
  "vals_at p values (fo # fos) (Suc k) = vals_at p (op_values p values fo) fos k"
  by (simp_all add: vals_at_def)

lemma vals_at_Suc: "k < length block \<Longrightarrow> vals_at p values block (Suc k) = op_values p (vals_at p values block k) (block ! k)"
  by (simp add: vals_at_def take_Suc_conv_app_nth)

lemma PropagateToSuccessor_correct:
  assumes "fo_successor fo = Some s" "flow_op_ok p fo" "facts_at st s q = Some old" "smap_ok old"
    and "facts_le old (passed_facts fo values)" "preds_ok st"
  shows "\<exists>st'. PropagateToSuccessor q fo values st = Some st' \<and> preds_ok st' \<and>
    (\<forall>s' q'. facts_at st' s' q' = (if s' = s \<and> q' = q then Some (passed_facts fo values) else facts_at st s' q')) \<and>
    cp_work st' = cp_work st \<union> (if old = passed_facts fo values then {} else {s})"
proof -
  let ?new = "passed_facts fo values"
  have enq: "ValuesForSuccessor fo values = Some ?new"
    using assms(1,2) by (intro ValuesForSuccessor_eq) (simp add: flow_op_ok_def)
  obtain pm where pm: "map_of (cp_input st) s = Some pm" "preds st s = pm" "map_of pm q = Some old"
    using assms(3) by (auto simp: facts_at_def preds_def LookupWithDefault_def split: option.splits)
  show ?thesis
  proof (cases "old = ?new")
    case True
    then have "PropagateToSuccessor q fo values st = Some st"
      using assms(1) enq pm by (simp add: PropagateToSuccessor_def SafeLookup_def Equal_iff)
    then show ?thesis using True assms(3,6) by auto
  next
    case False
    let ?st = "st\<lparr>cp_input := map_insert s (map_insert q ?new pm) (cp_input st), cp_work := insert s (cp_work st)\<rparr>"
    have "PropagateToSuccessor q fo values st = Some ?st"
      using assms(1,4,5) enq pm False
      by (simp add: PropagateToSuccessor_def SafeLookup_def Equal_iff IsSuperSet_iff)
    moreover have "preds ?st s' = (if s' = s then map_insert q ?new pm else preds st s')" for s'
      by (simp add: preds_def LookupWithDefault_def)
    ultimately show ?thesis using False assms(6) pm by (auto simp: facts_at_def preds_ok_def)
  qed
qed

definition block_ready :: "FlowProgram \<Rightarrow> nat \<Rightarrow> nat \<Rightarrow> FlowBlock \<Rightarrow> RegisterValueMap \<Rightarrow> CPState \<Rightarrow> bool" where
  "block_ready p b k fos values st \<longleftrightarrow> (\<forall>j < length fos. let fo = fos ! j; known = vals_at p values fos j in
     flow_op_ok p fo \<and> renaming_ok p fo \<and> evaluable p known fo \<and> fresh_dst known fo \<and>
     (\<forall>s. fo_successor fo = Some s \<longrightarrow>
        (\<exists>old. facts_at st s (b, k + j) = Some old \<and> smap_ok old \<and> facts_le old (passed_facts fo known))))"

definition block_done ::
  "FlowProgram \<Rightarrow> nat \<Rightarrow> nat \<Rightarrow> FlowBlock \<Rightarrow> RegisterValueMap \<Rightarrow> CPState \<Rightarrow> FlowBlock \<Rightarrow> CPState \<Rightarrow> bool" where
  "block_done p b k fos values st fos' st' \<longleftrightarrow>
     length fos' = length fos \<and> (\<forall>j < length fos. rewritten p (vals_at p values fos j) (fos ! j) (fos' ! j)) \<and>
     (\<forall>s j. j < length fos \<longrightarrow> fo_successor (fos ! j) = Some s \<longrightarrow>
        facts_at st' s (b, k + j) = Some (passed_facts (fos ! j) (vals_at p values fos j))) \<and>
     (\<forall>s q. (\<forall>j < length fos. fo_successor (fos ! j) = Some s \<longrightarrow> q \<noteq> (b, k + j)) \<longrightarrow> facts_at st' s q = facts_at st s q) \<and>
     cp_work st' = cp_work st \<union> {s. \<exists>q. facts_at st' s q \<noteq> facts_at st s q}"

lemma block_done_Cons:
  assumes "block_done p b (Suc k) fos (op_values p values fo) st1 fos' st'" "rewritten p values fo fo'"
    and st1: "\<forall>s q. facts_at st1 s q = (if fo_successor fo = Some s \<and> q = (b, k) then Some (passed_facts fo values) else facts_at st s q)"
    and "cp_work st1 = cp_work st \<union> {s. \<exists>q. facts_at st1 s q \<noteq> facts_at st s q}"
  shows "block_done p b k (fo # fos) values st (fo' # fos') st'"
proof -
  from assms(1) have rest: "length fos' = length fos"
      "\<And>j. j < length fos \<Longrightarrow> rewritten p (vals_at p (op_values p values fo) fos j) (fos ! j) (fos' ! j)"
      "\<And>s j. j < length fos \<Longrightarrow> fo_successor (fos ! j) = Some s \<Longrightarrow>
        facts_at st' s (b, Suc k + j) = Some (passed_facts (fos ! j) (vals_at p (op_values p values fo) fos j))"
      "\<And>s q. (\<And>j. j < length fos \<Longrightarrow> fo_successor (fos ! j) = Some s \<Longrightarrow> q \<noteq> (b, Suc k + j)) \<Longrightarrow> facts_at st' s q = facts_at st1 s q"
      "cp_work st' = cp_work st1 \<union> {s. \<exists>q. facts_at st' s q \<noteq> facts_at st1 s q}"
    unfolding block_done_def by blast+
  have here: "facts_at st' s (b, k) = facts_at st1 s (b, k)" for s by (rule rest(4)) simp
  have change: "facts_at st' s q \<noteq> facts_at st s q \<longleftrightarrow> facts_at st' s q \<noteq> facts_at st1 s q \<or> facts_at st1 s q \<noteq> facts_at st s q" for s q
    using here[of s] by (cases "q = (b, k)") (simp_all add: st1[rule_format])
  have other: "facts_at st' s q = facts_at st s q"
    if *: "\<forall>j < length (fo # fos). fo_successor ((fo # fos) ! j) = Some s \<longrightarrow> q \<noteq> (b, k + j)" for s q
  proof -
    have "facts_at st' s q = facts_at st1 s q" using * by (intro rest(4)) (auto dest: spec[of _ "Suc _"])
    with spec[OF *, of 0] show ?thesis by (auto simp: st1[rule_format])
  qed
  show ?thesis
    unfolding block_done_def
  proof (intro conjI allI impI)
    fix j assume "j < length (fo # fos)"
    then show "rewritten p (vals_at p values (fo # fos) j) ((fo # fos) ! j) ((fo' # fos') ! j)"
      using rest(2) assms(2) by (cases j) auto
  next
    fix s j assume "j < length (fo # fos)" "fo_successor ((fo # fos) ! j) = Some s"
    then show "facts_at st' s (b, k + j) = Some (passed_facts ((fo # fos) ! j) (vals_at p values (fo # fos) j))"
      using rest(3) here st1 by (cases j) auto
  next
    show "cp_work st' = cp_work st \<union> {s. \<exists>q. facts_at st' s q \<noteq> facts_at st s q}"
      unfolding rest(5) assms(4) change by blast
  qed (use rest(1) other in simp_all)
qed

lemma ProcessOperations_correct:
  assumes "registers_ok p" "typed p values" "preds_ok st" "block_ready p b k fos values st"
  shows "\<exists>fos' st' c. ProcessOperations p b k fos values st = Some (fos', st', c) \<and> preds_ok st' \<and>
    block_done p b k fos values st fos' st'"
  using assms(2-4)
proof (induction fos arbitrary: k "values" st)
  case Nil
  then show ?case by (intro exI[of _ "[]"] exI[of _ st] exI[of _ False]) (simp add: block_done_def)
next
  case (Cons fo fos)
  from Cons.prems(3) have fo: "flow_op_ok p fo" "renaming_ok p fo" "evaluable p values fo" "fresh_dst values fo"
    and succ: "\<And>s. fo_successor fo = Some s \<Longrightarrow>
      \<exists>old. facts_at st s (b, k) = Some old \<and> smap_ok old \<and> facts_le old (passed_facts fo values)"
    by (auto simp: block_ready_def Let_def dest: spec[of _ 0])
  have "\<exists>st1. PropagateToSuccessor (b, k) fo values st = Some st1 \<and> preds_ok st1 \<and>
      (\<forall>s q. facts_at st1 s q = (if fo_successor fo = Some s \<and> q = (b, k) then Some (passed_facts fo values) else facts_at st s q)) \<and>
      cp_work st1 = cp_work st \<union> {s. \<exists>q. facts_at st1 s q \<noteq> facts_at st s q}"
  proof (cases "fo_successor fo")
    case None
    then show ?thesis using Cons.prems(2) by (simp add: PropagateToSuccessor_def)
  next
    case (Some s)
    from succ[OF this] obtain old where old: "facts_at st s (b, k) = Some old" "smap_ok old" "facts_le old (passed_facts fo values)"
      by blast
    from PropagateToSuccessor_correct[OF Some fo(1) old Cons.prems(2)] obtain st1 where
      st1: "PropagateToSuccessor (b, k) fo values st = Some st1" "preds_ok st1"
        "\<forall>s' q'. facts_at st1 s' q' = (if s' = s \<and> q' = (b, k) then Some (passed_facts fo values) else facts_at st s' q')"
        "cp_work st1 = cp_work st \<union> (if old = passed_facts fo values then {} else {s})" by blast
    have "{s'. \<exists>q. facts_at st1 s' q \<noteq> facts_at st s' q} = (if old = passed_facts fo values then {} else {s})"
      using st1(3) old(1) by auto
    with st1 Some show ?thesis by (intro exI[of _ st1]) auto
  qed
  then obtain st1 where st1: "PropagateToSuccessor (b, k) fo values st = Some st1" "preds_ok st1"
      "\<forall>s q. facts_at st1 s q = (if fo_successor fo = Some s \<and> q = (b, k) then Some (passed_facts fo values) else facts_at st s q)"
      "cp_work st1 = cp_work st \<union> {s. \<exists>q. facts_at st1 s q \<noteq> facts_at st s q}" by blast
  obtain fo' c where fo': "rewrite_operation p values fo = Some (fo', op_values p values fo, c)" "rewritten p values fo fo'"
    using rewrite_operation_correct[OF Cons.prems(1) assms(1) fo(1-3)] by blast
  have step: "ProcessOperation p (b, k) fo values st = Some (fo', op_values p values fo, st1, c)"
    using st1(1) fo(4) fo'(1) by (simp add: ProcessOperation_eq)
  have "block_ready p b (Suc k) fos (op_values p values fo) st1"
    unfolding block_ready_def
  proof (intro allI impI)
    fix j assume "j < length fos"
    then have j: "Suc j < length (fo # fos)" by simp
    show "let fo' = fos ! j; known = vals_at p (op_values p values fo) fos j in
      flow_op_ok p fo' \<and> renaming_ok p fo' \<and> evaluable p known fo' \<and> fresh_dst known fo' \<and>
      (\<forall>s. fo_successor fo' = Some s \<longrightarrow>
        (\<exists>old. facts_at st1 s (b, Suc k + j) = Some old \<and> smap_ok old \<and> facts_le old (passed_facts fo' known)))"
      using Cons.prems(3)[unfolded block_ready_def, rule_format, OF j] st1(3)
      by (simp add: Let_def)
  qed
  from Cons.IH[OF op_values_typed[OF Cons.prems(1) assms(1) fo(1)] st1(2) this] obtain fos' st' c' where
    rest: "ProcessOperations p b (Suc k) fos (op_values p values fo) st1 = Some (fos', st', c')" "preds_ok st'"
      "block_done p b (Suc k) fos (op_values p values fo) st1 fos' st'" by blast
  have "block_done p b k (fo # fos) values st (fo' # fos') st'"
    by (rule block_done_Cons[OF rest(3) fo'(2) st1(3,4)])
  with step rest(1,2) show ?case by auto
qed

subsection \<open>Facts only grow\<close>

lemma op_values_mono:
  assumes "rewritten p a fo fo'" "fresh_dst a fo" "facts_le a b"
  shows "facts_le (op_values p a fo) (op_values p b fo')"
proof (cases "fold_value p a (fo_op fo)")
  case None
  have "map_of a r = None" if "op_dst (fo_op fo') = [DstRegister r]" for r
  proof -
    have "op_dst (fo_op fo) = [DstRegister r]" using assms(1) that by (simp add: rewritten_def)
    then show ?thesis using assms(2) by (simp add: fresh_dst_def)
  qed
  then show ?thesis
    using None assms(3)
    by (auto simp: op_values_def facts_le_def split: option.splits list.splits DestinationOperand.splits)
next
  case (Some l)
  moreover have "fold_value p b (fo_op fo') = Some l" "op_dst (fo_op fo') = op_dst (fo_op fo)"
    using assms(1) Some by (simp_all add: rewritten_def)
  ultimately show ?thesis
    using assms(3) by (auto simp: op_values_def facts_le_def split: list.splits DestinationOperand.splits)
qed

lemma vals_at_mono:
  assumes "length block' = length block" "facts_le a b" "k \<le> length block"
    and "\<And>j. j < length block \<Longrightarrow> rewritten p (vals_at p a block j) (block ! j) (block' ! j) \<and> fresh_dst (vals_at p a block j) (block ! j)"
  shows "facts_le (vals_at p a block k) (vals_at p b block' k)"
  using assms(3)
proof (induction k)
  case (Suc k)
  then show ?case using op_values_mono[of p _ "block ! k" "block' ! k"] assms(4)[of k] assms(1) by (simp add: vals_at_Suc)
qed (simp add: assms(2))

lemma vals_at_typed:
  assumes "typed p values" "registers_ok p" "\<And>j. j < length block \<Longrightarrow> flow_op_ok p (block ! j)" "k \<le> length block"
  shows "typed p (vals_at p values block k)"
  using assms(4) by (induction k) (simp_all add: assms vals_at_Suc op_values_typed)

lemma op_values_dom:
  "map_of (op_values p values fo) r \<noteq> None \<Longrightarrow> map_of values r \<noteq> None \<or> DstRegister r \<in> set (op_dst (fo_op fo))"
  by (auto simp: op_values_def split: option.splits list.splits DestinationOperand.splits if_splits)

lemma vals_at_dom:
  assumes "map_of (vals_at p values block k) r \<noteq> None" "k \<le> length block"
  shows "map_of values r \<noteq> None \<or> (\<exists>j < k. DstRegister r \<in> set (op_dst (fo_op (block ! j))))"
  using assms
proof (induction k)
  case (Suc k)
  then show ?case using op_values_dom[of p "vals_at p values block k" "block ! k" r] by (auto simp: vals_at_Suc less_Suc_eq)
qed simp

lemma evaluable_rewritten:
  assumes "rewritten p a fo fo'" "evaluable p a fo" "facts_le a b"
  shows "evaluable p b fo'"
  using assms holds_le[OF assms(3)] unfolding evaluable_def rewritten_def by metis

lemma passed_facts_rewritten:
  assumes "rewritten p a fo fo'" "fo_successor fo \<noteq> None"
  shows "passed_facts fo' values = passed_facts fo values"
proof -
  have "fo' = fo\<lparr>fo_op := fo_op fo'\<rparr>" using assms by (simp add: rewritten_def)
  then have "fo_renamingTable fo' = fo_renamingTable fo" "fo_reverseRenamingTable fo' = fo_reverseRenamingTable fo"
    by (metis FlowOperation.select_convs(4,5) FlowOperation.surjective FlowOperation.update_convs(1))+
  then show ?thesis by (simp add: passed_facts_def)
qed

subsection \<open>Facts at the start of a block\<close>

definition entry :: "nat \<Rightarrow> CPState \<Rightarrow> nat \<Rightarrow> RegisterValueMap" where
  "entry start st b = EntryValues (b = start) (preds st b)"

definition facts_ok :: "FlowProgram \<Rightarrow> CPState \<Rightarrow> bool" where
  "facts_ok p st \<longleftrightarrow> preds_ok st \<and> (\<forall>s q v. facts_at st s q = Some v \<longrightarrow> typed p v)"

lemma facts_okD: "facts_ok p st \<Longrightarrow> facts_at st s q = Some v \<Longrightarrow> typed p v"
  unfolding facts_ok_def by blast

lemma typed_smap: "typed p values \<Longrightarrow> smap_ok values"
  by (simp add: typed_def)

lemma smap_ok_filter: "smap_ok m \<Longrightarrow> smap_ok (filter P m)"
  by (induction m) (auto simp: smap_ok_def)

lemma entry_iff:
  assumes "facts_ok p st"
  shows "map_of (entry start st b) r = Some l \<longleftrightarrow>
    b \<noteq> start \<and> (\<exists>q. facts_at st b q \<noteq> None) \<and> (\<forall>q v. facts_at st b q = Some v \<longrightarrow> map_of v r = Some l)"
proof (cases "preds st b = [] \<or> b = start")
  case True
  then show ?thesis by (auto simp: entry_def EntryValues_def facts_at_def)
next
  case False
  then obtain q0 v0 pm where pm: "preds st b = (q0, v0) # pm" by (cases "preds st b") auto
  have ok: "smap_ok (preds st b)" using assms by (simp add: facts_ok_def preds_ok_def)
  have at: "facts_at st b q = Some v \<longleftrightarrow> (q, v) \<in> set (preds st b)" for q v
    by (simp add: facts_at_def smap_map_of_iff[OF ok])
  then have v0: "facts_at st b q0 = Some v0" by (simp add: pm)
  then have "smap_ok v0" by (rule typed_smap[OF facts_okD[OF assms]])
  then have "map_of (entry start st b) r = Some l \<longleftrightarrow> (r, l) \<in> set v0 \<and> (\<forall>(q, v) \<in> set (preds st b). map_of v r = Some l)"
    using False pm by (auto simp: entry_def EntryValues_def smap_map_of_iff smap_ok_filter list_all_iff)
  also have "\<dots> \<longleftrightarrow> (\<forall>q v. facts_at st b q = Some v \<longrightarrow> map_of v r = Some l)"
    using v0 smap_map_of_iff[OF \<open>smap_ok v0\<close>] at by blast
  finally show ?thesis using False v0 by blast
qed

lemma entry_typed:
  assumes "facts_ok p st"
  shows "typed p (entry start st b)"
proof -
  have "smap_ok (entry start st b)"
  proof (cases "preds st b")
    case (Cons x pm)
    then have "facts_at st b (fst x) = Some (snd x)" by (cases x) (simp add: facts_at_def)
    then have "smap_ok (snd x)" by (rule typed_smap[OF facts_okD[OF assms]])
    then show ?thesis by (simp add: entry_def EntryValues_def Cons smap_ok_filter)
  qed (simp add: entry_def EntryValues_def)
  moreover have "is_local p r \<and> lit_ok l \<and> l_width l = reg_width (fp_registerTable p) r"
    if "map_of (entry start st b) r = Some l" for r l
  proof -
    obtain q v where "facts_at st b q = Some v" "map_of v r = Some l" using \<open>map_of _ r = Some l\<close> entry_iff[OF assms] by blast
    then show ?thesis using facts_okD[OF assms] by (auto simp: typed_def)
  qed
  ultimately show ?thesis by (simp add: typed_def)
qed

definition grows :: "CPState \<Rightarrow> CPState \<Rightarrow> bool" where
  "grows st st' \<longleftrightarrow> (\<forall>s q. (facts_at st' s q = None) = (facts_at st s q = None)) \<and>
     (\<forall>s q v v'. facts_at st s q = Some v \<longrightarrow> facts_at st' s q = Some v' \<longrightarrow> facts_le v v')"

lemma entry_mono:
  assumes "facts_ok p st" "facts_ok p st'" "grows st st'"
  shows "facts_le (entry start st b) (entry start st' b)"
  unfolding facts_le_def entry_iff[OF assms(1)] entry_iff[OF assms(2)]
proof (intro allI impI)
  fix r l
  assume old: "b \<noteq> start \<and> (\<exists>q. facts_at st b q \<noteq> None) \<and> (\<forall>q v. facts_at st b q = Some v \<longrightarrow> map_of v r = Some l)"
  have "map_of v' r = Some l" if v': "facts_at st' b q = Some v'" for q v'
  proof -
    obtain v where v: "facts_at st b q = Some v" using assms(3) v' unfolding grows_def by (metis not_None_eq)
    then have "facts_le v v'" using assms(3) v' unfolding grows_def by blast
    then show ?thesis using old v unfolding facts_le_def by blast
  qed
  with old assms(3) show "b \<noteq> start \<and> (\<exists>q. facts_at st' b q \<noteq> None) \<and> (\<forall>q v. facts_at st' b q = Some v \<longrightarrow> map_of v r = Some l)"
    unfolding grows_def by metis
qed

subsection \<open>Renamed registers\<close>

definition is_pos :: "FlowBlock list \<Rightarrow> nat \<Rightarrow> nat \<Rightarrow> bool" where
  "is_pos blocks b k \<longleftrightarrow> b < length blocks \<and> k < length (blocks ! b)"

definition edge :: "FlowBlock list \<Rightarrow> nat \<Rightarrow> nat \<Rightarrow> bool" where
  "edge blocks b s \<longleftrightarrow> (\<exists>k. is_pos blocks b k \<and> fo_successor (blocks ! b ! k) = Some s)"

definition writes :: "FlowBlock list \<Rightarrow> nat \<Rightarrow> nat \<Rightarrow> nat \<Rightarrow> bool" where
  "writes blocks b k r \<longleftrightarrow> is_pos blocks b k \<and> DstRegister r \<in> set (op_dst (fo_op (blocks ! b ! k)))"

text \<open>What renaming of registers establishes: a local register is written by one operation, an
  original register by none, and every block can be reached from the first.\<close>

definition renamed_ok :: "FlowProgram \<Rightarrow> nat \<Rightarrow> FlowBlock list \<Rightarrow> bool" where
  "renamed_ok p start blocks \<longleftrightarrow>
     (\<forall>b k b' k' r. is_local p r \<longrightarrow> writes blocks b k r \<longrightarrow> writes blocks b' k' r \<longrightarrow> b = b' \<and> k = k') \<and>
     (\<forall>b k x y b' k'. is_pos blocks b k \<longrightarrow> fo_successor (blocks ! b ! k) \<noteq> None \<longrightarrow> (x, y) \<in> set (fo_reverseRenamingTable (blocks ! b ! k)) \<longrightarrow> \<not> writes blocks b' k' y) \<and>
     (\<forall>b < length blocks. (edge blocks)\<^sup>*\<^sup>* start b)"

text \<open>Block \<open>b\<close> can be reached without entering \<open>b0\<close>.\<close>

inductive avoids :: "nat \<Rightarrow> FlowBlock list \<Rightarrow> nat \<Rightarrow> nat \<Rightarrow> bool" for start blocks b0
where
  avoids_start: "start \<noteq> b0 \<Longrightarrow> avoids start blocks b0 start"
| avoids_edge: "avoids start blocks b0 b \<Longrightarrow> edge blocks b s \<Longrightarrow> s \<noteq> b0 \<Longrightarrow> avoids start blocks b0 s"

lemma avoids_neq: "avoids start blocks b0 b \<Longrightarrow> b \<noteq> b0"
  by (induction rule: avoids.induct) auto

lemma first_visit:
  assumes "(edge blocks)\<^sup>*\<^sup>* start b"
  shows "avoids start blocks b0 b \<or> start = b0 \<or> (\<exists>b'. avoids start blocks b0 b' \<and> edge blocks b' b0)"
  using assms
proof (induction rule: rtranclp_induct)
  case base
  then show ?case using avoids_start by auto
next
  case (step b s)
  then show ?case using avoids_edge[of start blocks b0 b s] by auto
qed

subsection \<open>The invariant\<close>

definition at_pos :: "FlowProgram \<Rightarrow> nat \<Rightarrow> FlowBlock list \<Rightarrow> nat \<Rightarrow> nat \<Rightarrow> (nat \<Rightarrow> int) \<Rightarrow> bool" where
  "at_pos p start blocks b k e \<longleftrightarrow> (\<exists>env. reach p start blocks b env \<and> after p (blocks ! b) k env e)"

text \<open>An operation that may replace another in the states \<open>S\<close>.\<close>

definition op_keeps :: "FlowProgram \<Rightarrow> ((nat \<Rightarrow> int) \<Rightarrow> bool) \<Rightarrow> FlowOperation \<Rightarrow> FlowOperation \<Rightarrow> bool" where
  "op_keeps p S fo0 fo \<longleftrightarrow>
     flow_op_ok p fo \<and> renaming_ok p fo \<and> op_dst (fo_op fo) = op_dst (fo_op fo0) \<and> fo_successor fo = fo_successor fo0 \<and>
     (fo_successor fo0 \<noteq> None \<longrightarrow> fo = fo0\<lparr>fo_op := fo_op fo\<rparr>) \<and>
     (\<forall>e. S e \<longrightarrow> (\<forall>e'. flow_step p fo e e' = flow_step p fo0 e e') \<and>
        (fo_successor fo0 \<noteq> None \<longrightarrow> enabled fo e = enabled fo0 e))"

lemma flow_step_rewritten:
  assumes "rewritten p values fo fo'" "flow_env p e" "holds values e"
  shows "flow_step p fo' e e' = flow_step p fo e e'"
proof -
  have "op_dst (fo_op fo') = op_dst (fo_op fo)"
      "eval_operation (fp_registerTable p) e (fo_op fo') = eval_operation (fp_registerTable p) e (fo_op fo)"
    using assms by (simp_all add: rewritten_def)
  then show ?thesis by (simp add: flow_step_def)
qed

lemma op_keeps_rewritten:
  assumes "op_keeps p S fo0 fo" "rewritten p values fo fo'" "\<And>e. S e \<Longrightarrow> flow_env p e \<and> holds values e"
  shows "op_keeps p S fo0 fo'"
proof -
  have keep: "op_dst (fo_op fo) = op_dst (fo_op fo0)" "fo_successor fo = fo_successor fo0"
      "fo_successor fo0 \<noteq> None \<longrightarrow> fo = fo0\<lparr>fo_op := fo_op fo\<rparr>"
      "\<And>e e'. S e \<Longrightarrow> flow_step p fo e e' = flow_step p fo0 e e'"
      "\<And>e. S e \<Longrightarrow> fo_successor fo0 \<noteq> None \<longrightarrow> enabled fo e = enabled fo0 e"
    using assms(1) unfolding op_keeps_def by blast+
  have rw: "flow_op_ok p fo'" "renaming_ok p fo'" "op_dst (fo_op fo') = op_dst (fo_op fo)" "fo_successor fo' = fo_successor fo"
      "fo_successor fo \<noteq> None \<longrightarrow> fo' = fo\<lparr>fo_op := fo_op fo'\<rparr>"
      "\<And>e. S e \<Longrightarrow> fo_successor fo \<noteq> None \<longrightarrow> enabled fo' e = enabled fo e"
    using assms(2,3) unfolding rewritten_def by blast+
  have "fo_successor fo0 \<noteq> None \<longrightarrow> fo' = fo0\<lparr>fo_op := fo_op fo'\<rparr>"
    using keep(2,3) rw(5) by (metis FlowOperation.fold_congs(1) FlowOperation.surjective FlowOperation.update_convs(1))
  then show ?thesis
    unfolding op_keeps_def using keep rw flow_step_rewritten[OF assms(2)] assms(3) by metis
qed

definition blocks_inv :: "FlowProgram \<Rightarrow> nat \<Rightarrow> FlowBlock list \<Rightarrow> FlowBlock list \<Rightarrow> bool" where
  "blocks_inv p start B0 B \<longleftrightarrow> length B = length B0 \<and> (\<forall>b < length B0. length (B ! b) = length (B0 ! b)) \<and>
     (\<forall>b k. is_pos B0 b k \<longrightarrow> op_keeps p (at_pos p start B0 b k) (B0 ! b ! k) (B ! b ! k))"

definition facts_inv :: "FlowProgram \<Rightarrow> nat \<Rightarrow> FlowBlock list \<Rightarrow> CPState \<Rightarrow> bool" where
  "facts_inv p start B0 st \<longleftrightarrow> facts_ok p st \<and>
     (\<forall>s b k. facts_at st s (b, k) \<noteq> None \<longleftrightarrow> is_pos B0 b k \<and> fo_successor (B0 ! b ! k) = Some s) \<and>
     (\<forall>s b k v r b0 k0. facts_at st s (b, k) = Some v \<longrightarrow> map_of v r \<noteq> None \<longrightarrow> writes B0 b0 k0 r \<longrightarrow> \<not> avoids start B0 b0 b) \<and>
     (\<forall>s b k v e env. facts_at st s (b, k) = Some v \<longrightarrow> at_pos p start B0 b k e \<longrightarrow> enabled (B0 ! b ! k) e \<longrightarrow>
        passes p (B0 ! b ! k) e env \<longrightarrow> holds v env)"

definition growth :: "FlowProgram \<Rightarrow> nat \<Rightarrow> FlowBlock list \<Rightarrow> CPState \<Rightarrow> bool" where
  "growth p start B st \<longleftrightarrow> (\<forall>b k known. is_pos B b k \<longrightarrow> typed p known \<longrightarrow> facts_le (entry start st b) known \<longrightarrow>
     evaluable p (vals_at p known (B ! b) k) (B ! b ! k) \<and>
     (\<forall>s v. fo_successor (B ! b ! k) = Some s \<longrightarrow> facts_at st s (b, k) = Some v \<longrightarrow>
        facts_le v (passed_facts (B ! b ! k) (vals_at p known (B ! b) k))))"

lemma entry_written:
  assumes "facts_inv p start B0 st" "renamed_ok p start B0" "b < length B0"
    and "map_of (entry start st b) r \<noteq> None" "writes B0 b0 k0 r"
  shows "b0 \<noteq> b \<and> \<not> avoids start B0 b0 b"
proof -
  have ok: "facts_ok p st" using assms(1) by (simp add: facts_inv_def)
  obtain l where l: "map_of (entry start st b) r = Some l" using assms(4) by blast
  have neq: "b \<noteq> start" using l entry_iff[OF ok] by blast
  have pred: "\<not> avoids start B0 b0 b'" if "edge B0 b' b" for b'
  proof -
    obtain k where "is_pos B0 b' k" "fo_successor (B0 ! b' ! k) = Some b" using \<open>edge B0 b' b\<close> by (auto simp: edge_def)
    then obtain v where v: "facts_at st b (b', k) = Some v" using assms(1) unfolding facts_inv_def by blast
    then have "map_of v r \<noteq> None" using l entry_iff[OF ok] by blast
    then show ?thesis using assms(1,5) v unfolding facts_inv_def by blast
  qed
  have no: "\<not> avoids start B0 b0 b"
    using pred neq by (metis avoids.cases)
  have "(edge B0)\<^sup>*\<^sup>* start b" using assms(2,3) by (simp add: renamed_ok_def)
  from first_visit[OF this, of b] have "b0 \<noteq> b" using pred neq avoids_neq by metis
  with no show ?thesis by blast
qed

lemma entry_holds:
  assumes "facts_inv p start B0 st" "reach p start B0 b env"
  shows "holds (entry start st b) env"
  using assms(2)
proof cases
  case reach_start
  then show ?thesis by (simp add: holds_def entry_def EntryValues_def)
next
  case (reach_enqueue b' env' k e)
  then have "at_pos p start B0 b' k e" "is_pos B0 b' k" by (auto simp: at_pos_def is_pos_def)
  moreover from this obtain v where v: "facts_at st b (b', k) = Some v"
    using assms(1) reach_enqueue unfolding facts_inv_def by blast
  ultimately have "holds v env" using assms(1) reach_enqueue unfolding facts_inv_def by blast
  moreover have "facts_le (entry start st b) v"
    using v assms(1) entry_iff[of p st start b] unfolding facts_inv_def facts_le_def by blast
  ultimately show ?thesis by (metis holds_le)
qed

subsection \<open>Processing a block keeps the invariant\<close>

lemma blocks_invD:
  assumes "blocks_inv p start B0 B"
  shows "length B = length B0" "is_pos B b k = is_pos B0 b k"
    and "is_pos B0 b k \<Longrightarrow> op_keeps p (at_pos p start B0 b k) (B0 ! b ! k) (B ! b ! k)"
    and "writes B b k r = writes B0 b k r"
  using assms by (auto simp: blocks_inv_def is_pos_def writes_def op_keeps_def)

lemma known_written:
  assumes "facts_inv p start B0 st" "blocks_inv p start B0 B" "renamed_ok p start B0" "registers_ok p" "b < length B0" "k \<le> length (B ! b)"
    and "map_of (vals_at p (entry start st b) (B ! b) k) r \<noteq> None" "writes B0 b0 k0 r"
  shows "(b0 \<noteq> b \<and> \<not> avoids start B0 b0 b) \<or> (b0 = b \<and> k0 < k)"
proof -
  have ok: "flow_op_ok p (B ! b ! j)" if "j < length (B ! b)" for j
    using blocks_invD(2,3)[OF assms(2), of b j] that assms(5) blocks_invD(1)[OF assms(2)] by (auto simp: is_pos_def op_keeps_def)
  have "typed p (vals_at p (entry start st b) (B ! b) k)"
    using assms(1,4,6) ok by (intro vals_at_typed entry_typed) (auto simp: facts_inv_def)
  then have loc: "is_local p r" using assms(7) by (auto simp: typed_def)
  from vals_at_dom[OF assms(7,6)] show ?thesis
  proof
    assume "map_of (entry start st b) r \<noteq> None"
    then show ?thesis using entry_written[OF assms(1,3,5) _ assms(8)] by blast
  next
    assume "\<exists>j<k. DstRegister r \<in> set (op_dst (fo_op (B ! b ! j)))"
    then obtain j where j: "j < k" "DstRegister r \<in> set (op_dst (fo_op (B ! b ! j)))" by blast
    then have "writes B b j r" using assms(5,6) blocks_invD(1)[OF assms(2)] by (simp add: writes_def is_pos_def)
    then have j0: "writes B0 b j r" by (simp add: blocks_invD(4)[OF assms(2)])
    then have "b0 = b \<and> k0 = j" using assms(3,8) loc j0 unfolding renamed_ok_def by metis
    with j(1) show ?thesis by simp
  qed
qed

lemma known_fresh:
  assumes "facts_inv p start B0 st" "blocks_inv p start B0 B" "renamed_ok p start B0" "registers_ok p" "is_pos B0 b k"
  shows "fresh_dst (vals_at p (entry start st b) (B ! b) k) (B ! b ! k)"
proof -
  have "is_pos B b k" using assms(5) by (simp add: blocks_invD(2)[OF assms(2)])
  then have pos: "b < length B0" "k \<le> length (B ! b)" "is_pos B b k"
    using assms(5) by (auto simp: is_pos_def)
  have "map_of (vals_at p (entry start st b) (B ! b) k) r = None" if "DstRegister r \<in> set (op_dst (fo_op (B ! b ! k)))" for r
  proof (rule ccontr)
    assume *: "map_of (vals_at p (entry start st b) (B ! b) k) r \<noteq> None"
    have "writes B0 b k r" using that pos(3) blocks_invD(4)[OF assms(2)] by (auto simp: writes_def)
    with known_written[OF assms(1-4) pos(1,2) *] show False by blast
  qed
  then show ?thesis by (auto simp: fresh_dst_def list_all_iff split: DestinationOperand.splits)
qed

lemma reach_env: "reach p start blocks b env \<Longrightarrow> flow_env p env"
  by (induction rule: reach.induct) (auto simp: passes_def)

lemma known_hold:
  assumes "facts_inv p start B0 st" "blocks_inv p start B0 B" "renamed_ok p start B0" "registers_ok p" "b < length B0" "k \<le> length (B0 ! b)"
    and "at_pos p start B0 b k e"
  shows "flow_env p e \<and> holds (vals_at p (entry start st b) (B ! b) k) e"
  using assms(6,7)
proof (induction k arbitrary: e)
  case 0
  then show ?case using entry_holds[OF assms(1)] reach_env by (auto simp: at_pos_def)
next
  case (Suc k)
  then obtain env e1 where e1: "reach p start B0 b env" "after p (B0 ! b) k env e1" "flow_step p (B0 ! b ! k) e1 e"
    by (auto simp: at_pos_def)
  then have at: "at_pos p start B0 b k e1" by (auto simp: at_pos_def)
  have pos: "is_pos B0 b k" using assms(5) Suc.prems by (simp add: is_pos_def)
  note keeps = blocks_invD(3)[OF assms(2) pos]
  have len: "k < length (B ! b)" using pos blocks_invD(2)[OF assms(2), of b k] by (simp add: is_pos_def)
  have ok: "flow_op_ok p (B ! b ! j)" if "j < length (B ! b)" for j
    using blocks_invD(2,3)[OF assms(2), of b j] that assms(5) blocks_invD(1)[OF assms(2)] by (auto simp: is_pos_def op_keeps_def)
  have step: "flow_step p (B ! b ! k) e1 e" using keeps at e1(3) by (simp add: op_keeps_def)
  have "typed p (vals_at p (entry start st b) (B ! b) k)"
    using assms(1,4) len ok by (intro vals_at_typed entry_typed) (auto simp: facts_inv_def)
  moreover have "flow_env p e1 \<and> holds (vals_at p (entry start st b) (B ! b) k) e1" using Suc at by simp
  ultimately have "holds (op_values p (vals_at p (entry start st b) (B ! b) k) (B ! b ! k)) e"
    using op_values_hold[OF _ assms(4) ok[OF len] known_fresh[OF assms(1-4) pos] _ _ step] by blast
  then show ?case using len step by (simp add: vals_at_Suc flow_step_def)
qed

lemma block_is_ready:
  assumes "facts_inv p start B0 st" "blocks_inv p start B0 B" "renamed_ok p start B0" "registers_ok p" "growth p start B st" "b < length B0"
  shows "block_ready p b 0 (B ! b) (entry start st b) st"
  unfolding block_ready_def Let_def
proof (intro allI impI)
  fix k assume k: "k < length (B ! b)"
  let ?known = "vals_at p (entry start st b) (B ! b) k"
  have pos: "is_pos B b k" "is_pos B0 b k" using k assms(6) blocks_invD(1,2)[OF assms(2)] by (auto simp: is_pos_def)
  have keeps: "flow_op_ok p (B ! b ! k)" "renaming_ok p (B ! b ! k)" "fo_successor (B ! b ! k) = fo_successor (B0 ! b ! k)"
    using blocks_invD(3)[OF assms(2) pos(2)] unfolding op_keeps_def by blast+
  have typed: "typed p (entry start st b)" using assms(1) by (intro entry_typed) (simp add: facts_inv_def)
  have grow: "evaluable p ?known (B ! b ! k)" "\<And>s v. fo_successor (B ! b ! k) = Some s \<Longrightarrow> facts_at st s (b, k) = Some v \<Longrightarrow>
      facts_le v (passed_facts (B ! b ! k) ?known)"
    using assms(5) pos(1) typed unfolding growth_def by (blast intro: facts_le_refl)+
  have "\<exists>old. facts_at st s (b, 0 + k) = Some old \<and> smap_ok old \<and> facts_le old (passed_facts (B ! b ! k) ?known)"
    if s: "fo_successor (B ! b ! k) = Some s" for s
  proof -
    obtain old where old: "facts_at st s (b, k) = Some old"
      using assms(1) pos(2) s keeps(3) unfolding facts_inv_def by (metis not_None_eq)
    have "facts_ok p st" using assms(1) by (simp add: facts_inv_def)
    with old grow(2)[OF s old] show ?thesis by (auto dest: facts_okD simp: typed_def)
  qed
  then show "flow_op_ok p (B ! b ! k) \<and> renaming_ok p (B ! b ! k) \<and> evaluable p ?known (B ! b ! k) \<and> fresh_dst ?known (B ! b ! k) \<and>
      (\<forall>s. fo_successor (B ! b ! k) = Some s \<longrightarrow>
        (\<exists>old. facts_at st s (b, 0 + k) = Some old \<and> smap_ok old \<and> facts_le old (passed_facts (B ! b ! k) ?known)))"
    using keeps grow(1) known_fresh[OF assms(1-4) pos(2)] by blast
qed

lemma op_keeps_tables:
  assumes "op_keeps p S fo0 fo" "fo_successor fo0 \<noteq> None"
  shows "fo_renamingTable fo = fo_renamingTable fo0" "fo_reverseRenamingTable fo = fo_reverseRenamingTable fo0"
proof -
  have "fo = fo0\<lparr>fo_op := fo_op fo\<rparr>" using assms by (simp add: op_keeps_def)
  then show "fo_renamingTable fo = fo_renamingTable fo0" "fo_reverseRenamingTable fo = fo_reverseRenamingTable fo0"
    by (metis FlowOperation.select_convs(4,5) FlowOperation.surjective FlowOperation.update_convs(1))+
qed

text \<open>The facts a block passes on after its analysis.\<close>

lemma passed_sound:
  assumes inv: "facts_inv p start B0 st" "blocks_inv p start B0 B" "renamed_ok p start B0" "registers_ok p"
    and pos: "is_pos B0 b k" and succ: "fo_successor (B0 ! b ! k) = Some s"
  defines "v \<equiv> passed_facts (B ! b ! k) (vals_at p (entry start st b) (B ! b) k)"
  shows "typed p v"
    and "map_of v r \<noteq> None \<Longrightarrow> writes B0 b0 k0 r \<Longrightarrow> \<not> avoids start B0 b0 b"
    and "at_pos p start B0 b k e \<Longrightarrow> passes p (B0 ! b ! k) e env \<Longrightarrow> holds v env"
proof -
  let ?known = "vals_at p (entry start st b) (B ! b) k"
  have len: "b < length B0" "k < length (B0 ! b)" "k < length (B ! b)" "b < length B"
    using pos blocks_invD(2)[OF inv(2), of b k] by (auto simp: is_pos_def)
  note keeps = blocks_invD(3)[OF inv(2) pos]
  have tables: "fo_renamingTable (B ! b ! k) = fo_renamingTable (B0 ! b ! k)"
      "fo_reverseRenamingTable (B ! b ! k) = fo_reverseRenamingTable (B0 ! b ! k)"
    using op_keeps_tables[OF keeps] succ by simp_all
  have ok: "flow_op_ok p (B ! b ! j)" if "j < length (B ! b)" for j
    using blocks_invD(2,3)[OF inv(2), of b j] that len by (auto simp: is_pos_def op_keeps_def)
  have ren: "renaming_ok p (B ! b ! k)" using keeps by (simp add: op_keeps_def)
  have known: "typed p ?known"
    using inv(1,4) len ok by (intro vals_at_typed entry_typed) (auto simp: facts_inv_def)
  show "typed p v" unfolding v_def by (rule passed_facts_typed[OF known ren])
  show "\<not> avoids start B0 b0 b" if r: "map_of v r \<noteq> None" and w: "writes B0 b0 k0 r"
  proof -
    obtain l where "map_of v r = Some l" using r by blast
    then obtain r1 where "map_of ?known r1 = Some l" "r = OptionallyMapIndex r1 (fo_reverseRenamingTable (B ! b ! k))"
      unfolding v_def passed_facts_iff[OF ren typed_smap[OF known]] by blast
    then have r1: "map_of ?known r1 \<noteq> None" "r = OptionallyMapIndex r1 (fo_reverseRenamingTable (B0 ! b ! k))"
      using tables by simp_all
    have "r = r1"
    proof (cases "map_of (fo_reverseRenamingTable (B0 ! b ! k)) r1")
      case (Some x)
      then have "(r1, r) \<in> set (fo_reverseRenamingTable (B0 ! b ! k))" using r1(2) by (simp add: OptionallyMapIndex_def map_of_SomeD)
      moreover have "fo_successor (B0 ! b ! k) \<noteq> None" using succ by simp
      ultimately show ?thesis using inv(3) pos w unfolding renamed_ok_def by blast
    qed (use r1 in \<open>simp add: OptionallyMapIndex_def\<close>)
    then show ?thesis
      using known_written[OF inv len(1) _ _ w, of k] r1(1) len(3) avoids_neq[of start B0 b0 b] by auto
  qed
  show "holds v env" if "at_pos p start B0 b k e" "passes p (B0 ! b ! k) e env"
  proof -
    have "passes p (B ! b ! k) e env" using that(2) tables by (simp add: passes_def)
    moreover have "holds ?known e" using known_hold[OF inv len(1) _ that(1)] len(2) by simp
    ultimately show ?thesis unfolding v_def by (intro passed_facts_hold[OF known ren])
  qed
qed

lemma block_done_facts:
  assumes "block_done p b 0 fos known st fos' st'"
  shows "facts_at st' s q = (if \<exists>k. q = (b, k) \<and> k < length fos \<and> fo_successor (fos ! k) = Some s
      then Some (passed_facts (fos ! snd q) (vals_at p known fos (snd q))) else facts_at st s q)"
proof (cases "\<exists>k. q = (b, k) \<and> k < length fos \<and> fo_successor (fos ! k) = Some s")
  case True
  then show ?thesis using assms by (auto simp: block_done_def)
next
  case False
  then have "\<forall>j < length fos. fo_successor (fos ! j) = Some s \<longrightarrow> q \<noteq> (b, 0 + j)" by auto
  then have "facts_at st' s q = facts_at st s q" using assms unfolding block_done_def by blast
  with False show ?thesis by metis
qed

lemma block_done_facts_inv:
  assumes inv: "facts_inv p start B0 st" "blocks_inv p start B0 B" "renamed_ok p start B0" "registers_ok p"
    and b: "b < length B0" and don: "block_done p b 0 (B ! b) (entry start st b) st fos' st'" "preds_ok st'"
  shows "facts_inv p start B0 st'"
proof -
  have succ: "(k < length (B ! b) \<and> fo_successor (B ! b ! k) = Some s) = (is_pos B0 b k \<and> fo_successor (B0 ! b ! k) = Some s)" for k s
    using blocks_invD(2,3)[OF inv(2), of b k] b blocks_invD(1)[OF inv(2)] by (auto simp: is_pos_def op_keeps_def)
  have new: "facts_at st s q = Some v \<or> (\<exists>k. q = (b, k) \<and> is_pos B0 b k \<and> fo_successor (B0 ! b ! k) = Some s \<and>
      v = passed_facts (B ! b ! k) (vals_at p (entry start st b) (B ! b) k))" if "facts_at st' s q = Some v" for s q v
    using that block_done_facts[OF don(1), of s q] by (auto simp: succ split: if_splits)
  have ok: "facts_ok p st'"
    unfolding facts_ok_def
  proof (intro conjI allI impI don(2))
    fix s q v assume "facts_at st' s q = Some v"
    from new[OF this] show "typed p v"
      using inv(1) passed_sound(1)[OF inv] unfolding facts_inv_def by (metis facts_okD)
  qed
  have "facts_at st' s (b', k) \<noteq> None \<longleftrightarrow> is_pos B0 b' k \<and> fo_successor (B0 ! b' ! k) = Some s" for s b' k
  proof -
    have "facts_at st s (b', k) \<noteq> None \<longleftrightarrow> is_pos B0 b' k \<and> fo_successor (B0 ! b' ! k) = Some s"
      using inv(1) unfolding facts_inv_def by blast
    then show ?thesis unfolding block_done_facts[OF don(1)] by (auto simp: succ)
  qed
  moreover have "\<not> avoids start B0 b0 b'" if "facts_at st' s (b', k) = Some v" "map_of v r \<noteq> None" "writes B0 b0 k0 r" for s b' k v r b0 k0
    using new[OF that(1)]
  proof
    assume "facts_at st s (b', k) = Some v"
    then show ?thesis using that(2,3) inv(1) unfolding facts_inv_def by blast
  qed (use passed_sound(2)[OF inv, of b k s r b0 k0] that(2,3) in auto)
  moreover have "holds v env" if "facts_at st' s (b', k) = Some v" "at_pos p start B0 b' k e" "enabled (B0 ! b' ! k) e"
      "passes p (B0 ! b' ! k) e env" for s b' k v e env
    using new[OF that(1)]
  proof
    assume "facts_at st s (b', k) = Some v"
    then show ?thesis using that(2-4) inv(1) unfolding facts_inv_def by blast
  qed (use passed_sound(3)[OF inv, of b k s e env] that(2-4) in auto)
  ultimately show ?thesis using ok unfolding facts_inv_def by blast
qed

lemma block_done_blocks_inv:
  assumes inv: "facts_inv p start B0 st" "blocks_inv p start B0 B" "renamed_ok p start B0" "registers_ok p"
    and b: "b < length B0" and don: "block_done p b 0 (B ! b) (entry start st b) st fos' st'"
  shows "blocks_inv p start B0 (B[b := fos'])"
proof -
  have len: "length fos' = length (B ! b)" "length B = length B0" "length (B ! b) = length (B0 ! b)"
    using don inv(2) b by (simp_all add: block_done_def blocks_inv_def)
  have "op_keeps p (at_pos p start B0 b' k) (B0 ! b' ! k) (B[b := fos'] ! b' ! k)" if pos: "is_pos B0 b' k" for b' k
  proof (cases "b' = b")
    case True
    have "k < length (B0 ! b)" using pos True by (simp add: is_pos_def)
    then have "rewritten p (vals_at p (entry start st b) (B ! b) k) (B ! b ! k) (fos' ! k)"
      using don len by (simp add: block_done_def)
    moreover have "\<And>e. at_pos p start B0 b k e \<Longrightarrow> flow_env p e \<and> holds (vals_at p (entry start st b) (B ! b) k) e"
      using known_hold[OF inv b less_imp_le] \<open>k < _\<close> by blast
    ultimately have "op_keeps p (at_pos p start B0 b k) (B0 ! b ! k) (fos' ! k)"
      using op_keeps_rewritten blocks_invD(3)[OF inv(2)] pos True by blast
    then show ?thesis using True b len by simp
  next
    case False
    then show ?thesis using blocks_invD(3)[OF inv(2) pos] by simp
  qed
  moreover have "length (B[b := fos'] ! b') = length (B0 ! b')" if "b' < length B0" for b'
    using len inv(2) that by (cases "b' = b") (simp_all add: blocks_inv_def)
  ultimately show ?thesis using len by (simp add: blocks_inv_def)
qed

lemma block_done_grows:
  assumes "block_ready p b 0 fos known st" "block_done p b 0 fos known st fos' st'"
  shows "grows st st'"
proof -
  have old: "\<exists>old. facts_at st s q = Some old \<and> (\<exists>new. facts_at st' s q = Some new \<and> facts_le old new)"
    if enq: "\<exists>k. q = (b, k) \<and> k < length fos \<and> fo_successor (fos ! k) = Some s" for s q
  proof -
    obtain k where k: "q = (b, k)" "k < length fos" "fo_successor (fos ! k) = Some s" using enq by blast
    with assms(1) obtain old where "facts_at st s (b, k) = Some old" "facts_le old (passed_facts (fos ! k) (vals_at p known fos k))"
      unfolding block_ready_def Let_def by (metis add_0)
    with k show ?thesis unfolding block_done_facts[OF assms(2)] by auto
  qed
  have same: "facts_at st' s q = facts_at st s q"
    if "\<not> (\<exists>k. q = (b, k) \<and> k < length fos \<and> fo_successor (fos ! k) = Some s)" for s q
    using that unfolding block_done_facts[OF assms(2)] by metis
  show ?thesis
    unfolding grows_def
  proof (intro conjI allI impI)
    show "(facts_at st' s q = None) = (facts_at st s q = None)" for s q
      using old[of q s] same[of q s] by force
    show "facts_le v v'" if "facts_at st s q = Some v" "facts_at st' s q = Some v'" for s q v v'
      using old[of q s] same[of q s] that by (metis facts_le_refl option.inject)
  qed
qed

lemma block_done_growth:
  assumes inv: "facts_inv p start B0 st" "blocks_inv p start B0 B" "renamed_ok p start B0" "registers_ok p" "growth p start B st"
    and b: "b < length B0" and don: "block_done p b 0 (B ! b) (entry start st b) st fos' st'" "preds_ok st'"
  shows "growth p start (B[b := fos']) st'"
  unfolding growth_def
proof (intro allI impI)
  fix b' k known
  assume pos: "is_pos (B[b := fos']) b' k" and typed: "typed p known" and known: "facts_le (entry start st' b') known"
  have len: "length fos' = length (B ! b)" "b < length B"
    using don blocks_invD(1)[OF inv(2)] b by (simp_all add: block_done_def)
  have posB: "is_pos B b' k" using pos len by (auto simp: is_pos_def nth_list_update split: if_splits)
  note ready = block_is_ready[OF inv b]
  have grows: "grows st st'" by (rule block_done_grows[OF ready don(1)])
  have "facts_ok p st" "facts_ok p st'" using inv(1) block_done_facts_inv[OF inv(1-4) b don] by (simp_all add: facts_inv_def)
  have le: "facts_le (entry start st b') known" using entry_mono[OF \<open>facts_ok p st\<close> \<open>facts_ok p st'\<close> grows] known facts_le_trans by blast
  show "evaluable p (vals_at p known (B[b := fos'] ! b') k) (B[b := fos'] ! b' ! k) \<and>
    (\<forall>s v. fo_successor (B[b := fos'] ! b' ! k) = Some s \<longrightarrow> facts_at st' s (b', k) = Some v \<longrightarrow>
       facts_le v (passed_facts (B[b := fos'] ! b' ! k) (vals_at p known (B[b := fos'] ! b') k)))"
  proof (cases "b' = b")
    case False
    then have "facts_at st' s (b', k) = facts_at st s (b', k)" for s by (simp add: block_done_facts[OF don(1)])
    then show ?thesis using inv(5) posB typed le False unfolding growth_def by simp
  next
    case True
    let ?old = "vals_at p (entry start st b) (B ! b)"
    have k: "k < length (B ! b)" using posB True by (simp add: is_pos_def)
    have each: "rewritten p (?old j) (B ! b ! j) (fos' ! j) \<and> fresh_dst (?old j) (B ! b ! j)" if "j < length (B ! b)" for j
      using don(1) ready that by (simp add: block_done_def block_ready_def Let_def)
    have mono: "facts_le (?old k) (vals_at p known fos' k)"
      using vals_at_mono[OF len(1) le[unfolded True] less_imp_le[OF k] each] .
    have ev: "evaluable p (?old k) (B ! b ! k)" "renaming_ok p (B ! b ! k)" using ready k by (simp_all add: block_ready_def Let_def)
    have op': "flow_op_ok p (fos' ! j)" if "j < length fos'" for j using each[of j] that len by (simp add: rewritten_def)
    have op: "flow_op_ok p (B ! b ! j)" if "j < length (B ! b)" for j using ready that by (simp add: block_ready_def Let_def)
    have smaps: "smap_ok (?old k)" "smap_ok (vals_at p known fos' k)"
      using typed_smap[OF vals_at_typed[OF entry_typed[OF \<open>facts_ok p st\<close>] inv(4) op]]
        typed_smap[OF vals_at_typed[OF typed inv(4) op']] k len by simp_all
    have "facts_le (passed_facts (B ! b ! k) (?old k)) (passed_facts (fos' ! k) (vals_at p known fos' k))"
      if "fo_successor (B ! b ! k) \<noteq> None"
      using passed_facts_mono[OF ev(2) smaps mono] passed_facts_rewritten each[OF k] that by metis
    moreover have "fo_successor (fos' ! k) = fo_successor (B ! b ! k)" using each[OF k] by (simp add: rewritten_def)
    ultimately show ?thesis
      using evaluable_rewritten[OF _ ev(1) mono] each[OF k] True len k by (auto simp: block_done_facts[OF don(1)])
  qed
qed

subsection \<open>The work list empties\<close>

definition positions :: "FlowBlock list \<Rightarrow> (nat \<times> nat) set" where
  "positions blocks = (SIGMA b:{..<length blocks}. {..<length (blocks ! b)})"

lemma positions_iff [simp]: "(b, k) \<in> positions blocks \<longleftrightarrow> is_pos blocks b k"
  by (auto simp: positions_def is_pos_def)

lemma finite_positions [simp]: "finite (positions blocks)"
  by (simp add: positions_def)

definition facts_size :: "FlowBlock list \<Rightarrow> CPState \<Rightarrow> nat \<times> nat \<Rightarrow> nat" where
  "facts_size blocks st q = (case fo_successor (blocks ! fst q ! snd q) of
     None \<Rightarrow> 0 | Some s \<Rightarrow> length (the (facts_at st s q)))"

definition fact_count :: "FlowBlock list \<Rightarrow> CPState \<Rightarrow> nat" where
  "fact_count blocks st = (\<Sum>q \<in> positions blocks. facts_size blocks st q)"

lemma facts_inv_dom:
  assumes "facts_inv p start B0 st"
  shows "facts_at st s q \<noteq> None \<longleftrightarrow> q \<in> positions B0 \<and> fo_successor (B0 ! fst q ! snd q) = Some s"
proof -
  have "facts_at st s (fst q, snd q) \<noteq> None \<longleftrightarrow> is_pos B0 (fst q) (snd q) \<and> fo_successor (B0 ! fst q ! snd q) = Some s"
    using assms unfolding facts_inv_def by blast
  then show ?thesis by (metis positions_iff prod.collapse)
qed

lemma typed_length: "typed p v \<Longrightarrow> length v \<le> length (fp_registerTable p)"
proof -
  assume v: "typed p v"
  then have d: "distinct (map fst v)" by (intro smap_ok_distinct typed_smap)
  have "r < length (fp_registerTable p)" if "r \<in> set (map fst v)" for r
    using v that by (auto simp: typed_def is_local_def d)
  then have "set (map fst v) \<subseteq> {..<length (fp_registerTable p)}" by auto
  then have "card (set (map fst v)) \<le> card {..<length (fp_registerTable p)}" by (intro card_mono) simp_all
  then show ?thesis using distinct_card[OF d] by simp
qed

lemma fact_count_bound:
  assumes "facts_inv p start B0 st"
  shows "fact_count B0 st \<le> card (positions B0) * length (fp_registerTable p)"
proof -
  have "facts_size B0 st q \<le> length (fp_registerTable p)" if q: "q \<in> positions B0" for q
  proof (cases "fo_successor (B0 ! fst q ! snd q)")
    case (Some s)
    then obtain v where v: "facts_at st s q = Some v" using q facts_inv_dom[OF assms, of s q] by auto
    have "typed p v" using v assms by (intro facts_okD[of p st s q]) (simp_all add: facts_inv_def)
    then show ?thesis using typed_length v Some by (simp add: facts_size_def)
  qed (simp add: facts_size_def)
  then show ?thesis unfolding fact_count_def using sum_bounded_above[of "positions B0" "facts_size B0 st" "length (fp_registerTable p)"] by simp
qed

lemma fact_count_less:
  assumes "facts_inv p start B0 st" "facts_inv p start B0 st'" "grows st st'" "facts_at st' s q \<noteq> facts_at st s q"
  shows "fact_count B0 st < fact_count B0 st'"
proof -
  have step: "facts_size B0 st q' \<le> facts_size B0 st' q'" "facts_at st' s' q' \<noteq> facts_at st s' q' \<Longrightarrow> facts_size B0 st q' < facts_size B0 st' q'"
    if q': "q' \<in> positions B0" "fo_successor (B0 ! fst q' ! snd q') = Some s'" for q' s'
  proof -
    obtain v v' where v: "facts_at st s' q' = Some v" "facts_at st' s' q' = Some v'"
      using q' facts_inv_dom[OF assms(1), of s' q'] facts_inv_dom[OF assms(2), of s' q'] by auto
    have "facts_le v v'" using assms(3) v unfolding grows_def by blast
    moreover have "smap_ok v" "smap_ok v'"
      using v assms(1,2) facts_okD typed_smap unfolding facts_inv_def by metis+
    ultimately have "v = v' \<or> length v < length v'" by (intro facts_le_length)
    with v q' show "facts_size B0 st q' \<le> facts_size B0 st' q'"
      "facts_at st' s' q' \<noteq> facts_at st s' q' \<Longrightarrow> facts_size B0 st q' < facts_size B0 st' q'"
      by (auto simp: facts_size_def)
  qed
  have "facts_size B0 st q' \<le> facts_size B0 st' q'" if "q' \<in> positions B0" for q'
    using step(1)[OF that] by (cases "fo_successor (B0 ! fst q' ! snd q')") (simp_all add: facts_size_def)
  moreover have "q \<in> positions B0 \<and> fo_successor (B0 ! fst q ! snd q) = Some s"
    using assms(4) facts_inv_dom[OF assms(1), of s q] facts_inv_dom[OF assms(2), of s q] by (metis (no_types))
  ultimately show ?thesis
    unfolding fact_count_def using step(2)[of q s] assms(4) by (intro sum_strict_mono_ex1) auto
qed

lemma facts_at_work [simp]: "facts_at (st\<lparr>cp_work := w\<rparr>) s q = facts_at st s q" "preds (st\<lparr>cp_work := w\<rparr>) s = preds st s"
  by (simp_all add: facts_at_def preds_def)

lemma fact_count_cong:
  assumes "facts_at st' = facts_at st"
  shows "fact_count B0 st' = fact_count B0 st"
  unfolding fact_count_def facts_size_def assms by (rule refl)

lemma inv_work [simp]:
  "facts_inv p start B0 (st\<lparr>cp_work := w\<rparr>) = facts_inv p start B0 st"
  "growth p start B (st\<lparr>cp_work := w\<rparr>) = growth p start B st"
  "preds_ok (st\<lparr>cp_work := w\<rparr>) = preds_ok st"
  "entry start (st\<lparr>cp_work := w\<rparr>) b = entry start st b"
  "fact_count B0 (st\<lparr>cp_work := w\<rparr>) = fact_count B0 st"
  by (simp_all add: facts_inv_def growth_def facts_ok_def preds_ok_def entry_def fact_count_cong fun_eq_iff)

definition loop_measure :: "FlowProgram \<Rightarrow> FlowBlock list \<Rightarrow> CPState \<Rightarrow> nat" where
  "loop_measure p B0 st = (card (positions B0) * length (fp_registerTable p) - fact_count B0 st) * Suc (length B0) + card (cp_work st)"

definition loop_inv :: "FlowProgram \<Rightarrow> nat \<Rightarrow> FlowBlock list \<Rightarrow> FlowBlock list \<Rightarrow> CPState \<Rightarrow> bool" where
  "loop_inv p start B0 B st \<longleftrightarrow> facts_inv p start B0 st \<and> blocks_inv p start B0 B \<and> growth p start B st \<and> cp_work st \<subseteq> {..<length B0}"

lemma loop_step:
  assumes inv: "loop_inv p start B0 B st" and ok: "flow_ok p start B0" "renamed_ok p start B0" and b: "b \<in> cp_work st"
  shows "\<exists>fos' st' c. ProcessOperations p b 0 (B ! b) (entry start st b) (st\<lparr>cp_work := cp_work st - {b}\<rparr>) = Some (fos', st', c) \<and>
    loop_inv p start B0 (B[b := fos']) st' \<and> loop_measure p B0 st' < loop_measure p B0 st"
proof -
  let ?st = "st\<lparr>cp_work := cp_work st - {b}\<rparr>"
  have reg: "registers_ok p" using ok(1) by (simp add: flow_ok_def)
  have invs: "facts_inv p start B0 ?st" "blocks_inv p start B0 B" "renamed_ok p start B0" "registers_ok p" "growth p start B ?st"
    using inv ok(2) reg by (simp_all add: loop_inv_def)
  have len: "b < length B0" using inv b by (auto simp: loop_inv_def)
  have preds: "preds_ok ?st" "typed p (entry start ?st b)"
    using invs(1) entry_typed[of p ?st start b] by (simp_all add: facts_inv_def facts_ok_def)
  note ready = block_is_ready[OF invs len]
  obtain fos' st' c where run: "ProcessOperations p b 0 (B ! b) (entry start ?st b) ?st = Some (fos', st', c)" "preds_ok st'"
      "block_done p b 0 (B ! b) (entry start ?st b) ?st fos' st'"
    using ProcessOperations_correct[OF reg preds(2,1) ready] by blast
  note inv' = block_done_facts_inv[OF invs(1-4) len run(3,2)] block_done_blocks_inv[OF invs(1-4) len run(3)]
    block_done_growth[OF invs len run(3,2)]
  have grows: "grows ?st st'" by (rule block_done_grows[OF ready run(3)])
  have work: "cp_work st' = (cp_work st - {b}) \<union> {s. \<exists>q. facts_at st' s q \<noteq> facts_at st s q}"
    using run(3) by (simp add: block_done_def)
  have "s < length B0" if "facts_at st' s q \<noteq> facts_at st s q" for s q
  proof -
    have "facts_at st' s q \<noteq> None" using that grows unfolding grows_def by (metis facts_at_work(1))
    then have "is_pos B0 (fst q) (snd q)" "fo_successor (B0 ! fst q ! snd q) = Some s"
      using facts_inv_dom[OF inv'(1), of s q] by (cases q; simp)+
    then show ?thesis using ok(1) by (auto simp: flow_ok_def list_all_length is_pos_def)
  qed
  then have sub: "cp_work st' \<subseteq> {..<length B0}" using work inv by (auto simp: loop_inv_def)
  have card: "card (cp_work st') \<le> length B0" using card_mono[OF _ sub] by simp
  have "loop_measure p B0 st' < loop_measure p B0 st"
  proof (cases "\<exists>s q. facts_at st' s q \<noteq> facts_at st s q")
    case True
    then have "fact_count B0 st < fact_count B0 st'" using fact_count_less[OF invs(1) inv'(1) grows] by simp blast
    moreover have "fact_count B0 st' \<le> card (positions B0) * length (fp_registerTable p)" by (rule fact_count_bound[OF inv'(1)])
    ultimately have "Suc (card (positions B0) * length (fp_registerTable p) - fact_count B0 st') \<le>
        card (positions B0) * length (fp_registerTable p) - fact_count B0 st" by linarith
    from mult_le_mono1[OF this, of "Suc (length B0)"] card show ?thesis by (simp add: loop_measure_def)
  next
    case False
    then have same: "facts_at st' = facts_at st" by (intro ext) blast
    then have "fact_count B0 st' = fact_count B0 st" by (rule fact_count_cong)
    moreover have "cp_work st' = cp_work st - {b}" using work False by auto
    moreover have "finite (cp_work st)" using inv finite_subset[of "cp_work st" "{..<length B0}"] by (simp add: loop_inv_def)
    ultimately show ?thesis unfolding loop_measure_def using card_Diff1_less[OF _ b] by simp
  qed
  then show ?thesis using run(1) inv' sub by (auto simp: loop_inv_def)
qed

lemma PropagateLoop_correct:
  assumes "\<And>w. finite w \<Longrightarrow> w \<noteq> {} \<Longrightarrow> first w \<in> w" "flow_ok p start B0" "renamed_ok p start B0" "loop_inv p start B0 B st"
  shows "\<exists>B' c. PropagateLoop first p start B st c0 = Some (B', c) \<and> blocks_inv p start B0 B'"
  using assms(4)
proof (induction "loop_measure p B0 st" arbitrary: B st c0 rule: less_induct)
  case less
  show ?case
  proof (cases "cp_work st = {}")
    case True
    then show ?thesis using less.prems by (simp add: PropagateLoop.simps[of _ _ _ _ st] loop_inv_def)
  next
    case False
    have "finite (cp_work st)" using less.prems finite_subset[of "cp_work st" "{..<length B0}"] by (simp add: loop_inv_def)
    then have b: "first (cp_work st) \<in> cp_work st" using assms(1) False by simp
    from loop_step[OF less.prems assms(2,3) b] obtain fos' st' c where
      step: "ProcessOperations p (first (cp_work st)) 0 (B ! first (cp_work st)) (entry start st (first (cp_work st)))
          (st\<lparr>cp_work := cp_work st - {first (cp_work st)}\<rparr>) = Some (fos', st', c)"
        "loop_inv p start B0 (B[first (cp_work st) := fos']) st'" "loop_measure p B0 st' < loop_measure p B0 st" by blast
    have "PropagateLoop first p start B st c0 = PropagateLoop first p start (B[first (cp_work st) := fos']) st' (c0 \<or> c)"
      using False step(1) by (subst PropagateLoop.simps) (simp add: entry_def preds_def Let_def)
    then show ?thesis using less.hyps[OF step(3,2)] by simp
  qed
qed

subsection \<open>The first state\<close>

definition input_is :: "(nat, PredecessorMap) smap \<Rightarrow> (nat \<times> nat \<times> nat) set \<Rightarrow> bool" where
  "input_is inputs S \<longleftrightarrow> (\<forall>s. smap_ok (LookupWithDefault inputs s [])) \<and>
     (\<forall>s q. map_of (LookupWithDefault inputs s []) q = (if (s, q) \<in> S then Some [] else None))"

lemma input_is_insert:
  assumes "input_is inputs S"
  shows "input_is (map_insert s (map_insert q [] (LookupWithDefault inputs s [])) inputs) (insert (s, q) S)"
  using assms by (auto simp: input_is_def LookupWithDefault_def)

lemma input_is_block:
  assumes "input_is inputs S"
  shows "input_is (fold (\<lambda>k inputs. case fo_successor (block ! k) of
         None \<Rightarrow> inputs
       | Some s \<Rightarrow> map_insert s (map_insert (b, k) [] (LookupWithDefault inputs s [])) inputs) [0..<n] inputs)
     (S \<union> {(s, b', k). b' = b \<and> k < n \<and> fo_successor (block ! k) = Some s})"
proof (induction n)
  case (Suc n)
  show ?case
  proof (cases "fo_successor (block ! n)")
    case None
    then have "{(s, b', k). b' = b \<and> k < Suc n \<and> fo_successor (block ! k) = Some s} =
        {(s, b', k). b' = b \<and> k < n \<and> fo_successor (block ! k) = Some s}" by (auto simp: less_Suc_eq)
    with Suc None show ?thesis by simp
  next
    case (Some s)
    then have "{(s, b', k). b' = b \<and> k < Suc n \<and> fo_successor (block ! k) = Some s} =
        insert (s, b, n) {(s, b', k). b' = b \<and> k < n \<and> fo_successor (block ! k) = Some s}" by (auto simp: less_Suc_eq)
    with input_is_insert[OF Suc, of s "(b, n)"] Some show ?thesis by simp
  qed
qed (simp add: assms)

lemma input_is_InitialInput:
  "input_is (InitialInput blocks) {(s, b, k). is_pos blocks b k \<and> fo_successor (blocks ! b ! k) = Some s}"
proof -
  have "input_is (fold (\<lambda>b. fold (\<lambda>k inputs. case fo_successor (blocks ! b ! k) of
           None \<Rightarrow> inputs
         | Some s \<Rightarrow> map_insert s (map_insert (b, k) [] (LookupWithDefault inputs s [])) inputs) [0..<length (blocks ! b)]) [0..<n] [])
      {(s, b, k). b < n \<and> k < length (blocks ! b) \<and> fo_successor (blocks ! b ! k) = Some s}" for n
  proof (induction n)
    case (Suc n)
    have "{(s, b, k). b < Suc n \<and> k < length (blocks ! b) \<and> fo_successor (blocks ! b ! k) = Some s} =
        {(s, b, k). b < n \<and> k < length (blocks ! b) \<and> fo_successor (blocks ! b ! k) = Some s} \<union>
        {(s, b', k). b' = n \<and> k < length (blocks ! n) \<and> fo_successor (blocks ! n ! k) = Some s}"
      by (auto simp: less_Suc_eq)
    with input_is_block[OF Suc, where block = "blocks ! n" and b = n and n = "length (blocks ! n)"] show ?case by simp
  qed (simp add: input_is_def LookupWithDefault_def)
  then show ?thesis unfolding InitialInput_def is_pos_def conj_assoc .
qed

lemma loop_inv_initial:
  assumes "flow_ok p start B0" "list_all (list_all (evaluable p [])) B0"
  shows "loop_inv p start B0 B0 \<lparr>cp_input = InitialInput B0, cp_work = {..<length B0}\<rparr>" (is "loop_inv _ _ _ _ ?st")
proof -
  have facts: "facts_at ?st s q = (if (s, q) \<in> {(s, b, k). is_pos B0 b k \<and> fo_successor (B0 ! b ! k) = Some s} then Some [] else None)"
    and preds: "preds_ok ?st" for s q
    using input_is_InitialInput[of B0] unfolding input_is_def facts_at_def preds_ok_def preds_def CPState.select_convs by blast+
  have nil: "v = []" if "facts_at ?st s q = Some v" for s q v using that unfolding facts by (auto split: if_splits)
  have empty: "typed p v" "holds v env" "map_of v r = None" if "facts_at ?st s q = Some v" for s q v env r
    using nil[OF that] by (simp_all add: typed_def holds_def)
  have "facts_ok p ?st" unfolding facts_ok_def using preds empty(1) by blast
  moreover have "facts_at ?st s (b, k) \<noteq> None \<longleftrightarrow> is_pos B0 b k \<and> fo_successor (B0 ! b ! k) = Some s" for s b k
    unfolding facts by simp
  moreover have "\<not> avoids start B0 b0 b" if "facts_at ?st s (b, k) = Some v" "map_of v r \<noteq> None" for s b k v r b0
    using empty(3)[OF that(1), of r] that(2) by simp
  ultimately have "facts_inv p start B0 ?st"
    unfolding facts_inv_def using empty(2) by blast
  moreover have "growth p start B0 ?st"
  proof -
    have "evaluable p known (B0 ! b ! k)" if "is_pos B0 b k" for b k known
      using assms(2) that by (auto simp: list_all_length is_pos_def evaluable_def holds_def)
    moreover have "facts_le v known" if "facts_at ?st s q = Some v" for s q v known using nil[OF that] by simp
    ultimately show ?thesis unfolding growth_def by blast
  qed
  moreover have "blocks_inv p start B0 B0"
    using assms(1) by (auto simp: blocks_inv_def op_keeps_def flow_ok_def list_all_length is_pos_def)
  ultimately show ?thesis by (simp add: loop_inv_def)
qed

subsection \<open>The function runs as before\<close>

lemma blocks_inv_after:
  assumes "blocks_inv p start B0 B" "reach p start B0 b env" "b < length B0" "k \<le> length (B0 ! b)"
  shows "after p (B ! b) k env e = after p (B0 ! b) k env e"
  using assms(4)
proof (induction k arbitrary: e)
  case (Suc k)
  have pos: "is_pos B0 b k" using assms(3) Suc.prems by (simp add: is_pos_def)
  have "flow_step p (B ! b ! k) e1 e = flow_step p (B0 ! b ! k) e1 e" if "after p (B0 ! b) k env e1" for e1
    using blocks_invD(3)[OF assms(1) pos] assms(2) that by (auto simp: op_keeps_def at_pos_def)
  with Suc show ?case by auto
qed simp

lemma blocks_inv_reach:
  assumes "blocks_inv p start B0 B"
  shows "reach p start B b env \<longleftrightarrow> reach p start B0 b env"
proof
  have enq: "reach p start B0 b env \<Longrightarrow> is_pos B0 b k \<Longrightarrow> after p (B0 ! b) k env e \<Longrightarrow> fo_successor (B0 ! b ! k) = Some s \<Longrightarrow>
      fo_successor (B ! b ! k) = Some s \<and> enabled (B ! b ! k) e = enabled (B0 ! b ! k) e \<and>
      passes p (B ! b ! k) e env' = passes p (B0 ! b ! k) e env'" for b k env e s env'
    using blocks_invD(3)[OF assms] op_keeps_tables[OF blocks_invD(3)[OF assms]]
    by (auto simp: op_keeps_def at_pos_def passes_def)
  have succ: "fo_successor (B ! b ! k) = fo_successor (B0 ! b ! k)" if "is_pos B0 b k" for b k
    using blocks_invD(3)[OF assms that] by (simp add: op_keeps_def)
  show "reach p start B0 b env" if "reach p start B b env"
    using that
  proof (induction rule: reach.induct)
    case (reach_enqueue b env k e s env')
    have "is_pos B b k" using reach_enqueue.hyps by (simp add: is_pos_def)
    then have pos: "is_pos B0 b k" by (simp add: blocks_invD(2)[OF assms])
    then have aft: "after p (B0 ! b) k env e"
      using blocks_inv_after[OF assms reach_enqueue.IH, of k e] reach_enqueue.hyps by (auto simp: is_pos_def)
    have s: "fo_successor (B0 ! b ! k) = Some s" using succ[OF pos] reach_enqueue.hyps by simp
    show ?case
      using enq[OF reach_enqueue.IH pos aft s, of env'] reach_enqueue.hyps pos
      by (intro reach.reach_enqueue[OF reach_enqueue.IH _ _ aft s]) (auto simp: is_pos_def)
  qed (rule reach_start)
  show "reach p start B b env" if "reach p start B0 b env"
    using that
  proof (induction rule: reach.induct)
    case (reach_enqueue b env k e s env')
    have "is_pos B0 b k" using reach_enqueue.hyps by (simp add: is_pos_def)
    then have pos: "is_pos B0 b k" "is_pos B b k" by (simp_all add: blocks_invD(2)[OF assms])
    then have aft: "after p (B ! b) k env e"
      using blocks_inv_after[OF assms reach_enqueue.hyps(1), of k e] reach_enqueue.hyps by (auto simp: is_pos_def)
    show ?case
      using enq[OF reach_enqueue.hyps(1) pos(1) reach_enqueue.hyps(4,5), of env'] reach_enqueue.hyps pos
      by (intro reach.reach_enqueue[OF reach_enqueue.IH _ _ aft]) (auto simp: is_pos_def)
  qed (rule reach_start)
qed

subsection \<open>Well-formedness and the change flag\<close>

lemma blocks_inv_flow_ok:
  assumes "blocks_inv p start B0 B" "flow_ok p start B0"
  shows "flow_ok p start B"
proof -
  have "flow_op_ok p (B ! b ! k) \<and> renaming_ok p (B ! b ! k) \<and> (\<forall>s. fo_successor (B ! b ! k) = Some s \<longrightarrow> s < length B)"
    if "b < length B" "k < length (B ! b)" for b k
  proof -
    have "is_pos B b k" using that by (simp add: is_pos_def)
    then have pos: "is_pos B0 b k" by (simp add: blocks_invD(2)[OF assms(1)])
    have "\<forall>s. fo_successor (B0 ! b ! k) = Some s \<longrightarrow> s < length B0"
      using assms(2) pos unfolding flow_ok_def list_all_length is_pos_def by blast
    moreover have "flow_op_ok p (B ! b ! k)" "renaming_ok p (B ! b ! k)" "fo_successor (B ! b ! k) = fo_successor (B0 ! b ! k)"
      using blocks_invD(3)[OF assms(1) pos] unfolding op_keeps_def by blast+
    ultimately show ?thesis using blocks_invD(1)[OF assms(1)] by simp
  qed
  moreover have "registers_ok p" "start < length B" using assms(2) blocks_invD(1)[OF assms(1)] by (simp_all add: flow_ok_def)
  ultimately show ?thesis unfolding flow_ok_def list_all_length by blast
qed

lemma blocks_inv_renamed_ok:
  assumes "blocks_inv p start B0 B" "renamed_ok p start B0"
  shows "renamed_ok p start B"
proof -
  have succ: "fo_successor (B ! b ! k) = fo_successor (B0 ! b ! k)" if "is_pos B0 b k" for b k
    using blocks_invD(3)[OF assms(1) that] by (simp add: op_keeps_def)
  have table: "fo_reverseRenamingTable (B ! b ! k) = fo_reverseRenamingTable (B0 ! b ! k)"
    if "is_pos B0 b k" "fo_successor (B0 ! b ! k) \<noteq> None" for b k
    using op_keeps_tables(2)[OF blocks_invD(3)[OF assms(1) that(1)] that(2)] .
  have "edge B = edge B0" using succ by (auto simp: fun_eq_iff edge_def blocks_invD(2)[OF assms(1)])
  moreover have "\<not> writes B b' k' y"
    if "is_pos B b k" "fo_successor (B ! b ! k) \<noteq> None" "(x, y) \<in> set (fo_reverseRenamingTable (B ! b ! k))" for b k x y b' k'
    using that assms(2) succ table unfolding renamed_ok_def blocks_invD(2,4)[OF assms(1)] by metis
  ultimately show ?thesis
    using assms(2) unfolding renamed_ok_def blocks_invD(1,4)[OF assms(1)] by (simp only:) blast
qed

lemma SubstituteSource_unchanged:
  "SubstituteSource p known i (fo, k, c) = Some (fo', k', False) \<Longrightarrow> fo' = fo \<and> \<not> c"
  by (auto simp: SubstituteSource_def Let_def split: SourceOperand.splits option.splits bind_splits if_splits)

lemma SubstituteSources_unchanged:
  "fold_opt (SubstituteSource p known) is (fo, k, c) = Some (fo', k', False) \<Longrightarrow> fo' = fo \<and> \<not> c"
proof (induction "is" arbitrary: fo k c)
  case (Cons i "is")
  obtain fo1 k1 c1 where step: "SubstituteSource p known i (fo, k, c) = Some (fo1, k1, c1)"
      "fold_opt (SubstituteSource p known) is (fo1, k1, c1) = Some (fo', k', False)"
    using Cons.prems by (auto split: bind_splits)
  with Cons.IH[OF step(2)] SubstituteSource_unchanged[of p known i fo k c fo1 k1] show ?case by auto
qed simp

lemma FoldConstant_unchanged: "FoldConstant rt fo known = Some (fo', known', False) \<Longrightarrow> fo' = fo"
  by (auto simp: FoldConstant_def Let_def split: list.splits DestinationOperand.splits option.splits bind_splits if_splits)

lemma rewrite_operation_unchanged:
  assumes "rewrite_operation p known fo = Some (fo', known', False)"
  shows "fo' = fo"
proof -
  let ?fold = "fold_opt (SubstituteSource p known) [0..<length (op_src (fo_op fo))] (fo, True, False)"
  let ?result = "\<lambda>fo1 k. if k then FoldConstant (fp_registerTable p) fo1 known else Some (fo1, known, False)"
  obtain fo1 k c1 where f: "?fold = Some (fo1, k, c1)" using assms by (cases ?fold) (auto simp: rewrite_operation_def)
  with assms have "Option.bind (?result fo1 k) (\<lambda>(fo, known, c2). Some (fo, known, c1 \<or> c2)) = Some (fo', known', False)"
    by (simp add: rewrite_operation_def)
  then have sub: "?fold = Some (fo1, k, False)" "?result fo1 k = Some (fo', known', False)"
    using f by (cases "?result fo1 k"; auto)+
  have "fo1 = fo" using SubstituteSources_unchanged[OF sub(1)] by simp
  then show ?thesis using sub(2) FoldConstant_unchanged by (auto split: if_splits)
qed

lemma ProcessOperation_unchanged:
  assumes "ProcessOperation p position fo known st = Some (fo', known', st', False)"
  shows "fo' = fo"
  using assms by (auto simp: ProcessOperation_eq split: bind_splits dest: rewrite_operation_unchanged)

lemma ProcessOperations_unchanged:
  "ProcessOperations p b k fos known st = Some (fos', st', False) \<Longrightarrow> fos' = fos"
proof (induction fos arbitrary: k known st fos')
  case (Cons fo fos)
  from Cons.prems have "\<exists>fo1 known1 st1 fos1. ProcessOperation p (b, k) fo known st = Some (fo1, known1, st1, False) \<and>
      ProcessOperations p b (Suc k) fos known1 st1 = Some (fos1, st', False) \<and> fos' = fo1 # fos1"
    by (auto split: bind_splits)
  then obtain fo1 known1 st1 fos1 where step: "ProcessOperation p (b, k) fo known st = Some (fo1, known1, st1, False)"
      "ProcessOperations p b (Suc k) fos known1 st1 = Some (fos1, st', False)" "fos' = fo1 # fos1" by blast
  then show ?case using Cons.IH[OF step(2)] ProcessOperation_unchanged by blast
qed simp

lemma PropagateLoop_unchanged:
  "PropagateLoop first p start blocks st c0 = Some (blocks', False) \<Longrightarrow> blocks' = blocks \<and> \<not> c0"
proof -
  have "\<not> snd res \<longrightarrow> fst res = blocks \<and> \<not> c0" if "PropagateLoop first p start blocks st c0 = Some res" for res
  proof (rule PropagateLoop.raw_induct[where P = "\<lambda>first p start blocks st c0 res. \<not> snd res \<longrightarrow> fst res = blocks \<and> \<not> c0", OF _ that], goal_cases)
    case (1 loop first p start blocks st c0 res)
    show ?case
    proof (cases "cp_work st = {}")
      case True
      then show ?thesis using 1(2) by auto
    next
      case False
      with 1(2) obtain block st' c where
        step: "ProcessOperations p (first (cp_work st)) 0 (blocks ! first (cp_work st))
            (EntryValues (first (cp_work st) = start) (LookupWithDefault (cp_input st) (first (cp_work st)) []))
            (st\<lparr>cp_work := cp_work st - {first (cp_work st)}\<rparr>) = Some (block, st', c)"
          "loop first p start (blocks[first (cp_work st) := block]) st' (c0 \<or> c) = Some res"
        by (auto simp: Let_def split: bind_splits)
      have "block = blocks ! first (cp_work st)" if "\<not> c"
        by (rule ProcessOperations_unchanged[of p "first (cp_work st)" 0]) (use step(1) that in simp)
      with 1(1)[OF step(2)] show ?thesis by auto
    qed
  qed
  then show "PropagateLoop first p start blocks st c0 = Some (blocks', False) \<Longrightarrow> blocks' = blocks \<and> \<not> c0" by force
qed

subsection \<open>Properties\<close>

definition evaluates :: "FlowProgram \<Rightarrow> FlowBlock list \<Rightarrow> bool" where
  "evaluates p blocks \<longleftrightarrow> list_all (list_all (evaluable p [])) blocks"

lemma ConstantPropagation_inv:
  assumes "\<And>w. finite w \<Longrightarrow> w \<noteq> {} \<Longrightarrow> first w \<in> w" "flow_ok p start blocks" "renamed_ok p start blocks" "evaluates p blocks"
  shows "\<exists>blocks' c. ConstantPropagation first p start blocks = Some (blocks', c) \<and> blocks_inv p start blocks blocks'"
  using PropagateLoop_correct[OF assms(1-3) loop_inv_initial[OF assms(2) assms(4)[unfolded evaluates_def]]]
  unfolding ConstantPropagation_def by blast

text \<open>A conditional jump: the first block writes a constant into the renamed register 1 of register 0
  and starts the second block when register 4 is not zero and the third when it is; both copy
  register 0.\<close>

definition example_program :: FlowProgram where
  "example_program = \<lparr>fp_registerTable = replicate 5 \<lparr>rd_type = RT_Local, rd_width = 8\<rparr>,
     fp_Global = (\<lambda>_. \<lparr>gd_hasInitialValue = False, gd_isConstant = False, gd_initialValue = 0\<rparr>)\<rparr>"

definition example_mov :: "SourceOperand \<Rightarrow> nat \<Rightarrow> FlowOperation" where
  "example_mov s r = \<lparr>fo_op = operation Mov {} [(s, False)] (DstRegister r), fo_successor = None, fo_enqueue = no_enqueue,
     fo_renamingTable = [], fo_reverseRenamingTable = []\<rparr>"

definition example_jump :: "bool \<Rightarrow> nat \<Rightarrow> FlowOperation" where
  "example_jump executionValue s = \<lparr>fo_op = (new_operation Enqueue {} [])\<lparr>op_src := [SrcRegister 4]\<rparr>, fo_successor = Some s,
     fo_enqueue = \<lparr>enq_isPredicated = True, enq_predicateExecutionValue = executionValue\<rparr>,
     fo_renamingTable = [(0, 1)], fo_reverseRenamingTable = [(1, 0)]\<rparr>"

definition example_blocks :: "FlowBlock list" where
  "example_blocks =
     [[example_mov (SrcLiteral \<lparr>l_value = 5, l_width = 8\<rparr>) 1,
       example_jump True 1, example_jump False 2],
      [example_mov (SrcRegister 0) 2], [example_mov (SrcRegister 0) 3]]"

lemma example_ok: "flow_ok example_program 0 example_blocks"
  by (simp add: flow_ok_def registers_ok_def example_program_def example_blocks_def example_mov_def example_jump_def flow_op_ok_def renaming_ok_def
      source_ok_def lit_ok_def is_local_def IsLocalRegisterType_def reg_width_def ConstantGlobal_def new_operation_def nth_Cons split: nat.splits)

lemma example_renamed: "renamed_ok example_program 0 example_blocks"
proof -
  have pos: "is_pos example_blocks b k \<longleftrightarrow> (b, k) \<in> {(0, 0), (0, 1), (0, 2), (1, 0), (2, 0)}" for b k
    by (auto simp: is_pos_def example_blocks_def less_Suc_eq)
  have "edge example_blocks 0 1" "edge example_blocks 0 2"
    unfolding edge_def by (rule exI[of _ 1], simp add: pos, simp add: example_blocks_def example_jump_def)
      (rule exI[of _ 2], simp add: pos, simp add: example_blocks_def example_jump_def)
  then have reached: "(edge example_blocks)\<^sup>*\<^sup>* 0 b" if "b < length example_blocks" for b
    using that by (auto simp: example_blocks_def less_Suc_eq numeral_2_eq_2)
  have wr: "writes example_blocks b k r \<longleftrightarrow> (b, k, r) \<in> {(0, 0, 1), (1, 0, 2), (2, 0, 3)}" for b k r
    unfolding writes_def pos by (auto simp: example_blocks_def example_mov_def example_jump_def new_operation_def)
  have once: "b = b' \<and> k = k'" if "writes example_blocks b k r" "writes example_blocks b' k' r" for b k b' k' r
    using that unfolding wr by auto
  have original: "\<not> writes example_blocks b' k' y"
    if "is_pos example_blocks b k" "(x, y) \<in> set (fo_reverseRenamingTable (example_blocks ! b ! k))" for b k x y b' k'
    using that unfolding pos wr by (auto simp: example_blocks_def example_mov_def example_jump_def)
  show ?thesis
    unfolding renamed_ok_def by (intro conjI allI impI; rule reached original once[THEN conjunct1] once[THEN conjunct2]; assumption)
qed

lemma example_evaluates: "evaluates example_program example_blocks"
  by (simp add: evaluates_def example_blocks_def evaluable_def example_mov_def example_jump_def new_operation_def evaluated_def
      example_program_def eval_operation_in_def Let_def operand_literal_def ShouldSignExtend_operation Resize_def Widen_unfold reg_width_def)

text \<open>Each of the two blocks is started, the second jump being taken on zero.\<close>

lemma example_reach:
  assumes "flow_env example_program env"
  shows "reach example_program 0 example_blocks (if env 4 \<noteq> 0 then 1 else 2) (env(0 := 5, 1 := 5))"
proof -
  let ?e = "env(1 := 5)" and ?fo = "example_mov (SrcLiteral \<lparr>l_value = 5, l_width = 8\<rparr>) 1"
  have env: "flow_env example_program ?e" "flow_env example_program (env(0 := 5, 1 := 5))"
    using assms by (auto simp: flow_env_def env_ok_def example_program_def ConstantGlobal_def)
  have "eval_operation (fp_registerTable example_program) env (fo_op ?fo) = Some 5"
    by (simp add: example_mov_def example_program_def eval_operation_in_def Let_def operand_literal_def ShouldSignExtend_operation
        Resize_def Widen_unfold reg_width_def)
  then have mov: "flow_step example_program ?fo env ?e"
    using env(1) by (simp add: flow_step_def example_mov_def)
  have jump: "flow_step example_program (example_jump v s) ?e ?e" for v s
    using env(1) by (simp add: flow_step_def example_jump_def new_operation_def)
  have "after example_program (example_blocks ! 0) 1 env ?e"
    using mov by (simp add: example_blocks_def)
  moreover have "after example_program (example_blocks ! 0) 2 env ?e"
    using mov jump[of True 1] by (auto simp: example_blocks_def numeral_2_eq_2)
  moreover have "enabled (example_jump v s) ?e = ((env 4 \<noteq> 0) = v)" for v s
    by (simp add: enabled_def example_jump_def)
  moreover have "passes example_program (example_jump v s) ?e (env(0 := 5, 1 := 5))" for v s
    using env(2) by (simp add: passes_def example_jump_def OptionallyMapIndex_def)
  ultimately show ?thesis
    using reach_enqueue[OF reach_start[OF assms], of 0 example_blocks 1 ?e 1] reach_enqueue[OF reach_start[OF assms], of 0 example_blocks 2 ?e 2]
    by (simp add: example_blocks_def example_jump_def)
qed

declare PropagateLoop.simps [code]

text \<open>The pass finds the constant in the second block.\<close>

definition example_result :: "FlowBlock list" where
  "example_result = [hd example_blocks, [example_mov (SrcLiteral \<lparr>l_value = 5, l_width = 8\<rparr>) 2],
     [example_mov (SrcLiteral \<lparr>l_value = 5, l_width = 8\<rparr>) 3]]"

lemma example_run: "ConstantPropagation Min example_program 0 example_blocks = Some (example_result, True)"
  by code_simp

lemma example_rerun: "ConstantPropagation Min example_program 0 example_result = Some (example_result, False)"
  by code_simp

text \<open>C31: Constant propagation returns and keeps what a function does. For a well-formed function
  with renamed registers whose blocks can all be reached, and whichever block of the work list is
  taken first, the loop ends and no assertion fails (the facts about an \<^verbatim>\<open>Enqueue\<close> only grow, and
  no destination is among the known registers); every block is then started with the same
  register values as before, and after each of its operations the same register values are
  possible. Of a conditional jump, the block for a true predicate is started only with register
  values for which it is true, and the other block only with those for which it is false. The last
  hypothesis is that every operation the pass can evaluate has a value, whatever the registers hold:
  it excludes a division or modulus by a register, which the pass would fail to evaluate for a zero,
  and a shift by one that may hold a number beyond the range of the compiler's integers.\<close>

theorem ConstantPropagation_correct:
  assumes "\<And>w. finite w \<Longrightarrow> w \<noteq> {} \<Longrightarrow> first w \<in> w"
    and "flow_ok p start blocks" "renamed_ok p start blocks" "evaluates p blocks"
  shows "\<exists>blocks' c. ConstantPropagation first p start blocks = Some (blocks', c) \<and>
    (\<forall>b env. reach p start blocks' b env \<longleftrightarrow> reach p start blocks b env) \<and>
    (\<forall>b env k e. reach p start blocks b env \<longrightarrow> b < length blocks \<longrightarrow> k \<le> length (blocks ! b) \<longrightarrow>
       (after p (blocks' ! b) k env e \<longleftrightarrow> after p (blocks ! b) k env e))"
  using ConstantPropagation_inv[OF assms] blocks_inv_reach blocks_inv_after by blast

theorem ConstantPropagation_correct_witness:
  "(\<forall>b env. reach example_program 0 example_result b env \<longleftrightarrow> reach example_program 0 example_blocks b env) \<and>
   (\<exists>env. reach example_program 0 example_result 1 env \<and> env 4 = 1) \<and>
   (\<exists>env. reach example_program 0 example_result 2 env \<and> env 4 = 0) \<and> example_result \<noteq> example_blocks"
proof -
  have same: "\<forall>b env. reach example_program 0 example_result b env \<longleftrightarrow> reach example_program 0 example_blocks b env"
    using ConstantPropagation_correct[OF Min_in example_ok example_renamed example_evaluates] by (auto simp: example_run)
  have "flow_env example_program (\<lambda>_. v)" if "v \<in> {0, 1}" for v
    using that by (auto simp: flow_env_def env_ok_def example_program_def ConstantGlobal_def)
  from example_reach[OF this[of 1]] example_reach[OF this[of 0]]
  have "reach example_program 0 example_blocks 1 ((\<lambda>_. 1)(0 := 5, 1 := 5)) \<and> ((\<lambda>_. 1)(0 := 5, 1 := 5)) (4 :: nat) = (1 :: int)"
      "reach example_program 0 example_blocks 2 ((\<lambda>_. 0)(0 := 5, 1 := 5)) \<and> ((\<lambda>_. 0)(0 := 5, 1 := 5)) (4 :: nat) = (0 :: int)"
    by simp_all
  then have "\<exists>env. reach example_program 0 example_blocks 1 env \<and> env 4 = 1" "\<exists>env. reach example_program 0 example_blocks 2 env \<and> env 4 = 0"
    by blast+
  moreover have "example_result \<noteq> example_blocks"
    by (simp add: example_result_def example_blocks_def example_mov_def operation_def PushOperands_def PushOperand_def new_operation_def)
  ultimately show ?thesis using same by simp
qed

text \<open>C32: Constant propagation keeps the form of a function: the result is well-formed, its
  registers are still renamed, each block has as many operations, and every operation has the
  destinations and the successor it had, so the pass and its successors can run again.\<close>

theorem ConstantPropagation_form:
  assumes "\<And>w. finite w \<Longrightarrow> w \<noteq> {} \<Longrightarrow> first w \<in> w"
    and "flow_ok p start blocks" "renamed_ok p start blocks" "evaluates p blocks"
    and "ConstantPropagation first p start blocks = Some (blocks', c)"
  shows "flow_ok p start blocks' \<and> renamed_ok p start blocks' \<and> map length blocks' = map length blocks \<and>
    map (map (\<lambda>fo. (op_dst (fo_op fo), fo_successor fo))) blocks' = map (map (\<lambda>fo. (op_dst (fo_op fo), fo_successor fo))) blocks"
proof -
  have inv: "blocks_inv p start blocks blocks'" using ConstantPropagation_inv[OF assms(1-4)] assms(5) by auto
  have op: "op_dst (fo_op (blocks' ! b ! k)) = op_dst (fo_op (blocks ! b ! k)) \<and> fo_successor (blocks' ! b ! k) = fo_successor (blocks ! b ! k)"
    if "is_pos blocks b k" for b k
    using blocks_invD(3)[OF inv that] unfolding op_keeps_def by blast
  have len: "length blocks' = length blocks" "\<And>b. b < length blocks \<Longrightarrow> length (blocks' ! b) = length (blocks ! b)"
    using inv by (simp_all add: blocks_inv_def)
  have "map (map (\<lambda>fo. (op_dst (fo_op fo), fo_successor fo))) blocks' = map (map (\<lambda>fo. (op_dst (fo_op fo), fo_successor fo))) blocks"
    using len op by (intro nth_equalityI) (auto simp: is_pos_def intro!: nth_equalityI)
  moreover have "map length blocks' = map length blocks" using len by (intro nth_equalityI) auto
  ultimately show ?thesis
    using blocks_inv_flow_ok[OF inv assms(2)] blocks_inv_renamed_ok[OF inv assms(3)] by blast
qed

theorem ConstantPropagation_form_witness: "flow_ok example_program 0 example_result \<and> renamed_ok example_program 0 example_result"
  using ConstantPropagation_form[OF Min_in example_ok example_renamed example_evaluates example_run] by blast

text \<open>C33: When constant propagation reports no change it has left every operation as it was, so
  repeating the optimizations while one reports a change ends with a function none of them
  changes.\<close>

theorem ConstantPropagation_unchanged:
  assumes "ConstantPropagation first p start blocks = Some (blocks', False)"
  shows "blocks' = blocks"
  using assms PropagateLoop_unchanged unfolding ConstantPropagation_def by blast

theorem ConstantPropagation_unchanged_witness:
  "ConstantPropagation Min example_program 0 example_result = Some (example_result, False)"
  using ConstantPropagation_unchanged[OF example_rerun] example_rerun by simp

text \<open>A block no other starts: it writes the literals \<open>x\<close> and \<open>y\<close> and starts itself with the
  second as register 0.\<close>

definition dead_jump :: FlowOperation where
  "dead_jump = \<lparr>fo_op = new_operation Enqueue {} [], fo_successor = Some 1, fo_enqueue = no_enqueue,
     fo_renamingTable = [(0, 2)], fo_reverseRenamingTable = [(2, 0)]\<rparr>"

definition dead_loop :: "Literal \<Rightarrow> Literal \<Rightarrow> FlowBlock list" where
  "dead_loop x y = [[], [example_mov (SrcLiteral x) 1, example_mov (SrcLiteral y) 2, dead_jump]]"

lemma example_mov_folds:
  assumes "lit_ok x" "l_width x = reg_width (fp_registerTable p) r" "is_local p r"
  shows "rewrite_operation p values (example_mov (SrcLiteral x) r) = Some (example_mov (SrcLiteral x) r, map_insert r x values, False)"
proof -
  have x: "\<lparr>l_value = l_value x, l_width = reg_width (fp_registerTable p) r\<rparr> = x" using assms(2) by simp
  show ?thesis
    using assms
    by (auto simp: x rewrite_operation_def example_mov_def SubstituteSource_def FoldConstant_def DestinationValue_def GetLiteral_def
        ShouldSignExtend_operation Resize_def Widen_unfold lit_ok_def take_bit_int_eq_self is_local_def IsGlobalReg_def
        IsLocalRegisterType_def IsLiteralOperand_def)
qed

text \<open>The state before and after the first visit of the block, which passes the two values on.\<close>

definition dead_state :: "RegisterValueMap \<Rightarrow> nat set \<Rightarrow> CPState" where
  "dead_state values W = \<lparr>cp_input = [(1, [((1, 2), values)])], cp_work = W\<rparr>"

lemma dead_loop_visit:
  assumes "lit_ok x" "lit_ok y" "l_width x = reg_width (fp_registerTable p) 1" "l_width y = reg_width (fp_registerTable p) 2"
    and "is_local p 1" "is_local p 2"
  shows "ProcessOperations p 1 0 (dead_loop x y ! 1) [] (dead_state [] W) =
    Some (dead_loop x y ! 1, dead_state [(0, y), (1, x)] (insert 1 W), False)"
proof -
  have mov: "ProcessOperation p q (example_mov (SrcLiteral l) r) values st = Some (example_mov (SrcLiteral l) r, map_insert r l values, st, False)"
    if "lit_ok l" "l_width l = reg_width (fp_registerTable p) r" "is_local p r" "map_of values r = None" for l r q "values" st
    using that(4) example_mov_folds[OF that(1-3)]
    by (simp add: ProcessOperation_eq PropagateToSuccessor_def fresh_dst_def) (simp add: example_mov_def)
  have jump: "ProcessOperation p (1, 2) dead_jump [(1, x), (2, y)] (dead_state [] W) =
      Some (dead_jump, [(1, x), (2, y)], dead_state [(0, y), (1, x)] (insert 1 W), False)"
    by (simp add: ProcessOperation_eq PropagateToSuccessor_def dead_jump_def ValuesForSuccessor_def MapRenamedToOriginalRegisterIndex_def
        OptionallyMapIndex_def new_operation_def dead_state_def SafeLookup_def Equal_def IsSuperSet_def fresh_dst_def
        rewrite_operation_def FoldConstant_def)
  show ?thesis
    using assms jump by (simp add: dead_loop_def mov numeral_2_eq_2)
qed

lemma dead_loop_assertion:
  "ProcessOperations p 1 0 (dead_loop x y ! 1) [(0, y), (1, x)] st = None"
  by (simp add: dead_loop_def ProcessOperation_eq PropagateToSuccessor_def fresh_dst_def)
    (simp add: example_mov_def)

text \<open>C35: The assertion that no destination is among the known registers fails in a loop that the
  first block of the function does not reach. Whatever the two literals are and whichever block the
  work list gives first, the pass comes back to the block with the value \<open>x\<close> of the register that
  its first operation writes among the known values; propagation to successors and the rewriting of
  this operation would succeed, and the assertion between them fails. That every block can be
  reached is what C31 needs.\<close>

theorem ConstantPropagation_unreachable_loop:
  assumes "\<And>w. finite w \<Longrightarrow> w \<noteq> {} \<Longrightarrow> first w \<in> w"
    and "flow_ok p 0 (dead_loop x y)" "is_local p 1" "is_local p 2"
    and "l_width x = reg_width (fp_registerTable p) 1" "l_width y = reg_width (fp_registerTable p) 2"
  defines "blocks \<equiv> dead_loop x y" and "fo \<equiv> dead_loop x y ! 1 ! 0"
  shows "\<not> (edge blocks)\<^sup>*\<^sup>* 0 1 \<and> ConstantPropagation first p 0 blocks = None \<and>
    (\<exists>st. ConstantPropagation first p 0 blocks = PropagateLoop first p 0 blocks st False \<and>
       cp_work st \<noteq> {} \<and> first (cp_work st) = 1 \<and>
       (let known = EntryValues (1 = (0 :: nat)) (LookupWithDefault (cp_input st) 1 []) in
          op_dst (fo_op fo) = [DstRegister 1] \<and> map_of known 1 = Some x \<and>
          (\<forall>st'. PropagateToSuccessor (1, 0) fo known st' = Some st') \<and>
          (\<exists>result. rewrite_operation p known fo = Some result)))"
proof -
  let ?known = "[(0, y), (1, x)] :: RegisterValueMap" and ?run = "PropagateLoop first p 0 (dead_loop x y)"
  have lits: "lit_ok x" "lit_ok y"
    using assms(2) by (auto simp: flow_ok_def dead_loop_def flow_op_ok_def example_mov_def) (simp_all add: source_ok_def)
  note visit = dead_loop_visit[OF lits assms(5,6,3,4)]
  have start: "ConstantPropagation first p 0 (dead_loop x y) = ?run (dead_state [] {0, 1}) False"
  proof -
    have "{..<length (dead_loop x y)} = {0, 1}" by (auto simp: dead_loop_def)
    moreover have "InitialInput (dead_loop x y) = [(1, [((1, 2), [])])]"
      by (simp add: InitialInput_def dead_loop_def example_mov_def dead_jump_def LookupWithDefault_def upt_rec numeral_2_eq_2)
    ultimately show ?thesis by (simp add: ConstantPropagation_def dead_state_def)
  qed
  have same: "(dead_loop x y)[b := dead_loop x y ! b] = dead_loop x y" for b by simp
  have step1: "?run (dead_state [] W) False = ?run (dead_state ?known (insert 1 (W - {1}))) False" if "W \<noteq> {}" "first W = 1" for W
    using that visit[of "W - {1}"] same[of 1]
    by (subst PropagateLoop.simps) (simp add: dead_state_def EntryValues_def LookupWithDefault_def)
  have step0: "?run (dead_state [] W) False = ?run (dead_state [] (W - {0})) False" if "W \<noteq> {}" "first W = 0" for W
    using that same[of 0]
    by (subst PropagateLoop.simps) (simp add: dead_state_def EntryValues_def dead_loop_def)
  have "first {0, 1} = 0 \<or> first {0, 1} = 1" "first {1} = 1" using assms(1)[of "{0, 1}"] assms(1)[of "{1}"] by auto
  then obtain W where W: "ConstantPropagation first p 0 (dead_loop x y) = ?run (dead_state ?known W) False" "W \<noteq> {}" "first W = 1"
    using start step1[of "{0, 1}"] step0[of "{0, 1}"] step1[of "{1}"] by (auto simp: insert_commute)
  have entry: "EntryValues (1 = (0 :: nat)) (LookupWithDefault (cp_input (dead_state ?known W)) 1 []) = ?known"
    by (simp add: dead_state_def EntryValues_def LookupWithDefault_def)
  have "?run (dead_state ?known W) False = None"
    using W(2,3) dead_loop_assertion[of p x y] entry
    by (subst PropagateLoop.simps) (simp add: dead_state_def)
  moreover have "\<not> edge (dead_loop x y) 0 b" for b by (simp add: edge_def is_pos_def dead_loop_def)
  then have "\<not> (edge (dead_loop x y))\<^sup>*\<^sup>* 0 1" by (metis converse_rtranclpE zero_neq_one)
  moreover have "op_dst (fo_op fo) = [DstRegister 1] \<and> PropagateToSuccessor (1, 0) fo ?known st' = Some st'" for st'
    by (simp add: fo_def dead_loop_def PropagateToSuccessor_def example_mov_def)
  moreover have "\<exists>result. rewrite_operation p ?known fo = Some result"
    using example_mov_folds[OF lits(1) assms(5,3), of ?known] unfolding fo_def dead_loop_def by auto
  ultimately show ?thesis
    unfolding blocks_def using W by (intro conjI exI[of _ "dead_state ?known W"]) (simp_all add: entry[unfolded Let_def] Let_def dead_state_def EntryValues_def LookupWithDefault_def)
qed

theorem ConstantPropagation_unreachable_loop_witness:
  "ConstantPropagation Min example_program 0 (dead_loop \<lparr>l_value = 5, l_width = 8\<rparr> \<lparr>l_value = 6, l_width = 8\<rparr>) = None"
proof -
  have ok: "flow_ok example_program 0 (dead_loop \<lparr>l_value = 5, l_width = 8\<rparr> \<lparr>l_value = 6, l_width = 8\<rparr>)"
    by (simp add: flow_ok_def registers_ok_def example_program_def dead_loop_def dead_jump_def example_mov_def flow_op_ok_def renaming_ok_def
        source_ok_def lit_ok_def is_local_def IsLocalRegisterType_def reg_width_def ConstantGlobal_def new_operation_def nth_Cons split: nat.splits)
  have local: "is_local example_program 1" "is_local example_program 2"
    by (simp_all add: is_local_def IsLocalRegisterType_def example_program_def)
  show ?thesis
    by (rule ConstantPropagation_unreachable_loop[THEN conjunct2, THEN conjunct1, OF Min_in ok local])
      (simp_all add: reg_width_def example_program_def)
qed

end
