(* ===== verification/Common_Subexpressions.thy ===== *)
theory Common_Subexpressions
  imports Constant_Folding Decompose_Select
begin

text \<open>
  Elimination of common subexpressions (\<^verbatim>\<open>CommonSubexpressionElimination\<close> of \<^verbatim>\<open>optimize.cpp\<close>): an
  operation that computes what an earlier one of its block has computed becomes a move of the
  earlier result. Operations are found by a hash and compared operand by operand; lookup tables
  are compared up to a permutation of their columns. Every run of a rewritten block is one of the
  original.
\<close>

subsection \<open>Hash of an operation\<close>

text \<open>The number of an opcode in \<^verbatim>\<open>enum class Opcode\<close>.\<close>

definition opcode_index :: "Opcode \<Rightarrow> nat" where
  "opcode_index opcode = (case opcode of
     Mov \<Rightarrow> 0 | MovCrossFunction \<Rightarrow> 1 | Clear \<Rightarrow> 2 | UnaryOp _ \<Rightarrow> 3 | BinaryOp _ \<Rightarrow> 4 | BeginAtomic \<Rightarrow> 5
   | EndAtomic \<Rightarrow> 6 | Assert \<Rightarrow> 7 | Enqueue \<Rightarrow> 8 | Select \<Rightarrow> 9 | WriteGlobal \<Rightarrow> 10 | Print \<Rightarrow> 11 | Gather _ \<Rightarrow> 12
   | StoreMemory \<Rightarrow> 13 | LoadMemory \<Rightarrow> 14 | BypassMemory \<Rightarrow> 15 | AcquireSemaphore \<Rightarrow> 16 | ReleaseSemaphore \<Rightarrow> 17
   | CallAtomic \<Rightarrow> 18 | AtomicReturn \<Rightarrow> 19 | FanOut \<Rightarrow> 20 | Stage \<Rightarrow> 21 | StartCondition \<Rightarrow> 22 | CycleCounter \<Rightarrow> 23
   | MovLatencyPlaceholder \<Rightarrow> 24 | LineNumber \<Rightarrow> 25 | Lut _ \<Rightarrow> 26 | InlineExternalModule \<Rightarrow> 27 | ReadSelectedFifo \<Rightarrow> 28
   | ExternalPlaceholder \<Rightarrow> 29 | DebugView \<Rightarrow> 30 | EnqueueRegisters \<Rightarrow> 31 | DequeueRegisters \<Rightarrow> 32 | PushPredicate \<Rightarrow> 33
   | PopPredicate \<Rightarrow> 34 | StallCheck \<Rightarrow> 35 | LocationRecord \<Rightarrow> 36 | ConditionalIgnore \<Rightarrow> 37 | FormatString \<Rightarrow> 38
   | FormatEnum \<Rightarrow> 39 | ReferenceString \<Rightarrow> 40 | AssertStringEqual \<Rightarrow> 41 | StringCount \<Rightarrow> 42 | NoOp \<Rightarrow> 43)"

definition source_type :: "SourceOperand \<Rightarrow> nat" where
  "source_type s = (case s of SrcLiteral _ \<Rightarrow> 0 | SrcRegister _ \<Rightarrow> 1 | SrcFifo _ \<Rightarrow> 2 | SrcStringLiteral _ \<Rightarrow> 3)"

fun string_less :: "string \<Rightarrow> string \<Rightarrow> bool" where
  "string_less _ [] = False"
| "string_less [] (_ # _) = True"
| "string_less (a # as) (b # bs) \<longleftrightarrow> (of_char a :: nat) < of_char b \<or> a = b \<and> string_less as bs"

definition SourceOperand_less :: "SourceOperand \<Rightarrow> SourceOperand \<Rightarrow> bool" where
  "SourceOperand_less lhs rhs \<longleftrightarrow> source_type lhs < source_type rhs \<or> (case (lhs, rhs) of
       (SrcRegister r, SrcRegister r') \<Rightarrow> r < r'
     | (SrcLiteral l, SrcLiteral l') \<Rightarrow> l_value l < l_value l' \<or> l_value l = l_value l' \<and> l_width l < l_width l'
     | (SrcFifo f, SrcFifo f') \<Rightarrow> fs_registerIndex f < fs_registerIndex f' \<or> fs_registerIndex f = fs_registerIndex f' \<and>
         (fs_offset f < fs_offset f' \<or> fs_offset f = fs_offset f' \<and> fs_width f < fs_width f')
     | (SrcStringLiteral s, SrcStringLiteral s') \<Rightarrow> string_less s s'
     | _ \<Rightarrow> False)"

text \<open>\<^verbatim>\<open>std::sort\<close>: elements that are not ordered are equal, so there is one result.\<close>

definition sort_operands :: "SourceOperand list \<Rightarrow> SourceOperand list" where
  "sort_operands xs =
     foldr (\<lambda>x ys. takeWhile (\<lambda>y. SourceOperand_less y x) ys @ x # dropWhile (\<lambda>y. SourceOperand_less y x) ys) xs []"

text \<open>\<^verbatim>\<open>boost::hash_combine\<close> of a multi-precision number and of a \<^verbatim>\<open>size_t\<close> are parameters.\<close>

record HashFunctions =
  hash_mp :: "nat \<Rightarrow> int \<Rightarrow> nat"
  hash_size :: "nat \<Rightarrow> nat \<Rightarrow> nat"

definition hashOperands :: "HashFunctions \<Rightarrow> SourceOperand list \<Rightarrow> nat \<Rightarrow> nat option" where
  "hashOperands h srcOperands currHashValue = fold_opt (\<lambda>src value. case src of
       SrcLiteral l \<Rightarrow> Some (hash_mp h value (l_value l))
     | SrcRegister r \<Rightarrow> Some (hash_size h value r)
     | SrcFifo f \<Rightarrow> Some (hash_size h value (fs_registerIndex f))
     | SrcStringLiteral _ \<Rightarrow> None) srcOperands currHashValue"

definition OperationHash :: "HashFunctions \<Rightarrow> Operation \<Rightarrow> nat option" where
  "OperationHash h op = (let result = opcode_index (op_opcode op) in case op_opcode op of
     Lut lutEntries \<Rightarrow> do {
       result \<leftarrow> hashOperands h (sort_operands (op_src op)) result;
       Some (fold (\<lambda>le result. hash_size h result (le_numSources le)) lutEntries result) }
   | _ \<Rightarrow> hashOperands h (op_src op) result)"

subsection \<open>Comparison of operations\<close>

text \<open>A loop that returns false at the first element that fails.\<close>

fun all_opt :: "('a \<Rightarrow> bool option) \<Rightarrow> 'a list \<Rightarrow> bool option" where
  "all_opt f [] = Some True"
| "all_opt f (x # xs) = do { b \<leftarrow> f x; if b then all_opt f xs else Some False }"

definition getRegAndBit :: "Operation \<Rightarrow> LutEntry \<Rightarrow> nat \<Rightarrow> (nat \<times> nat) option" where
  "getRegAndBit op le sourceIndex = do {
     _ \<leftarrow> assert_that (sourceIndex < c_maxLutSources);
     let (operand, sourceBit) = le_sources le ! sourceIndex;
     _ \<leftarrow> assert_that (operand < length (op_src op));
     r \<leftarrow> GetAccessedRegister (op_src op ! operand);
     Some (r, sourceBit) }"

text \<open>The column of the second table with the register and bit of a column of the first; no value
  when there is none.\<close>

definition EquivalentColumn :: "Operation \<Rightarrow> Operation \<Rightarrow> LutEntry \<Rightarrow> LutEntry \<Rightarrow> nat \<Rightarrow> nat option option" where
  "EquivalentColumn op1 op2 le1 le2 sourceIndex1 = do {
     regAndBit1 \<leftarrow> getRegAndBit op1 le1 sourceIndex1;
     fold_opt (\<lambda>sourceIndex2 found. do {
         regAndBit2 \<leftarrow> getRegAndBit op2 le2 sourceIndex2;
         if regAndBit1 = regAndBit2 then do { _ \<leftarrow> assert_that (found = None); Some (Some sourceIndex2) }
         else Some found })
       [0..<le_numSources le1] None }"

fun OperandMap :: "Operation \<Rightarrow> Operation \<Rightarrow> LutEntry \<Rightarrow> LutEntry \<Rightarrow> nat list \<Rightarrow> nat list \<Rightarrow> nat list option option" where
  "OperandMap op1 op2 le1 le2 [] operandMap = Some (Some operandMap)"
| "OperandMap op1 op2 le1 le2 (sourceIndex1 # rest) operandMap = do {
     found \<leftarrow> EquivalentColumn op1 op2 le1 le2 sourceIndex1;
     (case found of
        None \<Rightarrow> Some None
      | Some sourceIndex2 \<Rightarrow> OperandMap op1 op2 le1 le2 rest (operandMap @ [sourceIndex2])) }"

definition PermutedRow :: "nat list \<Rightarrow> nat \<Rightarrow> nat" where
  "PermutedRow operandMap truthTableRow1 =
     fold (\<lambda>sourceIndex1 truthTableRow2.
         if bit_at truthTableRow1 sourceIndex1 then truthTableRow2 OR push_bit (operandMap ! sourceIndex1) 1 else truthTableRow2)
       [0..<length operandMap] 0"

definition EntriesProduceSameResult :: "Operation \<Rightarrow> Operation \<Rightarrow> LutEntry \<Rightarrow> LutEntry \<Rightarrow> bool option" where
  "EntriesProduceSameResult op1 op2 le1 le2 =
     (if le_numSources le1 \<noteq> le_numSources le2 then Some False
      else do {
        tableSize \<leftarrow> TableSize le1;
        found \<leftarrow> OperandMap op1 op2 le1 le2 [0..<le_numSources le1] [];
        (case found of
           None \<Rightarrow> Some False
         | Some operandMap \<Rightarrow> all_opt (\<lambda>truthTableRow1. do {
               b1 \<leftarrow> GetTableEntry le1 truthTableRow1;
               b2 \<leftarrow> GetTableEntry le2 (PermutedRow operandMap truthTableRow1);
               Some (b1 = b2) }) [0..<tableSize]) })"

definition LutOperationsProduceSameResult :: "Operation \<Rightarrow> Operation \<Rightarrow> bool option" where
  "LutOperationsProduceSameResult op1 op2 = (case (op_opcode op1, op_opcode op2) of
     (Lut lut1, Lut lut2) \<Rightarrow> do {
       _ \<leftarrow> assert_that (op_signExtendSourceMask op1 = 0);
       _ \<leftarrow> assert_that (op_signExtendSourceMask op2 = 0);
       if length lut1 \<noteq> length lut2 then Some False
       else all_opt (\<lambda>destIndex. EntriesProduceSameResult op1 op2 (lut1 ! destIndex) (lut2 ! destIndex)) [0..<length lut1] }
   | _ \<Rightarrow> None)"

definition SameFlags :: "Opcode \<Rightarrow> Opcode \<Rightarrow> bool option" where
  "SameFlags opcode1 opcode2 = (case opcode1 of
     Mov \<Rightarrow> Some True
   | Select \<Rightarrow> Some True
   | UnaryOp t \<Rightarrow> Some (opcode2 = UnaryOp t)
   | BinaryOp t \<Rightarrow> Some (opcode2 = BinaryOp t)
   | Gather es \<Rightarrow> Some (opcode2 = Gather es)
   | _ \<Rightarrow> None)"

definition SameOperand :: "SourceOperand \<times> SourceOperand \<Rightarrow> bool option" where
  "SameOperand ss = (case ss of
     (SrcLiteral l, SrcLiteral l') \<Rightarrow> Some (l = l')
   | (SrcRegister r, SrcRegister r') \<Rightarrow> Some (r = r')
   | (SrcFifo f, SrcFifo f') \<Rightarrow> Some (f = f')
   | (SrcStringLiteral _, SrcStringLiteral _) \<Rightarrow> None
   | _ \<Rightarrow> Some False)"

definition OperationsProduceSameResult :: "RegisterTable \<Rightarrow> Operation \<Rightarrow> Operation \<Rightarrow> bool option" where
  "OperationsProduceSameResult rt op1 op2 =
     (if opcode_index (op_opcode op1) \<noteq> opcode_index (op_opcode op2) then Some False
      else if length (op_src op1) \<noteq> length (op_src op2) then Some False
      else if length (op_dst op1) \<noteq> length (op_dst op2) then Some False
      else if \<not> list_all2 (\<lambda>d1 d2. DestinationOperand_Width rt d1 = DestinationOperand_Width rt d2) (op_dst op1) (op_dst op2) then Some False
      else if IsLut op1 then LutOperationsProduceSameResult op1 op2
      else if op_signExtendSourceMask op1 \<noteq> op_signExtendSourceMask op2 then Some False
      else do {
        flags \<leftarrow> SameFlags (op_opcode op1) (op_opcode op2);
        if \<not> flags then Some False
        else all_opt SameOperand (zip (op_src op1) (op_src op2)) })"

subsection \<open>The pass\<close>

text \<open>The column \<^verbatim>\<open>_commonSubexpression\<close> of \<^verbatim>\<open>g_opcodeTable\<close>.\<close>

definition DoesOpcodeSupportCommonSubexpressionElimination :: "Opcode \<Rightarrow> bool" where
  "DoesOpcodeSupportCommonSubexpressionElimination opcode \<longleftrightarrow> (case opcode of
     Mov \<Rightarrow> True | UnaryOp _ \<Rightarrow> True | BinaryOp _ \<Rightarrow> True | Select \<Rightarrow> True | Gather _ \<Rightarrow> True | Lut _ \<Rightarrow> True
   | _ \<Rightarrow> False)"

definition doesOpSupportCSE :: "RegisterTable \<Rightarrow> bool \<Rightarrow> Operation \<Rightarrow> bool" where
  "doesOpSupportCSE rt transformLuts op \<longleftrightarrow>
     DoesOpcodeSupportCommonSubexpressionElimination (op_opcode op) \<and>
     \<not> (IsLut op \<and> \<not> transformLuts) \<and>
     \<not> (op_opcode op = Mov \<and>
        (DestinationOperand_Width rt (op_dst op ! 0) = SourceOperand_Width rt (op_src op ! 0) \<or> \<not> IsRegisterOperand (op_src op ! 0))) \<and>
     OperationUsesOnlyLocalReg rt op"

text \<open>\<^verbatim>\<open>std::find_if\<close> over the candidates.\<close>

fun find_opt :: "('a \<Rightarrow> bool option) \<Rightarrow> 'a list \<Rightarrow> 'a option option" where
  "find_opt f [] = Some None"
| "find_opt f (x # xs) = do { b \<leftarrow> f x; if b then Some (Some x) else find_opt f xs }"

text \<open>The operations of a block are named by their positions; \<open>cse_operationMap\<close> is \<^verbatim>\<open>operationMap\<close>.\<close>

record CSEState =
  cse_operations :: FlowBlock
  cse_operationMap :: "(nat, nat list) smap"
  cse_didChangeIR :: bool

definition CSEOperation :: "HashFunctions \<Rightarrow> RegisterTable \<Rightarrow> bool \<Rightarrow> nat \<Rightarrow> CSEState \<Rightarrow> CSEState option" where
  "CSEOperation h rt transformLuts k st = (let op = fo_op (cse_operations st ! k) in case op_dst op of
     [DstRegister dstReg] \<Rightarrow>
       if \<not> doesOpSupportCSE rt transformLuts op then Some st
       else do {
         hash \<leftarrow> OperationHash h op;
         let candidateList = LookupWithDefault (cse_operationMap st) hash [];
         it \<leftarrow> find_opt (\<lambda>candidate. OperationsProduceSameResult rt op (fo_op (cse_operations st ! candidate))) candidateList;
         (case it of
            Some candidate \<Rightarrow> do {
              let candidateOp = cse_operations st ! candidate;
              candidateReg \<leftarrow> (case op_dst (fo_op candidateOp) of DstRegister r # _ \<Rightarrow> Some r | _ \<Rightarrow> None);
              let newOp = \<lparr>fo_op = operation Mov (op_locations op) [(SrcRegister candidateReg, False)] (DstRegister dstReg),
                    fo_successor = None, fo_enqueue = no_enqueue, fo_renamingTable = [], fo_reverseRenamingTable = []\<rparr>;
              let candidateOp = candidateOp\<lparr>fo_op := (fo_op candidateOp)\<lparr>op_locations := op_locations (fo_op candidateOp) \<union> op_locations op\<rparr>\<rparr>;
              Some (st\<lparr>cse_operations := (cse_operations st)[candidate := candidateOp, k := newOp], cse_didChangeIR := True\<rparr>) }
          | None \<Rightarrow> Some (st\<lparr>cse_operationMap := map_insert hash (candidateList @ [k]) (cse_operationMap st)\<rparr>)) }
   | _ \<Rightarrow> Some st)"

definition CSEBlock :: "HashFunctions \<Rightarrow> RegisterTable \<Rightarrow> bool \<Rightarrow> FlowBlock \<Rightarrow> (FlowBlock \<times> bool) option" where
  "CSEBlock h rt transformLuts block = do {
     st \<leftarrow> fold_opt (CSEOperation h rt transformLuts) [0..<length block]
       \<lparr>cse_operations = block, cse_operationMap = [], cse_didChangeIR = False\<rparr>;
     Some (cse_operations st, cse_didChangeIR st) }"

definition CommonSubexpressionElimination ::
  "HashFunctions \<Rightarrow> RegisterTable \<Rightarrow> bool \<Rightarrow> FlowBlock list \<Rightarrow> (FlowBlock list \<times> bool) option" where
  "CommonSubexpressionElimination h rt transformLuts blocks = do {
     results \<leftarrow> map_opt (CSEBlock h rt transformLuts) blocks;
     Some (map fst results, list_ex snd results) }"

subsection \<open>Permuted lookup tables\<close>

lemma all_opt_total:
  assumes "\<And>x. x \<in> set xs \<Longrightarrow> f x \<noteq> None"
  shows "all_opt f xs = Some (\<forall>x \<in> set xs. f x = Some True)"
  using assms
proof (induction xs)
  case (Cons x xs)
  then obtain b where "f x = Some b" by fastforce
  with Cons show ?case by (cases b) auto
qed simp

text \<open>The register and bit each column of a table reads.\<close>

definition reg_columns :: "Operation \<Rightarrow> LutEntry \<Rightarrow> (nat \<times> nat) list" where
  "reg_columns op le = map (\<lambda>(i, b). (the (GetAccessedRegister (op_src op ! i)), b)) (le_sources le)"

definition columns_ok :: "Operation \<Rightarrow> LutEntry \<Rightarrow> bool" where
  "columns_ok op le \<longleftrightarrow> entry_ok (length (op_src op)) le \<and> list_all IsRegisterOperand (op_src op) \<and> distinct (reg_columns op le)"

lemma getRegAndBit_eq:
  assumes "columns_ok op le" "i < le_numSources le"
  shows "getRegAndBit op le i = Some (reg_columns op le ! i)"
proof -
  obtain s b where sb: "le_sources le ! i = (s, b)" by (cases "le_sources le ! i")
  then have "(s, b) \<in> set (le_sources le)" using assms(2) by (metis nth_mem)
  then have s: "s < length (op_src op)" and n: "le_numSources le \<le> c_maxLutSources"
    using assms(1) by (auto simp: columns_ok_def entry_ok_def)
  then have "IsRegisterOperand (op_src op ! s)" using assms(1) by (simp add: columns_ok_def list_all_length)
  then obtain r where "op_src op ! s = SrcRegister r" by (cases "op_src op ! s") (auto simp: IsRegisterOperand_def)
  with sb s n assms(2) show ?thesis by (simp add: getRegAndBit_def reg_columns_def GetAccessedRegister_def)
qed

lemma EquivalentColumn_correct:
  assumes "columns_ok op1 le1" "columns_ok op2 le2" "le_numSources le1 = le_numSources le2" "i < le_numSources le1"
  shows "\<exists>found. EquivalentColumn op1 op2 le1 le2 i = Some found \<and>
    (\<forall>j. found = Some j \<longrightarrow> j < le_numSources le1 \<and> reg_columns op2 le2 ! j = reg_columns op1 le1 ! i)"
proof -
  let ?c = "reg_columns op1 le1 ! i" and ?cols = "reg_columns op2 le2"
  let ?step = "\<lambda>j found. do {
      regAndBit2 \<leftarrow> getRegAndBit op2 le2 j;
      if ?c = regAndBit2 then do { _ \<leftarrow> assert_that (found = None); Some (Some j) } else Some found }"
  have "\<exists>found. fold_opt ?step [0..<m] None = Some found \<and> (\<forall>j. found = Some j \<longrightarrow> j < m \<and> ?cols ! j = ?c)"
    if "m \<le> le_numSources le1" for m
    using that
  proof (induction m)
    case (Suc m)
    then obtain found where found: "fold_opt ?step [0..<m] None = Some found" "\<forall>j. found = Some j \<longrightarrow> j < m \<and> ?cols ! j = ?c"
      by auto
    have get: "getRegAndBit op2 le2 m = Some (?cols ! m)" using assms(2,3) Suc.prems by (intro getRegAndBit_eq) auto
    have len: "length ?cols = le_numSources le1" by (simp add: reg_columns_def assms(3))
    show ?case
    proof (cases "?c = ?cols ! m")
      case True
      have "found = None"
      proof (rule ccontr)
        assume "found \<noteq> None"
        then obtain j where "j < m" "?cols ! j = ?cols ! m" using found(2) True by auto
        then show False using assms(2) Suc.prems len by (auto simp: columns_ok_def nth_eq_iff_index_eq)
      qed
      then show ?thesis using found(1) get True by (simp add: less_Suc_eq)
    next
      case False
      then show ?thesis using found get by auto
    qed
  qed simp
  from this[of "le_numSources le1"] show ?thesis
    using getRegAndBit_eq[OF assms(1,4)] by (simp add: EquivalentColumn_def)
qed

lemma OperandMap_correct:
  assumes "columns_ok op1 le1" "columns_ok op2 le2" "le_numSources le1 = le_numSources le2" "k \<le> le_numSources le1" "length m = k"
    and "\<And>i. i < k \<Longrightarrow> m ! i < le_numSources le1 \<and> reg_columns op2 le2 ! (m ! i) = reg_columns op1 le1 ! i"
  shows "\<exists>found. OperandMap op1 op2 le1 le2 [k..<le_numSources le1] m = Some found \<and>
    (\<forall>m'. found = Some m' \<longrightarrow> length m' = le_numSources le1 \<and>
       (\<forall>i < le_numSources le1. m' ! i < le_numSources le1 \<and> reg_columns op2 le2 ! (m' ! i) = reg_columns op1 le1 ! i))"
  using assms(4-6)
proof (induction "le_numSources le1 - k" arbitrary: k m)
  case (Suc d)
  then have k: "k < le_numSources le1" and d: "d = le_numSources le1 - Suc k" by simp_all
  from EquivalentColumn_correct[OF assms(1-3) k] obtain found where
    found: "EquivalentColumn op1 op2 le1 le2 k = Some found"
      "\<forall>j. found = Some j \<longrightarrow> j < le_numSources le1 \<and> reg_columns op2 le2 ! j = reg_columns op1 le1 ! k" by blast
  show ?case
  proof (cases found)
    case None
    then show ?thesis using found(1) k by (simp add: upt_conv_Cons)
  next
    case (Some j)
    have "\<exists>found. OperandMap op1 op2 le1 le2 [Suc k..<le_numSources le1] (m @ [j]) = Some found \<and>
      (\<forall>m'. found = Some m' \<longrightarrow> length m' = le_numSources le1 \<and>
         (\<forall>i < le_numSources le1. m' ! i < le_numSources le1 \<and> reg_columns op2 le2 ! (m' ! i) = reg_columns op1 le1 ! i))"
      using Suc.prems k found(2) Some by (intro Suc.hyps(1)[OF d]) (auto simp: nth_append less_Suc_eq)
    then show ?thesis using found(1) k Some by (simp add: upt_conv_Cons)
  qed
qed simp

lemma bit_PermutedRow: "bit (PermutedRow m row) j \<longleftrightarrow> (\<exists>i < length m. bit row i \<and> m ! i = j)"
proof -
  have "bit (fold (\<lambda>i row2. if bit_at row i then row2 OR push_bit (m ! i) 1 else row2) [0..<n] (0::nat)) j \<longleftrightarrow>
      (\<exists>i < n. bit row i \<and> m ! i = j)" for n
    by (induction n) (auto simp: bit_or_iff bit_exp_iff less_Suc_eq)
  then show ?thesis by (simp add: PermutedRow_def)
qed

lemma nat_bits_less: "(\<And>j. bit (x::nat) j \<Longrightarrow> j < n) \<Longrightarrow> x < 2 ^ n"
  by (metis bit_eqI bit_take_bit_iff take_bit_nat_less_exp)

lemma PermutedRow_less: "(\<And>i. i < length m \<Longrightarrow> m ! i < n) \<Longrightarrow> PermutedRow m row < 2 ^ n"
  by (rule nat_bits_less) (auto simp: bit_PermutedRow)

text \<open>The second table reads the permuted row when the first reads a row.\<close>

lemma PermutedRow_tableRowIndex:
  assumes "columns_ok op1 le1" "columns_ok op2 le2" "le_numSources le1 = le_numSources le2" "length m = le_numSources le1"
    and "\<And>i. i < le_numSources le1 \<Longrightarrow> m ! i < le_numSources le1 \<and> reg_columns op2 le2 ! (m ! i) = reg_columns op1 le1 ! i"
  shows "PermutedRow m (tableRowIndex (src_values env op1) le1) = tableRowIndex (src_values env op2) le2"
proof (rule bit_eqI)
  fix j
  let ?n = "le_numSources le1"
  have col: "bit (src_values env op (fst (le_sources le ! i))) (snd (le_sources le ! i)) =
      bit (env (fst (reg_columns op le ! i))) (snd (reg_columns op le ! i))"
    if "columns_ok op le" "i < le_numSources le" for op le i
  proof -
    obtain s b where sb: "le_sources le ! i = (s, b)" by (cases "le_sources le ! i")
    then have "s < length (op_src op)" using that nth_mem[OF that(2)] by (auto simp: columns_ok_def entry_ok_def)
    then have "IsRegisterOperand (op_src op ! s)" using that(1) by (simp add: columns_ok_def list_all_length)
    then obtain r where "op_src op ! s = SrcRegister r" by (cases "op_src op ! s") (auto simp: IsRegisterOperand_def)
    with sb that(2) show ?thesis by (simp add: reg_columns_def GetAccessedRegister_def operand_value_def)
  qed
  have inj: "inj_on ((!) m) {..<?n}"
  proof (rule inj_onI)
    fix i i' assume i: "i \<in> {..<?n}" "i' \<in> {..<?n}" "m ! i = m ! i'"
    then have "reg_columns op1 le1 ! i = reg_columns op1 le1 ! i'" using assms(5)[of i] assms(5)[of i'] by simp
    moreover have "length (reg_columns op1 le1) = ?n" by (simp add: reg_columns_def)
    ultimately show "i = i'" using i assms(1) by (simp add: columns_ok_def nth_eq_iff_index_eq)
  qed
  have "(!) m ` {..<?n} \<subseteq> {..<?n}" using assms(5) by auto
  then have surj: "(!) m ` {..<?n} = {..<?n}" using inj by (intro endo_inj_surj) auto
  let ?r1 = "tableRowIndex (src_values env op1) le1" and ?r2 = "tableRowIndex (src_values env op2) le2"
  have same: "bit ?r1 i = bit ?r2 (m ! i)" if "i < ?n" for i
    using that assms(3,5) col[OF assms(1) that] col[OF assms(2), of "m ! i"] by simp
  have from2: "\<exists>i < ?n. bit ?r1 i \<and> m ! i = j" if bit2: "bit ?r2 j"
  proof -
    have "j < ?n" using bit2 assms(3) by simp
    then have "j \<in> (!) m ` {..<?n}" using surj by simp
    then obtain i where "i < ?n" "m ! i = j" by auto
    then show ?thesis using same[of i] bit2 by auto
  qed
  show "bit (PermutedRow m ?r1) j = bit ?r2 j"
    unfolding bit_PermutedRow assms(4) using same from2 by blast
qed

lemma EntriesProduceSameResult_correct:
  assumes "columns_ok op1 le1" "columns_ok op2 le2"
  shows "\<exists>b. EntriesProduceSameResult op1 op2 le1 le2 = Some b \<and>
    (b \<longrightarrow> (\<forall>env. entry_value (src_values env op1) le1 = entry_value (src_values env op2) le2))"
proof (cases "le_numSources le1 = le_numSources le2")
  case True
  let ?n = "le_numSources le1"
  have n: "?n \<le> c_maxLutSources" using assms(1) by (simp add: columns_ok_def entry_ok_def)
  then have size: "TableSize le1 = Some (2 ^ ?n)" "TableSize le2 = Some (2 ^ ?n)" using True by (simp_all add: TableSize_def)
  from OperandMap_correct[OF assms True, of 0 "[]"] obtain found where
    found: "OperandMap op1 op2 le1 le2 [0..<?n] [] = Some found"
      "\<And>m. found = Some m \<Longrightarrow> length m = ?n \<and> (\<forall>i < ?n. m ! i < ?n \<and> reg_columns op2 le2 ! (m ! i) = reg_columns op1 le1 ! i)"
    by auto
  show ?thesis
  proof (cases found)
    case None
    then show ?thesis using True found(1) size by (intro exI[of _ False]) (simp add: EntriesProduceSameResult_def)
  next
    case (Some m)
    note m = found(2)[OF this]
    let ?f = "\<lambda>row. do { b1 \<leftarrow> GetTableEntry le1 row; b2 \<leftarrow> GetTableEntry le2 (PermutedRow m row); Some (b1 = b2) }"
    have less: "PermutedRow m row < 2 ^ ?n" for row using m by (intro PermutedRow_less) auto
    have f: "?f row = Some (bit (le_table le1) row = bit (le_table le2) (PermutedRow m row))" if "row < 2 ^ ?n" for row
      using that less[of row] size by (simp add: GetTableEntry_def)
    then have "all_opt ?f [0..<2 ^ ?n] = Some (\<forall>row \<in> set [0..<2 ^ ?n]. ?f row = Some True)"
      by (intro all_opt_total) simp
    then have "EntriesProduceSameResult op1 op2 le1 le2 = Some (\<forall>row \<in> {0..<2 ^ ?n}. ?f row = Some True)"
      using True found(1) Some size(1) by (simp add: EntriesProduceSameResult_def)
    moreover have "entry_value (src_values env op1) le1 = entry_value (src_values env op2) le2"
      if rows: "\<forall>row \<in> {0..<2 ^ ?n}. ?f row = Some True" for env
    proof -
      have "?f (tableRowIndex (src_values env op1) le1) = Some True" using rows by simp
      then have "bit (le_table le1) (tableRowIndex (src_values env op1) le1) =
          bit (le_table le2) (PermutedRow m (tableRowIndex (src_values env op1) le1))" using f by simp
      then show ?thesis using PermutedRow_tableRowIndex[OF assms True] m by (simp add: entry_value_def)
    qed
    ultimately show ?thesis by blast
  qed
next
  case False
  then show ?thesis by (intro exI[of _ False]) (simp add: EntriesProduceSameResult_def)
qed

definition cse_lut_ok :: "Operation \<Rightarrow> bool" where
  "cse_lut_ok op \<longleftrightarrow> (\<forall>es. op_opcode op = Lut es \<longrightarrow> op_signExtendSourceMask op = 0 \<and> list_all (columns_ok op) es)"

lemma LutOperationsProduceSameResult_sound:
  assumes "cse_lut_ok op1" "cse_lut_ok op2" "IsLut op1" "IsLut op2"
  shows "\<exists>b. LutOperationsProduceSameResult op1 op2 = Some b \<and>
    (b \<longrightarrow> (\<exists>lut1 lut2. op_opcode op1 = Lut lut1 \<and> op_opcode op2 = Lut lut2 \<and>
      (\<forall>env. Lut_Evaluate lut1 (src_values env op1) = Lut_Evaluate lut2 (src_values env op2))))"
proof -
  obtain lut1 lut2 where luts: "op_opcode op1 = Lut lut1" "op_opcode op2 = Lut lut2"
    using assms(3,4) by (auto simp: IsLut_def split: Opcode.splits)
  have ok: "op_signExtendSourceMask op1 = 0" "op_signExtendSourceMask op2 = 0" "list_all (columns_ok op1) lut1" "list_all (columns_ok op2) lut2"
    using assms(1,2) luts by (simp_all add: cse_lut_ok_def)
  show ?thesis
  proof (cases "length lut1 = length lut2")
    case True
    let ?f = "\<lambda>d. EntriesProduceSameResult op1 op2 (lut1 ! d) (lut2 ! d)"
    have each: "\<exists>b. ?f d = Some b \<and> (b \<longrightarrow> (\<forall>env. entry_value (src_values env op1) (lut1 ! d) = entry_value (src_values env op2) (lut2 ! d)))"
      if "d < length lut1" for d
      using ok(3,4) True that by (intro EntriesProduceSameResult_correct) (simp_all add: list_all_length)
    have all: "all_opt ?f [0..<length lut1] = Some (\<forall>d \<in> set [0..<length lut1]. ?f d = Some True)"
      using each by (intro all_opt_total) fastforce
    have "Lut_Evaluate lut1 (src_values env op1) = Lut_Evaluate lut2 (src_values env op2)"
      if "\<forall>d \<in> set [0..<length lut1]. ?f d = Some True" for env
    proof -
      have "entry_value (src_values env op1) (lut1 ! d) = entry_value (src_values env op2) (lut2 ! d)" if "d < length lut1" for d
        using each[OF that] \<open>\<forall>d \<in> _. _\<close> that by auto
      moreover have "le_numSources e \<le> c_maxLutSources" if "e \<in> set lut1 \<union> set lut2" for e
        using that ok(3,4) by (auto simp: list_all_iff columns_ok_def entry_ok_def)
      ultimately show ?thesis using True by (simp add: Lut_Evaluate_eq cong: or_bits_cong)
    qed
    then show ?thesis using luts ok(1,2) True all by (auto simp: LutOperationsProduceSameResult_def)
  next
    case False
    then show ?thesis using luts ok(1,2) by (intro exI[of _ False]) (simp add: LutOperationsProduceSameResult_def)
  qed
qed

definition no_strings :: "Operation \<Rightarrow> bool" where
  "no_strings op \<longleftrightarrow> list_all (\<lambda>s. case s of SrcStringLiteral _ \<Rightarrow> False | _ \<Rightarrow> True) (op_src op)"

text \<open>Operations the pass considers.\<close>

definition cse_op_ok :: "Operation \<Rightarrow> bool" where
  "cse_op_ok op \<longleftrightarrow> DoesOpcodeSupportCommonSubexpressionElimination (op_opcode op) \<and> cse_lut_ok op \<and> no_strings op"

lemma SameOperand_zip:
  assumes "no_strings op1" "length (op_src op1) = length (op_src op2)"
  shows "\<exists>b. all_opt SameOperand (zip (op_src op1) (op_src op2)) = Some b \<and> (b \<longrightarrow> op_src op1 = op_src op2)"
proof -
  have *: "SameOperand (s1, s2) \<noteq> None \<and> (SameOperand (s1, s2) = Some True \<longrightarrow> s1 = s2)" if "s1 \<in> set (op_src op1)" for s1 s2
    using that assms(1) by (auto simp: SameOperand_def no_strings_def list_all_iff split: SourceOperand.splits)
  then have "all_opt SameOperand (zip (op_src op1) (op_src op2)) = Some (\<forall>ss \<in> set (zip (op_src op1) (op_src op2)). SameOperand ss = Some True)"
    by (intro all_opt_total) (auto dest: set_zip_leftD)
  moreover have "op_src op1 = op_src op2" if "\<forall>ss \<in> set (zip (op_src op1) (op_src op2)). SameOperand ss = Some True"
  proof (rule nth_equalityI[OF assms(2)])
    fix i assume i: "i < length (op_src op1)"
    then have "(op_src op1 ! i, op_src op2 ! i) \<in> set (zip (op_src op1) (op_src op2))"
      using assms(2) by (auto simp: set_zip)
    then show "op_src op1 ! i = op_src op2 ! i" using that * i by (meson nth_mem)
  qed
  ultimately show ?thesis by blast
qed

lemma opcode_index_Lut: "opcode_index (op_opcode op1) = opcode_index (op_opcode op2) \<Longrightarrow> IsLut op1 = IsLut op2"
  by (auto simp: opcode_index_def IsLut_def split: Opcode.splits)

lemma SameFlags_correct:
  assumes "DoesOpcodeSupportCommonSubexpressionElimination oc1" "opcode_index oc1 = opcode_index oc2" "\<not> (\<exists>es. oc1 = Lut es)"
  shows "\<exists>b. SameFlags oc1 oc2 = Some b \<and> (b \<longrightarrow> oc1 = oc2)"
  using assms
  by (cases oc1) (auto simp: SameFlags_def DoesOpcodeSupportCommonSubexpressionElimination_def opcode_index_def split: Opcode.splits)

lemma OperationsProduceSameResult_correct:
  assumes "cse_op_ok op1" "cse_op_ok op2"
  shows "\<exists>b. OperationsProduceSameResult rt op1 op2 = Some b \<and>
    (b \<longrightarrow> list_all2 (\<lambda>d1 d2. DestinationOperand_Width rt d1 = DestinationOperand_Width rt d2) (op_dst op1) (op_dst op2) \<and>
      IsLut op1 = IsLut op2 \<and>
      (length (op_dst op1) = 1 \<longrightarrow> (\<forall>env. srcs_ok rt op1 \<longrightarrow> srcs_ok rt op2 \<longrightarrow> eval_operation rt env op1 = eval_operation rt env op2) \<and>
       (\<not> IsLut op1 \<longrightarrow> (\<forall>env. eval_operation rt env op1 = eval_operation rt env op2))))"
  (is "\<exists>b. ?run = Some b \<and> (b \<longrightarrow> ?widths \<and> ?luts \<and> ?same)")
proof (cases "opcode_index (op_opcode op1) \<noteq> opcode_index (op_opcode op2) \<or> length (op_src op1) \<noteq> length (op_src op2) \<or>
    length (op_dst op1) \<noteq> length (op_dst op2) \<or> \<not> ?widths \<or> (\<not> IsLut op1 \<and> op_signExtendSourceMask op1 \<noteq> op_signExtendSourceMask op2)")
  case True
  then have "?run = Some False" by (auto simp: OperationsProduceSameResult_def)
  then show ?thesis by blast
next
  case False
  then have eq: "opcode_index (op_opcode op1) = opcode_index (op_opcode op2)" "length (op_src op1) = length (op_src op2)"
      "length (op_dst op1) = length (op_dst op2)" ?widths by blast+
  have w: "DestinationOperand_Width rt (op_dst op1 ! 0) = DestinationOperand_Width rt (op_dst op2 ! 0)" if "length (op_dst op1) = 1"
    using eq(4) that by (simp add: list_all2_conv_all_nth)
  show ?thesis
  proof (cases "IsLut op1")
    case True
    then have "IsLut op2" using opcode_index_Lut[OF eq(1)] by simp
    from LutOperationsProduceSameResult_sound[OF _ _ True this] assms obtain b where
      b: "LutOperationsProduceSameResult op1 op2 = Some b" "b \<longrightarrow> (\<exists>lut1 lut2. op_opcode op1 = Lut lut1 \<and> op_opcode op2 = Lut lut2 \<and>
        (\<forall>env. Lut_Evaluate lut1 (src_values env op1) = Lut_Evaluate lut2 (src_values env op2)))"
      unfolding cse_op_ok_def by blast
    have "?run = Some b" using eq True b(1) by (simp add: OperationsProduceSameResult_def)
    moreover have "eval_operation rt env op1 = eval_operation rt env op2"
      if same: b and ok: "length (op_dst op1) = 1" "srcs_ok rt op1" "srcs_ok rt op2" for env
    proof -
      obtain lut1 lut2 where "op_opcode op1 = Lut lut1" "op_opcode op2 = Lut lut2"
        "Lut_Evaluate lut1 (src_values env op1) = Lut_Evaluate lut2 (src_values env op2)" using b(2) same by blast
      then show ?thesis
        using w[OF ok(1)] ok(1) eq(3) map_opt_literals[OF ok(2)] map_opt_literals[OF ok(3)] by (simp add: eval_operation_in_def)
    qed
    ultimately show ?thesis using True \<open>IsLut op2\<close> eq(4) by blast
  next
    case nolut: False
    obtain b1 where b1: "SameFlags (op_opcode op1) (op_opcode op2) = Some b1" "b1 \<longrightarrow> op_opcode op1 = op_opcode op2"
    proof -
      have "\<not> (\<exists>es. op_opcode op1 = Lut es)" using nolut by (auto simp: IsLut_def)
      from SameFlags_correct[OF _ eq(1) this] assms(1) that show ?thesis by (auto simp: cse_op_ok_def)
    qed
    obtain b2 where b2: "all_opt SameOperand (zip (op_src op1) (op_src op2)) = Some b2" "b2 \<longrightarrow> op_src op1 = op_src op2"
      using SameOperand_zip[OF _ eq(2)] assms(1) by (auto simp: cse_op_ok_def)
    have mask: "op_signExtendSourceMask op1 = op_signExtendSourceMask op2" using False nolut by blast
    have "?run = Some (b1 \<and> b2)"
      using eq nolut mask b1(1) b2(1) by (simp add: OperationsProduceSameResult_def)
    moreover have "eval_operation rt env op1 = eval_operation rt env op2" if "b1 \<and> b2" "length (op_dst op1) = 1" for env
    proof -
      have se: "ShouldSignExtend op1 i = ShouldSignExtend op2 i" for i by (simp add: ShouldSignExtend_def mask)
      have "op_src op1 = op_src op2" "op_opcode op1 = op_opcode op2" using b1(2) b2(2) that(1) by blast+
      then show ?thesis
        using w[OF that(2)] eq(3) by (simp only: eval_operation_in_def eval_select_def se)
    qed
    ultimately show ?thesis using eq(4) opcode_index_Lut[OF eq(1)] nolut by blast
  qed
qed

subsection \<open>Values of earlier operations\<close>

lemma eval_same_registers:
  assumes "\<And>r. SrcRegister r \<in> set (op_src op) \<Longrightarrow> env' r = env r"
    and "\<And>es. op_opcode op = Lut es \<Longrightarrow> lut_ok (length (op_src op)) es"
  shows "eval_operation rt env' op = eval_operation rt env op"
proof -
  have lit: "operand_literal rt env' s = operand_literal rt env s \<and> operand_value env' s = operand_value env s" if "s \<in> set (op_src op)" for s
    by (cases s) (use that assms(1) in \<open>auto simp: operand_literal_def operand_value_def\<close>)
  have lits: "map_opt (operand_literal rt env') (op_src op) = map_opt (operand_literal rt env) (op_src op)"
  proof -
    have "map_opt f xs = map_opt g xs" if "\<And>s. s \<in> set xs \<Longrightarrow> f s = g s" for f g and xs :: "SourceOperand list"
      using that by (induction xs) simp_all
    then show ?thesis using lit by blast
  qed
  show ?thesis
  proof (cases "\<exists>es. op_opcode op = Lut es")
    case True
    then obtain es where es: "op_opcode op = Lut es" by blast
    have "Lut_Evaluate es (src_values env' op) = Lut_Evaluate es (src_values env op)"
      using lit by (intro Lut_Evaluate_cong[OF assms(2)[OF es]]) simp
    then show ?thesis by (simp add: eval_operation_in_def lits es)
  next
    case False
    then show ?thesis
      by (auto simp: eval_operation_in_def lits Let_def split: Opcode.split intro!: Option.bind_cong)
  qed
qed

text \<open>What renaming establishes within a block: an operation that writes a local register is the
  only one, and no operation up to it reads the register.\<close>

definition renamed_block :: "FlowProgram \<Rightarrow> FlowBlock \<Rightarrow> bool" where
  "renamed_block p block \<longleftrightarrow> (\<forall>j k r. j < length block \<longrightarrow> k < length block \<longrightarrow> is_local p r \<longrightarrow>
     DstRegister r \<in> set (op_dst (fo_op (block ! k))) \<longrightarrow>
     (DstRegister r \<in> set (op_dst (fo_op (block ! j))) \<longrightarrow> j = k) \<and> (SrcRegister r \<in> set (op_src (fo_op (block ! j))) \<longrightarrow> k < j))"

lemma available:
  assumes "renamed_block p block" "i < k" "k \<le> length block" "after p block k env e"
    and op: "op_dst (fo_op (block ! i)) = [DstRegister d]" "is_local p d"
      "\<And>r. SrcRegister r \<in> set (op_src (fo_op (block ! i))) \<Longrightarrow> is_local p r"
      "\<And>es. op_opcode (fo_op (block ! i)) = Lut es \<Longrightarrow> lut_ok (length (op_src (fo_op (block ! i)))) es"
    and v: "eval_operation (fp_registerTable p) e (fo_op (block ! i)) = Some v"
  shows "e d = v"
  using assms(2-4) v
proof (induction k arbitrary: e)
  case (Suc k)
  then obtain e1 where e1: "after p block k env e1" "flow_step p (block ! k) e1 e" by auto
  have k: "k < length block" using Suc.prems by simp
  have keep: "e r = e1 r" if "is_local p r" "DstRegister r \<notin> set (op_dst (fo_op (block ! k)))" for r
    using e1(2) that by (simp add: flow_step_def)
  have i: "i < length block" "i \<le> k" using Suc.prems by simp_all
  have "e r = e1 r" if r: "SrcRegister r \<in> set (op_src (fo_op (block ! i)))" for r
  proof (rule keep[OF op(3)[OF r]])
    show "DstRegister r \<notin> set (op_dst (fo_op (block ! k)))"
      using assms(1) i k r op(3)[OF r] unfolding renamed_block_def by fastforce
  qed
  then have ev: "eval_operation (fp_registerTable p) e1 (fo_op (block ! i)) = Some v"
    using eval_same_registers[of "fo_op (block ! i)" e e1, OF _ op(4)] Suc.prems(4) by simp
  show ?case
  proof (cases "i = k")
    case True
    then show ?thesis using e1(2) ev op(1,2) by (auto simp: flow_step_def)
  next
    case False
    then have "DstRegister d \<notin> set (op_dst (fo_op (block ! k)))"
      using assms(1) i k op(1,2) unfolding renamed_block_def by fastforce
    then have "e d = e1 d" by (rule keep[OF op(2)])
    moreover have "e1 d = v" using False Suc.prems i by (intro Suc.IH[OF _ _ e1(1) ev]) simp_all
    ultimately show ?thesis by simp
  qed
qed simp

subsection \<open>The rewritten block\<close>

definition with_locations :: "FlowOperation \<Rightarrow> FileAndLineNumber set \<Rightarrow> FlowOperation" where
  "with_locations fo ls = fo\<lparr>fo_op := (fo_op fo)\<lparr>op_locations := ls\<rparr>\<rparr>"

definition move_of :: "FileAndLineNumber set \<Rightarrow> nat \<Rightarrow> nat \<Rightarrow> FlowOperation" where
  "move_of ls d dst = \<lparr>fo_op = operation Mov ls [(SrcRegister d, False)] (DstRegister dst), fo_successor = None,
     fo_enqueue = no_enqueue, fo_renamingTable = [], fo_reverseRenamingTable = []\<rparr>"

text \<open>A local operation with one destination, whose value the pass may reuse.\<close>

definition reusable :: "FlowProgram \<Rightarrow> FlowOperation \<Rightarrow> nat \<Rightarrow> bool" where
  "reusable p fo d \<longleftrightarrow> op_dst (fo_op fo) = [DstRegister d] \<and> is_local p d \<and>
     (\<forall>r. SrcRegister r \<in> set (op_src (fo_op fo)) \<longrightarrow> is_local p r) \<and>
     (\<forall>es. op_opcode (fo_op fo) = Lut es \<longrightarrow> lut_ok (length (op_src (fo_op fo))) es \<and> srcs_ok (fp_registerTable p) (fo_op fo)) \<and>
     fo_successor fo = None \<and> cse_op_ok (fo_op fo)"

definition cse_op :: "FlowProgram \<Rightarrow> FlowBlock \<Rightarrow> nat \<Rightarrow> FlowOperation \<Rightarrow> bool" where
  "cse_op p block j fo' \<longleftrightarrow> (\<exists>ls. fo' = with_locations (block ! j) ls) \<or>
     (\<exists>i < j. \<exists>d dst ls. reusable p (block ! i) d \<and> reusable p (block ! j) dst \<and>
        reg_width (fp_registerTable p) d = reg_width (fp_registerTable p) dst \<and>
        (\<forall>env. eval_operation (fp_registerTable p) env (fo_op (block ! j)) = eval_operation (fp_registerTable p) env (fo_op (block ! i))) \<and>
        fo' = move_of ls d dst)"

definition cse_block_ok :: "FlowProgram \<Rightarrow> bool \<Rightarrow> FlowBlock \<Rightarrow> bool" where
  "cse_block_ok p transformLuts block \<longleftrightarrow> renamed_block p block \<and>
     list_all (\<lambda>fo. flow_op_ok p fo \<and>
       (doesOpSupportCSE (fp_registerTable p) transformLuts (fo_op fo) \<longrightarrow> cse_lut_ok (fo_op fo) \<and> no_strings (fo_op fo))) block"

lemma with_locations_simps [simp]:
  "fo_op (with_locations fo ls) = (fo_op fo)\<lparr>op_locations := ls\<rparr>" "fo_successor (with_locations fo ls) = fo_successor fo"
  "with_locations (with_locations fo ls) ls' = with_locations fo ls'" "with_locations fo (op_locations (fo_op fo)) = fo"
  by (simp_all add: with_locations_def)

lemma cse_op_ok_locations [simp]: "cse_op_ok (op\<lparr>op_locations := ls\<rparr>) = cse_op_ok op"
  by (simp add: cse_op_ok_def cse_lut_ok_def no_strings_def list_all_iff columns_ok_def reg_columns_def)

lemma reusable_supported:
  assumes "flow_op_ok p fo" "doesOpSupportCSE (fp_registerTable p) t (fo_op fo)" "cse_lut_ok (fo_op fo)" "no_strings (fo_op fo)"
    and "op_dst (fo_op fo) = [DstRegister d]"
  shows "reusable p fo d"
proof -
  have loc: "OperationUsesOnlyLocalReg (fp_registerTable p) (fo_op fo)"
      "DoesOpcodeSupportCommonSubexpressionElimination (op_opcode (fo_op fo))"
    using assms(2) by (simp_all add: doesOpSupportCSE_def)
  have "op_opcode (fo_op fo) \<noteq> Enqueue" using loc(2) by (auto simp: DoesOpcodeSupportCommonSubexpressionElimination_def)
  then have "fo_successor fo = None" using assms(1) by (auto simp: flow_op_ok_def)
  moreover have "is_local p r" if "SrcRegister r \<in> set (op_src (fo_op fo))" for r
    using that loc(1) assms(1)
    by (force simp: OperationUsesOnlyLocalReg_def OperationUsesOnlyLocalSrcReg_def flow_op_ok_def source_ok_def is_local_def list_all_iff)
  moreover have "is_local p d"
    using loc(1) assms(1,5) by (auto simp: OperationUsesOnlyLocalReg_def OperationUsesOnlyLocalDstReg_def flow_op_ok_def is_local_def)
  moreover have "lut_ok (length (op_src (fo_op fo))) es \<and> srcs_ok (fp_registerTable p) (fo_op fo)" if "op_opcode (fo_op fo) = Lut es" for es
    using assms(1) that by (simp add: flow_op_ok_def lut_op_ok_def)
  ultimately show ?thesis using assms(3-5) loc(2) by (simp add: reusable_def cse_op_ok_def)
qed

lemma find_opt_correct:
  assumes "\<And>x. x \<in> set xs \<Longrightarrow> f x \<noteq> None"
  shows "\<exists>r. find_opt f xs = Some r \<and> (\<forall>x. r = Some x \<longrightarrow> x \<in> set xs \<and> f x = Some True)"
  using assms
proof (induction xs)
  case (Cons x xs)
  then obtain b where "f x = Some b" by fastforce
  with Cons show ?case by (cases b) auto
qed simp

lemma set_sort_operands [simp]: "set (sort_operands xs) = set xs"
proof -
  have "set (takeWhile P ys @ x # dropWhile P ys) = insert x (set ys)" for P and x :: SourceOperand and ys
    by (metis Un_insert_right list.simps(15) set_append takeWhile_dropWhile_id)
  then show ?thesis unfolding sort_operands_def by (induction xs) (simp_all del: set_append)
qed

lemma OperationHash_total:
  assumes "no_strings op"
  shows "\<exists>hash. OperationHash h op = Some hash"
proof -
  have "\<exists>v'. hashOperands h ss v = Some v'" if "set ss \<subseteq> set (op_src op)" for ss v
  proof -
    have "\<exists>v'. (case s of SrcLiteral l \<Rightarrow> Some (hash_mp h v (l_value l)) | SrcRegister r \<Rightarrow> Some (hash_size h v r)
       | SrcFifo f \<Rightarrow> Some (hash_size h v (fs_registerIndex f)) | SrcStringLiteral _ \<Rightarrow> None) = Some v' \<and> True" if "s \<in> set ss" for s v
      using assms \<open>set ss \<subseteq> _\<close> that by (cases s) (force simp: no_strings_def list_all_iff)+
    from fold_opt_total[of "\<lambda>_. True" v ss, OF _ this] show ?thesis by (auto simp: hashOperands_def)
  qed
  then obtain v v' where "hashOperands h (op_src op) (opcode_index (op_opcode op)) = Some v"
      "hashOperands h (sort_operands (op_src op)) (opcode_index (op_opcode op)) = Some v'" by (metis order_refl set_sort_operands)
  then show ?thesis by (cases "op_opcode op") (auto simp: OperationHash_def Let_def)
qed

definition cse_inv :: "FlowProgram \<Rightarrow> FlowBlock \<Rightarrow> nat \<Rightarrow> CSEState \<Rightarrow> bool" where
  "cse_inv p block k st \<longleftrightarrow> length (cse_operations st) = length block \<and>
     (\<forall>j < length block. k \<le> j \<longrightarrow> cse_operations st ! j = block ! j) \<and>
     (\<forall>j < k. cse_op p block j (cse_operations st ! j)) \<and>
     (\<forall>hash c. c \<in> set (LookupWithDefault (cse_operationMap st) hash []) \<longrightarrow> c < k \<and>
        (\<exists>d. reusable p (block ! c) d) \<and> (\<exists>ls. cse_operations st ! c = with_locations (block ! c) ls))"

lemma CSEOperation_correct:
  assumes "cse_block_ok p t block" "cse_inv p block k st" "k < length block"
  shows "\<exists>st'. CSEOperation h (fp_registerTable p) t k st = Some st' \<and> cse_inv p block (Suc k) st'"
proof -
  let ?fo = "block ! k" and ?rt = "fp_registerTable p"
  have cur: "cse_operations st ! k = ?fo" using assms(2,3) by (simp add: cse_inv_def)
  have ok: "flow_op_ok p ?fo" "doesOpSupportCSE ?rt t (fo_op ?fo) \<Longrightarrow> cse_lut_ok (fo_op ?fo) \<and> no_strings (fo_op ?fo)"
    using assms(1,3) by (simp_all add: cse_block_ok_def list_all_length)
  have len: "length (cse_operations st) = length block" using assms(2) by (simp add: cse_inv_def)
  have here: "cse_op p block k ?fo" using with_locations_simps(4)[of ?fo] unfolding cse_op_def by metis
  have keep: "cse_inv p block (Suc k) st"
    using assms(2,3) cur here by (auto simp: cse_inv_def less_Suc_eq)
  show ?thesis
  proof (cases "(\<exists>d. op_dst (fo_op ?fo) = [DstRegister d]) \<and> doesOpSupportCSE ?rt t (fo_op ?fo)")
    case False
    then have "CSEOperation h ?rt t k st = Some st"
      by (auto simp: CSEOperation_def cur Let_def split: list.splits DestinationOperand.splits)
    then show ?thesis using keep by blast
  next
    case True
    then obtain dst where dst: "op_dst (fo_op ?fo) = [DstRegister dst]" and sup: "doesOpSupportCSE ?rt t (fo_op ?fo)" by blast
    have reuse: "reusable p ?fo dst" using ok sup dst by (intro reusable_supported) auto
    obtain hash where hash: "OperationHash h (fo_op ?fo) = Some hash" using OperationHash_total ok(2)[OF sup] by blast
    let ?cands = "LookupWithDefault (cse_operationMap st) hash []"
    let ?f = "\<lambda>c. OperationsProduceSameResult ?rt (fo_op ?fo) (fo_op (cse_operations st ! c))"
    have cand: "c < k \<and> (\<exists>d ls. reusable p (block ! c) d \<and> cse_operations st ! c = with_locations (block ! c) ls)" if "c \<in> set ?cands" for c
      using assms(2) that unfolding cse_inv_def by blast
    have same: "\<exists>b. ?f c = Some b \<and>
        (b \<longrightarrow> list_all2 (\<lambda>d1 d2. DestinationOperand_Width ?rt d1 = DestinationOperand_Width ?rt d2) (op_dst (fo_op ?fo)) (op_dst (fo_op (block ! c))) \<and>
          (\<forall>env. eval_operation ?rt env (fo_op ?fo) = eval_operation ?rt env (fo_op (block ! c))))"
      if c: "c \<in> set ?cands" for c
    proof -
      obtain d ls where d: "reusable p (block ! c) d" "cse_operations st ! c = with_locations (block ! c) ls" using cand[OF c] by blast
      have lut: "IsLut (fo_op ?fo) \<longrightarrow> srcs_ok ?rt (fo_op ?fo)" "IsLut (fo_op (block ! c)) \<longrightarrow> srcs_ok ?rt ((fo_op (block ! c))\<lparr>op_locations := ls\<rparr>)"
        using reuse d(1) by (auto simp: reusable_def IsLut_def srcs_ok_def split: Opcode.splits)
      have "cse_op_ok (fo_op ?fo)" "cse_op_ok ((fo_op (block ! c))\<lparr>op_locations := ls\<rparr>)" "length (op_dst (fo_op ?fo)) = 1"
        using reuse d(1) by (simp_all add: reusable_def)
      with OperationsProduceSameResult_correct[of "fo_op ?fo" "(fo_op (block ! c))\<lparr>op_locations := ls\<rparr>" ?rt] lut show ?thesis
        unfolding d(2) with_locations_simps(1) by (auto simp: IsLut_def)
    qed
    then obtain r where r: "find_opt ?f ?cands = Some r" "\<And>c. r = Some c \<Longrightarrow> c \<in> set ?cands \<and> ?f c = Some True"
      using find_opt_correct[of ?cands ?f] by (metis option.discI)
    show ?thesis
    proof (cases r)
      case None
      let ?st = "st\<lparr>cse_operationMap := map_insert hash (?cands @ [k]) (cse_operationMap st)\<rparr>"
      have "CSEOperation h ?rt t k st = Some ?st" using dst sup hash r(1) None by (simp add: CSEOperation_def cur Let_def)
      moreover have "cse_inv p block (Suc k) ?st"
      proof -
        have "c < Suc k \<and> (\<exists>d. reusable p (block ! c) d) \<and> (\<exists>ls. cse_operations st ! c = with_locations (block ! c) ls)"
          if "c \<in> set (LookupWithDefault (cse_operationMap ?st) hash' [])" for hash' c
        proof (cases "c = k")
          case True
          then show ?thesis using reuse cur with_locations_simps(4)[of ?fo] by (metis lessI)
        next
          case False
          then have "\<exists>hash'. c \<in> set (LookupWithDefault (cse_operationMap st) hash' [])"
            using that by (auto simp: LookupWithDefault_def split: if_splits)
          then show ?thesis using assms(2) unfolding cse_inv_def by (meson less_SucI)
        qed
        then show ?thesis using keep by (simp add: cse_inv_def)
      qed
      ultimately show ?thesis by blast
    next
      case (Some c)
      then have c: "c \<in> set ?cands" "?f c = Some True" using r(2) by blast+
      obtain d ls where d: "c < k" "reusable p (block ! c) d" "cse_operations st ! c = with_locations (block ! c) ls" using cand[OF c(1)] by blast
      have eq: "reg_width ?rt d = reg_width ?rt dst"
          "\<forall>env. eval_operation ?rt env (fo_op ?fo) = eval_operation ?rt env (fo_op (block ! c))"
        using same[OF c(1)] c(2) dst d(2) by (auto simp: reusable_def)
      let ?ops = "(cse_operations st)[c := with_locations (block ! c) (ls \<union> op_locations (fo_op ?fo)), k := move_of (op_locations (fo_op ?fo)) d dst]"
      have "CSEOperation h ?rt t k st = Some (st\<lparr>cse_operations := ?ops, cse_didChangeIR := True\<rparr>)"
        using dst sup hash r(1) Some d by (simp add: CSEOperation_def cur Let_def reusable_def move_of_def with_locations_def)
      moreover have "cse_inv p block (Suc k) (st\<lparr>cse_operations := ?ops, cse_didChangeIR := True\<rparr>)"
        unfolding cse_inv_def
      proof (intro conjI allI impI)
        fix j assume j: "j < Suc k"
        show "cse_op p block j (cse_operations (st\<lparr>cse_operations := ?ops, cse_didChangeIR := True\<rparr>) ! j)"
        proof (cases "j = k \<or> j = c")
          case True
          have "cse_op p block k (move_of (op_locations (fo_op ?fo)) d dst)" unfolding cse_op_def using d(1,2) reuse eq by blast
          moreover have "cse_op p block c (with_locations (block ! c) (ls \<union> op_locations (fo_op ?fo)))" unfolding cse_op_def by blast
          ultimately show ?thesis using True d(1) assms(3) len by (auto simp: nth_list_update)
        next
          case False
          then show ?thesis using assms(2) j by (simp add: cse_inv_def)
        qed
      next
        fix hash' c' assume "c' \<in> set (LookupWithDefault (cse_operationMap (st\<lparr>cse_operations := ?ops, cse_didChangeIR := True\<rparr>)) hash' [])"
        then have c': "c' < k" "\<exists>d. reusable p (block ! c') d" "\<exists>ls. cse_operations st ! c' = with_locations (block ! c') ls"
          using assms(2) unfolding cse_inv_def by auto
        then show "c' < Suc k" "\<exists>d. reusable p (block ! c') d" by auto
        show "\<exists>ls. cse_operations (st\<lparr>cse_operations := ?ops, cse_didChangeIR := True\<rparr>) ! c' = with_locations (block ! c') ls"
          using c'(1,3) assms(3) len by (cases "c' = c") (auto simp: nth_list_update)
      qed (use assms(2) d(1) len in \<open>auto simp: cse_inv_def\<close>)
      ultimately show ?thesis by blast
    qed
  qed
qed

lemma CSEBlock_correct:
  assumes "cse_block_ok p t block"
  shows "\<exists>block' c. CSEBlock h (fp_registerTable p) t block = Some (block', c) \<and> length block' = length block \<and>
    (\<forall>j < length block. cse_op p block j (block' ! j))"
proof -
  let ?st = "\<lparr>cse_operations = block, cse_operationMap = [], cse_didChangeIR = False\<rparr>"
  have "\<exists>st. fold_opt (CSEOperation h (fp_registerTable p) t) [0..<k] ?st = Some st \<and> cse_inv p block k st" if "k \<le> length block" for k
    using that
  proof (induction k)
    case 0
    show ?case by (simp add: cse_inv_def LookupWithDefault_def)
  next
    case (Suc k)
    then obtain st where st: "fold_opt (CSEOperation h (fp_registerTable p) t) [0..<k] ?st = Some st" "cse_inv p block k st" by auto
    obtain st' where "CSEOperation h (fp_registerTable p) t k st = Some st'" "cse_inv p block (Suc k) st'"
      using CSEOperation_correct[OF assms st(2), of h] Suc.prems by (auto simp: Suc_le_eq)
    then show ?case using st(1) by (intro exI[of _ st']) simp
  qed
  then obtain st where "fold_opt (CSEOperation h (fp_registerTable p) t) [0..<length block] ?st = Some st" "cse_inv p block (length block) st"
    by blast
  then show ?thesis by (auto simp: CSEBlock_def cse_inv_def)
qed

subsection \<open>Runs of the rewritten block\<close>

lemma flow_step_with_locations [simp]: "flow_step p (with_locations fo ls) = flow_step p fo"
  by (simp add: fun_eq_iff flow_step_def)

lemma flow_step_move:
  assumes "flow_env p e" "is_local p d" "is_local p dst" "reg_width (fp_registerTable p) d = reg_width (fp_registerTable p) dst"
  shows "flow_step p (move_of ls d dst) e e' \<longleftrightarrow>
    flow_env p e' \<and> (\<forall>r. is_local p r \<longrightarrow> r \<noteq> dst \<longrightarrow> e' r = e r) \<and> e' dst = e d"
proof -
  have "d < length (fp_registerTable p)" "dst < length (fp_registerTable p)" using assms(2,3) by (simp_all add: is_local_def)
  moreover have "0 \<le> e d" "e d < 2 ^ reg_width (fp_registerTable p) dst"
    using assms(1) calculation(1) unfolding assms(4)[symmetric] by (simp_all add: flow_env_def env_ok_def reg_width_def)
  ultimately have "eval_operation (fp_registerTable p) e (fo_op (move_of ls d dst)) = Some (e d)"
    using eval_emitted_mov[of "fp_registerTable p" e "SrcRegister d" dst ls False] assms(1)
    by (simp add: move_of_def flow_env_def take_bit_int_eq_self)
  then show ?thesis using assms(3) by (auto simp: flow_step_def move_of_def)
qed

lemma cse_step:
  assumes "cse_op p block j fo'" "renamed_block p block" "j < length block" "after p block j env e" "flow_env p e"
  shows "flow_step p fo' e e' \<Longrightarrow> flow_step p (block ! j) e e'"
    and "(DoesOpcodeSupportCommonSubexpressionElimination (op_opcode (fo_op (block ! j))) \<Longrightarrow> length (op_dst (fo_op (block ! j))) = 1 \<Longrightarrow>
        eval_operation (fp_registerTable p) e (fo_op (block ! j)) \<noteq> None) \<Longrightarrow>
      flow_step p (block ! j) e e' \<Longrightarrow> flow_step p fo' e e'"
    and "fo_successor fo' = fo_successor (block ! j)"
    and "fo_successor (block ! j) \<noteq> None \<Longrightarrow> \<exists>ls. fo' = with_locations (block ! j) ls"
proof -
  let ?rt = "fp_registerTable p"
  have "(flow_step p fo' e e' \<longrightarrow> flow_step p (block ! j) e e') \<and>
    ((DoesOpcodeSupportCommonSubexpressionElimination (op_opcode (fo_op (block ! j))) \<longrightarrow> length (op_dst (fo_op (block ! j))) = 1 \<longrightarrow>
        eval_operation ?rt e (fo_op (block ! j)) \<noteq> None) \<longrightarrow> flow_step p (block ! j) e e' \<longrightarrow> flow_step p fo' e e') \<and>
    fo_successor fo' = fo_successor (block ! j) \<and> (fo_successor (block ! j) \<noteq> None \<longrightarrow> (\<exists>ls. fo' = with_locations (block ! j) ls))"
    using assms(1) unfolding cse_op_def
  proof (elim disjE exE conjE)
    fix ls assume "fo' = with_locations (block ! j) ls"
    then show ?thesis by auto
  next
    fix i d dst ls
    assume i: "i < j" "reusable p (block ! i) d" "reusable p (block ! j) dst" "reg_width ?rt d = reg_width ?rt dst"
      "\<forall>env. eval_operation ?rt env (fo_op (block ! j)) = eval_operation ?rt env (fo_op (block ! i))" "fo' = move_of ls d dst"
    have av: "e d = v" if "eval_operation ?rt e (fo_op (block ! j)) = Some v" for v
      using i(2,5) assms(3) that by (intro available[OF assms(2) i(1) _ assms(4)]) (auto simp: reusable_def)
    have dst: "op_dst (fo_op (block ! j)) = [DstRegister dst]" "is_local p dst" "is_local p d" "fo_successor (block ! j) = None"
        "DoesOpcodeSupportCommonSubexpressionElimination (op_opcode (fo_op (block ! j)))"
      using i(2,3) by (simp_all add: reusable_def cse_op_ok_def)
    show ?thesis
      unfolding i(6) flow_step_move[OF assms(5) dst(3,2) i(4)]
      using av dst by (auto simp: flow_step_def move_of_def)
  qed
  then show "flow_step p fo' e e' \<Longrightarrow> flow_step p (block ! j) e e'"
    "(DoesOpcodeSupportCommonSubexpressionElimination (op_opcode (fo_op (block ! j))) \<Longrightarrow> length (op_dst (fo_op (block ! j))) = 1 \<Longrightarrow>
        eval_operation ?rt e (fo_op (block ! j)) \<noteq> None) \<Longrightarrow> flow_step p (block ! j) e e' \<Longrightarrow> flow_step p fo' e e'"
    "fo_successor fo' = fo_successor (block ! j)" "fo_successor (block ! j) \<noteq> None \<Longrightarrow> \<exists>ls. fo' = with_locations (block ! j) ls"
    by blast+
qed

lemma after_env: "flow_env p env \<Longrightarrow> after p block k env e \<Longrightarrow> flow_env p e"
  by (cases k) (auto simp: flow_step_def)

lemma cse_after:
  assumes "\<forall>j < length block. cse_op p block j (block' ! j)" "renamed_block p block" "flow_env p env" "k \<le> length block"
  shows "after p block' k env e \<Longrightarrow> after p block k env e"
  using assms(4)
proof (induction k arbitrary: e)
  case (Suc k)
  then obtain e1 where e1: "after p block' k env e1" "flow_step p (block' ! k) e1 e" by auto
  then have at: "after p block k env e1" using Suc by simp
  then have "flow_step p (block ! k) e1 e"
    using cse_step(1)[OF _ assms(2) _ at after_env[OF assms(3) at] e1(2)] assms(1) Suc.prems by simp
  with at show ?case by auto
qed simp

text \<open>Every operation the pass may replace has a value.\<close>

definition values_defined :: "FlowProgram \<Rightarrow> FlowBlock \<Rightarrow> bool" where
  "values_defined p block \<longleftrightarrow> (\<forall>fo \<in> set block. DoesOpcodeSupportCommonSubexpressionElimination (op_opcode (fo_op fo)) \<longrightarrow>
     length (op_dst (fo_op fo)) = 1 \<longrightarrow> (\<forall>env. flow_env p env \<longrightarrow> eval_operation (fp_registerTable p) env (fo_op fo) \<noteq> None))"

lemma cse_after_defined:
  assumes "\<forall>j < length block. cse_op p block j (block' ! j)" "renamed_block p block" "flow_env p env" "k \<le> length block" "values_defined p block"
  shows "after p block k env e \<Longrightarrow> after p block' k env e"
  using assms(4)
proof (induction k arbitrary: e)
  case (Suc k)
  then obtain e1 where e1: "after p block k env e1" "flow_step p (block ! k) e1 e" by auto
  have env: "flow_env p e1" by (rule after_env[OF assms(3) e1(1)])
  have k: "k < length block" using Suc.prems by simp
  have "flow_step p (block' ! k) e1 e"
  proof (rule cse_step(2)[OF _ assms(2) k e1(1) env _ e1(2)])
    show "cse_op p block k (block' ! k)" using assms(1) k by simp
    show "eval_operation (fp_registerTable p) e1 (fo_op (block ! k)) \<noteq> None"
      if "DoesOpcodeSupportCommonSubexpressionElimination (op_opcode (fo_op (block ! k)))" "length (op_dst (fo_op (block ! k))) = 1"
      using assms(5) that env k unfolding values_defined_def by (meson nth_mem)
  qed
  with e1(1) Suc show ?case by auto
qed simp

definition cse_blocks :: "FlowProgram \<Rightarrow> FlowBlock list \<Rightarrow> FlowBlock list \<Rightarrow> bool" where
  "cse_blocks p blocks blocks' \<longleftrightarrow> map length blocks' = map length blocks \<and>
     (\<forall>b < length blocks. renamed_block p (blocks ! b) \<and> (\<forall>j < length (blocks ! b). cse_op p (blocks ! b) j (blocks' ! b ! j)))"

lemma cse_blocks_length: "cse_blocks p blocks blocks' \<Longrightarrow> length blocks' = length blocks"
  unfolding cse_blocks_def by (metis length_map)

lemma cse_blocks_block_length: "cse_blocks p blocks blocks' \<Longrightarrow> b < length blocks \<Longrightarrow> length (blocks' ! b) = length (blocks ! b)"
  using cse_blocks_length[of p blocks blocks'] unfolding cse_blocks_def by (metis nth_map)

lemma cse_blocks_after:
  assumes "cse_blocks p blocks blocks'" "b < length blocks" "k \<le> length (blocks ! b)" "flow_env p env"
  shows "after p (blocks' ! b) k env e \<Longrightarrow> after p (blocks ! b) k env e"
    and "values_defined p (blocks ! b) \<Longrightarrow> after p (blocks ! b) k env e \<Longrightarrow> after p (blocks' ! b) k env e"
  using assms by (auto simp: cse_blocks_def intro: cse_after cse_after_defined)

text \<open>An operation that starts another block is kept.\<close>

lemma cse_blocks_enqueue:
  assumes "cse_blocks p blocks blocks'" "b < length blocks" "k < length (blocks ! b)"
  shows "fo_successor (blocks' ! b ! k) = fo_successor (blocks ! b ! k)"
    and "fo_successor (blocks ! b ! k) = Some s \<Longrightarrow>
      enabled (blocks' ! b ! k) = enabled (blocks ! b ! k) \<and> passes p (blocks' ! b ! k) = passes p (blocks ! b ! k)"
proof -
  have op: "cse_op p (blocks ! b) k (blocks' ! b ! k)" using assms by (simp add: cse_blocks_def)
  then show succ: "fo_successor (blocks' ! b ! k) = fo_successor (blocks ! b ! k)"
    by (auto simp: cse_op_def reusable_def move_of_def)
  show "enabled (blocks' ! b ! k) = enabled (blocks ! b ! k) \<and> passes p (blocks' ! b ! k) = passes p (blocks ! b ! k)"
    if s: "fo_successor (blocks ! b ! k) = Some s"
  proof -
    obtain ls where "blocks' ! b ! k = with_locations (blocks ! b ! k) ls"
      using op s unfolding cse_op_def by (auto simp: reusable_def)
    then show ?thesis by (simp add: fun_eq_iff enabled_def passes_def with_locations_def)
  qed
qed

lemma reach_flow_env: "reach p start blocks b env \<Longrightarrow> flow_env p env"
  by (induction rule: reach.induct) (auto simp: passes_def)

lemma cse_blocks_reach:
  assumes "cse_blocks p blocks blocks'"
  shows "reach p start blocks' b env \<Longrightarrow> reach p start blocks b env"
proof (induction rule: reach.induct)
  case (reach_enqueue b env k e s env')
  have b: "b < length blocks" "k < length (blocks ! b)"
    using reach_enqueue.hyps cse_blocks_length[OF assms] cse_blocks_block_length[OF assms] by simp_all
  have s: "fo_successor (blocks ! b ! k) = Some s" using reach_enqueue.hyps(5) cse_blocks_enqueue(1)[OF assms b] by simp
  have "after p (blocks ! b) k env e"
    using cse_blocks_after(1)[OF assms b(1) _ reach_flow_env[OF reach_enqueue.IH] reach_enqueue.hyps(4)] b(2) by simp
  then show ?case
    using reach.reach_enqueue[OF reach_enqueue.IH b _ s] cse_blocks_enqueue(2)[OF assms b s] reach_enqueue.hyps by simp
qed (rule reach_start)

lemma cse_blocks_reach_defined:
  assumes "cse_blocks p blocks blocks'" "list_all (values_defined p) blocks"
  shows "reach p start blocks b env \<Longrightarrow> reach p start blocks' b env"
proof (induction rule: reach.induct)
  case (reach_enqueue b env k e s env')
  have b: "b < length blocks'" "k < length (blocks' ! b)"
    using reach_enqueue.hyps cse_blocks_length[OF assms(1)] cse_blocks_block_length[OF assms(1)] by simp_all
  have s: "fo_successor (blocks' ! b ! k) = Some s"
    using reach_enqueue.hyps(5) cse_blocks_enqueue(1)[OF assms(1) reach_enqueue.hyps(2,3)] by simp
  have "values_defined p (blocks ! b)" using assms(2) reach_enqueue.hyps(2) by (simp add: list_all_length)
  then have "after p (blocks' ! b) k env e"
    using cse_blocks_after(2)[OF assms(1) reach_enqueue.hyps(2) _ reach_flow_env[OF reach_enqueue.IH] _ reach_enqueue.hyps(4)] reach_enqueue.hyps(3) by simp
  then show ?case
    using reach.reach_enqueue[OF reach_enqueue.IH b _ s] cse_blocks_enqueue(2)[OF assms(1) reach_enqueue.hyps(2,3,5)] reach_enqueue.hyps by simp
qed (rule reach_start)

lemma CommonSubexpressionElimination_cse_blocks:
  assumes "list_all (cse_block_ok p t) blocks"
  shows "\<exists>blocks' c. CommonSubexpressionElimination h (fp_registerTable p) t blocks = Some (blocks', c) \<and> cse_blocks p blocks blocks'"
proof -
  let ?f = "CSEBlock h (fp_registerTable p) t"
  let ?r = "\<lambda>block. the (?f block)"
  have block: "?f block = Some (?r block)" "length (fst (?r block)) = length block"
    "\<And>j. j < length block \<Longrightarrow> cse_op p block j (fst (?r block) ! j)" "renamed_block p block" if "block \<in> set blocks" for block
    using CSEBlock_correct[of p t block h] assms that by (auto simp: list_all_iff cse_block_ok_def)
  have "map_opt ?f blocks = Some (map ?r blocks)" by (rule map_opt_total[OF block(1)])
  moreover have "cse_blocks p blocks (map (fst \<circ> ?r) blocks)"
    unfolding cse_blocks_def using block by (auto simp: all_set_conv_all_nth)
  ultimately show ?thesis by (simp add: CommonSubexpressionElimination_def)
qed

subsection \<open>Progress\<close>

text \<open>The operations the pass compares with others.\<close>

definition cse_candidate :: "RegisterTable \<Rightarrow> bool \<Rightarrow> FlowOperation \<Rightarrow> bool" where
  "cse_candidate rt transformLuts fo \<longleftrightarrow> (case op_dst (fo_op fo) of [DstRegister _] \<Rightarrow> doesOpSupportCSE rt transformLuts (fo_op fo) | _ \<Rightarrow> False)"

definition cse_candidates :: "RegisterTable \<Rightarrow> bool \<Rightarrow> FlowBlock \<Rightarrow> nat" where
  "cse_candidates rt transformLuts block = length (filter (cse_candidate rt transformLuts) block)"

lemma length_filter_update_same: "P y = P (xs ! i) \<Longrightarrow> length (filter P (xs[i := y])) = length (filter P xs)"
  by (induction xs arbitrary: i) (auto split: nat.splits)

lemma length_filter_update_less: "i < length xs \<Longrightarrow> P (xs ! i) \<Longrightarrow> \<not> P y \<Longrightarrow> length (filter P (xs[i := y])) < length (filter P xs)"
  by (induction xs arbitrary: i) (auto split: nat.splits)

lemma OperationsProduceSameResult_widths:
  "OperationsProduceSameResult rt op1 op2 = Some True \<Longrightarrow>
    list_all2 (\<lambda>d1 d2. DestinationOperand_Width rt d1 = DestinationOperand_Width rt d2) (op_dst op1) (op_dst op2)"
  by (auto simp: OperationsProduceSameResult_def split: if_splits)

lemma find_opt_Some: "find_opt f xs = Some (Some x) \<Longrightarrow> f x = Some True"
  by (induction xs) (auto split: bind_splits if_splits)

lemma doesOpSupportCSE_locations [simp]: "doesOpSupportCSE rt t (op\<lparr>op_locations := ls\<rparr>) = doesOpSupportCSE rt t op"
  by (simp add: doesOpSupportCSE_def IsLut_def OperationUsesOnlyLocalReg_def OperationUsesOnlyLocalSrcReg_def OperationUsesOnlyLocalDstReg_def)

lemma cse_candidate_locations [simp]: "cse_candidate rt t (with_locations fo ls) = cse_candidate rt t fo"
  by (simp add: cse_candidate_def with_locations_def split: list.split DestinationOperand.split)

lemma cse_candidate_move: "reg_width rt d = reg_width rt dst \<Longrightarrow> \<not> cse_candidate rt t (move_of ls d dst)"
  by (simp add: cse_candidate_def doesOpSupportCSE_def move_of_def)

lemma CSEOperation_progress:
  assumes "CSEOperation h rt t k st = Some st'" "k < length (cse_operations st)"
  shows "length (cse_operations st') = length (cse_operations st) \<and>
    (cse_operations st' = cse_operations st \<and> cse_didChangeIR st' = cse_didChangeIR st \<or>
     cse_didChangeIR st' \<and> cse_candidates rt t (cse_operations st') < cse_candidates rt t (cse_operations st))"
proof -
  let ?fo = "cse_operations st ! k"
  show ?thesis
  proof (cases "cse_candidate rt t ?fo")
    case False
    then have "st' = st" using assms(1)
      by (auto simp: CSEOperation_def cse_candidate_def Let_def split: list.splits DestinationOperand.splits if_splits)
    then show ?thesis by simp
  next
    case True
    then obtain dst where dst: "op_dst (fo_op ?fo) = [DstRegister dst]" "doesOpSupportCSE rt t (fo_op ?fo)"
      by (auto simp: cse_candidate_def split: list.splits DestinationOperand.splits)
    with assms(1) obtain hash where hash: "OperationHash h (fo_op ?fo) = Some hash"
      by (auto simp: CSEOperation_def Let_def split: bind_splits)
    obtain it where it: "find_opt (\<lambda>c. OperationsProduceSameResult rt (fo_op ?fo) (fo_op (cse_operations st ! c)))
        (LookupWithDefault (cse_operationMap st) hash []) = Some it"
      using assms(1) dst hash by (auto simp: CSEOperation_def Let_def split: bind_splits)
    show ?thesis
    proof (cases it)
      case None
      then show ?thesis using assms(1) dst hash it by (auto simp: CSEOperation_def Let_def)
    next
      case (Some c)
      let ?c = "cse_operations st ! c"
      from find_opt_Some[OF it[unfolded Some]] OperationsProduceSameResult_widths[of rt "fo_op ?fo" "fo_op ?c"] dst(1)
      obtain d1 where d1: "op_dst (fo_op ?c) = [d1]" "reg_width rt dst = DestinationOperand_Width rt d1"
        by (auto simp: list_all2_Cons1)
      then obtain d where d: "d1 = DstRegister d"
        using assms(1) dst hash it Some by (cases d1) (auto simp: CSEOperation_def Let_def)
      let ?ls = "op_locations (fo_op ?c) \<union> op_locations (fo_op ?fo)" and ?m = "move_of (op_locations (fo_op ?fo)) d dst"
      have st': "cse_operations st' = (cse_operations st)[c := with_locations ?c ?ls, k := ?m]" "cse_didChangeIR st'"
        using assms(1) dst hash it Some d1(1) d by (auto simp: CSEOperation_def Let_def with_locations_def move_of_def)
      have "cse_candidate rt t ((cse_operations st)[c := with_locations ?c ?ls] ! k)"
        using True assms(2) by (cases "c = k") simp_all
      moreover have "\<not> cse_candidate rt t ?m" using d1(2) d by (intro cse_candidate_move) simp
      ultimately have "cse_candidates rt t (cse_operations st') < cse_candidates rt t (cse_operations st)"
        unfolding cse_candidates_def st'
        using length_filter_update_less[of k "(cse_operations st)[c := with_locations ?c ?ls]" "cse_candidate rt t" ?m] assms(2)
          length_filter_update_same[of "cse_candidate rt t" "with_locations ?c ?ls" "cse_operations st" c] by simp
      with st' show ?thesis by simp
    qed
  qed
qed

lemma CSEBlock_progress:
  assumes "CSEBlock h rt t block = Some (block', c)"
  shows "if c then cse_candidates rt t block' < cse_candidates rt t block else block' = block"
proof -
  let ?st = "\<lparr>cse_operations = block, cse_operationMap = [], cse_didChangeIR = False\<rparr>"
  have "length (cse_operations st) = length block \<and>
      (if cse_didChangeIR st then cse_candidates rt t (cse_operations st) < cse_candidates rt t block else cse_operations st = block)"
    if "fold_opt (CSEOperation h rt t) [0..<k] ?st = Some st" "k \<le> length block" for k st
    using that
  proof (induction k arbitrary: st)
    case (Suc k)
    from Suc.prems(1) obtain st1 where st1: "fold_opt (CSEOperation h rt t) [0..<k] ?st = Some st1" "CSEOperation h rt t k st1 = Some st"
      by (auto split: bind_splits)
    have len: "k < length (cse_operations st1)" using Suc.IH[OF st1(1)] Suc.prems(2) by simp
    show ?case using Suc.IH[OF st1(1)] CSEOperation_progress[OF st1(2) len] Suc.prems(2) by (auto split: if_splits)
  qed simp
  then show ?thesis using assms by (fastforce simp: CSEBlock_def split: bind_splits)
qed

lemma CSEBlocks_progress:
  assumes "map_opt (CSEBlock h rt t) blocks = Some rs"
  shows "if list_ex snd rs then sum_list (map (cse_candidates rt t) (map fst rs)) < sum_list (map (cse_candidates rt t) blocks)
    else map fst rs = blocks"
  using assms
proof (induction blocks arbitrary: rs)
  case (Cons block blocks)
  then obtain b c rs' where rs: "CSEBlock h rt t block = Some (b, c)" "map_opt (CSEBlock h rt t) blocks = Some rs'" "rs = (b, c) # rs'"
    by (auto split: bind_splits)
  show ?case using CSEBlock_progress[OF rs(1)] Cons.IH[OF rs(2)] rs(3) by (auto split: if_splits)
qed simp

subsection \<open>Properties\<close>

text \<open>Two additions of the same registers, the second into a register that the next blocks read; a
  conditional jump on register 0 starts the second block or the third.\<close>

definition cse_program :: FlowProgram where
  "cse_program = \<lparr>fp_registerTable = replicate 5 \<lparr>rd_type = RT_Local, rd_width = 8\<rparr>,
     fp_Global = (\<lambda>_. \<lparr>gd_hasInitialValue = False, gd_isConstant = False, gd_initialValue = 0\<rparr>)\<rparr>"

definition flow_operation :: "Operation \<Rightarrow> FlowOperation" where
  "flow_operation op = \<lparr>fo_op = op, fo_successor = None, fo_enqueue = no_enqueue, fo_renamingTable = [], fo_reverseRenamingTable = []\<rparr>"

definition cse_sum :: "FileAndLineNumber set \<Rightarrow> nat \<Rightarrow> FlowOperation" where
  "cse_sum ls r = flow_operation (operation (BinaryOp Add) ls [(SrcRegister 0, False), (SrcRegister 1, False)] (DstRegister r))"

definition cse_enqueue :: "bool \<Rightarrow> nat \<Rightarrow> FlowOperation" where
  "cse_enqueue executionValue s = \<lparr>fo_op = (new_operation Enqueue {} [])\<lparr>op_src := [SrcRegister 0]\<rparr>, fo_successor = Some s,
     fo_enqueue = \<lparr>enq_isPredicated = True, enq_predicateExecutionValue = executionValue\<rparr>,
     fo_renamingTable = [(4, 3)], fo_reverseRenamingTable = [(3, 4)]\<rparr>"

definition cse_example :: "FlowBlock list" where
  "cse_example = [[cse_sum {} 2, cse_sum {} 3, cse_enqueue True 1, cse_enqueue False 2], [], []]"

lemma cse_example_ok: "list_all (cse_block_ok cse_program False) cse_example"
proof -
  have "renamed_block cse_program [cse_sum {} 2, cse_sum {} 3, cse_enqueue True 1, cse_enqueue False 2]"
    unfolding renamed_block_def
    by (auto simp: cse_sum_def cse_enqueue_def flow_operation_def new_operation_def nth_Cons split: nat.splits)
  moreover have "renamed_block cse_program []" by (simp add: renamed_block_def)
  ultimately show ?thesis
    by (simp add: cse_example_def cse_block_ok_def flow_op_ok_def cse_sum_def cse_enqueue_def flow_operation_def source_ok_def
        cse_program_def is_local_def IsLocalRegisterType_def new_operation_def cse_lut_ok_def no_strings_def nth_Cons)
qed

lemma cse_example_defined: "list_all (values_defined cse_program) cse_example"
proof -
  have "eval_operation (fp_registerTable cse_program) env (fo_op (cse_sum {} r)) \<noteq> None" if "flow_env cse_program env" "r < 5" for env r
    using eval_emitted_binary[of "fp_registerTable cse_program" env "SrcRegister 0" "SrcRegister 1" r Add False False] that
    by (simp add: cse_sum_def flow_operation_def flow_env_def binop_pre_def) (simp add: cse_program_def)
  then show ?thesis
    by (simp add: cse_example_def values_defined_def cse_enqueue_def new_operation_def DoesOpcodeSupportCommonSubexpressionElimination_def)
qed

lemma cse_example_reach:
  assumes "v \<in> {0, 1}"
  shows "reach cse_program 0 cse_example (if v = 1 then 1 else 2) (\<lambda>r. if r = 1 then 0 else v)"
proof -
  let ?e = "\<lambda>r :: nat. if r = 1 then 0 else v"
  have env: "flow_env cse_program ?e"
    using assms by (auto simp: flow_env_def env_ok_def cse_program_def ConstantGlobal_def)
  have "flow_step cse_program (cse_sum {} r) ?e ?e" if "r \<in> {2, 3}" for r
    using eval_emitted_binary[of "fp_registerTable cse_program" ?e "SrcRegister 0" "SrcRegister 1" r Add False False] that env assms
    by (simp add: flow_step_def cse_sum_def flow_operation_def flow_env_def binop_pre_def)
      (auto simp: cse_program_def reg_width_def binop_spec_def)
  moreover have "flow_step cse_program (cse_enqueue b s) ?e ?e" for b s
    using env by (simp add: flow_step_def cse_enqueue_def new_operation_def)
  ultimately have "after cse_program (cse_example ! 0) 2 ?e ?e" "after cse_program (cse_example ! 0) 3 ?e ?e"
    by (auto simp: cse_example_def numeral_2_eq_2 numeral_3_eq_3)
  moreover have "enabled (cse_enqueue b s) ?e = ((v = 1) = b)" for b s
    using assms by (auto simp: enabled_def cse_enqueue_def)
  moreover have "passes cse_program (cse_enqueue b s) ?e ?e" for b s
    using env by (simp add: passes_def cse_enqueue_def OptionallyMapIndex_def)
  ultimately show ?thesis
    using reach_enqueue[OF reach_start[OF env], of 0 cse_example 2 ?e 1] reach_enqueue[OF reach_start[OF env], of 0 cse_example 3 ?e 2]
    by (simp add: cse_example_def cse_enqueue_def)
qed

definition cse_hash :: HashFunctions where
  "cse_hash = \<lparr>hash_mp = (\<lambda>seed v. 31 * seed + nat v), hash_size = (\<lambda>seed v. 31 * seed + v)\<rparr>"

definition cse_result :: "FlowBlock list" where
  "cse_result = [[cse_sum {} 2, flow_operation (operation Mov {} [(SrcRegister 2, False)] (DstRegister 3)),
     cse_enqueue True 1, cse_enqueue False 2], [], []]"

lemma cse_example_run:
  "CommonSubexpressionElimination cse_hash (fp_registerTable cse_program) False cse_example = Some (cse_result, True)"
  by code_simp

text \<open>C36: Common subexpression elimination returns, and keeps what a function does. For blocks
  with renamed registers, whose operations are well formed and whose lookup tables read no
  (register, bit) in two columns, and whatever the hash functions, no assertion fails, every block
  has as many operations as before, and the rewritten function starts a block only with register
  values with which the original may start it and reaches, after each operation of the block, only
  register values the original may reach there; the block a conditional jump starts on a true
  predicate and the one it starts on a false predicate each have register values of their own. When every operation the pass may replace has a
  value the two functions reach the same.\<close>

theorem CommonSubexpressionElimination_refines:
  assumes "list_all (cse_block_ok p transformLuts) blocks"
  shows "\<exists>blocks' c. CommonSubexpressionElimination h (fp_registerTable p) transformLuts blocks = Some (blocks', c) \<and>
    map length blocks' = map length blocks \<and>
    (\<forall>b env. reach p start blocks' b env \<longrightarrow> reach p start blocks b env) \<and>
    (\<forall>b env k e. reach p start blocks' b env \<longrightarrow> b < length blocks \<longrightarrow> k \<le> length (blocks ! b) \<longrightarrow>
       after p (blocks' ! b) k env e \<longrightarrow> after p (blocks ! b) k env e) \<and>
    (list_all (values_defined p) blocks \<longrightarrow>
       (\<forall>b env. reach p start blocks b env \<longrightarrow> reach p start blocks' b env) \<and>
       (\<forall>b env k e. reach p start blocks b env \<longrightarrow> b < length blocks \<longrightarrow> k \<le> length (blocks ! b) \<longrightarrow>
          after p (blocks ! b) k env e \<longrightarrow> after p (blocks' ! b) k env e))"
proof -
  obtain blocks' c where run: "CommonSubexpressionElimination h (fp_registerTable p) transformLuts blocks = Some (blocks', c)"
    and cse: "cse_blocks p blocks blocks'"
    using CommonSubexpressionElimination_cse_blocks[OF assms] by blast
  have "values_defined p (blocks ! b)" if "list_all (values_defined p) blocks" "b < length blocks" for b
    using that by (simp add: list_all_length)
  with run cse show ?thesis
    using cse_blocks_reach[OF cse] cse_blocks_reach_defined[OF cse] cse_blocks_after[OF cse] reach_flow_env
    by (intro exI[of _ blocks'] exI[of _ c]) (auto simp: cse_blocks_def)
qed

theorem CommonSubexpressionElimination_refines_witness:
  "CommonSubexpressionElimination cse_hash (fp_registerTable cse_program) False cse_example = Some (cse_result, True) \<and>
   (\<forall>b env. reach cse_program 0 cse_result b env \<longleftrightarrow> reach cse_program 0 cse_example b env) \<and>
   reach cse_program 0 cse_result 1 (\<lambda>r. if r = 1 then 0 else 1) \<and> reach cse_program 0 cse_result 2 (\<lambda>_. 0)"
proof -
  have "\<forall>b env. reach cse_program 0 cse_result b env \<longleftrightarrow> reach cse_program 0 cse_example b env"
    using CommonSubexpressionElimination_refines[OF cse_example_ok, of cse_hash 0] cse_example_defined cse_example_run by auto
  then show ?thesis using cse_example_run cse_example_reach[of 1] cse_example_reach[of 0] by simp
qed

text \<open>C37: Every run of common subexpression elimination that reports a change leaves fewer
  operations that it compares with others, since the moves it writes are between registers of the
  same width, and one that reports no change has left every operation as it was: repeating the
  pass ends.\<close>

theorem CommonSubexpressionElimination_progress:
  assumes "CommonSubexpressionElimination h rt transformLuts blocks = Some (blocks', c)"
  shows "if c then sum_list (map (cse_candidates rt transformLuts) blocks') < sum_list (map (cse_candidates rt transformLuts) blocks)
    else blocks' = blocks"
proof -
  obtain rs where "map_opt (CSEBlock h rt transformLuts) blocks = Some rs" "blocks' = map fst rs" "c = list_ex snd rs"
    using assms by (auto simp: CommonSubexpressionElimination_def split: bind_splits)
  then show ?thesis using CSEBlocks_progress by blast
qed

theorem CommonSubexpressionElimination_progress_witness:
  "sum_list (map (cse_candidates (fp_registerTable cse_program) False) cse_result) <
   sum_list (map (cse_candidates (fp_registerTable cse_program) False) cse_example)"
  using CommonSubexpressionElimination_progress[OF cse_example_run] by simp

text \<open>C38: Lookup tables that \<^verbatim>\<open>LutOperationsProduceSameResult\<close> accepts have the same value for all
  register values, when neither reads a (register, bit) in two columns; no assertion of the
  comparison fails.\<close>

theorem LutOperationsProduceSameResult_correct:
  assumes "cse_lut_ok op1" "cse_lut_ok op2" "op_opcode op1 = Lut lut1" "op_opcode op2 = Lut lut2"
  shows "LutOperationsProduceSameResult op1 op2 \<noteq> None \<and>
    (LutOperationsProduceSameResult op1 op2 = Some True \<longrightarrow>
       (\<forall>env. Lut_Evaluate lut1 (src_values env op1) = Lut_Evaluate lut2 (src_values env op2)))"
  using LutOperationsProduceSameResult_sound[OF assms(1,2)] assms(3,4) by (fastforce simp: IsLut_def)

text \<open>\<open>r0 AND NOT r1\<close>, with the columns in either order, and a table of the first operand twice.\<close>

definition cse_lut :: "(nat \<times> nat) list \<Rightarrow> 64 word \<Rightarrow> nat \<Rightarrow> Operation" where
  "cse_lut columns table r = operation (Lut [\<lparr>le_sources = columns, le_table = table\<rparr>]) {}
     [(SrcRegister 0, False), (SrcRegister 1, False)] (DstRegister r)"

theorem LutOperationsProduceSameResult_correct_witness:
  "LutOperationsProduceSameResult (cse_lut [(0, 0), (1, 0)] 0b0010 2) (cse_lut [(1, 0), (0, 0)] 0b0100 3) = Some True \<and>
   Lut_Evaluate [\<lparr>le_sources = [(0, 0), (1, 0)], le_table = 0b0010\<rparr>] (src_values (\<lambda>r. 1 - int r) (cse_lut [(0, 0), (1, 0)] 0b0010 2)) =
   Lut_Evaluate [\<lparr>le_sources = [(1, 0), (0, 0)], le_table = 0b0100\<rparr>] (src_values (\<lambda>r. 1 - int r) (cse_lut [(1, 0), (0, 0)] 0b0100 3))"
proof -
  have run: "LutOperationsProduceSameResult (cse_lut [(0, 0), (1, 0)] 0b0010 2) (cse_lut [(1, 0), (0, 0)] 0b0100 3) = Some True"
    by code_simp
  have ok: "cse_lut_ok (cse_lut [(0, 0), (1, 0)] 0b0010 2)" "cse_lut_ok (cse_lut [(1, 0), (0, 0)] 0b0100 3)"
    by (simp_all add: cse_lut_ok_def cse_lut_def columns_ok_def entry_ok_def reg_columns_def IsRegisterOperand_def c_maxLutSources_def GetAccessedRegister_def
        operation_def PushOperands_def PushOperand_def new_operation_def)
  show ?thesis
    using LutOperationsProduceSameResult_correct[OF ok] run by (simp add: cse_lut_def)
qed

text \<open>C39: The comparison checks only that the columns of the second table read different bits.
  When a later table reads a bit in two columns it can be taken for an earlier one with another
  value: \<open>r0 OR r0\<close>, of an operation with sources \<open>r0\<close> and \<open>r1\<close>, becomes a move of \<open>r0 OR r1\<close>,
  whatever the hash functions.\<close>

theorem CommonSubexpressionElimination_repeated_column:
  "CommonSubexpressionElimination h (fp_registerTable cse_program) True
     [[flow_operation (cse_lut [(0, 0), (1, 0)] 0b1110 2), flow_operation (cse_lut [(0, 0), (0, 0)] 0b1110 3)]] =
   Some ([[flow_operation (cse_lut [(0, 0), (1, 0)] 0b1110 2),
           flow_operation (operation Mov {} [(SrcRegister 2, False)] (DstRegister 3))]], True) \<and>
   eval_operation (fp_registerTable cse_program) int (cse_lut [(0, 0), (1, 0)] 0b1110 2) = Some 1 \<and>
   eval_operation (fp_registerTable cse_program) int (cse_lut [(0, 0), (0, 0)] 0b1110 3) = Some 0"
proof -
  let ?or = "cse_lut [(0, 0), (1, 0)] 0b1110 2" and ?dup = "cse_lut [(0, 0), (0, 0)] 0b1110 3"
  have same: "OperationsProduceSameResult (fp_registerTable cse_program) ?dup ?or = Some True" by code_simp
  have sup: "doesOpSupportCSE (fp_registerTable cse_program) True ?or" "doesOpSupportCSE (fp_registerTable cse_program) True ?dup"
    by code_simp+
  obtain hash where hash: "OperationHash h ?or = Some hash" "OperationHash h ?dup = Some hash"
  proof -
    have "OperationHash h ?dup = OperationHash h ?or" by (simp add: OperationHash_def cse_lut_def opcode_index_def)
    moreover have "no_strings ?or" by (simp add: cse_lut_def no_strings_def)
    ultimately show ?thesis using OperationHash_total[of ?or h] that by auto
  qed
  have dst: "op_dst ?or = [DstRegister 2]" "op_dst ?dup = [DstRegister 3]" "op_locations ?or = {}" "op_locations ?dup = {}"
    by (simp_all add: cse_lut_def)
  have "CommonSubexpressionElimination h (fp_registerTable cse_program) True [[flow_operation ?or, flow_operation ?dup]] =
      Some ([[flow_operation ?or, flow_operation (operation Mov {} [(SrcRegister 2, False)] (DstRegister 3))]], True)"
    using same sup hash dst
    by (simp add: CommonSubexpressionElimination_def CSEBlock_def CSEOperation_def flow_operation_def LookupWithDefault_def)
  moreover have "eval_operation (fp_registerTable cse_program) int ?or = Some 1" "eval_operation (fp_registerTable cse_program) int ?dup = Some 0"
    by code_simp+
  ultimately show ?thesis by blast
qed

subsection \<open>Cleaned-up lookup tables\<close>

text \<open>At the fixed point of the clean-up every pass leaves the operation as it is.\<close>

lemma FixupIteration_quiet:
  assumes "FixupIteration op = Some (op, False)"
  shows "FixupLutOp op = Some (op, False)" "RemoveUnusedLutSourceOperands op = Some (op, False)"
    "RemoveDuplicateLutSourceRegisters op = Some (op, False)" "RemoveDuplicateLutColumns op = Some (op, False)"
proof -
  from assms obtain op1 op2 op3 op4 op5 where "FixupLutOp op = Some (op1, False)" "RemoveUnusedLutSourceRegisters op1 = Some (op2, False)"
    "RemoveUnusedLutSourceOperands op2 = Some (op3, False)" "RemoveDuplicateLutSourceRegisters op3 = Some (op4, False)"
    "RemoveDuplicateLutColumns op4 = Some (op5, False)"
    by (auto simp: FixupIteration_def split: bind_splits) blast
  moreover from this have "op1 = op" "op2 = op1" "op3 = op2" "op4 = op3" "op5 = op4"
    using fixup.pass_same unused_regs.pass_same unused_ops.pass_same dup_regs.pass_same dup_columns.pass_same by blast+
  ultimately show "FixupLutOp op = Some (op, False)" "RemoveUnusedLutSourceOperands op = Some (op, False)"
    "RemoveDuplicateLutSourceRegisters op = Some (op, False)" "RemoveDuplicateLutColumns op = Some (op, False)" by simp_all
qed

lemma all_operands_used:
  assumes "RemoveUnusedLutSourceOperands op = Some (op, False)" "op_opcode op = Lut es" "lut_ok (length (op_src op)) es" "i < length (op_src op)"
  shows "\<exists>e \<in> set es. \<exists>b. (i, b) \<in> set (le_sources e)"
proof -
  let ?used = "usedSourceIndices es"
  have "length ?used = length (op_src op)"
    using assms(1,2) by (auto simp: RemoveUnusedLutSourceOperands_def lut_entries_def Let_def bind_assert_if split: bind_splits if_splits)
  moreover have "distinct ?used" using usedSourceIndices_props(1)[of es] strict_sorted_iff by blast
  moreover have "set ?used \<subseteq> {..<length (op_src op)}"
    using assms(3) unfolding usedSourceIndices_props(2) by (fastforce simp: lut_ok_def entry_ok_def)
  ultimately have "set ?used = {..<length (op_src op)}" by (intro card_subset_eq) (simp_all add: distinct_card)
  then have "i \<in> set ?used" using assms(4) by simp
  then obtain e x where "e \<in> set es" "x \<in> set (le_sources e)" "i = fst x" unfolding usedSourceIndices_props(2) by blast
  then show ?thesis by (intro bexI[of _ e] exI[of _ "snd x"]) simp_all
qed

abbreviation operand_register :: "SourceOperand \<Rightarrow> nat" where
  "operand_register s \<equiv> the (GetAccessedRegister s)"

lemma operand_register_SrcRegister [simp]: "operand_register (SrcRegister r) = r"
  by (simp add: GetAccessedRegister_def)

lemma dom_map_insert: "dom (map_of (map_insert k v m)) = insert k (dom (map_of m))"
  by (auto split: if_splits)

lemma DuplicateStep_distinct:
  assumes "fold_opt (DuplicateStep op) [0..<s] \<lparr>ds_regToOperandIndex = [], ds_operandIndexMap = [],
      ds_newSrcOperands = [], ds_duplicateFound = False\<rparr> = Some st" "s \<le> length (op_src op)"
  shows "dom (map_of (ds_regToOperandIndex st)) = operand_register ` set (take s (op_src op)) \<and>
    (\<not> ds_duplicateFound st \<longrightarrow> distinct (map operand_register (take s (op_src op))))"
  using assms
proof (induction s arbitrary: st)
  case (Suc s)
  from Suc.prems(1) obtain st1 where st1: "fold_opt (DuplicateStep op) [0..<s] \<lparr>ds_regToOperandIndex = [], ds_operandIndexMap = [],
      ds_newSrcOperands = [], ds_duplicateFound = False\<rparr> = Some st1" "DuplicateStep op s st1 = Some st"
    by (auto split: bind_splits)
  have IH: "dom (map_of (ds_regToOperandIndex st1)) = operand_register ` set (take s (op_src op))"
      "\<not> ds_duplicateFound st1 \<longrightarrow> distinct (map operand_register (take s (op_src op)))"
    using Suc.IH[OF st1(1)] Suc.prems(2) by simp_all
  obtain r where r: "op_src op ! s = SrcRegister r"
    using st1(2) by (cases "op_src op ! s") (auto simp: DuplicateStep_def GetAccessedRegister_def)
  have take: "take (Suc s) (op_src op) = take s (op_src op) @ [SrcRegister r]"
    using Suc.prems(2) r by (simp add: take_Suc_conv_app_nth)
  show ?case
  proof (cases "map_of (ds_regToOperandIndex st1) r")
    case None
    then have "ds_regToOperandIndex st = map_insert r (length (ds_newSrcOperands st1)) (ds_regToOperandIndex st1)"
        "ds_duplicateFound st = ds_duplicateFound st1"
      using st1(2) r by (auto simp: DuplicateStep_def GetAccessedRegister_def SafeInsert_def Let_def split: bind_splits option.splits)
    moreover have "r \<notin> operand_register ` set (take s (op_src op))" using None IH(1) by blast
    moreover have "dom (map_of (ds_regToOperandIndex st)) = insert r (dom (map_of (ds_regToOperandIndex st1)))"
      unfolding calculation(1) by (rule dom_map_insert)
    ultimately show ?thesis using IH by (simp add: take del: map_of_map_insert)
  next
    case (Some j)
    then have "ds_regToOperandIndex st = ds_regToOperandIndex st1" "ds_duplicateFound st"
      using st1(2) r by (auto simp: DuplicateStep_def GetAccessedRegister_def SafeInsert_def Let_def split: bind_splits option.splits)
    moreover have "r \<in> operand_register ` set (take s (op_src op))" using Some IH(1) by blast
    ultimately show ?thesis using IH by (simp add: take insert_absorb)
  qed
qed simp

lemma distinct_operands:
  assumes "RemoveDuplicateLutSourceRegisters op = Some (op, False)"
  shows "distinct (map operand_register (op_src op))"
proof -
  obtain st where "fold_opt (DuplicateStep op) [0..<length (op_src op)] \<lparr>ds_regToOperandIndex = [], ds_operandIndexMap = [],
      ds_newSrcOperands = [], ds_duplicateFound = False\<rparr> = Some st" "\<not> ds_duplicateFound st"
    using assms by (auto simp: RemoveDuplicateLutSourceRegisters_def split: bind_splits if_splits)
  then show ?thesis using DuplicateStep_distinct[of op "length (op_src op)" st] by simp
qed

lemma distinct_columns:
  assumes "DeduplicateEntry e = Some (e', False)"
  shows "distinct (le_sources e)"
proof -
  obtain m where m: "fold_opt (ColumnStep e) [0..<le_numSources e] [] = Some m" "columns_inv e (le_numSources e) m"
    using ColumnStep_fold[of "le_numSources e" e] by blast
  have "le_numSources e \<le> length m" using assms m(1) by (auto simp: DeduplicateEntry_def bind_assert_if split: bind_splits if_splits)
  moreover have "card (set (le_sources e)) = length m"
  proof -
    have "distinct (map fst m)" using m(2) by (simp add: columns_inv_def smap_ok_distinct)
    then have "card (fst ` set m) = length m" using distinct_card by fastforce
    then show ?thesis using m(2) dom_map_of_fst[of m] by (simp add: columns_inv_def)
  qed
  ultimately show ?thesis using card_length[of "le_sources e"] by (intro card_distinct) simp
qed

lemma fixed_point_columns_ok:
  assumes "lut_op_ok rt op" "FixupIteration op = Some (op, False)"
  shows "cse_op_ok op"
proof -
  obtain es where es: "op_opcode op = Lut es" "lut_ok (length (op_src op)) es" and op: "op_signExtendSourceMask op = 0" "srcs_ok rt op"
    using assms(1) by (rule lut_op_okE)
  note quiet = FixupIteration_quiet[OF assms(2)]
  have "no_literal_columns op" using FixupLutOp_total[OF assms(1)] quiet(1) by auto
  then have lits: "\<not> IsLiteralOperand (op_src op ! i)" if "e \<in> set es" "(i, b) \<in> set (le_sources e)" for e i b
    using that es(1) by (fastforce simp: no_literal_columns_def)
  have regs: "IsRegisterOperand (op_src op ! i)" if "i < length (op_src op)" for i
  proof -
    have "\<not> IsLiteralOperand (op_src op ! i)" using all_operands_used[OF quiet(2) es that] lits by blast
    moreover have "operand_ok rt (op_src op ! i)" using op(2) that by (simp add: srcs_ok_def)
    ultimately show ?thesis by (cases "op_src op ! i") (simp_all add: IsRegisterOperand_def IsLiteralOperand_def)
  qed
  have "distinct (reg_columns op e)" if e: "e \<in> set es" for e
  proof -
    obtain rs where rs: "map_opt DeduplicateEntry es = Some rs" "\<not> list_ex snd rs"
      using quiet(4) es(1) by (auto simp: RemoveDuplicateLutColumns_def split: bind_splits elim!: map_entriesE)
    obtain d where d: "d < length es" "es ! d = e" using e by (auto simp: in_set_conv_nth)
    have "\<not> snd (rs ! d)" using rs d(1) map_opt_length[OF rs(1)] by (simp add: list_ex_length)
    then have "DeduplicateEntry e = Some (fst (rs ! d), False)" using map_opt_nth[OF rs(1) d(1)] d(2) by (cases "rs ! d") simp
    then have "distinct (le_sources e)" by (rule distinct_columns)
    moreover have "inj_on (\<lambda>(i, b). (operand_register (op_src op ! i), b)) (set (le_sources e))"
    proof (intro inj_onI)
      fix x y assume xy: "x \<in> set (le_sources e)" "y \<in> set (le_sources e)"
        "(case x of (i, b) \<Rightarrow> (operand_register (op_src op ! i), b)) = (case y of (i, b) \<Rightarrow> (operand_register (op_src op ! i), b))"
      obtain i b j c where p: "x = (i, b)" "y = (j, c)" by (cases x, cases y)
      have "i < length (op_src op)" "j < length (op_src op)" using xy(1,2) p es(2) e by (auto simp: lut_ok_def entry_ok_def)
      then show "x = y" using xy(3) p distinct_operands[OF quiet(3)] by (simp add: distinct_conv_nth) blast
    qed
    ultimately show ?thesis by (simp add: reg_columns_def distinct_map)
  qed
  moreover have "list_all IsRegisterOperand (op_src op)" using regs by (simp add: list_all_length)
  ultimately have "cse_lut_ok op" using es op(1) by (simp add: cse_lut_ok_def columns_ok_def lut_ok_def Ball_set[symmetric])
  moreover have "no_strings op" unfolding no_strings_def list_all_length
  proof (intro allI impI)
    fix i assume "i < length (op_src op)"
    from regs[OF this] show "case op_src op ! i of SrcStringLiteral _ \<Rightarrow> False | _ \<Rightarrow> True"
      by (cases "op_src op ! i") (simp_all add: IsRegisterOperand_def)
  qed
  ultimately show ?thesis using es(1) by (simp add: cse_op_ok_def DoesOpcodeSupportCommonSubexpressionElimination_def)
qed

text \<open>The clean-up leaves a table the comparison may see, or a move of a literal.\<close>

lemma FixupLutLoop_moves:
  assumes "FixupLutLoop op c = Some (op', c')" "\<not> IsLut op'"
  shows "op_opcode op' = Mov \<and> no_strings op'"
  using assms
proof (induction op c rule: FixupLutLoop.induct)
  case (1 op c)
  obtain op1 m where it: "FixupIteration op = Some (op1, m)"
    and res: "if \<not> m \<or> \<not> IsLut op1 then op' = op1 else FixupLutLoop op1 (c \<or> m) = Some (op', c')"
    using "1.prems"(1) by (subst (asm) FixupLutLoop.simps) (auto split: option.splits if_splits)
  show ?case
  proof (cases "\<not> m \<or> \<not> IsLut op1")
    case True
    then have "op' = op1" using res by simp
    moreover obtain op5 c5 where "DetectConstantLut op5 = Some (op1, c5)"
      using it by (auto simp: FixupIteration_def split: bind_splits) blast
    ultimately have "DetectConstantLut op5 = Some (op', c5)" by simp
    then show ?thesis
      by (cases rule: DetectConstantLut_cases) (use "1.prems"(2) in \<open>auto simp: new_operation_def no_strings_def\<close>)
  next
    case False
    then show ?thesis using "1.IH"[OF it refl False] res "1.prems"(2) by simp
  qed
qed

lemma FixupLutLoop_ok:
  assumes "lut_op_ok rt op" "FixupLutLoop op c = Some (op', c')" "IsLut op'"
  shows "lut_op_ok rt op'"
  using assms
proof (induction op c rule: FixupLutLoop.induct)
  case (1 op c)
  obtain op1 m where it: "FixupIteration op = Some (op1, m)"
    and res: "if \<not> m \<or> \<not> IsLut op1 then op' = op1 else FixupLutLoop op1 (c \<or> m) = Some (op', c')"
    using "1.prems"(2) by (subst (asm) FixupLutLoop.simps) (auto split: option.splits if_splits)
  note ok = iteration.pass_ok[OF "1.prems"(1) it]
  show ?case
  proof (cases "\<not> m \<or> \<not> IsLut op1")
    case True
    then show ?thesis using res ok "1.prems"(3) by simp
  next
    case False
    then show ?thesis using "1.IH"[OF it refl False] ok res "1.prems"(3) by simp
  qed
qed

lemma FixupLutOps_cse_op_ok:
  assumes "lut_op_ok rt op" "FixupLutOps_op op = Some (op', c)"
  shows "cse_op_ok op'" "IsLut op' \<Longrightarrow> srcs_ok rt op'" "length (op_dst op') = 1"
proof -
  have "IsLut op" using assms(1) by (auto simp: lut_op_ok_def IsLut_def split: Opcode.splits)
  then have loop: "FixupLutLoop op False = Some (op', c)" using assms(2) by (simp add: FixupLutOps_op_def)
  show "cse_op_ok op'"
  proof (cases "IsLut op'")
    case True
    then show ?thesis using fixed_point_columns_ok[OF FixupLutLoop_ok[OF assms(1) loop] FixupLutLoop_converged[OF loop]] by simp
  next
    case False
    then show ?thesis using FixupLutLoop_moves[OF loop False]
      by (simp add: cse_op_ok_def cse_lut_ok_def DoesOpcodeSupportCommonSubexpressionElimination_def)
  qed
  show "IsLut op' \<Longrightarrow> srcs_ok rt op'" using FixupLutLoop_ok[OF assms(1) loop] by (simp add: lut_op_ok_def)
  have "eval_operation rt env op' = eval_operation rt env op" for env using FixupLutLoop_value[OF assms(1) loop] .
  moreover have "eval_operation rt env op \<noteq> None" for env
    using assms(1) eval_lut[OF assms(1)] by (auto simp: lut_op_ok_def split: Opcode.splits)
  moreover have none: "eval_operation rt env op' = None" if "length (op_dst op') \<noteq> 1" for env
    using that by (simp add: eval_operation_in_def)
  ultimately show "length (op_dst op') = 1" using none by metis
qed

text \<open>C40: The clean-up of lookup tables establishes what their comparison relies on. When two
  well-formed lookup tables have been cleaned up, each column of a table reads a (register, bit)
  of its own and no operand is a literal, unless the table has become a move of a constant; the
  comparison of the two then ends without a failed assertion, and if it accepts them the original
  tables compute the same for all register values.\<close>

theorem FixupLutOps_then_compare:
  assumes "lut_op_ok rt op1" "FixupLutOps_op op1 = Some (op1', c1)"
    and "lut_op_ok rt op2" "FixupLutOps_op op2 = Some (op2', c2)"
  shows "\<exists>b. OperationsProduceSameResult rt op1' op2' = Some b \<and>
    (b \<longrightarrow> (\<forall>env. eval_operation rt env op1 = eval_operation rt env op2))"
proof -
  have loop: "FixupLutLoop op1 False = Some (op1', c1)" "FixupLutLoop op2 False = Some (op2', c2)"
    using assms by (auto simp: FixupLutOps_op_def lut_op_ok_def IsLut_def split: Opcode.splits)
  note ok1 = FixupLutOps_cse_op_ok[OF assms(1,2)] and ok2 = FixupLutOps_cse_op_ok[OF assms(3,4)]
  obtain b where b: "OperationsProduceSameResult rt op1' op2' = Some b" "b \<longrightarrow> IsLut op1' = IsLut op2'"
    "b \<longrightarrow> (\<forall>env. srcs_ok rt op1' \<longrightarrow> srcs_ok rt op2' \<longrightarrow> eval_operation rt env op1' = eval_operation rt env op2')"
    "b \<longrightarrow> \<not> IsLut op1' \<longrightarrow> (\<forall>env. eval_operation rt env op1' = eval_operation rt env op2')"
    using OperationsProduceSameResult_correct[OF ok1(1) ok2(1), of rt] ok1(3) by blast
  then have "b \<longrightarrow> (\<forall>env. eval_operation rt env op1' = eval_operation rt env op2')" using ok1(2) ok2(2) by blast
  then show ?thesis using b(1) FixupLutLoop_value[OF assms(1) loop(1)] FixupLutLoop_value[OF assms(3) loop(2)] by simp
qed

text \<open>\<open>r0 OR r0 OR r1\<close> and \<open>r1 OR r0\<close>.\<close>

theorem FixupLutOps_then_compare_witness:
  "\<forall>env. eval_operation (fp_registerTable cse_program) env (cse_lut [(0, 0), (0, 0), (1, 0)] 0b11111110 2) =
     eval_operation (fp_registerTable cse_program) env (cse_lut [(1, 0), (0, 0)] 0b1110 3)"
proof -
  let ?rt = "fp_registerTable cse_program" and ?op1 = "cse_lut [(0, 0), (0, 0), (1, 0)] 0b11111110 2" and ?op2 = "cse_lut [(1, 0), (0, 0)] 0b1110 3"
  have run: "OperationsProduceSameResult ?rt (fst (the (FixupLutOps_op ?op1))) (fst (the (FixupLutOps_op ?op2))) = Some True"
    by code_simp
  have ok: "lut_op_ok ?rt ?op1" "lut_op_ok ?rt ?op2"
    by (simp_all add: lut_op_ok_def cse_lut_def cse_program_def lut_ok_def entry_ok_def srcs_ok_def c_maxLutSources_def
        operation_def PushOperands_def PushOperand_def new_operation_def)
  have "FixupLutOps_op ?op1 \<noteq> None" "FixupLutOps_op ?op2 \<noteq> None" by code_simp+
  then obtain op1' c1 op2' c2 where fixed: "FixupLutOps_op ?op1 = Some (op1', c1)" "FixupLutOps_op ?op2 = Some (op2', c2)" by auto
  show ?thesis using FixupLutOps_then_compare[OF ok(1) fixed(1) ok(2) fixed(2)] run fixed by auto
qed

end
