(* ===== verification/Spec2Isabelle.thy ===== *)
theory Spec2Isabelle
  imports Lut_Fixup Sparse_Search Decompose_Wide_Ops Constant_Propagation Common_Subexpressions
begin

text \<open>
  \<^bold>\<open>The Kanagawa compiler.\<close>

  Kanagawa compiles a C-like parallel language to synchronous hardware. A Haskell front end
  parses and checks the program; the core under \<^verbatim>\<open>src/compiler/cpp\<close> turns the tree into an
  intermediate representation (functions of basic blocks of \<^verbatim>\<open>Operation\<close>s over a register
  table, \<^verbatim>\<open>ir.h\<close>), optimises it (\<^verbatim>\<open>optimize.cpp\<close>, \<^verbatim>\<open>optimize_lut.cpp\<close>), schedules it
  into pipelines and writes Verilog or CIRCT. This development models the parts of the core in
  which a wrong value, a lost task or a loop without end would be silent: what an operation
  computes, the rewrites of operations, the packed parameter vectors and the search that chooses
  schedules, and the thread pool both searches and optimisations run on.

  \<^bold>\<open>Theories, bottom up.\<close>

  \<^item> \<^verbatim>\<open>Kanagawa_Prelude\<close>: the exception discipline (\<^verbatim>\<open>None\<close> is a throw, \<^verbatim>\<open>assert_that\<close> the
    throwing \<^verbatim>\<open>assert\<close> of \<^verbatim>\<open>ship_assert.h\<close>), loops that may throw with their rules for
    invariants and for total correctness, numbers assembled bit by bit, \<^verbatim>\<open>std::map\<close> as a sorted
    association list, and the container helpers of \<^verbatim>\<open>pch.h\<close>.
  \<^item> \<^verbatim>\<open>Literals\<close>: \<^verbatim>\<open>Literal\<close>, \<^verbatim>\<open>mp_int\<close> helpers, \<^verbatim>\<open>Widen\<close>, \<^verbatim>\<open>Truncate\<close>, \<^verbatim>\<open>Resize\<close>,
    \<^verbatim>\<open>ImplementUnaryOp\<close> and \<^verbatim>\<open>ImplementBinaryOp\<close> (\<^verbatim>\<open>parse_tree.cpp\<close>): every operator is
    integer arithmetic on the denoted numbers, reduced to the destination width; the exception
    (equality of operands of mixed signedness) is a theorem of its own, and so is which evaluations
    fail. The assertions that a bit index fits 32 bits take their predicate as an argument of the
    definitions: \<^verbatim>\<open>mp_index\<close> wherever the compiler evaluates, \<^verbatim>\<open>any_index\<close> in the value an
    operation has in hardware.
  \<^item> \<^verbatim>\<open>Kanagawa_IR\<close>: registers, operands, lookup tables, operations (\<^verbatim>\<open>ir.h\<close>, \<^verbatim>\<open>ir.cpp\<close>) and
    \<^verbatim>\<open>eval_operation\<close>, the value an operation writes (\<^verbatim>\<open>eval_operation_in mp_index\<close> is the value
    as far as the compiler can compute it).
  \<^item> \<^verbatim>\<open>Lower_Lut\<close>: \<^verbatim>\<open>LowerToLut\<close> and its five converters (\<^verbatim>\<open>optimize_lut.cpp\<close>): the lookup
    table computes the value of the operation it replaces.
  \<^item> \<^verbatim>\<open>Lut_Fixup\<close>: the six clean-up passes, the loop \<^verbatim>\<open>FixupLutOps\<close> and \<^verbatim>\<open>OptimizeLutOpt\<close>.
    The locale \<^verbatim>\<open>lut_pass\<close> is what one pass promises (value kept, tables well formed, measure
    not larger), \<^verbatim>\<open>lut_pass_pair\<close> composes two; every pass interprets it. The measure bounds
    the loop.
  \<^item> \<^verbatim>\<open>Basic_Blocks\<close>: execution of the operations of a block, and the locale \<^verbatim>\<open>op_pass\<close>, the
    contract of a rewrite of single operations.
  \<^item> \<^verbatim>\<open>Algebraic_Identities\<close>: \<^verbatim>\<open>AlgebraicIdentities\<close>, \<^verbatim>\<open>NarrowLiterals\<close> and \<^verbatim>\<open>GatherToMove\<close>
    (\<^verbatim>\<open>optimize.cpp\<close>), each an interpretation of \<^verbatim>\<open>op_pass\<close>: a block leaves the same registers
    after the pass. The width conditions they need are predicates of their own, and a theorem
    shows that the two passes in sequence leave them.
  \<^item> \<^verbatim>\<open>Fresh_Registers\<close>, \<^verbatim>\<open>Emitted_Code\<close>: \<^verbatim>\<open>AllocateRegister\<close> and the generators
    \<^verbatim>\<open>BinaryOp\<close>, \<^verbatim>\<open>Mux21\<close>, \<^verbatim>\<open>Concat\<close>. \<^verbatim>\<open>implements\<close> says that emitted operations stand for
    one operation under every larger register table; \<^verbatim>\<open>emits\<close> is a Hoare triple for them.
  \<^item> \<^verbatim>\<open>Decompose_Select\<close>, \<^verbatim>\<open>Reduction_Trees\<close>, \<^verbatim>\<open>Decompose_Add_Sub\<close>: the decompositions of
    comparisons, multiplexers, equality tests, additions and subtractions (\<^verbatim>\<open>optimize.cpp\<close>) and the
    reduction trees (\<^verbatim>\<open>optimize_lut.cpp\<close>): each implements the operation it replaces. Arithmetic
    on \<^verbatim>\<open>double\<close>, which chooses the width of a word, is that on the reals with a rounding function
    as parameter, under the hypothesis \<^verbatim>\<open>rounding\<close>.
  \<^item> \<^verbatim>\<open>Decompose_Wide_Ops\<close>: the pass \<^verbatim>\<open>DecomposeWideOps\<close> over the blocks of a function with their
    atomic regions. The locale \<^verbatim>\<open>op_expansion\<close> is the contract of a replacement of one operation
    by several, interpreted on the decompositions: blocks keep what they compute, and the register
    table and the operations stay well formed.
  \<^item> \<^verbatim>\<open>Constant_Folding\<close>, \<^verbatim>\<open>Constant_Propagation\<close>: \<^verbatim>\<open>SubstituteLiterals\<close> and \<^verbatim>\<open>ConstantPropagation\<close>
    (\<^verbatim>\<open>optimize.cpp\<close>) with the work list of \<^verbatim>\<open>data_flow_work_list.cpp\<close>. \<^verbatim>\<open>reach\<close> and \<^verbatim>\<open>after\<close> are
    the register values with which the blocks of a control flow graph start and go on;
    a predicated \<^verbatim>\<open>Enqueue\<close> starts its block when the truth of the predicate is its
    \<^verbatim>\<open>_predicateExecutionValue\<close>, so the two blocks of a conditional jump start with different
    values. The pass keeps both relations, its loop ends and none of its assertions fails on functions
    with renamed registers whose blocks can be reached, when the operations it evaluates have
    values. The order of the addresses of blocks, which
    decides which one the work list returns, is a parameter.
  \<^item> \<^verbatim>\<open>Common_Subexpressions\<close>: \<^verbatim>\<open>OperationHash\<close>, \<^verbatim>\<open>OperationsProduceSameResult\<close> and
    \<^verbatim>\<open>CommonSubexpressionElimination\<close> (\<^verbatim>\<open>optimize.cpp\<close>), with the hash functions of Boost as
    parameters. The runs of the rewritten function are runs of the original, repeating the pass
    ends, and the comparison of lookup tables is sound on what \<^verbatim>\<open>FixupLutOps\<close> leaves, though not
    on tables that read a bit in two columns.
  \<^item> \<^verbatim>\<open>Compressed_Vector\<close>, \<^verbatim>\<open>Branch_And_Bound\<close>, \<^verbatim>\<open>Sparse_Search\<close>: \<^verbatim>\<open>branch_and_bound.{h,cpp}\<close>.
    The packed vector refines a list of optional numbers; the work-list search returns an
    optimum of the objective function of every callback that meets \<^verbatim>\<open>bound_contract\<close>; the
    search of the decomposed interaction graph ends with a complete assignment, with
    \<^verbatim>\<open>connected_components\<close> and \<^verbatim>\<open>articulation_points\<close> of Boost as parameters under their
    documented contracts (\<^verbatim>\<open>boost_contract\<close>).
  \<^item> \<^verbatim>\<open>Thread_Pool\<close>, \<^verbatim>\<open>Map_To_List\<close>: \<^verbatim>\<open>thread_pool.{h,cpp}\<close> as a step relation, one step per
    region between two acquisitions of the lock, with spurious wake-ups. Counters and queue obey
    an invariant in every reachable state; without a call of \<^verbatim>\<open>WaitForIdle\<close> a task that throws
    ends every run in the destructor; \<^verbatim>\<open>MapToList\<close> equals the sequential loop under every
    interleaving and returns under every schedule (locale \<^verbatim>\<open>finite_tasks\<close>, a decreasing
    measure).

  \<^bold>\<open>Bounds, fuel, termination.\<close> No definition uses fuel. Loops over containers are folds; the
  clean-up loop, the searches and the decomposition of graphs are \<^verbatim>\<open>function\<close>s with a measure or
  \<^verbatim>\<open>partial_function (option)\<close> with a theorem that they return. \<^verbatim>\<open>mp_int\<close> is \<^verbatim>\<open>int\<close>; a
  \<^verbatim>\<open>size_t\<close> is \<^verbatim>\<open>nat\<close> with the wrap-around at \<open>2^64\<close> written out where a sum can reach it;
  lookup tables and sign-extension masks are 64-bit words.

  \<^bold>\<open>Not modelled.\<close> The Haskell front end, the run-time hardware and the library (other languages);
  the typed tree, the generation of operations from it, scheduling, placement and the back ends
  (their meaning is that of the generated hardware, for which the repository has no executable
  definition); the other global data-flow optimisations; reports, options and debug symbols (input and
  output).
\<close>

end
